(* ===== verification/Go_Prelude.thy ===== *)
theory Go_Prelude
  imports Main "HOL-Library.Word" "HOL-Library.Monad_Syntax" "HOL-Library.Multiset"
begin

text \<open>
  What the Go sources use of the language and its standard library: byte slices with
  bounds checks, conversions between integer widths, big-endian fields, \<open>net.IP.To4\<close> and
  \<open>sort.Search\<close>.

  A Go statement that can panic (an index or a slice out of range, an explicit
  \<open>panic\<close>) has type \<open>'a go\<close>: \<open>None\<close> is the panic, \<open>Some x\<close> the normal result.
  A Go error is a value: \<open>Inl e\<close> in a sum, see \<open>bindE\<close>.  The collection \<open>go\<close> holds the
  simplification rules that evaluate these operations when the index is in range.
\<close>

unbundle bit_operations_syntax

named_theorems go "operations on Go slices and words"

type_synonym byte = "8 word"
type_synonym u16 = "16 word"
type_synonym u32 = "32 word"
type_synonym bytes = "byte list"
type_synonym 'a go = "'a option"

section \<open>Slices\<close>

text \<open>\<open>xs[i]\<close>, \<open>xs[i] = v\<close>, \<open>xs[a:b]\<close>, \<open>xs[a:]\<close>: a panic when out of range.  The slices of
  the model have a capacity equal to their length; \<open>TCP_Header\<close> treats the one place
  where the code reads a slice up to its capacity.\<close>

definition idx :: "'a list \<Rightarrow> nat \<Rightarrow> 'a go" where
  "idx xs i = (if i < length xs then Some (xs ! i) else None)"

definition upd :: "'a list \<Rightarrow> nat \<Rightarrow> 'a \<Rightarrow> 'a list go" where
  "upd xs i v = (if i < length xs then Some (xs[i := v]) else None)"

definition slice :: "'a list \<Rightarrow> nat \<Rightarrow> nat \<Rightarrow> 'a list go" where
  "slice xs a b = (if a \<le> b \<and> b \<le> length xs then Some (take (b - a) (drop a xs)) else None)"

definition slice_from :: "'a list \<Rightarrow> nat \<Rightarrow> 'a list go" where
  "slice_from xs a = (if a \<le> length xs then Some (drop a xs) else None)"

text \<open>\<open>copy(dst, src)\<close> and \<open>copy(dst[a:b], src)\<close>: the shorter length wins.\<close>

definition copy_list :: "'a list \<Rightarrow> 'a list \<Rightarrow> 'a list" where
  "copy_list dst src = take (length dst) src @ drop (length src) dst"

text \<open>Slicing with \<open>int\<close> bounds, which may be negative.\<close>

definition slice_int :: "'a list \<Rightarrow> int \<Rightarrow> int \<Rightarrow> 'a list go" where
  "slice_int xs a b =
     (if 0 \<le> a \<and> a \<le> b \<and> b \<le> int (length xs) then slice xs (nat a) (nat b) else None)"

definition copy_slice :: "'a list \<Rightarrow> nat \<Rightarrow> nat \<Rightarrow> 'a list \<Rightarrow> 'a list go" where
  "copy_slice xs a b src = do {
     dst \<leftarrow> slice xs a b;
     Some (take a xs @ copy_list dst src @ drop b xs)
   }"

lemma idx_Some [simp, go]: "i < length xs \<Longrightarrow> idx xs i = Some (xs ! i)"
  by (simp add: idx_def)

lemma idx_eq_Some_iff: "idx xs i = Some x \<longleftrightarrow> i < length xs \<and> x = xs ! i"
  by (auto simp: idx_def)

lemma idx_None [simp]: "length xs \<le> i \<Longrightarrow> idx xs i = None"
  by (simp add: idx_def)

lemma upd_Some [simp, go]: "i < length xs \<Longrightarrow> upd xs i v = Some (xs[i := v])"
  by (simp add: upd_def)

lemma upd_length: "upd xs i v = Some ys \<Longrightarrow> length ys = length xs"
  by (auto simp: upd_def split: if_splits)

lemma slice_Some [simp, go]:
  "a \<le> b \<Longrightarrow> b \<le> length xs \<Longrightarrow> slice xs a b = Some (take (b - a) (drop a xs))"
  by (simp add: slice_def)

lemma slice_from_Some [simp, go]: "a \<le> length xs \<Longrightarrow> slice_from xs a = Some (drop a xs)"
  by (simp add: slice_from_def)

lemma length_copy_list [simp]: "length (copy_list dst src) = length dst"
  by (simp add: copy_list_def)

lemma copy_list_same_length: "length src = length dst \<Longrightarrow> copy_list dst src = src"
  by (simp add: copy_list_def)

lemma copy_slice_Some [simp, go]:
  "a \<le> b \<Longrightarrow> b \<le> length xs \<Longrightarrow>
     copy_slice xs a b src =
       Some (take a xs @ copy_list (take (b - a) (drop a xs)) src @ drop b xs)"
  by (simp add: copy_slice_def)

section \<open>Integer conversions and 16-bit fields\<close>

text \<open>\<open>byte(v >> 8)\<close> and \<open>byte(v)\<close> of a \<open>uint16\<close>, \<open>(uint16(hi) << 8) | uint16(lo)\<close>, and
  \<open>(int(hi) << 8) | int(lo)\<close>.\<close>

definition hi8 :: "u16 \<Rightarrow> byte" where
  "hi8 v = ucast (drop_bit 8 v)"

definition lo8 :: "u16 \<Rightarrow> byte" where
  "lo8 v = ucast v"

definition be16 :: "byte \<Rightarrow> byte \<Rightarrow> u16" where
  "be16 hi lo = push_bit 8 (ucast hi) OR ucast lo"

definition be_int :: "byte \<Rightarrow> byte \<Rightarrow> nat" where
  "be_int hi lo = push_bit 8 (unat hi) OR unat lo"

lemma unat_byte_less [simp]: "unat (b :: byte) < 256"
  using unsigned_less [of b, where ?'a = nat] by simp

lemma unat_u16_less [simp]: "unat (v :: u16) < 65536"
  using unsigned_less [of v, where ?'a = nat] by simp

lemma unat_of_nat_u16: "unat (of_nat n :: u16) = n mod 65536"
  by (simp add: unsigned_of_nat take_bit_eq_mod)

lemma unat_of_nat_byte: "unat (of_nat n :: byte) = n mod 256"
  by (simp add: unsigned_of_nat take_bit_eq_mod)

lemma be16_hi8_lo8 [simp, go]: "be16 (hi8 v) (lo8 v) = v"
  by (rule bit_word_eqI) (auto simp: be16_def hi8_def lo8_def bit_simps)

lemma hi8_be16 [simp, go]: "hi8 (be16 a b) = a"
  by (rule bit_word_eqI) (auto simp: be16_def hi8_def bit_simps dest: bit_imp_le_length)

lemma lo8_be16 [simp, go]: "lo8 (be16 a b) = b"
  by (rule bit_word_eqI) (auto simp: be16_def lo8_def bit_simps)

lemma be_int_eq: "be_int hi lo = 256 * unat hi + unat lo"
proof -
  have "push_bit 8 (unat hi) OR unat lo = push_bit 8 (unat hi) + unat lo"
  proof (rule disjunctive_add_eq_or [symmetric])
    show "push_bit 8 (unat hi) AND unat lo = 0"
    proof (rule bit_eqI)
      fix n
      have "\<not> bit (unat lo) n" if "8 \<le> n"
        using that by (auto simp: bit_unsigned_iff dest: bit_imp_le_length)
      then show "bit (push_bit 8 (unat hi) AND unat lo) n = bit (0::nat) n"
        by (auto simp: bit_simps)
    qed
  qed
  then show ?thesis by (simp add: be_int_def push_bit_eq_mult)
qed

lemma unat_be16: "unat (be16 hi lo) = 256 * unat hi + unat lo"
proof -
  have "unat (be16 hi lo) = be_int hi lo"
    by (rule bit_eqI) (auto simp: be16_def be_int_def bit_simps bit_unsigned_iff
        dest: bit_imp_le_length)
  then show ?thesis by (simp add: be_int_eq)
qed

lemma of_nat_be_int [simp]: "(of_nat (be_int a b) :: u16) = be16 a b"
proof -
  have "unat (of_nat (be_int a b) :: u16) = be_int a b"
  proof -
    have "256 * unat a + unat b < 65536"
      using unat_byte_less [of a] unat_byte_less [of b] by linarith
    then show ?thesis by (simp only: unat_of_nat_u16 be_int_eq mod_less)
  qed
  then show ?thesis by (simp add: word_unat_eq_iff unat_be16 be_int_eq)
qed

lemma unat_hi8: "unat (hi8 v) = unat v div 256"
proof -
  have "unat v < 65536" by (simp only: unat_u16_less)
  moreover have "unat (hi8 v) = take_bit 8 (drop_bit 8 (unat v))"
    by (simp add: hi8_def unsigned_ucast_eq unat_drop_bit_eq)
  ultimately show ?thesis
    by (simp add: drop_bit_eq_div take_bit_eq_mod less_mult_imp_div_less)
qed

lemma unat_lo8: "unat (lo8 v) = unat v mod 256"
  by (simp add: lo8_def unsigned_ucast_eq take_bit_eq_mod)

lemma be_int_hi8_lo8 [simp, go]: "be_int (hi8 v) (lo8 v) = unat v"
  by (simp add: be_int_eq unat_hi8 unat_lo8)

section \<open>Errors as values\<close>

text \<open>The \<open>if err != nil { return err }\<close> idiom.\<close>

definition bindE :: "'e + 'a \<Rightarrow> ('a \<Rightarrow> 'e + 'b) \<Rightarrow> 'e + 'b" where
  "bindE r f = (case r of Inl e \<Rightarrow> Inl e | Inr x \<Rightarrow> f x)"

lemma bindE_Inl [simp, go]: "bindE (Inl e) f = Inl e"
  by (simp add: bindE_def)

lemma bindE_Inr [simp, go]: "bindE (Inr x) f = f x"
  by (simp add: bindE_def)

lemma bindE_cong [fundef_cong]:
  "r = r' \<Longrightarrow> (\<And>x. r' = Inr x \<Longrightarrow> f x = f' x) \<Longrightarrow> bindE r f = bindE r' f'"
  by (simp add: bindE_def split: sum.split)

lemma bindE_eq_Inr_iff: "bindE r f = Inr y \<longleftrightarrow> (\<exists>x. r = Inr x \<and> f x = Inr y)"
  by (cases r) simp_all

section \<open>\<open>net.IP.To4\<close>\<close>

text \<open>An IP is a byte slice: 4 bytes, or 16 bytes with the IPv4-mapped prefix
  (ten zeros and two \<open>0xff\<close>).  Anything else converts to \<open>nil\<close>, here \<open>None\<close>.\<close>

definition v4_in_v6_prefix :: bytes where
  "v4_in_v6_prefix = replicate 10 0 @ [0xff, 0xff]"

definition To4 :: "bytes \<Rightarrow> bytes option" where
  "To4 ip =
     (if length ip = 4 then Some ip
      else if length ip = 16 \<and> take 12 ip = v4_in_v6_prefix then Some (drop 12 ip)
      else None)"

text \<open>A nil slice has no elements: what \<open>copy\<close> and \<open>bytes.Equal\<close> see of \<open>ip.To4()\<close>.\<close>

definition slice_of :: "'a list option \<Rightarrow> 'a list" where
  "slice_of r = (case r of None \<Rightarrow> [] | Some xs \<Rightarrow> xs)"

lemma slice_of_simps [simp, go]: "slice_of None = []" "slice_of (Some xs) = xs"
  by (simp_all add: slice_of_def)

lemma To4_length4 [simp, go]: "length ip = 4 \<Longrightarrow> To4 ip = Some ip"
  by (simp add: To4_def)

lemma To4_length: "To4 ip = Some a \<Longrightarrow> length a = 4"
  by (auto simp: To4_def split: if_splits)

text \<open>\<open>net.IP.Equal\<close>: an IPv4 address and its IPv4-mapped form are equal.\<close>

definition IP_Equal :: "bytes \<Rightarrow> bytes \<Rightarrow> bool" where
  "IP_Equal ip x =
     (if length ip = length x then ip = x
      else if length ip = 4 \<and> length x = 16 then take 12 x = v4_in_v6_prefix \<and> ip = drop 12 x
      else if length ip = 16 \<and> length x = 4 then take 12 ip = v4_in_v6_prefix \<and> drop 12 ip = x
      else False)"

lemma IP_Equal_refl [simp]: "IP_Equal ip ip"
  by (simp add: IP_Equal_def)

lemma IP_Equal_length4: "length ip = 4 \<Longrightarrow> length x = 4 \<Longrightarrow> IP_Equal ip x \<longleftrightarrow> ip = x"
  by (simp add: IP_Equal_def)

section \<open>\<open>sort.Search\<close>\<close>

text \<open>The library's binary search: the least index in \<open>[0, n)\<close> at which \<open>f\<close> holds, or \<open>n\<close>,
  for a predicate that stays true once it is true.\<close>

function search_loop :: "(nat \<Rightarrow> bool) \<Rightarrow> nat \<Rightarrow> nat \<Rightarrow> nat" where
  "search_loop f i j =
     (if i < j then
        (let h = (i + j) div 2
         in if \<not> f h then search_loop f (Suc h) j else search_loop f i h)
      else i)"
  by pat_completeness auto
termination
  by (relation "measure (\<lambda>(f, i, j). j - i)") auto

declare search_loop.simps [simp del]

lemma search_loop_correct:
  assumes "i \<le> j"
    and "\<And>k. k < i \<Longrightarrow> \<not> f k" and "\<And>k. j \<le> k \<Longrightarrow> k < n \<Longrightarrow> f k"
    and "\<And>k l. k \<le> l \<Longrightarrow> l < n \<Longrightarrow> f k \<Longrightarrow> f l" and "j \<le> n"
  shows "search_loop f i j \<le> j \<and> (\<forall>k < search_loop f i j. \<not> f k) \<and>
         (\<forall>k. search_loop f i j \<le> k \<longrightarrow> k < n \<longrightarrow> f k)"
  using assms
proof (induction f i j rule: search_loop.induct)
  case (1 f i j)
  show ?case
  proof (cases "i < j")
    case False
    then have "search_loop f i j = i" by (simp add: search_loop.simps [of f i j])
    with False "1.prems"(1-3) show ?thesis by auto
  next
    case True
    define h where "h = (i + j) div 2"
    have h: "i \<le> h" "h < j" using True by (auto simp: h_def)
    show ?thesis
    proof (cases "f h")
      case True
      have "search_loop f i j = search_loop f i h"
        using \<open>i < j\<close> True by (simp add: search_loop.simps [of f i j] h_def [symmetric] Let_def)
      moreover have "search_loop f i h \<le> h \<and> (\<forall>k < search_loop f i h. \<not> f k) \<and>
         (\<forall>k. search_loop f i h \<le> k \<longrightarrow> k < n \<longrightarrow> f k)"
      proof (rule "1.IH"(2) [OF \<open>i < j\<close> h_def])
        show "f k" if "h \<le> k" "k < n" for k
          using "1.prems"(4) [OF that True] .
      qed (use True h "1.prems" in auto)
      ultimately show ?thesis using h by simp
    next
      case False
      have "search_loop f i j = search_loop f (Suc h) j"
        using \<open>i < j\<close> False by (simp add: search_loop.simps [of f i j] h_def [symmetric] Let_def)
      moreover have "search_loop f (Suc h) j \<le> j \<and> (\<forall>k < search_loop f (Suc h) j. \<not> f k) \<and>
         (\<forall>k. search_loop f (Suc h) j \<le> k \<longrightarrow> k < n \<longrightarrow> f k)"
      proof (rule "1.IH"(1) [OF \<open>i < j\<close> h_def])
        show "\<not> f k" if "k < Suc h" for k
          using False "1.prems"(4) [of k h] "1.prems"(5) h that by auto
      qed (use False h "1.prems" in auto)
      ultimately show ?thesis by simp
    qed
  qed
qed

text \<open>The library's search with a predicate that may panic.  \<open>sort_Search\<close> is \<open>sort.Search\<close>;
  \<open>search_loop\<close> is its value when no call of the predicate panics.\<close>

function search_go :: "(nat \<Rightarrow> bool go) \<Rightarrow> nat \<Rightarrow> nat \<Rightarrow> nat go" where
  "search_go f i j =
     (if i < j then
        (let h = (i + j) div 2
         in Option.bind (f h) (\<lambda>b. if \<not> b then search_go f (Suc h) j else search_go f i h))
      else Some i)"
  by pat_completeness auto
termination
  by (relation "measure (\<lambda>(f, i, j). j - i)") auto

declare search_go.simps [simp del]

definition sort_Search :: "nat \<Rightarrow> (nat \<Rightarrow> bool go) \<Rightarrow> nat go" where
  "sort_Search n f = search_go f 0 n"

lemma search_go_pure:
  "(\<And>k. k < n \<Longrightarrow> f k = Some (g k)) \<Longrightarrow> j \<le> n \<Longrightarrow> search_go f i j = Some (search_loop g i j)"
proof (induction g i j rule: search_loop.induct)
  case (1 g i j)
  show ?case
  proof (cases "i < j")
    case True
    define h where "h = (i + j) div 2"
    have h: "h < j" using True by (auto simp: h_def)
    show ?thesis
      using "1.IH" [OF True h_def] "1.prems" True h
      by (simp add: search_go.simps [of f i j] search_loop.simps [of g i j] Let_def
          h_def [symmetric])
  qed (simp add: search_go.simps [of f i j] search_loop.simps [of g i j])
qed

lemma sort_Search_least:
  assumes "\<And>k. k < n \<Longrightarrow> f k = Some (g k)"
    and "\<And>k l. k \<le> l \<Longrightarrow> l < n \<Longrightarrow> g k \<Longrightarrow> g l"
  obtains r where "sort_Search n f = Some r" and "r \<le> n" and "\<And>k. k < r \<Longrightarrow> \<not> g k"
    and "\<And>k. r \<le> k \<Longrightarrow> k < n \<Longrightarrow> g k"
proof -
  have "sort_Search n f = Some (search_loop g 0 n)"
    using search_go_pure [of n f g n 0] assms(1) by (simp add: sort_Search_def)
  then show ?thesis
    using search_loop_correct [of 0 n g n] assms(2) by (intro that) auto
qed

section \<open>Lists\<close>

lemma list_update_Cons_numeral [simp]:
  "(x # xs)[numeral v := y] = x # xs[numeral v - 1 := y]"
  by (simp split: nat.split)

lemma list4_eq: "length xs = 4 \<Longrightarrow> xs = [xs ! 0, xs ! 1, xs ! 2, xs ! 3]"
  by (rule nth_equalityI) (auto simp: less_Suc_eq numeral_eq_Suc)

lemma take_drop_upd_outside:
  "i < a \<or> b \<le> i \<Longrightarrow> take (b - a) (drop a (xs[i := v])) = take (b - a) (drop a xs)"
  by (rule nth_equalityI) (auto simp: nth_list_update)

lemma take4_eq: "4 \<le> length xs \<Longrightarrow> take 4 xs = [xs ! 0, xs ! 1, xs ! 2, xs ! 3]"
  by (rule nth_equalityI) (auto simp: less_Suc_eq numeral_eq_Suc)

lemma append_take_drop_mid:
  "a \<le> b \<Longrightarrow> b \<le> length xs \<Longrightarrow> take a xs @ take (b - a) (drop a xs) @ drop b xs = xs"
  by (metis append.assoc append_take_drop_id drop_drop le_add_diff_inverse2 take_add
      add.commute)

end
