(* ===== verification/Checksum.thy ===== *)
theory Checksum
  imports Go_Prelude
begin

text \<open>
  \<open>ipstack/checksum.go\<close>: the Internet checksum of RFC 1071.  The code adds the 16-bit
  big-endian words of the data in a \<open>uint32\<close>, folds the carries until none is left and
  complements the result.  The specification side is the plain sum \<open>word_sum\<close> and the
  ones'-complement residue \<open>ones_residue\<close>; the main lemma says that the code computes
  \<open>65535 - ones_residue (word_sum data)\<close> as long as the 32-bit sum cannot overflow, which
  holds for every data of at most 131074 bytes (an IP packet has at most 65535, a
  pseudo-header 12).  The locale \<open>checksummed\<close> is the contract between packets and
  the filters that drop packets with a bad checksum.
\<close>

section \<open>The code\<close>

fun checksum_sum :: "u32 \<Rightarrow> bytes \<Rightarrow> u32" where
  "checksum_sum s (d0 # d1 # data) =
     checksum_sum (s + (push_bit 8 (ucast d0) OR ucast d1)) data"
| "checksum_sum s [d0] = s + push_bit 8 (ucast d0)"
| "checksum_sum s [] = s"

lemma u32_div_mod_less:
  assumes "drop_bit 16 (s :: u32) \<noteq> 0"
  shows "unat ((s AND 0xffff) + drop_bit 16 s) = unat s mod 65536 + unat s div 65536"
    and "unat s mod 65536 + unat s div 65536 < unat s"
proof -
  have mask: "s AND 0xffff = take_bit 16 s"
    by (simp add: take_bit_eq_mask mask_eq_exp_minus_1)
  have lo: "unat (s AND 0xffff) = unat s mod 65536"
    unfolding mask unsigned_take_bit_eq by (simp add: take_bit_eq_mod)
  have hi: "unat (drop_bit 16 s) = unat s div 65536"
    unfolding unat_drop_bit_eq by (simp add: drop_bit_eq_div)
  have "unat s < 4294967296"
    using unsigned_less [of s, where ?'a = nat] by simp
  then have "unat s mod 65536 + unat s div 65536 < 4294967296"
    by linarith
  then show "unat ((s AND 0xffff) + drop_bit 16 s) = unat s mod 65536 + unat s div 65536"
    by (simp only: unat_word_ariths lo hi) simp
  have "unat s div 65536 \<noteq> 0"
    using assms hi by (metis unat_eq_zero)
  then show "unat s mod 65536 + unat s div 65536 < unat s"
    using div_mult_mod_eq [of "unat s" 65536] by linarith
qed

function fold_carry :: "u32 \<Rightarrow> u32" where
  "fold_carry s =
     (if drop_bit 16 s \<noteq> 0 then fold_carry ((s AND 0xffff) + drop_bit 16 s) else s)"
  by pat_completeness auto
termination
proof (relation "measure unat")
  show "wf (measure unat)" by simp
next
  fix s :: u32
  assume "drop_bit 16 s \<noteq> 0"
  then have "unat ((s AND 0xffff) + drop_bit 16 s) < unat s"
    using u32_div_mod_less by metis
  then show "((s AND 0xffff) + drop_bit 16 s, s) \<in> measure unat"
    by (simp only: in_measure)
qed

declare fold_carry.simps [simp del]

definition InternetChecksum :: "bytes \<Rightarrow> u16" where
  "InternetChecksum data = NOT (ucast (fold_carry (checksum_sum 0 data)))"

section \<open>The specification\<close>

fun word_sum :: "bytes \<Rightarrow> nat" where
  "word_sum (d0 # d1 # data) = 256 * unat d0 + unat d1 + word_sum data"
| "word_sum [d0] = 256 * unat d0"
| "word_sum [] = 0"

definition ones_residue :: "nat \<Rightarrow> nat" where
  "ones_residue n = (if n = 0 then 0 else Suc ((n - 1) mod 65535))"

lemma ones_residue_le: "ones_residue n \<le> 65535"
  by (simp add: ones_residue_def Suc_le_eq)

lemma ones_residue_small: "n < 65536 \<Longrightarrow> ones_residue n = n"
  by (auto simp: ones_residue_def)

lemma ones_residue_mod: "n > 0 \<Longrightarrow> m > 0 \<Longrightarrow> n mod 65535 = m mod 65535 \<Longrightarrow>
    ones_residue n = ones_residue m"
  unfolding ones_residue_def
  by (cases n; cases m) (auto simp: mod_Suc split: if_splits)

lemma ones_residue_eq_65535: "ones_residue n = 65535 \<longleftrightarrow> n > 0 \<and> 65535 dvd n"
proof (cases n)
  case (Suc m)
  then show ?thesis
    by (auto simp: ones_residue_def mod_Suc dvd_eq_mod_eq_0 split: if_splits)
qed (simp add: ones_residue_def)

lemma ones_residue_cong: "ones_residue n mod 65535 = n mod 65535"
proof (cases n)
  case (Suc m)
  then show ?thesis by (simp add: ones_residue_def mod_Suc)
qed (simp add: ones_residue_def)

lemma word_sum_bound: "word_sum data \<le> 65535 * ((length data + 1) div 2)"
proof (induction data rule: word_sum.induct)
  case (1 d0 d1 data)
  have "256 * unat d0 + unat d1 \<le> 65535"
    using unat_byte_less [of d0] unat_byte_less [of d1] by linarith
  with 1 show ?case by simp
next
  case (2 d0)
  have "256 * unat d0 \<le> 65535" using unat_byte_less [of d0] by linarith
  then show ?case by simp
qed simp

section \<open>Correctness\<close>

lemma unat_word32: "unat (push_bit 8 (ucast d0) OR ucast d1 :: u32) = 256 * unat d0 + unat (d1 :: byte)"
  for d0 :: byte
proof -
  have "unat (push_bit 8 (ucast d0) OR ucast d1 :: u32) = be_int d0 d1"
    by (rule bit_eqI) (auto simp: be_int_def bit_simps bit_unsigned_iff dest: bit_imp_le_length)
  then show ?thesis by (simp add: be_int_eq)
qed

lemma unat_word32_single: "unat (push_bit 8 (ucast d0) :: u32) = 256 * unat (d0 :: byte)"
  using unat_word32 [of d0 0] by simp

lemma checksum_sum_word_sum:
  "unat s + word_sum data < 2 ^ 32 \<Longrightarrow> unat (checksum_sum s data) = unat s + word_sum data"
proof (induction s data rule: checksum_sum.induct)
  case (1 s d0 d1 data)
  have "unat (s + (push_bit 8 (ucast d0) OR ucast d1)) = unat s + (256 * unat d0 + unat d1)"
    using "1.prems" by (simp add: unat_word_ariths unat_word32)
  with 1 show ?case by simp
next
  case (2 s d0)
  then show ?case by (simp add: unat_word_ariths unat_word32_single)
qed simp

lemma fold_carry_residue: "unat (fold_carry s) = ones_residue (unat s)"
proof (induction s rule: fold_carry.induct)
  case (1 s)
  have hi: "unat (drop_bit 16 s) = unat s div 65536"
    unfolding unat_drop_bit_eq by (simp add: drop_bit_eq_div)
  show ?case
  proof (cases "drop_bit 16 s = 0")
    case True
    then have "unat s < 65536" using hi by simp
    with True show ?thesis by (simp add: fold_carry.simps [of s] ones_residue_small)
  next
    case False
    let ?n = "unat s" and ?m = "unat s mod 65536 + unat s div 65536"
    have "?n = ?m + 65535 * (?n div 65536)"
      using div_mult_mod_eq [of ?n 65536] by linarith
    then have "?n mod 65535 = ?m mod 65535"
      by (metis mod_mult_self2)
    moreover have "?m > 0"
      using False hi by (metis add_gr_0 neq0_conv unat_eq_zero)
    moreover have "?n > 0" using u32_div_mod_less(2) [OF False] by simp
    ultimately have "ones_residue ?n = ones_residue ?m" by (intro ones_residue_mod)
    with False "1.IH" show ?thesis
      by (simp only: fold_carry.simps [of s] u32_div_mod_less(1)) simp
  qed
qed

lemma unat_not_u16: "unat (NOT (v :: u16)) = 65535 - unat v"
proof -
  have "NOT v = - 1 - v" by (simp add: not_eq_complement)
  also have "unat (- 1 - v) = unat (- 1 :: u16) - unat v"
    by (rule unat_sub) simp
  also have "unat (- 1 :: u16) = 65535"
    by (simp add: unsigned_minus_1_eq_mask mask_eq_exp_minus_1)
  finally show ?thesis .
qed

lemma unat_InternetChecksum:
  assumes "length data \<le> 131074"
  shows "unat (InternetChecksum data) = 65535 - ones_residue (word_sum data)"
proof -
  have "(length data + 1) div 2 \<le> 65537" using assms by simp
  then have "word_sum data \<le> 65535 * 65537"
    using word_sum_bound [of data] by linarith
  then have "unat (checksum_sum 0 data) = word_sum data"
    using checksum_sum_word_sum [of 0 data] by simp
  then have "unat (fold_carry (checksum_sum 0 data)) = ones_residue (word_sum data)"
    by (simp add: fold_carry_residue)
  then have "unat (ucast (fold_carry (checksum_sum 0 data)) :: u16) = ones_residue (word_sum data)"
    using ones_residue_le [of "word_sum data"]
    by (simp add: unsigned_ucast_eq take_bit_eq_mod)
  then show ?thesis
    by (simp only: InternetChecksum_def unat_not_u16)
qed

lemma InternetChecksum_eq_0_iff:
  assumes "length data \<le> 131074"
  shows "InternetChecksum data = 0 \<longleftrightarrow> word_sum data > 0 \<and> 65535 dvd word_sum data"
proof -
  have "InternetChecksum data = 0 \<longleftrightarrow> unat (InternetChecksum data) = 0"
    by (simp add: unat_eq_zero)
  also have "\<dots> \<longleftrightarrow> ones_residue (word_sum data) = 65535"
    using ones_residue_le [of "word_sum data"]
    by (simp add: unat_InternetChecksum [OF assms])
  finally show ?thesis by (simp only: ones_residue_eq_65535)
qed

section \<open>Writing the checksum into its field\<close>

text \<open>The packets store a \<open>uint16\<close> at an offset \<open>k\<close> as two bytes.\<close>

definition put16 :: "bytes \<Rightarrow> nat \<Rightarrow> u16 \<Rightarrow> bytes" where
  "put16 xs k v = xs[k := hi8 v, Suc k := lo8 v]"

lemma length_put16 [simp]: "length (put16 xs k v) = length xs"
  by (simp add: put16_def)

lemma nth_put16:
  "Suc k < length xs \<Longrightarrow>
     put16 xs k v ! i = (if i = k then hi8 v else if i = Suc k then lo8 v else xs ! i)"
  by (simp add: put16_def nth_list_update)

lemma put16_put16 [simp]: "put16 (put16 xs k v) k w = put16 xs k w"
  by (simp add: put16_def list_update_swap [of k "Suc k"])

lemma put16_append:
  "length xs \<le> k \<Longrightarrow> put16 (xs @ ys) k v = xs @ put16 ys (k - length xs) v"
  by (simp add: put16_def list_update_append Suc_diff_le)

lemma put16_append1:
  "Suc k < length xs \<Longrightarrow> put16 (xs @ ys) k v = put16 xs k v @ ys"
  by (simp add: put16_def list_update_append)

lemma put16_split:
  assumes "Suc k < length xs"
  shows "put16 xs k v = take k xs @ [hi8 v, lo8 v] @ drop (k + 2) xs"
  by (rule nth_equalityI)
    (use assms in \<open>auto simp: nth_put16 nth_append nth_Cons split: nat.splits
       intro: arg_cong [where f = "(!) xs"]\<close>)

lemma take_put16: "take n (put16 xs k v) = put16 (take n xs) k v"
  by (simp add: put16_def take_update_swap)

lemma drop_put16 [simp]: "Suc k < n \<Longrightarrow> drop n (put16 xs k v) = drop n xs"
  by (simp add: put16_def)

lemma word_sum_append: "even (length xs) \<Longrightarrow> word_sum (xs @ ys) = word_sum xs + word_sum ys"
  by (induction xs rule: word_sum.induct) simp_all

lemma word_sum_put16:
  assumes "even k" and "Suc k < length xs"
  shows "word_sum (put16 xs k v) = word_sum (put16 xs k 0) + unat v"
proof -
  have "256 * unat (hi8 v) + unat (lo8 v) = unat v"
    by (simp add: unat_hi8 unat_lo8)
  then show ?thesis
    using assms by (simp add: put16_split word_sum_append unat_hi8 unat_lo8)
qed

lemma InternetChecksum_put16:
  assumes "even k" and "Suc k < length xs" and "length xs \<le> 131074"
    and r: "unat v mod 65535 = unat (InternetChecksum (put16 xs k 0)) mod 65535"
    and pos: "v \<noteq> 0 \<or> word_sum (put16 xs k 0) > 0"
  shows "InternetChecksum (put16 xs k v) = 0"
proof -
  let ?s = "word_sum (put16 xs k 0)"
  have c: "unat (InternetChecksum (put16 xs k 0)) = 65535 - ones_residue ?s"
    using assms(3) by (simp add: unat_InternetChecksum)
  have "unat v mod 65535 = (65535 - ones_residue ?s) mod 65535"
    using r by (simp only: c)
  moreover have "(ones_residue ?s + (65535 - ones_residue ?s)) mod 65535 = 0"
    using ones_residue_le [of ?s] by simp
  ultimately have "(?s + unat v) mod 65535 = 0"
    using ones_residue_cong [of ?s] by (metis mod_add_cong)
  moreover have "?s + unat v > 0"
    using pos by (auto simp: unat_gt_0)
  ultimately show ?thesis
    using assms by (simp add: InternetChecksum_eq_0_iff word_sum_put16 [OF assms(1,2), of v]
        mod_eq_0_iff_dvd)
qed

lemma InternetChecksum_set:
  assumes "even k" and "Suc k < length xs" and "length xs \<le> 131074"
  shows "InternetChecksum (put16 xs k (InternetChecksum (put16 xs k 0))) = 0"
proof (rule InternetChecksum_put16 [OF assms])
  let ?s = "word_sum (put16 xs k 0)"
  show "InternetChecksum (put16 xs k 0) \<noteq> 0 \<or> ?s > 0"
    using assms(3) InternetChecksum_eq_0_iff [of "put16 xs k 0"] by auto
qed simp

section \<open>Error detection\<close>

lemma word_sum_update:
  "i < length xs \<Longrightarrow>
     word_sum (xs[i := b]) + (if even i then 256 else 1) * unat (xs ! i) =
     word_sum xs + (if even i then 256 else 1) * unat b"
proof (induction xs arbitrary: i rule: word_sum.induct)
  case (1 d0 d1 data)
  show ?case
  proof (cases i)
    case (Suc j)
    with 1 show ?thesis by (cases j) (auto split: if_splits)
  qed simp
qed (simp_all add: less_Suc_eq)

lemma dvd_scaled_diff:
  fixes a b s c :: nat
  assumes "65535 dvd s + c * a" and "65535 dvd s + c * b" and "a < 256" and "b < 256"
    and "c = 1 \<or> c = 256"
  shows "a = b"
proof -
  have "int 65535 dvd int (s + c * a) - int (s + c * b)"
    using assms(1,2) by (metis dvd_diff of_nat_dvd_iff)
  then have "65535 dvd int c * (int a - int b)"
    by (simp add: algebra_simps)
  then obtain k where k: "int c * (int a - int b) = 65535 * k" by (elim dvdE)
  have "k = 0" using assms(3-5) k by auto
  then show ?thesis using k assms(5) by auto
qed

lemma InternetChecksum_detects:
  assumes "InternetChecksum xs = 0" and "length xs \<le> 131074" and "i < length xs"
    and "b \<noteq> xs ! i"
  shows "InternetChecksum (xs[i := b]) \<noteq> 0"
proof
  let ?c = "if even i then 256 else 1 :: nat"
  assume "InternetChecksum (xs[i := b]) = 0"
  then have 1: "65535 dvd word_sum (xs[i := b])" and 2: "65535 dvd word_sum xs"
    using assms(1,2) by (simp_all add: InternetChecksum_eq_0_iff)
  obtain s where s: "word_sum xs = s + ?c * unat (xs ! i)"
    using word_sum_update [OF assms(3), of 0] by (metis add.right_neutral mult_0_right unsigned_0)
  then have "word_sum (xs[i := b]) = s + ?c * unat b"
    using word_sum_update [OF assms(3), of b] by (simp split: if_splits)
  with 1 2 s have "unat (xs ! i) = unat b"
    by (intro dvd_scaled_diff [of s ?c]) (simp_all split: if_splits)
  with assms(4) show False by (simp add: word_unat_eq_iff)
qed

section \<open>The contract of packets with a checksum\<close>

text \<open>\<open>FilterFunc\<close>s that keep a packet exactly when its checksum is 0
  (\<open>FilterIPv4Checksums\<close>; the filters of \<open>NewTCP4Net\<close> and \<open>NewUDP4Net\<close> use the same
  test).  The result of a \<open>FilterFunc\<close> is \<open>Some packet\<close>, or \<open>None\<close> for a dropped one.\<close>

definition checksum_filter :: "(bytes \<Rightarrow> u16 go) \<Rightarrow> bytes \<Rightarrow> bytes option go" where
  "checksum_filter checksum packet = do {
     c \<leftarrow> checksum packet;
     Some (if c = 0 then Some packet else None)
   }"

locale checksummed =
  fixes valid :: "bytes \<Rightarrow> bool"
    and checksum :: "bytes \<Rightarrow> u16 go"
    and set_checksum :: "bytes \<Rightarrow> bytes go"
  assumes checksum_defined: "valid p \<Longrightarrow> \<exists>c. checksum p = Some c"
    and set_checksum_defined:
      "valid p \<Longrightarrow> \<exists>q. set_checksum p = Some q \<and> valid q \<and> length q = length p"
    and checksum_after_set: "valid p \<Longrightarrow> set_checksum p = Some q \<Longrightarrow> checksum q = Some 0"
    and set_after_set: "valid p \<Longrightarrow> set_checksum p = Some q \<Longrightarrow> set_checksum q = Some q"
begin

lemma filter_no_panic: "valid p \<Longrightarrow> \<exists>r. checksum_filter checksum p = Some r"
  using checksum_defined [of p] by (auto simp: checksum_filter_def)

lemma filter_accepts_set:
  "valid p \<Longrightarrow> \<exists>q. set_checksum p = Some q \<and> valid q \<and> checksum_filter checksum q = Some (Some q)"
  using set_checksum_defined [of p] checksum_after_set [of p]
  by (auto simp: checksum_filter_def)

lemma filter_keeps_iff:
  "valid p \<Longrightarrow> checksum_filter checksum p = Some (Some q) \<longleftrightarrow> q = p \<and> checksum p = Some 0"
  using checksum_defined [of p] by (auto simp: checksum_filter_def split: if_splits)

end

section \<open>Properties\<close>

text \<open>C11: The 32-bit accumulator and the carry folding compute the ones'-complement checksum:
  for data of at most 131074 bytes, \<open>InternetChecksum\<close> is 65535 minus the ones'-complement
  residue of the sum of the big-endian 16-bit words (an odd last byte padded with zero).\<close>

theorem internet_checksum_spec:
  assumes "length data \<le> 131074"
  shows "unat (InternetChecksum data) = 65535 - ones_residue (word_sum data)"
  using assms by (rule unat_InternetChecksum)

theorem internet_checksum_spec_witness:
  "unat (InternetChecksum [1, 2, 3]) = 65535 - ones_residue (word_sum [1, 2, 3])"
  by (rule internet_checksum_spec) simp

text \<open>The checksum detects every corruption of a single byte: data that passes the check
  (checksum 0) fails it after any one byte is changed.\<close>

theorem internet_checksum_detects_byte:
  assumes "InternetChecksum data = 0" and "length data \<le> 131074" and "i < length data"
    and "b \<noteq> data ! i"
  shows "InternetChecksum (data[i := b]) \<noteq> 0"
  using assms by (rule InternetChecksum_detects)

theorem internet_checksum_detects_byte_witness:
  "InternetChecksum [0xff, 0xff, 0, 0] = 0 \<and> InternetChecksum ([0xff, 0xff, 0, 0][1 := 0xfe]) \<noteq> 0"
proof -
  have ok: "InternetChecksum [0xff, 0xff, 0, 0] = 0"
    by (subst InternetChecksum_eq_0_iff) simp_all
  then show ?thesis
    using internet_checksum_detects_byte [OF ok, where i = 1 and b = "0xfe"] by simp
qed

end
