(* ===== verification/IPv4.thy ===== *)
theory IPv4
  imports Checksum
begin

text \<open>
  \<open>ipstack/ip.go\<close>: IPv4 packets.  A packet is the byte slice of the code
  (\<open>type IPv4Packet []byte\<close>); a setter, which writes into the slice, returns the changed
  slice.  The getters and setters index the slice, so each is an \<open>'a go\<close>: the lemmas
  \<open>ip_ops\<close> say that none of them panics on a packet of at least 20 bytes.
\<close>

section \<open>Header fields\<close>

definition IPv4_Valid :: "bytes \<Rightarrow> bool go" where
  "IPv4_Valid i =
     (if length i < 20 then Some False
      else do {
        b0 \<leftarrow> idx i 0;
        if drop_bit 4 b0 \<noteq> 4 then Some False
        else do {
          b0 \<leftarrow> idx i 0;
          let headerSize = unat (b0 AND 0xf) * 4;
          if headerSize < 20 \<or> headerSize > length i then Some False
          else do {
            b2 \<leftarrow> idx i 2;
            b3 \<leftarrow> idx i 3;
            Some (be_int b2 b3 = length i)
          }
        }
      })"

definition IPv4_Header :: "bytes \<Rightarrow> bytes go" where
  "IPv4_Header i = do {
     b0 \<leftarrow> idx i 0;
     let size = unat (b0 AND 0xf) * 4;
     slice i 0 size
   }"

definition IPv4_Payload :: "bytes \<Rightarrow> bytes go" where
  "IPv4_Payload i = do {
     h \<leftarrow> IPv4_Header i;
     slice_from i (length h)
   }"

definition IPv4_SourceAddr :: "bytes \<Rightarrow> bytes go" where
  "IPv4_SourceAddr i = slice i 12 16"

definition IPv4_SetSourceAddr :: "bytes \<Rightarrow> bytes \<Rightarrow> bytes go" where
  "IPv4_SetSourceAddr i ip = copy_slice i 12 16 (slice_of (To4 ip))"

definition IPv4_DestAddr :: "bytes \<Rightarrow> bytes go" where
  "IPv4_DestAddr i = slice i 16 20"

definition IPv4_SetDestAddr :: "bytes \<Rightarrow> bytes \<Rightarrow> bytes go" where
  "IPv4_SetDestAddr i ip = copy_slice i 16 20 (slice_of (To4 ip))"

definition IPv4_TTL :: "bytes \<Rightarrow> int go" where
  "IPv4_TTL i = do { b \<leftarrow> idx i 8; Some (uint b) }"

definition IPv4_SetTTL :: "bytes \<Rightarrow> int \<Rightarrow> bytes go" where
  "IPv4_SetTTL i ttl = upd i 8 (word_of_int ttl)"

definition IPv4_Proto :: "bytes \<Rightarrow> int go" where
  "IPv4_Proto i = do { b \<leftarrow> idx i 9; Some (uint b) }"

definition IPv4_SetProto :: "bytes \<Rightarrow> int \<Rightarrow> bytes go" where
  "IPv4_SetProto i proto = upd i 9 (word_of_int proto)"

definition IPv4_Checksum :: "bytes \<Rightarrow> u16 go" where
  "IPv4_Checksum i = do { h \<leftarrow> IPv4_Header i; Some (InternetChecksum h) }"

definition IPv4_SetChecksum :: "bytes \<Rightarrow> bytes go" where
  "IPv4_SetChecksum i = do {
     i \<leftarrow> upd i 10 0;
     i \<leftarrow> upd i 11 0;
     checksum \<leftarrow> IPv4_Checksum i;
     i \<leftarrow> upd i 10 (hi8 checksum);
     upd i 11 (lo8 checksum)
   }"

definition IPv4_Identification :: "bytes \<Rightarrow> u16 go" where
  "IPv4_Identification i = do { b4 \<leftarrow> idx i 4; b5 \<leftarrow> idx i 5; Some (be16 b4 b5) }"

definition IPv4_SetIdentification :: "bytes \<Rightarrow> u16 \<Rightarrow> bytes go" where
  "IPv4_SetIdentification i ident = do { i \<leftarrow> upd i 4 (hi8 ident); upd i 5 (lo8 ident) }"

definition IPv4_FragmentInfo :: "bytes \<Rightarrow> (bool \<times> bool \<times> nat) go" where
  "IPv4_FragmentInfo i = do {
     b6 \<leftarrow> idx i 6;
     b7 \<leftarrow> idx i 7;
     Some (b6 AND 0x40 \<noteq> 0, b6 AND 0x20 \<noteq> 0, be_int (b6 AND 0x1f) b7)
   }"

definition IPv4_SetFragmentInfo :: "bytes \<Rightarrow> bool \<Rightarrow> bool \<Rightarrow> nat \<Rightarrow> bytes go" where
  "IPv4_SetFragmentInfo i dontFrag moreFrags fragOffset = do {
     i \<leftarrow> upd i 6 0;
     i \<leftarrow> upd i 7 0;
     i \<leftarrow> (if dontFrag then do { b \<leftarrow> idx i 6; upd i 6 (b OR 0x40) } else Some i);
     i \<leftarrow> (if moreFrags then do { b \<leftarrow> idx i 6; upd i 6 (b OR 0x20) } else Some i);
     b6 \<leftarrow> idx i 6;
     i \<leftarrow> upd i 6 (b6 OR (of_nat (drop_bit 8 fragOffset) AND 0x1f));
     b7 \<leftarrow> idx i 7;
     upd i 7 (b7 OR of_nat fragOffset)
   }"

definition IPv4_SetTotalLength :: "bytes \<Rightarrow> bytes go" where
  "IPv4_SetTotalLength i = do {
     let size = of_nat (length i);
     i \<leftarrow> upd i 2 (hi8 size);
     upd i 3 (lo8 size)
   }"

definition NewIPv4Packet :: "int \<Rightarrow> int \<Rightarrow> bytes \<Rightarrow> bytes \<Rightarrow> bytes \<Rightarrow> bytes go" where
  "NewIPv4Packet ttl proto source dest payload = do {
     res \<leftarrow> upd (replicate (20 + length payload) 0) 0 0x45;
     res \<leftarrow> IPv4_SetTotalLength res;
     res \<leftarrow> IPv4_SetTTL res ttl;
     res \<leftarrow> IPv4_SetProto res proto;
     res \<leftarrow> IPv4_SetSourceAddr res source;
     res \<leftarrow> IPv4_SetDestAddr res dest;
     res \<leftarrow> IPv4_SetChecksum res;
     copy_slice res 20 (length res) payload
   }"

section \<open>Filters\<close>

text \<open>The \<open>FilterFunc\<close> that each filter hands to \<open>Filter\<close>: \<open>Some packet\<close>, or \<open>None\<close> for nil.\<close>

definition FilterIPv4Valid :: "bytes \<Rightarrow> bytes option go" where
  "FilterIPv4Valid packet = do {
     v \<leftarrow> IPv4_Valid packet;
     Some (if v then Some packet else None)
   }"

definition FilterIPv4Checksums :: "bytes \<Rightarrow> bytes option go" where
  "FilterIPv4Checksums packet = checksum_filter IPv4_Checksum packet"

definition FilterIPv4Proto :: "int \<Rightarrow> bytes \<Rightarrow> bytes option go" where
  "FilterIPv4Proto ipProto packet = do {
     proto \<leftarrow> IPv4_Proto packet;
     Some (if proto = ipProto then Some packet else None)
   }"

definition FilterIPv4Dest :: "bytes \<Rightarrow> bytes \<Rightarrow> bytes option go" where
  "FilterIPv4Dest dest packet = do {
     a \<leftarrow> IPv4_DestAddr packet;
     Some (if a = slice_of (To4 dest) then Some packet else None)
   }"

text \<open>\<open>AddIPv4Identifiers\<close>: the state is the counter \<open>curId\<close>, read and incremented under the
  lock before the packet is looked at.\<close>

definition AddIPv4Identifiers :: "u16 \<Rightarrow> bytes \<Rightarrow> (u16 \<times> bytes option) go" where
  "AddIPv4Identifiers curId packet = do {
     let ident = curId;
     let curId = curId + 1;
     (dontFrag, moreFrags, offset) \<leftarrow> IPv4_FragmentInfo packet;
     if moreFrags \<or> offset \<noteq> 0 then Some (curId, None)
     else do {
       packet \<leftarrow> IPv4_SetIdentification packet ident;
       packet \<leftarrow> IPv4_SetChecksum packet;
       Some (curId, Some packet)
     }
   }"

section \<open>The operations on packets that are long enough\<close>

definition header_len :: "bytes \<Rightarrow> nat" where
  "header_len p = unat (p ! 0 AND 0xf) * 4"

lemma header_len_le: "header_len p \<le> 60"
proof -
  have "unat (p ! 0 AND 0xf) \<le> unat (0xf :: byte)"
    by (rule word_and_le1 [THEN word_le_nat_alt [THEN iffD1]])
  then show ?thesis by (simp add: header_len_def)
qed

lemma long_nonempty [simp]: "20 \<le> length p \<Longrightarrow> p = [] \<longleftrightarrow> False"
  by auto

lemma IPv4_Valid_eq:
  "IPv4_Valid p = Some (20 \<le> length p \<and> drop_bit 4 (p ! 0) = 4 \<and> 20 \<le> header_len p \<and>
     header_len p \<le> length p \<and> be_int (p ! 2) (p ! 3) = length p)"
  by (cases "20 \<le> length p") (auto simp: IPv4_Valid_def header_len_def Let_def)

lemma ip_valid_iff:
  "IPv4_Valid p = Some True \<longleftrightarrow>
     20 \<le> length p \<and> drop_bit 4 (p ! 0) = 4 \<and> 20 \<le> header_len p \<and> header_len p \<le> length p \<and>
     be_int (p ! 2) (p ! 3) = length p"
  by (simp add: IPv4_Valid_eq)

lemma ip_valid_length:
  assumes "IPv4_Valid p = Some True"
  shows "20 \<le> length p" and "length p \<le> 65535" and "20 \<le> header_len p" and
    "header_len p \<le> length p"
proof -
  show "20 \<le> length p" "20 \<le> header_len p" "header_len p \<le> length p"
    using assms by (simp_all add: ip_valid_iff)
  have "length p = 256 * unat (p ! 2) + unat (p ! 3)"
    using assms by (simp add: ip_valid_iff be_int_eq)
  then show "length p \<le> 65535"
    using unat_byte_less [of "p ! 2"] unat_byte_less [of "p ! 3"] by linarith
qed

lemma ip_valid_cong:
  "IPv4_Valid p = Some True \<Longrightarrow> length q = length p \<Longrightarrow> q ! 0 = p ! 0 \<Longrightarrow> q ! 2 = p ! 2 \<Longrightarrow>
     q ! 3 = p ! 3 \<Longrightarrow> IPv4_Valid q = Some True"
  by (simp add: ip_valid_iff header_len_def)

lemma IPv4_Header_eq [go]:
  "0 < length p \<Longrightarrow> header_len p \<le> length p \<Longrightarrow> IPv4_Header p = Some (take (header_len p) p)"
  by (simp add: IPv4_Header_def header_len_def Let_def)

lemma IPv4_Payload_eq [go]:
  "0 < length p \<Longrightarrow> header_len p \<le> length p \<Longrightarrow> IPv4_Payload p = Some (drop (header_len p) p)"
  by (simp add: IPv4_Payload_def IPv4_Header_eq min_absorb2)

lemma IPv4_fields_eq [go]:
  assumes "20 \<le> length p"
  shows "IPv4_SourceAddr p = Some (take 4 (drop 12 p))"
    and "IPv4_DestAddr p = Some (take 4 (drop 16 p))"
    and "IPv4_TTL p = Some (uint (p ! 8))"
    and "IPv4_Proto p = Some (uint (p ! 9))"
    and "IPv4_Identification p = Some (be16 (p ! 4) (p ! 5))"
    and "IPv4_FragmentInfo p =
           Some (p ! 6 AND 0x40 \<noteq> 0, p ! 6 AND 0x20 \<noteq> 0, be_int (p ! 6 AND 0x1f) (p ! 7))"
    and "IPv4_SetTTL p ttl = Some (p[8 := word_of_int ttl])"
    and "IPv4_SetProto p proto = Some (p[9 := word_of_int proto])"
    and "IPv4_SetIdentification p ident = Some (put16 p 4 ident)"
    and "IPv4_SetTotalLength p = Some (put16 p 2 (of_nat (length p)))"
  using assms
  by (simp_all add: IPv4_SourceAddr_def IPv4_DestAddr_def IPv4_TTL_def IPv4_Proto_def
      IPv4_Identification_def IPv4_FragmentInfo_def IPv4_SetTTL_def IPv4_SetProto_def
      IPv4_SetIdentification_def IPv4_SetTotalLength_def put16_def Let_def)

lemma IPv4_SetFragmentInfo_eq [go]:
  assumes "20 \<le> length p"
  shows "IPv4_SetFragmentInfo p df mf off =
    Some (p[6 := ((if df then 0x40 else 0) OR (if mf then 0x20 else 0)) OR
                 (of_nat (drop_bit 8 off) AND 0x1f),
            7 := of_nat off])"
  using assms
  by (simp add: IPv4_SetFragmentInfo_def list_update_swap [of 6 7])

lemma header_len_put16 [simp]: "0 < k \<Longrightarrow> header_len (put16 p k v) = header_len p"
  by (simp add: header_len_def put16_def)

lemma header_len_update [simp]: "0 < k \<Longrightarrow> header_len (p[k := v]) = header_len p"
  by (simp add: header_len_def)

lemma IPv4_Checksum_eq [go]:
  "0 < length p \<Longrightarrow> header_len p \<le> length p \<Longrightarrow>
     IPv4_Checksum p = Some (InternetChecksum (take (header_len p) p))"
  by (simp add: IPv4_Checksum_def IPv4_Header_eq)

definition with_ip_checksum :: "bytes \<Rightarrow> bytes" where
  "with_ip_checksum p =
     put16 p 10 (InternetChecksum (put16 (take (header_len p) p) 10 0))"

lemma IPv4_SetChecksum_eq [go]:
  assumes "20 \<le> length p" and "header_len p \<le> length p"
  shows "IPv4_SetChecksum p = Some (with_ip_checksum p)"
proof -
  have "IPv4_Checksum (put16 p 10 0) = Some (InternetChecksum (put16 (take (header_len p) p) 10 0))"
    using assms by (simp add: IPv4_Checksum_eq take_put16)
  then show ?thesis
    using assms
    by (simp add: IPv4_SetChecksum_def with_ip_checksum_def put16_def hi8_def lo8_def
        list_update_swap [of 10 11])
qed

lemma length_with_ip_checksum [simp]: "length (with_ip_checksum p) = length p"
  by (simp add: with_ip_checksum_def)

lemma header_len_with_ip_checksum [simp]: "header_len (with_ip_checksum p) = header_len p"
  by (simp add: with_ip_checksum_def)

lemma nth_with_ip_checksum:
  "i \<noteq> 10 \<Longrightarrow> i \<noteq> 11 \<Longrightarrow> with_ip_checksum p ! i = p ! i"
  by (simp add: with_ip_checksum_def put16_def)

lemma with_ip_checksum_idem [simp]: "with_ip_checksum (with_ip_checksum p) = with_ip_checksum p"
  by (simp add: with_ip_checksum_def take_put16)

lemma with_ip_checksum_valid:
  "IPv4_Valid p = Some True \<Longrightarrow> IPv4_Valid (with_ip_checksum p) = Some True"
  by (erule ip_valid_cong) (simp_all add: nth_with_ip_checksum)

lemma IPv4_Checksum_with_ip_checksum:
  assumes "20 \<le> header_len p" and "header_len p \<le> length p"
  shows "IPv4_Checksum (with_ip_checksum p) = Some 0"
proof -
  let ?h = "take (header_len p) p"
  have "InternetChecksum (put16 ?h 10 (InternetChecksum (put16 ?h 10 0))) = 0"
    by (rule InternetChecksum_set) (use assms header_len_le [of p] in auto)
  moreover have "take (header_len p) (with_ip_checksum p) =
      put16 ?h 10 (InternetChecksum (put16 ?h 10 0))"
    by (simp add: with_ip_checksum_def take_put16)
  moreover have "0 < length p" using assms by linarith
  ultimately show ?thesis
    using assms by (simp add: IPv4_Checksum_eq)
qed

lemma with_ip_checksum_cong:
  assumes "length q = length p" and "12 \<le> length p" and "\<And>i. i \<noteq> 10 \<Longrightarrow> i \<noteq> 11 \<Longrightarrow> i < length p \<Longrightarrow> q ! i = p ! i"
  shows "with_ip_checksum q = with_ip_checksum p"
proof -
  have "put16 q 10 0 = put16 p 10 0"
    by (rule nth_equalityI) (use assms in \<open>auto simp: nth_put16\<close>)
  moreover have "q ! 0 = p ! 0"
    by (rule assms(3)) (use assms(2) in linarith)+
  then have "header_len q = header_len p"
    by (simp add: header_len_def)
  ultimately show ?thesis
    by (metis with_ip_checksum_def put16_put16 take_put16)
qed

lemmas ip_ops = IPv4_Header_eq IPv4_Payload_eq IPv4_fields_eq IPv4_SetFragmentInfo_eq
  IPv4_Checksum_eq IPv4_SetChecksum_eq

interpretation ip: checksummed
  "\<lambda>p. IPv4_Valid p = Some True" IPv4_Checksum IPv4_SetChecksum
proof unfold_locales
  fix p assume v: "IPv4_Valid p = Some True"
  note len = ip_valid_length [OF v]
  show "\<exists>c. IPv4_Checksum p = Some c"
    using len by (auto simp: IPv4_Checksum_eq)
  show "\<exists>q. IPv4_SetChecksum p = Some q \<and> IPv4_Valid q = Some True \<and> length q = length p"
    using len v by (simp add: IPv4_SetChecksum_eq with_ip_checksum_valid)
  fix q assume "IPv4_SetChecksum p = Some q"
  then have q: "q = with_ip_checksum p" using len by (simp add: IPv4_SetChecksum_eq)
  show "IPv4_Checksum q = Some 0"
    using len by (simp add: q IPv4_Checksum_with_ip_checksum)
  show "IPv4_SetChecksum q = Some q"
    using len by (simp add: q IPv4_SetChecksum_eq)
qed

section \<open>The fragment field\<close>

lemma and_mask5: "w AND 0x1f = take_bit 5 (w :: byte)"
  by (simp add: take_bit_eq_mask mask_eq_exp_minus_1)

lemma frag_offset_bytes:
  "be_int (of_nat (drop_bit 8 off) AND 0x1f) (of_nat off) = off mod 8192"
proof -
  have "unat (of_nat (drop_bit 8 off) AND 0x1f :: byte) = off div 256 mod 32"
    unfolding and_mask5 unsigned_take_bit_eq
    by (simp add: unsigned_of_nat take_bit_eq_mod drop_bit_eq_div mod_mod_cancel)
  moreover have "unat (of_nat off :: byte) = off mod 256"
    by (simp add: unsigned_of_nat take_bit_eq_mod)
  moreover have "off mod 8192 = 256 * (off div 256 mod 32) + off mod 256"
    using mod_mult2_eq [of off 256 32] by simp
  ultimately show ?thesis by (simp only: be_int_eq)
qed

lemma frag_flag_bits:
  fixes w :: byte and df mf :: bool
  defines "b \<equiv> ((if df then 0x40 else 0) OR (if mf then 0x20 else 0)) OR (w AND 0x1f)"
  shows "b AND 0x40 \<noteq> 0 \<longleftrightarrow> df" and "b AND 0x20 \<noteq> 0 \<longleftrightarrow> mf" and "b AND 0x1f = w AND 0x1f"
  by (simp_all add: b_def bit.conj_disj_distrib2 and.assoc)

lemma IPv4_FragmentInfo_Set:
  assumes "20 \<le> length p" and "IPv4_SetFragmentInfo p df mf off = Some q"
  shows "IPv4_FragmentInfo q = Some (df, mf, off mod 8192)" and "length q = length p"
    and "i \<noteq> 6 \<Longrightarrow> i \<noteq> 7 \<Longrightarrow> q ! i = p ! i"
proof -
  have q: "q = p[6 := ((if df then 0x40 else 0) OR (if mf then 0x20 else 0)) OR
                 (of_nat (drop_bit 8 off) AND 0x1f), 7 := of_nat off]"
    using assms by (simp add: IPv4_SetFragmentInfo_eq)
  show "length q = length p" by (simp add: q)
  show "q ! i = p ! i" if "i \<noteq> 6" "i \<noteq> 7" using that by (simp add: q)
  show "IPv4_FragmentInfo q = Some (df, mf, off mod 8192)"
    using assms(1) by (simp only: q IPv4_fields_eq length_list_update)
      (simp add: frag_flag_bits frag_offset_bytes)
qed

section \<open>Building a packet\<close>

definition ipv4_header_bytes :: "u16 \<Rightarrow> byte \<Rightarrow> byte \<Rightarrow> bytes \<Rightarrow> bytes \<Rightarrow> bytes" where
  "ipv4_header_bytes len ttl proto src dst =
     [0x45, 0, hi8 len, lo8 len, 0, 0, 0, 0, ttl, proto, 0, 0] @ src @ dst"

lemma length_ipv4_header_bytes [simp]:
  "length (ipv4_header_bytes len ttl proto src dst) = 12 + length src + length dst"
  by (simp add: ipv4_header_bytes_def)

lemma replicate_20_plus:
  "replicate (20 + n) x = [x,x,x,x,x,x,x,x,x,x,x,x,x,x,x,x,x,x,x,x] @ replicate n x"
  by (simp add: numeral_eq_Suc)

lemma header_len_0x45 [simp]: "header_len (0x45 # xs) = 20"
  by (simp add: header_len_def)

lemma NewIPv4Packet_eq:
  assumes "To4 source = Some src" and "To4 dest = Some dst"
  shows "NewIPv4Packet ttl proto source dest payload =
    Some (with_ip_checksum (ipv4_header_bytes (of_nat (20 + length payload))
       (word_of_int ttl) (word_of_int proto) src dst) @ payload)"
proof -
  obtain s0 s1 s2 s3 d0 d1 d2 d3 where src: "src = [s0, s1, s2, s3]" and dst: "dst = [d0, d1, d2, d3]"
    using To4_length [OF assms(1)] To4_length [OF assms(2)] by (metis list4_eq)
  show ?thesis
    unfolding NewIPv4Packet_def replicate_20_plus
    using assms
    by (simp add: IPv4_fields_eq IPv4_SetSourceAddr_def IPv4_SetDestAddr_def put16_def
        copy_list_same_length IPv4_SetChecksum_eq with_ip_checksum_def ipv4_header_bytes_def
        copy_list_def src dst)
qed

lemma NewIPv4Packet_fields:
  assumes "To4 source = Some src" and "To4 dest = Some dst"
    and "NewIPv4Packet ttl proto source dest payload = Some p"
  shows "length p = 20 + length payload" and "header_len p = 20" and "p ! 0 = 0x45"
    and "be_int (p ! 2) (p ! 3) = length p mod 65536"
    and "IPv4_Payload p = Some payload"
    and "IPv4_SourceAddr p = Some src" and "IPv4_DestAddr p = Some dst"
    and "IPv4_TTL p = Some (ttl mod 256)" and "IPv4_Proto p = Some (proto mod 256)"
    and "IPv4_FragmentInfo p = Some (False, False, 0)"
    and "IPv4_Checksum p = Some 0"
proof -
  define h where "h = ipv4_header_bytes (of_nat (20 + length payload))
       (word_of_int ttl) (word_of_int proto) src dst"
  have src: "length src = 4" and dst: "length dst = 4"
    using assms(1,2) by (auto dest: To4_length)
  have p: "p = with_ip_checksum h @ payload"
    using assms by (simp add: NewIPv4Packet_eq h_def)
  have h_len: "length h = 20" "header_len h = 20"
    by (simp_all add: h_def src dst) (simp add: ipv4_header_bytes_def)
  have nth: "p ! i = h ! i" if "i < 20" "i \<noteq> 10" "i \<noteq> 11" for i
    using that h_len by (simp add: p nth_append nth_with_ip_checksum)
  show len: "length p = 20 + length payload" by (simp add: p h_len)
  show p0: "p ! 0 = 0x45" by (simp add: nth h_def ipv4_header_bytes_def)
  show hl: "header_len p = 20" by (simp add: header_len_def p0)
  show "be_int (p ! 2) (p ! 3) = length p mod 65536"
    by (simp add: nth len h_def ipv4_header_bytes_def unat_of_nat_u16 del: of_nat_add)
  show "IPv4_Payload p = Some payload"
    using len hl h_len by (simp add: IPv4_Payload_eq) (simp add: p h_len)
  have "drop 12 (with_ip_checksum h) = src @ dst" "drop 16 (with_ip_checksum h) = dst"
    by (simp_all add: with_ip_checksum_def) (simp_all add: h_def ipv4_header_bytes_def src)
  then show "IPv4_SourceAddr p = Some src" "IPv4_DestAddr p = Some dst"
    using len by (simp_all add: IPv4_fields_eq) (simp_all add: p h_len src dst)
  show "IPv4_TTL p = Some (ttl mod 256)" "IPv4_Proto p = Some (proto mod 256)"
    "IPv4_FragmentInfo p = Some (False, False, 0)"
    using len by (simp_all add: IPv4_fields_eq nth)
      (simp_all add: h_def ipv4_header_bytes_def uint_word_of_int be_int_def)
  have "IPv4_Checksum (with_ip_checksum h) = Some 0"
    by (rule IPv4_Checksum_with_ip_checksum) (simp_all add: h_len)
  then show "IPv4_Checksum p = Some 0"
    using len hl h_len by (simp add: IPv4_Checksum_eq) (simp add: p h_len)
qed

lemma NewIPv4Packet_Some:
  assumes "To4 source = Some src" and "To4 dest = Some dst"
  obtains p where "NewIPv4Packet ttl proto source dest payload = Some p"
  using NewIPv4Packet_eq [OF assms] by blast

lemma NewIPv4Packet_valid_iff:
  assumes "To4 source = Some src" and "To4 dest = Some dst"
    and "NewIPv4Packet ttl proto source dest payload = Some p"
  shows "IPv4_Valid p = Some True \<longleftrightarrow> length payload \<le> 65515"
proof -
  note f = NewIPv4Packet_fields(1-4) [OF assms]
  have "IPv4_Valid p = Some True \<longleftrightarrow> length p mod 65536 = length p"
    by (simp only: ip_valid_iff f) simp
  also have "\<dots> \<longleftrightarrow> length p < 65536"
    by (metis mod_less mod_less_divisor zero_less_numeral)
  finally show ?thesis using f(1) by auto
qed

section \<open>Identifiers\<close>

text \<open>A run of \<open>AddIPv4Identifiers\<close> over the packets sent, in order, and the packets
  that come out.\<close>

fun identify_all :: "u16 \<Rightarrow> bytes list \<Rightarrow> bytes option list go" where
  "identify_all curId [] = Some []"
| "identify_all curId (packet # packets) = do {
     (curId, out) \<leftarrow> AddIPv4Identifiers curId packet;
     outs \<leftarrow> identify_all curId packets;
     Some (out # outs)
   }"

lemma AddIPv4Identifiers_eq:
  assumes "IPv4_Valid p = Some True"
  shows "AddIPv4Identifiers curId p =
    Some (curId + 1,
      if p ! 6 AND 0x20 \<noteq> 0 \<or> be_int (p ! 6 AND 0x1f) (p ! 7) \<noteq> 0 then None
      else Some (with_ip_checksum (put16 p 4 curId)))"
  using ip_valid_length [OF assms]
  by (simp add: AddIPv4Identifiers_def IPv4_fields_eq IPv4_SetChecksum_eq)

lemma identify_all_nth:
  assumes "\<forall>p \<in> set packets. IPv4_Valid p = Some True"
  shows "\<exists>outs. identify_all curId packets = Some outs \<and> length outs = length packets \<and>
    (\<forall>k < length packets. \<forall>q. outs ! k = Some q \<longrightarrow>
       q = with_ip_checksum (put16 (packets ! k) 4 (curId + of_nat k)))"
  using assms
proof (induction packets arbitrary: curId)
  case (Cons p packets)
  obtain outs where outs: "identify_all (curId + 1) packets = Some outs"
    "length outs = length packets"
    "\<And>k q. k < length packets \<Longrightarrow> outs ! k = Some q \<Longrightarrow>
       q = with_ip_checksum (put16 (packets ! k) 4 (curId + 1 + of_nat k))"
    using Cons.IH [of "curId + 1"] Cons.prems by auto
  show ?case
    using Cons.prems outs
    by (auto simp: AddIPv4Identifiers_eq nth_Cons add.assoc split: nat.splits if_splits)
qed simp

lemma identified_packet:
  assumes "IPv4_Valid p = Some True"
  shows "IPv4_Valid (with_ip_checksum (put16 p 4 v)) = Some True"
    and "IPv4_Identification (with_ip_checksum (put16 p 4 v)) = Some v"
    and "IPv4_Checksum (with_ip_checksum (put16 p 4 v)) = Some 0"
proof -
  note len = ip_valid_length [OF assms]
  have "IPv4_Valid (put16 p 4 v) = Some True"
    using len by (intro ip_valid_cong [OF assms]) (simp_all add: nth_put16)
  then show "IPv4_Valid (with_ip_checksum (put16 p 4 v)) = Some True"
    by (rule with_ip_checksum_valid)
  show "IPv4_Identification (with_ip_checksum (put16 p 4 v)) = Some v"
    using len by (simp add: IPv4_fields_eq nth_with_ip_checksum nth_put16)
  show "IPv4_Checksum (with_ip_checksum (put16 p 4 v)) = Some 0"
    using len by (intro IPv4_Checksum_with_ip_checksum) simp_all
qed

lemma of_nat_u16_inj:
  assumes "i < 65536" and "j < 65536" and "(of_nat i :: u16) = of_nat j"
  shows "i = j"
proof -
  have "unat (of_nat i :: u16) = i" "unat (of_nat j :: u16) = j"
    using assms(1,2) by (simp_all add: unsigned_of_nat take_bit_eq_mod)
  with assms(3) show ?thesis by metis
qed

section \<open>Properties\<close>

text \<open>A header without a payload, for the examples.\<close>

definition bare_packet :: bytes where
  "bare_packet = [0x45, 0, 0, 20, 0, 0, 0, 0, 0, 0, 0, 0, 0, 0, 0, 0, 0, 0, 0, 0]"

lemma bare_packet_facts:
  "IPv4_Valid bare_packet = Some True" "bare_packet ! 6 = 0" "bare_packet ! 7 = 0"
  by (simp_all add: bare_packet_def ip_valid_iff be_int_eq)

text \<open>\<open>NewIPv4Packet\<close> never panics for IPv4 addresses (of 4 or 16 bytes), and for a payload
  of at most 65515 bytes the packet is valid, has a correct checksum, is not a fragment, and
  its getters return what it was built from (TTL and protocol modulo 256).  For a longer
  payload the 16-bit length field wraps and the packet is not valid.\<close>

theorem new_ipv4_packet_roundtrip:
  assumes "To4 source = Some src" and "To4 dest = Some dst"
  shows "\<exists>p. NewIPv4Packet ttl proto source dest payload = Some p \<and>
    IPv4_Valid p = Some (length payload \<le> 65515) \<and> IPv4_Checksum p = Some 0 \<and>
    IPv4_Payload p = Some payload \<and> IPv4_SourceAddr p = Some src \<and> IPv4_DestAddr p = Some dst \<and>
    IPv4_TTL p = Some (ttl mod 256) \<and> IPv4_Proto p = Some (proto mod 256) \<and>
    IPv4_FragmentInfo p = Some (False, False, 0)"
proof -
  obtain p where p: "NewIPv4Packet ttl proto source dest payload = Some p"
    using NewIPv4Packet_Some [OF assms] .
  have "IPv4_Valid p = Some (length payload \<le> 65515)"
    using NewIPv4Packet_valid_iff [OF assms p] by (auto simp: IPv4_Valid_eq)
  with p NewIPv4Packet_fields [OF assms p] show ?thesis by blast
qed

theorem new_ipv4_packet_roundtrip_witness:
  "\<exists>p. NewIPv4Packet 64 17 [10, 0, 0, 1] (v4_in_v6_prefix @ [10, 0, 0, 2]) [1, 2, 3] = Some p \<and>
     IPv4_Valid p = Some True \<and> IPv4_Payload p = Some [1, 2, 3] \<and>
     IPv4_DestAddr p = Some [10, 0, 0, 2]"
proof -
  have a: "To4 [10, 0, 0, 1] = Some [10, 0, 0, 1]"
    "To4 (v4_in_v6_prefix @ [10, 0, 0, 2]) = Some [10, 0, 0, 2]"
    by (simp_all add: To4_def v4_in_v6_prefix_def)
  show ?thesis using new_ipv4_packet_roundtrip [OF a, of 64 17 "[1, 2, 3]"] by auto
qed

text \<open>\<open>FragmentInfo\<close> returns what \<open>SetFragmentInfo\<close> stored (the offset modulo its 13 bits),
  and no byte outside the fragment field changes.\<close>

theorem fragment_info_roundtrip:
  assumes "20 \<le> length p"
  shows "\<exists>q. IPv4_SetFragmentInfo p df mf off = Some q \<and> length q = length p \<and>
    IPv4_FragmentInfo q = Some (df, mf, off mod 8192) \<and> (\<forall>i. i \<notin> {6, 7} \<longrightarrow> q ! i = p ! i)"
proof -
  obtain q where q: "IPv4_SetFragmentInfo p df mf off = Some q"
    using assms by (simp add: IPv4_SetFragmentInfo_eq)
  then show ?thesis using IPv4_FragmentInfo_Set [OF assms q] by auto
qed

theorem fragment_info_roundtrip_witness:
  "\<exists>q. IPv4_SetFragmentInfo (replicate 20 0xff) False True 8191 = Some q \<and>
     IPv4_FragmentInfo q = Some (False, True, 8191)"
  using fragment_info_roundtrip [of "replicate 20 0xff" False True 8191] by auto

text \<open>The header checksum protects the header: on a valid packet \<open>SetChecksum\<close> does not panic,
  \<open>FilterIPv4Checksums\<close> passes the result, and drops it after any change of one header byte
  other than the first (which holds the header length).\<close>

theorem ipv4_checksum_protects_header:
  assumes "IPv4_Valid p = Some True"
  shows "\<exists>q. IPv4_SetChecksum p = Some q \<and> FilterIPv4Checksums q = Some (Some q) \<and>
    (\<forall>i b. 0 < i \<longrightarrow> i < header_len p \<longrightarrow> b \<noteq> q ! i \<longrightarrow> FilterIPv4Checksums (q[i := b]) = Some None)"
proof -
  obtain q where q: "IPv4_SetChecksum p = Some q" "IPv4_Valid q = Some True"
    "checksum_filter IPv4_Checksum q = Some (Some q)"
    using ip.filter_accepts_set [OF assms] by blast
  note len = ip_valid_length [OF assms] and qlen = ip_valid_length [OF q(2)]
  have hl: "header_len q = header_len p" using q(1) len by (simp add: IPv4_SetChecksum_eq) auto
  have "InternetChecksum (take (header_len q) q) = 0"
    using q(3) qlen by (auto simp: checksum_filter_def IPv4_Checksum_eq split: if_splits)
  then have "InternetChecksum ((take (header_len q) q)[i := b]) \<noteq> 0"
    if "i < header_len p" "b \<noteq> q ! i" for i b
    using that hl qlen header_len_le [of q] by (intro InternetChecksum_detects) auto
  then have "FilterIPv4Checksums (q[i := b]) = Some None"
    if "0 < i" "i < header_len p" "b \<noteq> q ! i" for i b
    using that hl qlen
    by (simp add: FilterIPv4Checksums_def checksum_filter_def IPv4_Checksum_eq take_update_swap)
  then show ?thesis using q by (auto simp: FilterIPv4Checksums_def)
qed

theorem ipv4_checksum_protects_header_witness:
  "\<exists>q. IPv4_SetChecksum bare_packet = Some q \<and> FilterIPv4Checksums q = Some (Some q)"
  using ipv4_checksum_protects_header [OF bare_packet_facts(1)] by auto

text \<open>\<open>AddIPv4Identifiers\<close> gives the packets it lets through pairwise different
  identifications within any 65536 consecutive packets, and each of them is valid with a
  correct checksum.\<close>

theorem identifiers_distinct:
  assumes "\<forall>p \<in> set packets. IPv4_Valid p = Some True" and "length packets \<le> 65536"
    and "identify_all curId packets = Some outs"
    and "i < j" and "j < length packets" and "outs ! i = Some p" and "outs ! j = Some q"
  shows "IPv4_Identification p \<noteq> IPv4_Identification q \<and> IPv4_Valid p = Some True \<and>
    IPv4_Checksum p = Some 0"
proof -
  have out: "r = with_ip_checksum (put16 (packets ! k) 4 (curId + of_nat k))"
    "IPv4_Valid (packets ! k) = Some True" if "k < length packets" "outs ! k = Some r" for k r
    using identify_all_nth [OF assms(1), of curId] assms(1,3) that by auto
  have "(of_nat i :: u16) \<noteq> of_nat j"
    using of_nat_u16_inj [of i j] assms(2,4,5) by auto
  then show ?thesis
    using out [of i p] out [of j q] assms(4-7) identified_packet by auto
qed

theorem identifiers_distinct_witness:
  "\<exists>p q. identify_all 0xffff [bare_packet, bare_packet] = Some [Some p, Some q] \<and>
     IPv4_Identification p \<noteq> IPv4_Identification q"
proof -
  obtain p q where run: "identify_all 0xffff [bare_packet, bare_packet] = Some [Some p, Some q]"
    by (simp add: AddIPv4Identifiers_eq bare_packet_facts be_int_def)
  have "IPv4_Identification p \<noteq> IPv4_Identification q"
    using identifiers_distinct [OF _ _ run, of 0 1 p q] bare_packet_facts(1) by simp
  with run show ?thesis by blast
qed

end
