(* ===== verification/IP_Frag.thy ===== *)
theory IP_Frag
  imports IPv4
begin

text \<open>
  \<open>ipstack/ip_frag.go\<close>: fragmentation of outgoing packets (\<open>ipv4Fragmenter\<close>) and
  reassembly of incoming ones (\<open>ipv4Defragmenter\<close>).  \<open>essentials.MinInt\<close> and
  \<open>essentials.OrderedDelete\<close> are not part of the repository: they are the parameters
  \<open>minInt\<close> and \<open>orderedDelete\<close>, with their documented behaviour as the hypotheses
  \<open>min_int_spec\<close> and \<open>ordered_delete_spec\<close>.  The clock is an argument too: each call of
  \<open>time.Now()\<close> is one integer, in nanoseconds.
\<close>

section \<open>Fragmenting\<close>

text \<open>The loop of \<open>fragments\<close>.  What its result \<open>None\<close> covers is a panic (of a slice
  expression) or a loop that never ends, which \<open>minInt\<close> could cause by returning 0.\<close>

partial_function (option) fragment_loop ::
  "(int \<Rightarrow> int \<Rightarrow> int) \<Rightarrow> bytes \<Rightarrow> bytes \<Rightarrow> int \<Rightarrow> int \<Rightarrow> bytes list \<Rightarrow> bytes list option" where
  "fragment_loop minInt header payload maxPayload offset packets =
     (if int (length payload) - offset > 0 then do {
        let chunkSize = minInt maxPayload (int (length payload) - offset);
        chunk \<leftarrow> slice_int payload offset (offset + chunkSize);
        next \<leftarrow> IPv4_SetFragmentInfo (header @ chunk) False
                  (chunkSize + offset < int (length payload)) (nat (drop_bit 3 offset));
        next \<leftarrow> IPv4_SetTotalLength next;
        next \<leftarrow> IPv4_SetChecksum next;
        fragment_loop minInt header payload maxPayload (offset + chunkSize) (packets @ [next])
      }
      else Some packets)"

definition fragments :: "(int \<Rightarrow> int \<Rightarrow> int) \<Rightarrow> int \<Rightarrow> bytes \<Rightarrow> bytes list go" where
  "fragments minInt mtu packet =
     (if int (length packet) < mtu then Some [packet]
      else do {
        header \<leftarrow> IPv4_Header packet;
        payload \<leftarrow> IPv4_Payload packet;
        (dontFrag, more, existingOffset) \<leftarrow> IPv4_FragmentInfo packet;
        if dontFrag then Some []
        else if more \<or> existingOffset \<noteq> 0 then Some []
        else do {
          let maxPayload = mtu - int (length header);
          let maxPayload = maxPayload XOR (maxPayload AND 7);
          if maxPayload = 0 then Some []
          else fragment_loop minInt header payload maxPayload 0 []
        }
      })"

section \<open>Reassembling\<close>

record ipv4Reconstruction =
  DropTime :: int
  Identification :: u16
  Source :: bytes
  Fragments :: "bytes list"

record ipv4Defragmenter =
  timeout :: int
  reconstructions :: "ipv4Reconstruction list"

text \<open>\<open>AddFragment\<close>: the insertion appends a nil slot and moves the tail up by one.\<close>

definition AddFragment :: "ipv4Reconstruction \<Rightarrow> bytes \<Rightarrow> ipv4Reconstruction go" where
  "AddFragment i p = do {
     (df, mf, off) \<leftarrow> IPv4_FragmentInfo p;
     k \<leftarrow> sort_Search (length (Fragments i)) (\<lambda>k. do {
            f \<leftarrow> idx (Fragments i) k;
            (df1, mf1, off1) \<leftarrow> IPv4_FragmentInfo f;
            Some (off < off1)
          });
     if k = length (Fragments i) then Some (i\<lparr>Fragments := Fragments i @ [p]\<rparr>)
     else do {
       f \<leftarrow> idx (Fragments i) k;
       (df1, mf1, off1) \<leftarrow> IPv4_FragmentInfo f;
       if off1 = off then Some i
       else do {
         let fs = Fragments i @ [[]];
         fs \<leftarrow> copy_slice fs (k + 1) (length fs) (drop k fs);
         fs \<leftarrow> upd fs k p;
         Some (i\<lparr>Fragments := fs\<rparr>)
       }
     }
   }"

fun ready_loop :: "nat \<Rightarrow> bytes list \<Rightarrow> bool go" where
  "ready_loop nextOff [] = Some True"
| "ready_loop nextOff (frag # frags) = do {
     (df, mf, off) \<leftarrow> IPv4_FragmentInfo frag;
     if push_bit 3 off \<noteq> nextOff then Some False
     else do {
       payload \<leftarrow> IPv4_Payload frag;
       ready_loop (nextOff + length payload) frags
     }
   }"

definition Ready :: "ipv4Reconstruction \<Rightarrow> bool go" where
  "Ready i = do {
     lst \<leftarrow> idx (Fragments i) (length (Fragments i) - 1);
     (df, more, off) \<leftarrow> IPv4_FragmentInfo lst;
     if more then Some False else ready_loop 0 (Fragments i)
   }"

fun append_payloads :: "bytes \<Rightarrow> bytes list \<Rightarrow> bytes go" where
  "append_payloads packet [] = Some packet"
| "append_payloads packet (frag # frags) = do {
     payload \<leftarrow> IPv4_Payload frag;
     append_payloads (packet @ payload) frags
   }"

definition Reassemble :: "ipv4Reconstruction \<Rightarrow> bytes go" where
  "Reassemble i = do {
     f0 \<leftarrow> idx (Fragments i) 0;
     packet \<leftarrow> IPv4_Header f0;
     packet \<leftarrow> append_payloads packet (Fragments i);
     packet \<leftarrow> IPv4_SetFragmentInfo packet False False 0;
     packet \<leftarrow> IPv4_SetTotalLength packet;
     IPv4_SetChecksum packet
   }"

text \<open>\<open>dropOld\<close>, whose loop index stays where it is after a deletion.\<close>

partial_function (option) drop_old_loop ::
  "(ipv4Reconstruction list \<Rightarrow> nat \<Rightarrow> ipv4Reconstruction list) \<Rightarrow> int \<Rightarrow> nat \<Rightarrow>
     ipv4Reconstruction list \<Rightarrow> ipv4Reconstruction list option" where
  "drop_old_loop orderedDelete curTime j recons =
     (if j < length recons then
        (if curTime \<ge> DropTime (recons ! j)
         then drop_old_loop orderedDelete curTime j (orderedDelete recons j)
         else drop_old_loop orderedDelete curTime (Suc j) recons)
      else Some recons)"

text \<open>The scan of \<open>AddPacket\<close>: the index of the first reconstruction with the packet's
  identification and source.\<close>

fun find_recon :: "u16 \<Rightarrow> bytes \<Rightarrow> ipv4Reconstruction list \<Rightarrow> nat option" where
  "find_recon ident source [] = None"
| "find_recon ident source (recon # recons) =
     (if Identification recon = ident \<and> source = Source recon then Some 0
      else map_option Suc (find_recon ident source recons))"

definition AddPacket ::
  "(ipv4Reconstruction list \<Rightarrow> nat \<Rightarrow> ipv4Reconstruction list) \<Rightarrow> int \<Rightarrow> int \<Rightarrow>
     ipv4Defragmenter \<Rightarrow> bytes \<Rightarrow> (ipv4Defragmenter \<times> bytes option) go" where
  "AddPacket orderedDelete now1 now2 i p = do {
     recons \<leftarrow> drop_old_loop orderedDelete now1 0 (reconstructions i);
     source \<leftarrow> IPv4_SourceAddr p;
     ident \<leftarrow> IPv4_Identification p;
     case find_recon ident source recons of
       Some j \<Rightarrow> do {
         recon \<leftarrow> AddFragment (recons ! j) p;
         ready \<leftarrow> Ready recon;
         if ready then do {
           packet \<leftarrow> Reassemble recon;
           Some (i\<lparr>reconstructions := orderedDelete (recons[j := recon]) j\<rparr>, Some packet)
         }
         else Some (i\<lparr>reconstructions := recons[j := recon]\<rparr>, None)
       }
     | None \<Rightarrow>
         Some (i\<lparr>reconstructions := recons @
           [\<lparr>DropTime = now2 + timeout i, Identification = ident, Source = source,
             Fragments = [p]\<rparr>]\<rparr>, None)
   }"

text \<open>The incoming \<open>FilterFunc\<close> of \<open>DefragmentIncomingIPv4\<close>, with its state.\<close>

definition DefragmentIncomingIPv4 ::
  "(ipv4Reconstruction list \<Rightarrow> nat \<Rightarrow> ipv4Reconstruction list) \<Rightarrow> int \<Rightarrow> int \<Rightarrow>
     ipv4Defragmenter \<Rightarrow> bytes \<Rightarrow> (ipv4Defragmenter \<times> bytes option) go" where
  "DefragmentIncomingIPv4 orderedDelete now1 now2 defrag packet = do {
     (df, more, offset) \<leftarrow> IPv4_FragmentInfo packet;
     if more \<or> offset \<noteq> 0 then AddPacket orderedDelete now1 now2 defrag packet
     else Some (defrag, Some packet)
   }"

definition new_defragmenter :: "int \<Rightarrow> ipv4Defragmenter" where
  "new_defragmenter t =
     \<lparr>timeout = (if t = 0 then 1000000000 else t), reconstructions = []\<rparr>"

section \<open>What the code relies on\<close>

definition min_int_spec :: "(int \<Rightarrow> int \<Rightarrow> int) \<Rightarrow> bool" where
  "min_int_spec minInt \<longleftrightarrow> (\<forall>a b. minInt a b = min a b)"

definition ordered_delete_spec :: "('a list \<Rightarrow> nat \<Rightarrow> 'a list) \<Rightarrow> bool" where
  "ordered_delete_spec orderedDelete \<longleftrightarrow>
     (\<forall>xs i. i < length xs \<longrightarrow> orderedDelete xs i = take i xs @ drop (Suc i) xs)"

section \<open>What a packet says about itself\<close>

definition frag_more :: "bytes \<Rightarrow> bool" where
  "frag_more p \<longleftrightarrow> p ! 6 AND 0x20 \<noteq> 0"

definition frag_off :: "bytes \<Rightarrow> nat" where
  "frag_off p = be_int (p ! 6 AND 0x1f) (p ! 7)"

definition payload_of :: "bytes \<Rightarrow> bytes" where
  "payload_of p = drop (header_len p) p"

text \<open>Long enough that no field access panics.\<close>

definition readable :: "bytes \<Rightarrow> bool" where
  "readable p \<longleftrightarrow> 20 \<le> length p \<and> 20 \<le> header_len p \<and> header_len p \<le> length p"

lemma readable_ops [go]:
  assumes "readable p"
  shows "IPv4_FragmentInfo p = Some (p ! 6 AND 0x40 \<noteq> 0, frag_more p, frag_off p)"
    and "IPv4_Payload p = Some (payload_of p)"
    and "IPv4_Header p = Some (take (header_len p) p)"
    and "IPv4_SourceAddr p = Some (take 4 (drop 12 p))"
    and "IPv4_Identification p = Some (be16 (p ! 4) (p ! 5))"
  using assms
  by (simp_all add: readable_def ip_ops frag_more_def frag_off_def payload_of_def)

lemma valid_readable: "IPv4_Valid p = Some True \<Longrightarrow> readable p"
  using ip_valid_length [of p] by (simp add: readable_def)

section \<open>Fragmenting: the chunks of the payload\<close>

lemma xor_and_7: "x XOR (x AND 7) = 8 * (x div 8)" for x :: int
proof -
  have "x XOR (x AND mask 3) = push_bit 3 (drop_bit 3 x)"
    by (rule bit_eqI) (auto simp: bit_simps)
  then show ?thesis
    by (simp add: push_bit_eq_mult drop_bit_eq_div mask_eq_exp_minus_1)
qed

function frag_chunks :: "nat \<Rightarrow> nat \<Rightarrow> bytes \<Rightarrow> (nat \<times> bytes) list" where
  "frag_chunks c off xs =
     (if xs = [] \<or> c = 0 then []
      else (off, take c xs) # frag_chunks c (off + c) (drop c xs))"
  by pat_completeness auto
termination
  by (relation "measure (\<lambda>(c, off, xs). length xs)") auto

declare frag_chunks.simps [simp del]

definition set_frag :: "bytes \<Rightarrow> bool \<Rightarrow> nat \<Rightarrow> bytes" where
  "set_frag p mf off =
     p[6 := (if mf then 0x20 else 0) OR (of_nat (drop_bit 8 off) AND 0x1f), 7 := of_nat off]"

lemma IPv4_SetFragmentInfo_set_frag:
  "20 \<le> length p \<Longrightarrow> IPv4_SetFragmentInfo p False mf off = Some (set_frag p mf off)"
  by (simp add: IPv4_SetFragmentInfo_eq set_frag_def)

lemma length_set_frag [simp]: "length (set_frag p mf off) = length p"
  by (simp add: set_frag_def)

lemma header_len_set_frag [simp]: "header_len (set_frag p mf off) = header_len p"
  by (simp add: set_frag_def)

definition mk_frag :: "bytes \<Rightarrow> nat \<Rightarrow> nat \<times> bytes \<Rightarrow> bytes" where
  "mk_frag header len oc =
     (let next = header @ snd oc
      in with_ip_checksum (put16 (set_frag next (fst oc + length (snd oc) < len) (fst oc div 8))
           2 (of_nat (length next))))"

lemma fragment_loop_eq:
  assumes mi: "min_int_spec minInt" and c: "0 < c"
    and h: "20 \<le> length header" "header_len header = length header"
    and "off \<le> length payload"
  shows "fragment_loop minInt header payload (int c) (int off) packets =
    Some (packets @ map (mk_frag header (length payload)) (frag_chunks c off (drop off payload)))"
  using assms(5)
proof (induction "length payload - off" arbitrary: off packets rule: less_induct)
  case less
  show ?case
  proof (cases "off < length payload")
    case False
    then show ?thesis
      using less.prems by (simp add: fragment_loop.simps frag_chunks.simps)
  next
    case True
    define n where "n = min c (length payload - off)"
    have n: "0 < n" "off + n \<le> length payload" using True c by (auto simp: n_def)
    have minInt: "minInt (int c) (int (length payload) - int off) = int n"
      using mi True by (simp add: min_int_spec_def n_def of_nat_min of_nat_diff)
    define chunk where "chunk = take c (drop off payload)"
    have chunk: "take n (drop off payload) = chunk" "length chunk = n"
      by (auto simp: n_def chunk_def min_def)
    have hl: "header_len (header @ chunk) = length header"
      using h by (simp add: header_len_def nth_append split: if_splits) 
    have IH: "fragment_loop minInt header payload (int c) (int (off + n)) ps =
        Some (ps @ map (mk_frag header (length payload))
           (frag_chunks c (off + n) (drop (off + n) payload)))" for ps
      using n by (intro less.hyps) auto
    have step: "frag_chunks c (off + c) (drop (off + c) payload) =
        frag_chunks c (off + n) (drop (off + n) payload)"
      using n by (cases "n = c") (auto simp: n_def min_def frag_chunks.simps)
    have chunks: "frag_chunks c off (drop off payload) =
        (off, chunk) # frag_chunks c (off + n) (drop (off + n) payload)"
      using True c step by (simp add: frag_chunks.simps [of c off] chunk_def add.commute)
    have off8: "nat (drop_bit 3 (int off)) = off div 8"
      by (simp add: drop_bit_eq_div nat_div_distrib)
    have sl: "slice_int payload (int off) (int off + int n) = Some chunk"
      using n chunk by (simp add: slice_int_def nat_add_distrib)
    have "fragment_loop minInt header payload (int c) (int off) packets =
      fragment_loop minInt header payload (int c) (int (off + n))
        (packets @ [mk_frag header (length payload) (off, chunk)])"
      using True h hl sl minInt
      by (subst fragment_loop.simps)
        (simp add: IPv4_SetFragmentInfo_set_frag IPv4_fields_eq IPv4_SetChecksum_eq off8
          mk_frag_def Let_def chunk add.commute del: of_nat_add flip: of_nat_add)
    then show ?thesis by (simp only: IH chunks) simp
  qed
qed

lemma mk_frag_facts:
  assumes v: "IPv4_Valid p = Some True"
    and f: "f = mk_frag (take (header_len p) p) len (off, chunk)"
    and bound: "header_len p + length chunk \<le> 65535" "off < 65536" "8 dvd off"
  shows "length f = header_len p + length chunk" and "header_len f = header_len p"
    and "IPv4_Valid f = Some True" and "IPv4_Checksum f = Some 0"
    and "payload_of f = chunk"
    and "frag_off f = off div 8" and "frag_more f \<longleftrightarrow> off + length chunk < len"
    and "p ! 6 AND 0x40 = 0 \<Longrightarrow> f ! 6 AND 0x40 = 0"
    and "i < header_len p \<Longrightarrow> i \<notin> {2, 3, 6, 7, 10, 11} \<Longrightarrow> f ! i = p ! i"
proof -
  note len = ip_valid_length [OF v]
  define q where "q = take (header_len p) p @ chunk"
  define g where "g = put16 (set_frag q (off + length chunk < len) (off div 8)) 2 (of_nat (length q))"
  have f: "f = with_ip_checksum g" by (simp add: f mk_frag_def q_def g_def Let_def)
  have ql: "length q = header_len p + length chunk" using len by (simp add: q_def min_absorb2)
  have q_nth: "q ! i = p ! i" if "i < header_len p" for i
    using that len by (simp add: q_def nth_append)
  have gl: "length g = length q" by (simp add: g_def)
  have gh: "header_len g = header_len p"
    using q_nth [of 0] len by (simp add: g_def header_len_def [of q] header_len_def [of p])
  have g_nth: "g ! i = q ! i" if "i \<notin> {2, 3, 6, 7}" for i
    using that by (simp add: g_def put16_def set_frag_def)
  show "length f = header_len p + length chunk" by (simp add: f gl ql)
  show "header_len f = header_len p" by (simp add: f gh)
  show "f ! i = p ! i" if "i < header_len p" "i \<notin> {2, 3, 6, 7, 10, 11}"
    using that by (simp add: f nth_with_ip_checksum g_nth q_nth)
  have "g ! 2 = hi8 (of_nat (length q))" "g ! 3 = lo8 (of_nat (length q))"
    using len by (simp_all add: g_def nth_put16 ql)
  then have "IPv4_Valid g = Some True"
    using v len bound(1) g_nth [of 0] q_nth [of 0] ql
    by (simp add: ip_valid_iff gl gh unat_of_nat_u16 del: of_nat_add)
  then show "IPv4_Valid f = Some True" by (simp add: f with_ip_checksum_valid)
  show "IPv4_Checksum f = Some 0"
    unfolding f by (rule IPv4_Checksum_with_ip_checksum) (use len gl ql gh in simp_all)
  have "payload_of f = drop (header_len p) (with_ip_checksum g)"
    by (simp add: payload_of_def f gh)
  also have "\<dots> = drop (header_len p) g"
    using len by (simp add: with_ip_checksum_def)
  also have "\<dots> = drop (header_len p) q"
    using len by (simp add: g_def set_frag_def)
  finally show "payload_of f = chunk" using len by (simp add: q_def)
  have info: "IPv4_FragmentInfo f = Some (False, off + length chunk < len, off div 8)"
  proof -
    have l: "20 \<le> length q" using len ql by linarith
    have "IPv4_FragmentInfo (set_frag q (off + length chunk < len) (off div 8)) =
        Some (False, off + length chunk < len, off div 8 mod 8192)"
      using l IPv4_SetFragmentInfo_set_frag [OF l] by (intro IPv4_FragmentInfo_Set(1)) auto
    then show ?thesis
      using l bound
      by (simp add: f gl ip_ops nth_with_ip_checksum g_def put16_def)
  qed
  have "20 \<le> length f" using len gl ql f by simp
  then show "frag_off f = off div 8" "frag_more f \<longleftrightarrow> off + length chunk < len"
    "f ! 6 AND 0x40 = 0"
    using info by (simp_all add: ip_ops frag_off_def frag_more_def)
qed

section \<open>Fragment sequences\<close>

text \<open>\<open>contig off F\<close>: the fragments \<open>F\<close> cover the payload from offset \<open>off\<close> to its end,
  in order, without gaps, and only the last one says that no more follow.\<close>

fun contig :: "nat \<Rightarrow> bytes list \<Rightarrow> bool" where
  "contig off [] \<longleftrightarrow> True"
| "contig off (f # F) \<longleftrightarrow>
     readable f \<and> 8 * frag_off f = off \<and> payload_of f \<noteq> [] \<and> (frag_more f \<longleftrightarrow> F \<noteq> []) \<and>
     contig (off + length (payload_of f)) F"

lemma contig_readable: "contig off F \<Longrightarrow> f \<in> set F \<Longrightarrow> readable f \<and> payload_of f \<noteq> []"
  by (induction F arbitrary: off) auto

lemma contig_off_ge: "contig off F \<Longrightarrow> f \<in> set F \<Longrightarrow> off \<le> 8 * frag_off f"
  by (induction F arbitrary: off) (auto, fastforce)

lemma contig_off_gt:
  "contig off (f # F) \<Longrightarrow> g \<in> set F \<Longrightarrow> frag_off f < frag_off g"
  using contig_off_ge [of "off + length (payload_of f)" F g]
  by (cases "payload_of f") auto

lemma contig_sorted: "contig off F \<Longrightarrow> sorted (map frag_off F) \<and> distinct (map frag_off F)"
proof (induction F arbitrary: off)
  case (Cons f F)
  then show ?case using contig_off_gt [OF Cons.prems] by (fastforce simp: less_imp_le)
qed simp

lemma contig_last: "contig off F \<Longrightarrow> F \<noteq> [] \<Longrightarrow> \<not> frag_more (last F)"
  by (induction F arbitrary: off) auto

lemma ready_loop_contig: "contig off F \<Longrightarrow> ready_loop off F = Some True"
  by (induction F arbitrary: off) (simp_all add: readable_ops push_bit_eq_mult mult.commute)

lemma ready_loop_total: "\<forall>f \<in> set fs. readable f \<Longrightarrow> \<exists>b. ready_loop off fs = Some b"
  by (induction fs arbitrary: off) (auto simp: readable_ops)

text \<open>The fragments received so far are only complete when they are all there.\<close>

lemma ready_loop_complete:
  assumes "contig off F" and "set fs \<subseteq> set F" and "distinct fs" and "fs \<noteq> []"
    and "ready_loop off fs = Some True" and "\<not> frag_more (last fs)"
  shows "fs = F"
  using assms
proof (induction F arbitrary: off fs)
  case (Cons f F)
  obtain g gs where fs: "fs = g # gs" using Cons.prems(4) by (cases fs) auto
  have rd: "readable g" using Cons.prems(1,2) contig_readable fs by (metis list.set_intros(1) subsetD)
  have goff: "8 * frag_off g = off" and rest: "ready_loop (off + length (payload_of g)) gs = Some True"
    using Cons.prems(5) rd by (auto simp: fs readable_ops push_bit_eq_mult split: if_splits)
  have "g = f"
  proof (rule ccontr)
    assume "g \<noteq> f"
    then have "g \<in> set F" using Cons.prems(2) fs by auto
    from contig_off_gt [OF Cons.prems(1) this] goff Cons.prems(1) show False by simp
  qed
  have sub: "set gs \<subseteq> set F" using Cons.prems(2,3) fs \<open>g = f\<close> by auto
  show ?case
  proof (cases gs)
    case Nil
    then show ?thesis using Cons.prems(1,6) fs \<open>g = f\<close> by simp
  next
    case (Cons h hs)
    have "gs = F"
      by (rule Cons.IH) (use Cons.prems sub rest fs \<open>g = f\<close> Cons in auto)
    then show ?thesis using fs \<open>g = f\<close> by simp
  qed
qed simp

lemma contig_mk_frag:
  assumes v: "IPv4_Valid p = Some True" and bound: "header_len p + len \<le> 65535"
  shows "0 < c \<Longrightarrow> 8 dvd c \<Longrightarrow> 8 dvd off \<Longrightarrow> off + length xs = len \<Longrightarrow>
    contig off (map (mk_frag (take (header_len p) p) len) (frag_chunks c off xs)) \<and>
    concat (map payload_of (map (mk_frag (take (header_len p) p) len) (frag_chunks c off xs))) = xs"
proof (induction c off xs rule: frag_chunks.induct)
  case (1 c off xs)
  note c = "1.prems"(1,2)
  show ?case
  proof (cases "xs = []")
    case True
    then show ?thesis by (simp add: frag_chunks.simps)
  next
    case False
    let ?F = "\<lambda>off xs. map (mk_frag (take (header_len p) p) len) (frag_chunks c off xs)"
    define f where "f = mk_frag (take (header_len p) p) len (off, take c xs)"
    have F: "?F off xs = f # ?F (off + c) (drop c xs)"
      using False c by (simp add: frag_chunks.simps [of c off xs] f_def)
    have b: "header_len p + length (take c xs) \<le> 65535" "off < 65536"
      using bound "1.prems" False by (auto simp: min_def)
    note facts = mk_frag_facts [OF v f_def b "1.prems"(3)]
    have f: "readable f" "8 * frag_off f = off" "payload_of f = take c xs"
      using facts(3,5,6) "1.prems"(3) by (auto simp: valid_readable)
    have more: "frag_more f \<longleftrightarrow> ?F (off + c) (drop c xs) \<noteq> []"
      using facts(7) "1.prems" c by (auto simp: frag_chunks.simps [of c] min_def)
    show ?thesis
    proof (cases "length xs \<le> c")
      case True
      then have "?F (off + c) (drop c xs) = []" by (simp add: frag_chunks.simps)
      with F f more False c True show ?thesis by simp
    next
      case rest: False
      have "contig (off + c) (?F (off + c) (drop c xs)) \<and>
          concat (map payload_of (?F (off + c) (drop c xs))) = drop c xs"
        using "1.IH" False c "1.prems" rest by auto
      moreover have "length (payload_of f) = c" using f rest by simp
      ultimately show ?thesis using F f more False c by simp
    qed
  qed
qed

section \<open>Inserting a fragment\<close>

definition insert_frag :: "bytes \<Rightarrow> bytes list \<Rightarrow> bytes list" where
  "insert_frag p fs =
     filter (\<lambda>f. frag_off f \<le> frag_off p) fs @ p # filter (\<lambda>f. frag_off p < frag_off f) fs"

lemma set_insert_frag [simp]: "set (insert_frag p fs) = insert p (set fs)"
  by (auto simp: insert_frag_def)

lemma insert_frag_not_Nil [simp]: "insert_frag p fs \<noteq> []"
  by (simp add: insert_frag_def)

lemma mset_insert_frag: "mset (insert_frag p fs) = add_mset p (mset fs)"
proof -
  have "filter (\<lambda>f. frag_off p < frag_off f) fs = filter (\<lambda>f. \<not> frag_off f \<le> frag_off p) fs"
    by (simp add: not_le)
  then show ?thesis by (simp add: insert_frag_def)
qed

lemma sorted_insert_frag:
  "sorted (map frag_off fs) \<Longrightarrow> sorted (map frag_off (insert_frag p fs))"
  by (auto simp: insert_frag_def sorted_append sorted_filter intro: sorted_filter)

lemma take_drop_filter:
  assumes "k \<le> length xs" and "\<And>i. i < k \<Longrightarrow> P (xs ! i)"
    and "\<And>i. k \<le> i \<Longrightarrow> i < length xs \<Longrightarrow> \<not> P (xs ! i)"
  shows "take k xs = filter P xs" and "drop k xs = filter (\<lambda>x. \<not> P x) xs"
proof -
  have t: "\<forall>x \<in> set (take k xs). P x"
    using assms(1,2) by (auto simp: in_set_conv_nth)
  have d: "\<forall>x \<in> set (drop k xs). \<not> P x"
    using assms(1,3) by (auto simp: in_set_conv_nth)
  have "filter P (take k xs @ drop k xs) = take k xs"
    using t d by (simp only: filter_append) (simp add: filter_True filter_False)
  moreover have "filter (\<lambda>x. \<not> P x) (take k xs @ drop k xs) = drop k xs"
    using t d by (simp only: filter_append) (simp add: filter_True filter_False)
  ultimately show "take k xs = filter P xs" "drop k xs = filter (\<lambda>x. \<not> P x) xs"
    by simp_all
qed

lemma AddFragment_eq:
  assumes "readable p" and rd: "\<forall>f \<in> set (Fragments r). readable f"
    and "sorted (map frag_off (Fragments r))"
  shows "AddFragment r p = Some (r\<lparr>Fragments := insert_frag p (Fragments r)\<rparr>)"
proof -
  let ?fs = "Fragments r"
  let ?g = "\<lambda>k. frag_off p < frag_off (?fs ! k)"
  obtain k where k: "sort_Search (length ?fs) (\<lambda>k. do {
            f \<leftarrow> idx ?fs k;
            (df1, mf1, off1) \<leftarrow> IPv4_FragmentInfo f;
            Some (frag_off p < off1)
          }) = Some k" and k_le: "k \<le> length ?fs" and below: "\<And>i. i < k \<Longrightarrow> \<not> ?g i"
    and above: "\<And>i. k \<le> i \<Longrightarrow> i < length ?fs \<Longrightarrow> ?g i"
  proof (rule sort_Search_least [where n = "length ?fs" and g = ?g])
    show "do {
            f \<leftarrow> idx ?fs k;
            (df1, mf1, off1) \<leftarrow> IPv4_FragmentInfo f;
            Some (frag_off p < off1)
          } = Some (?g k)" if "k < length ?fs" for k
      using that rd by (simp add: readable_ops)
    show "?g l" if "k \<le> l" "l < length ?fs" "?g k" for k l
      using that assms(3) sorted_nth_mono [of "map frag_off ?fs" k l] by simp
  qed (rule that)
  have parts: "take k ?fs = filter (\<lambda>f. frag_off f \<le> frag_off p) ?fs"
    "drop k ?fs = filter (\<lambda>f. frag_off p < frag_off f) ?fs"
    using take_drop_filter [of k ?fs "\<lambda>f. frag_off f \<le> frag_off p"] k_le below above
    by (auto simp: not_le not_less)
  have ins: "insert_frag p ?fs = take k ?fs @ p # drop k ?fs"
    by (simp only: insert_frag_def parts)
  show ?thesis
  proof (cases "k = length ?fs")
    case True
    then show ?thesis
      using k assms(1) ins by (simp add: AddFragment_def readable_ops)
  next
    case False
    then have lt: "k < length ?fs" using k_le by simp
    have rk: "readable (?fs ! k)" using rd lt by simp
    have shift: "take (k + 1) (?fs @ [[]]) @ copy_list (drop (k + 1) (?fs @ [[]])) (drop k (?fs @ [[]])) =
        take k ?fs @ (?fs ! k) # drop k ?fs"
      using lt by (simp add: copy_list_def take_Suc_conv_app_nth)
    show ?thesis
      using k assms(1) rk lt above [of k] shift ins
      by (simp add: AddFragment_def readable_ops Let_def list_update_append)
  qed
qed

section \<open>Completeness test and reassembly\<close>

lemma Ready_eq:
  assumes "\<forall>f \<in> set (Fragments r). readable f" and "Fragments r \<noteq> []"
  shows "Ready r = (if frag_more (last (Fragments r)) then Some False
                    else ready_loop 0 (Fragments r))"
proof -
  have "idx (Fragments r) (length (Fragments r) - 1) = Some (last (Fragments r))"
    using assms(2) by (simp add: idx_def last_conv_nth)
  moreover have "readable (last (Fragments r))" using assms by simp
  ultimately show ?thesis by (simp add: Ready_def readable_ops)
qed

lemma append_payloads_eq:
  "\<forall>f \<in> set fs. readable f \<Longrightarrow>
     append_payloads packet fs = Some (packet @ concat (map payload_of fs))"
  by (induction fs arbitrary: packet) (simp_all add: readable_ops)

text \<open>What a packet looks like after it went through fragmenting and reassembly: the
  fragment field is zero (which clears the reserved bit) and the checksum fresh.\<close>

definition defragmented :: "bytes \<Rightarrow> bytes" where
  "defragmented p = with_ip_checksum (p[6 := 0, 7 := 0])"

lemma Reassemble_fragments:
  assumes v: "IPv4_Valid p = Some True"
    and rd: "\<forall>f \<in> set F. readable f" and F: "F \<noteq> []" "Fragments r = F"
    and pl: "concat (map payload_of F) = payload_of p"
    and hd: "header_len (hd F) = header_len p"
      "\<And>i. i < header_len p \<Longrightarrow> i \<notin> {2, 3, 6, 7, 10, 11} \<Longrightarrow> hd F ! i = p ! i"
  shows "Reassemble r = Some (defragmented p)"
proof -
  note len = ip_valid_length [OF v]
  define q where "q = take (header_len p) (hd F) @ payload_of p"
  have rh: "readable (hd F)" "F ! 0 = hd F" using rd F by (simp_all add: hd_conv_nth)
  have ql: "length q = length p"
    using rh hd(1) len by (simp add: q_def payload_of_def readable_def min_absorb2)
  have qh: "header_len q = header_len p"
  proof -
    have "q ! 0 = p ! 0" using hd(2) [of 0] rh hd(1) len by (simp add: q_def nth_append readable_def)
    then show ?thesis by (simp add: header_len_def)
  qed
  have q_nth: "q ! i = p ! i" if "i < length p" "i \<notin> {2, 3, 6, 7, 10, 11}" for i
  proof (cases "i < header_len p")
    case True
    then show ?thesis using that hd rh by (simp add: q_def nth_append readable_def)
  next
    case False
    then show ?thesis
      using that rh hd(1) len
      by (simp add: q_def nth_append readable_def payload_of_def min_absorb2)
  qed
  have sf: "IPv4_SetFragmentInfo q False False 0 = Some (q[6 := 0, 7 := 0])"
    using len ql by (simp add: IPv4_SetFragmentInfo_eq)
  have "Reassemble r = Some (with_ip_checksum (put16 (q[6 := 0, 7 := 0]) 2 (of_nat (length p))))"
    using F rh hd(1) rd pl ql qh len sf
    by (simp add: Reassemble_def readable_ops append_payloads_eq q_def [symmetric]
        IPv4_fields_eq IPv4_SetChecksum_eq idx_def)
  also have "with_ip_checksum (put16 (q[6 := 0, 7 := 0]) 2 (of_nat (length p))) = defragmented p"
    unfolding defragmented_def
  proof (rule with_ip_checksum_cong)
    fix i assume i: "i \<noteq> 10" "i \<noteq> 11" "i < length (p[6 := 0, 7 := 0])"
    have lp: "length p = be_int (p ! 2) (p ! 3)" using v by (simp add: ip_valid_iff)
    then have "hi8 (of_nat (length p)) = p ! 2" "lo8 (of_nat (length p)) = p ! 3"
      by (simp_all only: of_nat_be_int hi8_be16 lo8_be16)
    then show "put16 (q[6 := 0, 7 := 0]) 2 (of_nat (length p)) ! i = p[6 := 0, 7 := 0] ! i"
      using i len ql q_nth [of i] by (auto simp: nth_put16 nth_list_update)
  qed (use len ql in simp_all)
  finally show ?thesis .
qed

section \<open>The table of reconstructions\<close>

lemma drop_old_loop_eq:
  assumes od: "ordered_delete_spec orderedDelete"
  shows "j \<le> length rs \<Longrightarrow> drop_old_loop orderedDelete t j rs =
    Some (take j rs @ filter (\<lambda>r. t < DropTime r) (drop j rs))"
proof (induction "length rs - j" arbitrary: j rs rule: less_induct)
  case less
  show ?case
  proof (cases "j < length rs")
    case False
    then show ?thesis using less.prems by (simp add: drop_old_loop.simps)
  next
    case True
    have split: "drop j rs = rs ! j # drop (Suc j) rs" using True by (simp add: Cons_nth_drop_Suc)
    show ?thesis
    proof (cases "t \<ge> DropTime (rs ! j)")
      case expired: True
      let ?rs = "take j rs @ drop (Suc j) rs"
      have "drop_old_loop orderedDelete t j rs = drop_old_loop orderedDelete t j ?rs"
        using True expired od by (subst drop_old_loop.simps) (simp add: ordered_delete_spec_def)
      also have "\<dots> = Some (take j ?rs @ filter (\<lambda>r. t < DropTime r) (drop j ?rs))"
        by (rule less.hyps) (use True in auto)
      finally show ?thesis using True expired split by simp
    next
      case fresh: False
      have "drop_old_loop orderedDelete t j rs = drop_old_loop orderedDelete t (Suc j) rs"
        using True fresh by (subst drop_old_loop.simps) simp
      also have "\<dots> = Some (take (Suc j) rs @ filter (\<lambda>r. t < DropTime r) (drop (Suc j) rs))"
        by (rule less.hyps) (use True in auto)
      finally show ?thesis using True fresh split by (simp add: take_Suc_conv_app_nth)
    qed
  qed
qed

lemma find_recon_filter: "find_recon ident src xs = None \<Longrightarrow> find_recon ident src (filter P xs) = None"
  by (induction xs) (auto split: if_splits)

lemma find_recon_append:
  "find_recon ident src xs = None \<Longrightarrow>
     find_recon ident src (xs @ ys) = map_option ((+) (length xs)) (find_recon ident src ys)"
  by (induction xs; cases "find_recon ident src ys") (auto split: if_splits)

text \<open>The state of the defragmenter while it collects the fragments of one packet: its
  reconstruction is the last one of the table, after those of other packets.\<close>

definition collecting ::
  "u16 \<Rightarrow> bytes \<Rightarrow> int \<Rightarrow> bytes list \<Rightarrow> ipv4Defragmenter \<Rightarrow> bool" where
  "collecting ident src deadline fs d \<longleftrightarrow>
     (\<exists>xs r. reconstructions d = xs @ [r] \<and> find_recon ident src xs = None \<and>
        Identification r = ident \<and> Source r = src \<and> deadline \<le> DropTime r \<and>
        Fragments r = fs \<and> sorted (map frag_off fs) \<and> distinct fs)"

definition same_packet :: "u16 \<Rightarrow> bytes \<Rightarrow> bytes \<Rightarrow> bool" where
  "same_packet ident src f \<longleftrightarrow>
     readable f \<and> be16 (f ! 4) (f ! 5) = ident \<and> take 4 (drop 12 f) = src"

lemma AddPacket_first:
  assumes od: "ordered_delete_spec orderedDelete" and f: "same_packet ident src f"
    and new: "find_recon ident src (reconstructions d) = None"
  shows "\<exists>d'. AddPacket orderedDelete now1 now2 d f = Some (d', None) \<and> timeout d' = timeout d \<and>
    collecting ident src (now2 + timeout d) [f] d'"
proof -
  let ?xs = "filter (\<lambda>r. now1 < DropTime r) (reconstructions d)"
  have "find_recon ident src ?xs = None" using new by (rule find_recon_filter)
  then show ?thesis
    using f drop_old_loop_eq [OF od, of 0 "reconstructions d" now1]
    by (auto simp: AddPacket_def same_packet_def readable_ops collecting_def)
qed

lemma AddPacket_next:
  assumes od: "ordered_delete_spec orderedDelete" and f: "same_packet ident src f"
    and col: "collecting ident src deadline fs d" and fresh: "now1 < deadline"
    and new: "f \<notin> set fs" and rd: "\<forall>g \<in> set fs. readable g"
  shows "\<exists>d' xs r. AddPacket orderedDelete now1 now2 d f =
      (let gs = insert_frag f fs in
         if frag_more (last gs) \<or> ready_loop 0 gs = Some False then Some (d', None)
         else do { packet \<leftarrow> Reassemble (r\<lparr>Fragments := gs\<rparr>);
                   Some (d\<lparr>reconstructions := xs\<rparr>, Some packet) }) \<and>
      timeout d' = timeout d \<and> collecting ident src deadline (insert_frag f fs) d' \<and>
      find_recon ident src xs = None"
proof -
  obtain xs r where d: "reconstructions d = xs @ [r]" and none: "find_recon ident src xs = None"
    and r: "Identification r = ident" "Source r = src" "deadline \<le> DropTime r" "Fragments r = fs"
    and fs: "sorted (map frag_off fs)" "distinct fs"
    using col by (auto simp: collecting_def)
  define ys where "ys = filter (\<lambda>r. now1 < DropTime r) xs"
  define gs where "gs = insert_frag f fs"
  have dropped: "drop_old_loop orderedDelete now1 0 (reconstructions d) = Some (ys @ [r])"
    using drop_old_loop_eq [OF od, of 0 "xs @ [r]" now1] fresh r(3) by (simp add: d ys_def)
  have ys: "find_recon ident src ys = None" unfolding ys_def by (rule find_recon_filter [OF none])
  then have found: "find_recon ident src (ys @ [r]) = Some (length ys)"
    using r by (simp add: find_recon_append)
  have rf: "readable f" using f by (simp add: same_packet_def)
  have add: "AddFragment r f = Some (r\<lparr>Fragments := gs\<rparr>)"
    using rf rd fs r(4) by (simp add: AddFragment_eq gs_def)
  have gs_rd: "\<forall>g \<in> set gs. readable g" using rd rf by (simp add: gs_def)
  obtain b where b: "ready_loop 0 gs = Some b" using ready_loop_total [OF gs_rd] by blast
  have ready: "Ready (r\<lparr>Fragments := gs\<rparr>) = Some (\<not> frag_more (last gs) \<and> b)"
    using gs_rd b by (simp add: Ready_eq gs_def)
  have del: "orderedDelete (ys @ [r\<lparr>Fragments := gs\<rparr>]) (length ys) = ys"
    using od by (simp add: ordered_delete_spec_def)
  have upd: "(ys @ [r])[length ys := r\<lparr>Fragments := gs\<rparr>] = ys @ [r\<lparr>Fragments := gs\<rparr>]"
    by (simp add: list_update_append)
  have "distinct gs" "sorted (map frag_off gs)"
    using fs new sorted_insert_frag by (auto simp: gs_def insert_frag_def)
  then have col': "collecting ident src deadline gs
      (d\<lparr>reconstructions := ys @ [r\<lparr>Fragments := gs\<rparr>]\<rparr>)"
    using ys r by (auto simp: collecting_def)
  show ?thesis
    using f rf dropped found add ready del upd col' ys b
    by (intro exI [of _ "d\<lparr>reconstructions := ys @ [r\<lparr>Fragments := gs\<rparr>]\<rparr>"] exI [of _ ys] exI [of _ r])
      (simp add: AddPacket_def readable_ops same_packet_def Let_def gs_def [symmetric])
qed

fun defragment_all ::
  "(ipv4Reconstruction list \<Rightarrow> nat \<Rightarrow> ipv4Reconstruction list) \<Rightarrow> ipv4Defragmenter \<Rightarrow>
     (int \<times> int \<times> bytes) list \<Rightarrow> (ipv4Defragmenter \<times> bytes option list) go" where
  "defragment_all orderedDelete d [] = Some (d, [])"
| "defragment_all orderedDelete d ((now1, now2, p) # ps) = do {
     (d, out) \<leftarrow> DefragmentIncomingIPv4 orderedDelete now1 now2 d p;
     (d, outs) \<leftarrow> defragment_all orderedDelete d ps;
     Some (d, out # outs)
   }"

text \<open>A packet whose flags or offset send it to the defragmenter.\<close>

definition is_fragment :: "bytes \<Rightarrow> bool" where
  "is_fragment f \<longleftrightarrow> frag_more f \<or> frag_off f \<noteq> 0"

text \<open>A fragment that completes what was there, and one that does not.\<close>

lemma not_in_rest:
  assumes "distinct F" and "mset F = add_mset f (mset fs + M)"
  shows "f \<notin> set fs"
proof
  assume "f \<in> set fs"
  then have "count (mset fs) f \<ge> 1" by simp
  then show False using assms by (simp add: distinct_count_atmost_1 split: if_splits)
qed

lemma insert_last:
  assumes F: "contig 0 F" and mset: "mset F = add_mset f (mset fs)"
    and gs: "distinct (insert_frag f fs)" "sorted (map frag_off (insert_frag f fs))"
  shows "insert_frag f fs = F" and "\<not> frag_more (last F)" and "ready_loop 0 F = Some True"
proof -
  have "set (insert_frag f fs) = set F" by (metis mset mset_insert_frag set_mset_mset)
  then show "insert_frag f fs = F"
    using contig_sorted [OF F] gs by (intro map_sorted_distinct_set_unique [of frag_off]) (auto simp: distinct_map)
  have "F \<noteq> []" using mset by auto
  then show "\<not> frag_more (last F)" "ready_loop 0 F = Some True"
    using ready_loop_contig [OF F] contig_last [OF F] by simp_all
qed

lemma insert_more:
  assumes F: "contig 0 F" and mset: "mset F = add_mset f (mset fs + M)" and more: "M \<noteq> {#}"
    and gs: "distinct (insert_frag f fs)" "\<forall>g \<in> set (insert_frag f fs). readable g"
  shows "frag_more (last (insert_frag f fs)) \<or> ready_loop 0 (insert_frag f fs) = Some False"
proof -
  have "insert_frag f fs \<noteq> F"
  proof
    assume "insert_frag f fs = F"
    then have "mset F = add_mset f (mset fs)" by (metis mset_insert_frag)
    with mset more show False by simp
  qed
  moreover have "set (insert_frag f fs) \<subseteq> set F"
    using arg_cong [OF mset, of set_mset] by auto
  ultimately have "frag_more (last (insert_frag f fs)) \<or> ready_loop 0 (insert_frag f fs) \<noteq> Some True"
    using ready_loop_complete [OF F _ gs(1)] by auto
  moreover obtain b where "ready_loop 0 (insert_frag f fs) = Some b" using ready_loop_total [OF gs(2)] by blast
  ultimately show ?thesis by auto
qed

lemma collect_all:
  assumes od: "ordered_delete_spec orderedDelete" and F: "contig 0 F"
    and same: "\<forall>f \<in> set F. same_packet ident src f \<and> is_fragment f"
    and out: "\<And>r. Fragments r = F \<Longrightarrow> Reassemble r = Some out"
  shows "collecting ident src deadline fs d \<Longrightarrow> ps \<noteq> [] \<Longrightarrow>
    mset fs + mset (map (snd \<circ> snd) ps) = mset F \<Longrightarrow> \<forall>(now1, now2, f) \<in> set ps. now1 < deadline \<Longrightarrow>
    \<exists>d'. defragment_all orderedDelete d ps =
           Some (d', replicate (length ps - 1) None @ [Some out]) \<and>
         find_recon ident src (reconstructions d') = None"
proof (induction ps arbitrary: fs d)
  case (Cons tp ps)
  obtain now1 now2 f where tp: "tp = (now1, now2, f)" by (cases tp)
  have mset: "mset F = add_mset f (mset fs + mset (map (snd \<circ> snd) ps))"
    using Cons.prems(3) by (simp add: tp comp_def)
  have fF: "f \<in> set F" "set fs \<subseteq> set F" using arg_cong [OF mset, of set_mset] by auto
  have "distinct F" using contig_sorted [OF F] by (simp add: distinct_map)
  from not_in_rest [OF this mset] have new: "f \<notin> set fs" .
  define gs where "gs = insert_frag f fs"
  have rd: "\<forall>g \<in> set fs. readable g" using fF same by (auto simp: same_packet_def)
  have fresh: "now1 < deadline" using Cons.prems(4) by (simp add: tp)
  have sp: "same_packet ident src f" "is_fragment f" using same fF by auto
  obtain d' xs r where step: "AddPacket orderedDelete now1 now2 d f =
      (if frag_more (last gs) \<or> ready_loop 0 gs = Some False then Some (d', None)
       else do { packet \<leftarrow> Reassemble (r\<lparr>Fragments := gs\<rparr>);
                 Some (d\<lparr>reconstructions := xs\<rparr>, Some packet) })"
    and col': "collecting ident src deadline gs d'" and xs: "find_recon ident src xs = None"
    using AddPacket_next [OF od sp(1) Cons.prems(1) fresh new rd, of now2]
    unfolding Let_def gs_def [symmetric] by blast
  have filt: "DefragmentIncomingIPv4 orderedDelete now1 now2 d f =
      AddPacket orderedDelete now1 now2 d f"
    using sp by (simp add: DefragmentIncomingIPv4_def same_packet_def readable_ops is_fragment_def)
  have gs_dist: "distinct gs" "sorted (map frag_off gs)"
    using col' by (auto simp: collecting_def)
  show ?case
  proof (cases "ps = []")
    case True
    have "mset F = add_mset f (mset fs)" using mset True by simp
    from insert_last [OF F this, folded gs_def, OF gs_dist]
    show ?thesis using True step out [of "r\<lparr>Fragments := gs\<rparr>"] xs by (simp add: tp filt)
  next
    case False
    have "\<forall>g \<in> set gs. readable g" using rd same fF by (auto simp: gs_def same_packet_def)
    from insert_more [OF F mset, folded gs_def, OF _ gs_dist(1) this]
    have "frag_more (last gs) \<or> ready_loop 0 gs = Some False" using False by simp
    moreover have "mset gs + mset (map (snd \<circ> snd) ps) = mset F"
      by (simp add: mset gs_def mset_insert_frag)
    then have "\<exists>d''. defragment_all orderedDelete d' ps =
           Some (d'', replicate (length ps - 1) None @ [Some out]) \<and>
         find_recon ident src (reconstructions d'') = None"
      using Cons.prems(4) by (intro Cons.IH [OF col' False]) (auto simp: comp_def)
    ultimately show ?thesis
      using step False by (cases ps) (auto simp: tp filt)
  qed
qed simp

section \<open>Fragmenting and reassembling together\<close>

definition fragment_list :: "int \<Rightarrow> bytes \<Rightarrow> bytes list" where
  "fragment_list mtu p =
     map (mk_frag (take (header_len p) p) (length (payload_of p)))
       (frag_chunks (nat (8 * ((mtu - int (header_len p)) div 8))) 0 (payload_of p))"

lemma fragments_eq:
  assumes mi: "min_int_spec minInt" and v: "IPv4_Valid p = Some True"
    and info: "IPv4_FragmentInfo p = Some (False, False, 0)"
    and mtu: "mtu \<le> int (length p)" "int (header_len p) + 8 \<le> mtu"
  shows "fragments minInt mtu p = Some (fragment_list mtu p)"
proof -
  note len = ip_valid_length [OF v]
  let ?h = "take (header_len p) p"
  define c where "c = 8 * ((mtu - int (header_len p)) div 8)"
  have c: "0 < c" using mtu(2) by (simp add: c_def pos_imp_zdiv_pos_iff)
  have hl: "length ?h = header_len p" using len by (simp add: min_absorb2)
  have "?h ! 0 = p ! 0" using len by simp
  then have hh: "header_len ?h = header_len p" by (simp only: header_len_def)
  have "fragment_loop minInt ?h (payload_of p) c 0 [] =
      Some (map (mk_frag ?h (length (payload_of p))) (frag_chunks (nat c) 0 (payload_of p)))"
    using fragment_loop_eq [OF mi, of "nat c" ?h 0 "payload_of p" "[]"] c hl hh len by simp
  then show ?thesis
    using len mtu info hl c
    by (simp add: fragments_def ip_ops payload_of_def [symmetric] xor_and_7 c_def [symmetric]
        fragment_list_def Let_def)
qed

lemma fragment_list_contig:
  assumes v: "IPv4_Valid p = Some True" and mtu: "int (header_len p) + 8 \<le> mtu"
  shows "contig 0 (fragment_list mtu p)"
    and "concat (map payload_of (fragment_list mtu p)) = payload_of p"
proof -
  have "header_len p + length (payload_of p) \<le> 65535"
    using ip_valid_length [OF v] by (simp add: payload_of_def)
  moreover have "0 < nat (8 * ((mtu - int (header_len p)) div 8))"
    using mtu by (simp add: pos_imp_zdiv_pos_iff)
  moreover have "8 dvd nat (8 * ((mtu - int (header_len p)) div 8))"
    using mtu by (simp add: nat_mult_distrib pos_imp_zdiv_nonneg_iff)
  ultimately have "contig 0 (fragment_list mtu p) \<and>
      concat (map payload_of (fragment_list mtu p)) = payload_of p"
    unfolding fragment_list_def by (intro contig_mk_frag [OF v]) simp_all
  then show "contig 0 (fragment_list mtu p)"
    "concat (map payload_of (fragment_list mtu p)) = payload_of p" by simp_all
qed

lemma frag_chunks_mem:
  "(off, chunk) \<in> set (frag_chunks c base xs) \<Longrightarrow> 8 dvd c \<Longrightarrow> 8 dvd base \<Longrightarrow>
     8 dvd off \<and> off + length chunk \<le> base + length xs \<and> length chunk \<le> c \<and> chunk \<noteq> []"
proof (induction c base xs rule: frag_chunks.induct)
  case (1 c base xs)
  show ?case
  proof (cases "xs = [] \<or> c = 0")
    case True
    with 1 show ?thesis by (simp add: frag_chunks.simps [of c base xs])
  next
    case False
    with "1.prems"(1) consider "off = base" "chunk = take c xs"
      | "(off, chunk) \<in> set (frag_chunks c (base + c) (drop c xs))"
      by (auto simp: frag_chunks.simps [of c base xs])
    then show ?thesis
    proof cases
      case 2
      then show ?thesis using "1.IH" [OF False] "1.prems" False
        by (cases "length xs \<le> c") (auto simp: frag_chunks.simps [of c])
    qed (use "1.prems" False in auto)
  qed
qed

text \<open>Everything a fragment inherits from its packet, and what it owns.\<close>

lemma fragment_list_member:
  assumes v: "IPv4_Valid p = Some True" and mtu: "int (header_len p) + 8 \<le> mtu"
    and f: "f \<in> set (fragment_list mtu p)"
  shows "IPv4_Valid f = Some True" and "IPv4_Checksum f = Some 0" and "int (length f) \<le> mtu"
    and "header_len f = header_len p"
    and "i < header_len p \<Longrightarrow> i \<notin> {2, 3, 6, 7, 10, 11} \<Longrightarrow> f ! i = p ! i"
proof -
  let ?c = "nat (8 * ((mtu - int (header_len p)) div 8))"
  obtain off chunk where oc: "(off, chunk) \<in> set (frag_chunks ?c 0 (payload_of p))"
    and fd: "f = mk_frag (take (header_len p) p) (length (payload_of p)) (off, chunk)"
    using f by (auto simp: fragment_list_def)
  have c8: "8 dvd ?c"
    using mtu by (simp add: nat_mult_distrib pos_imp_zdiv_nonneg_iff)
  have mem: "8 dvd off" "off + length chunk \<le> length (payload_of p)" "length chunk \<le> ?c"
    using frag_chunks_mem [OF oc c8] by auto
  have b: "header_len p + length chunk \<le> 65535" "off < 65536"
    using mem ip_valid_length [OF v] by (simp_all add: payload_of_def)
  note facts = mk_frag_facts [OF v fd b mem(1)]
  show "IPv4_Valid f = Some True" "IPv4_Checksum f = Some 0" "header_len f = header_len p"
    "i < header_len p \<Longrightarrow> i \<notin> {2, 3, 6, 7, 10, 11} \<Longrightarrow> f ! i = p ! i"
    using facts by auto
  have "int ?c \<le> mtu - int (header_len p)"
    using mtu by simp
  moreover have "int (length chunk) \<le> int ?c" using mem(3) by (simp only: of_nat_le_iff)
  ultimately show "int (length f) \<le> mtu" using facts(1) by linarith
qed

lemma put16_same:
  "hi8 v = xs ! k \<Longrightarrow> lo8 v = xs ! Suc k \<Longrightarrow> Suc k < length xs \<Longrightarrow> put16 xs k v = xs"
  by (simp add: put16_def)

lemma single_fragment:
  assumes v: "IPv4_Valid p = Some True"
  shows "mk_frag (take (header_len p) p) (length (payload_of p)) (0, payload_of p) = defragmented p"
proof -
  have "length p = be_int (p ! 2) (p ! 3)" using v by (simp add: ip_valid_iff)
  then have "hi8 (of_nat (length p)) = p ! 2" "lo8 (of_nat (length p)) = p ! 3"
    by (simp_all only: of_nat_be_int hi8_be16 lo8_be16)
  then have "put16 (p[6 := 0, 7 := 0]) 2 (of_nat (length p)) = p[6 := 0, 7 := 0]"
    using ip_valid_length [OF v] by (intro put16_same) (simp_all add: numeral_3_eq_3)
  then show ?thesis
    by (simp add: mk_frag_def payload_of_def set_frag_def defragmented_def)
qed

lemma frag_chunks_Nil_iff: "frag_chunks c off xs = [] \<longleftrightarrow> xs = [] \<or> c = 0"
  by (subst frag_chunks.simps) simp

lemma fragment_list_single:
  assumes "fragment_list mtu p = [f]" and "int (header_len p) + 8 \<le> mtu"
    and "IPv4_Valid p = Some True"
  shows "f = defragmented p"
proof -
  let ?c = "nat (8 * ((mtu - int (header_len p)) div 8))" and ?pl = "payload_of p"
  have c: "?c \<noteq> 0" using assms(2) by (simp add: not_le pos_imp_zdiv_pos_iff)
  have "?pl \<noteq> []"
    using assms(1) by (auto simp: fragment_list_def frag_chunks.simps)
  then have "frag_chunks ?c 0 ?pl = (0, take ?c ?pl) # frag_chunks ?c (0 + ?c) (drop ?c ?pl)"
    using c by (subst frag_chunks.simps) simp
  then have f: "f = mk_frag (take (header_len p) p) (length ?pl) (0, take ?c ?pl)"
    and "frag_chunks ?c (0 + ?c) (drop ?c ?pl) = []"
    using assms(1) by (simp_all add: fragment_list_def)
  then have "drop ?c ?pl = []" using c by (simp only: frag_chunks_Nil_iff) simp
  then show ?thesis using single_fragment [OF assms(3)] f by simp
qed

lemma contig_is_fragment:
  assumes "contig 0 (f # g # F)" and "h \<in> set (f # g # F)"
  shows "is_fragment h"
proof (cases "h = f")
  case True
  with assms show ?thesis by (simp add: is_fragment_def)
next
  case False
  with assms(2) have "h \<in> set (g # F)" by simp
  from contig_off_gt [OF assms(1) this] show ?thesis by (simp add: is_fragment_def)
qed

lemma fragment_same_packet:
  assumes v: "IPv4_Valid p = Some True" and mtu: "int (header_len p) + 8 \<le> mtu"
    and f: "f \<in> set (fragment_list mtu p)"
  shows "same_packet (be16 (p ! 4) (p ! 5)) (take 4 (drop 12 p)) f"
proof -
  note m = fragment_list_member [OF v mtu f]
  note len = ip_valid_length [OF v]
  have "take 4 (drop 12 f) = take 4 (drop 12 p)"
    by (rule nth_equalityI) (use ip_valid_length [OF m(1)] len m(5) in auto)
  then show ?thesis
    using m(5) [of 4] m(5) [of 5] len valid_readable [OF m(1)] by (simp add: same_packet_def)
qed

lemma defragment_fragments:
  assumes od: "ordered_delete_spec orderedDelete" and v: "IPv4_Valid p = Some True"
    and mtu: "mtu \<le> int (length p)" "int (header_len p) + 8 \<le> mtu"
    and perm: "mset (map (snd \<circ> snd) ps) = mset (fragment_list mtu p)"
    and times: "\<forall>(now1, now2, f) \<in> set ps. t \<le> now2 \<and> now1 < t + timeout d"
    and new: "find_recon (be16 (p ! 4) (p ! 5)) (take 4 (drop 12 p)) (reconstructions d) = None"
  shows "\<exists>d'. defragment_all orderedDelete d ps =
    Some (d', replicate (length ps - 1) None @ [Some (defragmented p)])"
proof -
  let ?F = "fragment_list mtu p" and ?id = "be16 (p ! 4) (p ! 5)" and ?src = "take 4 (drop 12 p)"
  note len = ip_valid_length [OF v]
  note F = fragment_list_contig [OF v mtu(2)]
  have pl: "payload_of p \<noteq> []" using mtu len by (simp add: payload_of_def)
  have reas: "Reassemble r = Some (defragmented p)" if "Fragments r = ?F" for r
  proof (rule Reassemble_fragments [OF v])
    have "?F \<noteq> []" using F(2) pl by auto
    then have "hd ?F \<in> set ?F" by simp
    note m = fragment_list_member [OF v mtu(2) this]
    show "header_len (hd ?F) = header_len p" by (rule m)
    show "hd ?F ! i = p ! i" if "i < header_len p" "i \<notin> {2, 3, 6, 7, 10, 11}" for i
      using that by (rule m)
    show "\<forall>f \<in> set ?F. readable f" using contig_readable [OF F(1)] by blast
  qed (use that F pl in auto)
  obtain now1 now2 f qs where ps: "ps = (now1, now2, f) # qs"
    using perm F(2) pl by (cases ps) auto
  have fF: "f \<in> set ?F" using arg_cong [OF perm, of set_mset] by (auto simp: ps)
  show ?thesis
  proof (cases "qs = []")
    case True
    have "?F = [f]" using perm by (simp add: ps True)
    then have f: "f = defragmented p" using mtu(2) v by (rule fragment_list_single)
    have "\<not> is_fragment f" "readable f" using F(1) \<open>?F = [f]\<close> by (auto simp: is_fragment_def)
    then show ?thesis
      by (simp add: ps True DefragmentIncomingIPv4_def readable_ops is_fragment_def f)
  next
    case False
    have "length ?F = length ps" using perm by (metis mset_eq_length length_map)
    then obtain g h G where F2: "?F = g # h # G"
      using False by (cases ?F; cases "tl ?F") (auto simp: ps)
    have same: "\<forall>f \<in> set ?F. same_packet ?id ?src f \<and> is_fragment f"
      using fragment_same_packet [OF v mtu(2)] contig_is_fragment F(1) F2 by metis
    have frag: "same_packet ?id ?src f" "is_fragment f" using same fF by auto
    obtain d1 where d1: "AddPacket orderedDelete now1 now2 d f = Some (d1, None)"
      "collecting ?id ?src (now2 + timeout d) [f] d1"
      using AddPacket_first [OF od frag(1) new] by blast
    have dl: "t + timeout d \<le> now2 + timeout d" using times by (simp add: ps)
    have col: "collecting ?id ?src (t + timeout d) [f] d1"
      using d1(2) dl unfolding collecting_def by (meson order_trans)
    have "\<exists>d'. defragment_all orderedDelete d1 qs =
           Some (d', replicate (length qs - 1) None @ [Some (defragmented p)]) \<and>
         find_recon ?id ?src (reconstructions d') = None"
      by (rule collect_all [OF od F(1) same reas col False])
        (use perm times in \<open>auto simp: ps comp_def\<close>)
    then show ?thesis
      using d1(1) frag False
      by (cases qs) (auto simp: ps DefragmentIncomingIPv4_def same_packet_def readable_ops
          is_fragment_def)
  qed
qed

section \<open>Duplicates\<close>

lemma ready_loop_increasing:
  "ready_loop off fs = Some True \<Longrightarrow> \<forall>f \<in> set fs. readable f \<and> payload_of f \<noteq> [] \<Longrightarrow>
     distinct (map frag_off fs) \<and> (\<forall>f \<in> set fs. off \<le> 8 * frag_off f)"
proof (induction fs arbitrary: off)
  case (Cons f fs)
  have f: "8 * frag_off f = off" "0 < length (payload_of f)"
    and rest: "ready_loop (off + length (payload_of f)) fs = Some True"
    using Cons.prems by (auto simp: readable_ops push_bit_eq_mult split: if_splits)
  have IH: "distinct (map frag_off fs)" "\<forall>g \<in> set fs. off + length (payload_of f) \<le> 8 * frag_off g"
    using Cons.IH [OF rest] Cons.prems(2) by auto
  have lt: "frag_off f < frag_off g" if "g \<in> set fs" for g
  proof -
    have "off + length (payload_of f) \<le> 8 * frag_off g" using IH(2) that by blast
    then show ?thesis using f by linarith
  qed
  then show ?case using IH(1) f by (auto dest!: lt)
qed simp

fun add_fragments :: "ipv4Reconstruction \<Rightarrow> bytes list \<Rightarrow> ipv4Reconstruction go" where
  "add_fragments r [] = Some r"
| "add_fragments r (p # ps) = do { r \<leftarrow> AddFragment r p; add_fragments r ps }"

lemma add_fragments_eq:
  "\<forall>f \<in> set (Fragments r) \<union> set ps. readable f \<Longrightarrow> sorted (map frag_off (Fragments r)) \<Longrightarrow>
     \<exists>fs. add_fragments r ps = Some (r\<lparr>Fragments := fs\<rparr>) \<and> sorted (map frag_off fs) \<and>
       mset fs = mset (Fragments r) + mset ps"
proof (induction ps arbitrary: r)
  case Nil
  then show ?case by (intro exI [of _ "Fragments r"]) simp
next
  case (Cons p ps)
  let ?r = "r\<lparr>Fragments := insert_frag p (Fragments r)\<rparr>"
  have "AddFragment r p = Some ?r" using Cons.prems by (intro AddFragment_eq) auto
  moreover have "\<exists>fs. add_fragments ?r ps = Some (?r\<lparr>Fragments := fs\<rparr>) \<and>
      sorted (map frag_off fs) \<and> mset fs = mset (Fragments ?r) + mset ps"
    using Cons.prems sorted_insert_frag by (intro Cons.IH) auto
  ultimately show ?case by (auto simp: mset_insert_frag)
qed

section \<open>Properties\<close>

lemma min_int_spec_min: "min_int_spec min"
  by (simp add: min_int_spec_def)

lemma ordered_delete_spec_take_drop: "ordered_delete_spec (\<lambda>xs i. take i xs @ drop (Suc i) xs)"
  by (simp add: ordered_delete_spec_def)

text \<open>A packet of 44 bytes from 10.0.0.1 to 10.0.0.2, identification 7.\<close>

definition sample_packet :: bytes where
  "sample_packet =
     [0x45, 0, 0, 44, 0, 7, 0, 0, 64, 17, 0x66, 0xb8, 10, 0, 0, 1, 10, 0, 0, 2,
      1, 2, 3, 4, 5, 6, 7, 8, 9, 10, 11, 12, 13, 14, 15, 16, 17, 18, 19, 20, 21, 22, 23, 24]"

lemma sample_packet_facts:
  "IPv4_Valid sample_packet = Some True" "length sample_packet = 44"
  "IPv4_FragmentInfo sample_packet = Some (False, False, 0)" "header_len sample_packet = 20"
  by (simp_all add: sample_packet_def ip_valid_iff header_len_def be_int_eq ip_ops be_int_def)

lemma sample_fragments_length: "length (fragment_list 36 sample_packet) = 2"
  by (simp add: fragment_list_def payload_of_def sample_packet_facts)
    (simp add: sample_packet_def frag_chunks.simps)

text \<open>C12: Fragmentation and reassembly are inverse.  When a valid packet that is not itself a
  fragment and may be fragmented is split for an MTU with room for 8 bytes of payload, and
  the fragments arrive in any order at a defragmenter that holds no other fragments under
  the same identification and source, before the timeout, nothing is delivered until the
  last fragment, and then the packet is, with the fragment field cleared and a fresh header
  checksum.\<close>

theorem fragmentation_roundtrip:
  assumes "ordered_delete_spec orderedDelete" and "min_int_spec minInt"
    and "IPv4_Valid p = Some True" and "IPv4_FragmentInfo p = Some (False, False, 0)"
    and "mtu \<le> int (length p)" and "int (header_len p) + 8 \<le> mtu"
    and "fragments minInt mtu p = Some fs"
    and "mset (map (snd \<circ> snd) arrivals) = mset fs"
    and "\<forall>(now1, now2, f) \<in> set arrivals. t \<le> now2 \<and> now1 < t + timeout d"
    and "find_recon (be16 (p ! 4) (p ! 5)) (take 4 (drop 12 p)) (reconstructions d) = None"
  shows "\<exists>d'. defragment_all orderedDelete d arrivals =
    Some (d', replicate (length arrivals - 1) None @ [Some (defragmented p)])"
  using fragments_eq [OF assms(2-6)] assms(7-10)
  by (intro defragment_fragments [OF assms(1,3,5,6), of arrivals t]) simp_all

theorem fragmentation_roundtrip_witness:
  "\<exists>fs d'. fragments min 36 sample_packet = Some fs \<and> length fs = 2 \<and>
     defragment_all (\<lambda>xs i. take i xs @ drop (Suc i) xs) (new_defragmenter 0)
       (map (\<lambda>f. (0, 0, f)) (rev fs)) = Some (d', [None, Some (defragmented sample_packet)])"
proof -
  let ?fs = "fragment_list 36 sample_packet"
  have fs: "fragments min 36 sample_packet = Some ?fs"
    by (rule fragments_eq [OF min_int_spec_min]) (simp_all add: sample_packet_facts)
  have "\<exists>d'. defragment_all (\<lambda>xs i. take i xs @ drop (Suc i) xs) (new_defragmenter 0)
       (map (\<lambda>f. (0, 0, f)) (rev ?fs)) =
     Some (d', replicate (length (map (\<lambda>f. (0::int, 0::int, f)) (rev ?fs)) - 1) None @
       [Some (defragmented sample_packet)])"
    by (rule fragmentation_roundtrip [OF ordered_delete_spec_take_drop min_int_spec_min _ _ _ _ fs,
          where t = 0])
      (simp_all add: sample_packet_facts new_defragmenter_def comp_def)
  then show ?thesis using fs by (simp add: sample_fragments_length)
qed

text \<open>C13: Every fragment the sender emits is a valid IPv4 packet with a correct header
  checksum, no longer than the MTU, that keeps all header bytes of the packet but those of
  the length, fragment and checksum fields; the payloads of the fragments, in order, are
  the payload of the packet.\<close>

theorem fragments_wellformed:
  assumes "min_int_spec minInt" and "IPv4_Valid p = Some True"
    and "IPv4_FragmentInfo p = Some (False, False, 0)"
    and "mtu \<le> int (length p)" and "int (header_len p) + 8 \<le> mtu"
  shows "\<exists>fs. fragments minInt mtu p = Some fs \<and>
    (\<forall>f \<in> set fs. IPv4_Valid f = Some True \<and> IPv4_Checksum f = Some 0 \<and> int (length f) \<le> mtu \<and>
       (\<forall>i < header_len p. i \<notin> {2, 3, 6, 7, 10, 11} \<longrightarrow> f ! i = p ! i)) \<and>
    concat (map (\<lambda>f. slice_of (IPv4_Payload f)) fs) = slice_of (IPv4_Payload p)"
proof -
  have rd: "readable f" if "f \<in> set (fragment_list mtu p)" for f
    using fragment_list_member(1) [OF assms(2,5) that] by (rule valid_readable)
  have "map (\<lambda>f. slice_of (IPv4_Payload f)) (fragment_list mtu p) =
      map payload_of (fragment_list mtu p)"
    using rd by (simp add: readable_ops)
  then have "concat (map (\<lambda>f. slice_of (IPv4_Payload f)) (fragment_list mtu p)) = payload_of p"
    using fragment_list_contig(2) [OF assms(2,5)] by (simp only:)
  then show ?thesis
    using fragments_eq [OF assms] fragment_list_member [OF assms(2,5)] valid_readable [OF assms(2)]
    by (auto simp: readable_ops)
qed

theorem fragments_wellformed_witness:
  "\<exists>fs. fragments min 36 sample_packet = Some fs \<and>
    (\<forall>f \<in> set fs. IPv4_Valid f = Some True \<and> int (length f) \<le> 36)"
  using fragments_wellformed [OF min_int_spec_min, of sample_packet 36]
  by (auto simp: sample_packet_facts)

text \<open>A fragment that is received twice blocks its packet for good: whatever other
  fragments arrive, before or after, the reconstruction is never ready (until it times
  out).  The branch of \<open>AddFragment\<close> for \<open>Received a packet twice\<close> cannot be taken, since the
  search stops behind the fragments with the same offset.\<close>

theorem duplicate_fragment_blocks:
  assumes "\<forall>f \<in> set (Fragments r) \<union> set ps. IPv4_Valid f = Some True \<and> payload_of f \<noteq> []"
    and "sorted (map frag_off (Fragments r))"
    and "2 \<le> count (mset (Fragments r) + mset ps) f"
  shows "\<exists>r'. add_fragments r ps = Some r' \<and> Ready r' = Some False"
proof -
  have rd: "\<forall>f \<in> set (Fragments r) \<union> set ps. readable f" using assms(1) valid_readable by blast
  obtain fs where fs: "add_fragments r ps = Some (r\<lparr>Fragments := fs\<rparr>)"
    "mset fs = mset (Fragments r) + mset ps"
    using add_fragments_eq [OF rd assms(2)] by blast
  have set_fs: "set fs = set (Fragments r) \<union> set ps"
    using arg_cong [OF fs(2), of set_mset] by simp
  have "\<not> distinct fs"
  proof
    assume "distinct fs"
    then have "count (mset fs) f \<le> 1" by (simp add: distinct_count_atmost_1)
    with assms(3) show False by (simp add: fs(2))
  qed
  then have "ready_loop 0 fs \<noteq> Some True"
    using ready_loop_increasing [of 0 fs] rd assms(1) set_fs by (auto simp: distinct_map)
  moreover have "\<exists>b. ready_loop 0 fs = Some b"
    by (rule ready_loop_total) (simp add: set_fs rd)
  ultimately have "ready_loop 0 fs = Some False" by auto
  moreover have "fs \<noteq> []" using \<open>\<not> distinct fs\<close> by auto
  ultimately have "Ready (r\<lparr>Fragments := fs\<rparr>) = Some False"
    using rd by (simp add: Ready_eq set_fs)
  with fs(1) show ?thesis by blast
qed

theorem duplicate_fragment_blocks_witness:
  "\<exists>r'. add_fragments \<lparr>DropTime = 1, Identification = 7, Source = [10, 0, 0, 1],
        Fragments = [sample_packet]\<rparr> [sample_packet] = Some r' \<and> Ready r' = Some False"
  by (rule duplicate_fragment_blocks [where f = sample_packet])
    (simp_all add: sample_packet_facts payload_of_def)

text \<open>An MTU smaller than the header makes the fragmenter panic on any packet with a
  payload that may be fragmented: the payload room is negative, so is the chunk size, and
  the slice of the payload is out of range.\<close>

theorem fragments_mtu_below_header_panics:
  assumes "min_int_spec minInt" and "IPv4_Valid p = Some True"
    and "IPv4_FragmentInfo p = Some (False, False, 0)"
    and "mtu < int (header_len p)" and "header_len p < length p"
  shows "fragments minInt mtu p = None"
proof -
  note len = ip_valid_length [OF assms(2)]
  define c where "c = 8 * ((mtu - int (header_len p)) div 8)"
  have c: "c < 0" using assms(4) by (simp add: c_def div_neg_pos_less0)
  have "fragment_loop minInt (take (header_len p) p) (payload_of p) c 0 [] = None"
    using c assms(1,5)
    by (subst fragment_loop.simps) (simp add: payload_of_def min_int_spec_def slice_int_def Let_def)
  then show ?thesis
    using assms len c
    by (simp add: fragments_def ip_ops payload_of_def [symmetric] xor_and_7 c_def [symmetric] Let_def
        min_absorb2)
qed

theorem fragments_mtu_below_header_panics_witness: "fragments min 15 sample_packet = None"
  by (rule fragments_mtu_below_header_panics [OF min_int_spec_min])
    (simp_all add: sample_packet_facts)

end
