(* ===== verification/Stream_Mux.thy ===== *)
theory Stream_Mux
  imports Go_Prelude "HOL-Library.Sublist"
begin

text \<open>
  Multiplexed streams (\<open>ipstack/stream.go\<close>: \<open>multiplexer\<close> and \<open>childStream\<close>).  A step of the
  model is what one goroutine does while it holds the lock of the multiplexer, or one receive
  from a channel.  \<open>essentials.UnorderedDelete\<close> is not part of the repository: it is the
  parameter \<open>unorderedDelete\<close>, of which only \<open>unordered_delete_spec\<close> is used.
\<close>

section \<open>Channels\<close>

text \<open>A buffered channel.  Closing a closed channel and sending to one are panics.  \<open>try_send\<close> is a
  send in a \<open>select\<close> with a \<open>default\<close> that does nothing; the capacity is at least 1, so that a
  receiver which waits is the same as one that comes later.\<close>

record 'a chan =
  c_buf :: "'a list"
  c_cap :: nat
  c_closed :: bool

definition make_chan :: "nat \<Rightarrow> 'a chan" where
  "make_chan n = \<lparr>c_buf = [], c_cap = n, c_closed = False\<rparr>"

definition close_chan :: "'a chan \<Rightarrow> 'a chan go" where
  "close_chan c = (if c_closed c then None else Some (c\<lparr>c_closed := True\<rparr>))"

definition try_send :: "'a chan \<Rightarrow> 'a \<Rightarrow> 'a chan go" where
  "try_send c x =
     (if c_closed c then None
      else if length (c_buf c) < c_cap c then Some (c\<lparr>c_buf := c_buf c @ [x]\<rparr>) else Some c)"

section \<open>The multiplexer\<close>

datatype stream_error = AlreadyClosedErr | WriteClosedErr | ForkClosedErr

record childStream =
  ch_incoming :: "bytes chan"
  ch_done :: bool

text \<open>The children are pointers: indices of \<open>mx_heap\<close>, which holds every child that was handed
  out.  \<open>mx_closed\<close> says whether \<open>closeChan\<close> is closed, and \<open>mx_stream_closes\<close> counts the calls of
  \<open>Close\<close> on the underlying stream.\<close>

record multiplexer =
  mx_heap :: "childStream list"
  mx_children :: "nat list"
  mx_closed :: bool
  mx_stream_closes :: nat

definition Multiplex :: multiplexer where
  "Multiplex = \<lparr>mx_heap = [], mx_children = [], mx_closed = False, mx_stream_closes = 0\<rparr>"

definition Fork :: "multiplexer \<Rightarrow> nat \<Rightarrow> multiplexer \<times> (stream_error + nat)" where
  "Fork m readBuffer = (
     let child = \<lparr>ch_incoming = make_chan readBuffer, ch_done = False\<rparr>
     in if mx_closed m then (m, Inl ForkClosedErr)
        else let i = length (mx_heap m)
             in (m\<lparr>mx_heap := mx_heap m @ [child], mx_children := mx_children m @ [i]\<rparr>, Inr i))"

definition close_child :: "childStream list \<Rightarrow> nat \<Rightarrow> childStream list go" where
  "close_child heap i = do {
     c \<leftarrow> idx heap i;
     if ch_done c then None
     else do {
       ch \<leftarrow> close_chan (ch_incoming c);
       Some (heap[i := \<lparr>ch_incoming = ch, ch_done = True\<rparr>])
     }
   }"

fun close_all :: "nat list \<Rightarrow> childStream list \<Rightarrow> childStream list go" where
  "close_all [] heap = Some heap"
| "close_all (i # is) heap = do { heap \<leftarrow> close_child heap i; close_all is heap }"

definition mux_Close :: "multiplexer \<Rightarrow> (multiplexer \<times> (stream_error + unit)) go" where
  "mux_Close m =
     (if mx_closed m then Some (m, Inl AlreadyClosedErr)
      else do {
        let m = m\<lparr>mx_closed := True, mx_stream_closes := mx_stream_closes m + 1\<rparr>;
        heap \<leftarrow> close_all (mx_children m) (mx_heap m);
        Some (m\<lparr>mx_heap := heap\<rparr>, Inr ())
      })"

fun offer_all :: "bytes \<Rightarrow> nat list \<Rightarrow> childStream list \<Rightarrow> childStream list go" where
  "offer_all packet [] heap = Some heap"
| "offer_all packet (i # is) heap = do {
     c \<leftarrow> idx heap i;
     ch \<leftarrow> try_send (ch_incoming c) packet;
     offer_all packet is (heap[i := c\<lparr>ch_incoming := ch\<rparr>])
   }"

definition handleIncoming :: "multiplexer \<Rightarrow> bytes \<Rightarrow> (multiplexer \<times> bool) go" where
  "handleIncoming m packet =
     (if mx_closed m then Some (m, False)
      else do {
        heap \<leftarrow> offer_all packet (mx_children m) (mx_heap m);
        Some (m\<lparr>mx_heap := heap\<rparr>, True)
      })"

fun find_child :: "nat \<Rightarrow> nat list \<Rightarrow> nat option" where
  "find_child i [] = None"
| "find_child i (j # js) = (if j = i then Some 0 else map_option Suc (find_child i js))"

definition childClose ::
  "(nat list \<Rightarrow> nat \<Rightarrow> nat list) \<Rightarrow> multiplexer \<Rightarrow> nat \<Rightarrow> (multiplexer \<times> (stream_error + unit)) go" where
  "childClose unorderedDelete m i =
     (case find_child i (mx_children m) of
        None \<Rightarrow> Some (m, Inl AlreadyClosedErr)
      | Some k \<Rightarrow> do {
          let m = m\<lparr>mx_children := unorderedDelete (mx_children m) k\<rparr>;
          heap \<leftarrow> close_child (mx_heap m) i;
          Some (m\<lparr>mx_heap := heap\<rparr>, Inr ())
        })"

definition unordered_delete_spec :: "(nat list \<Rightarrow> nat \<Rightarrow> nat list) \<Rightarrow> bool" where
  "unordered_delete_spec unorderedDelete \<longleftrightarrow>
     (\<forall>xs k. k < length xs \<longrightarrow> mset (unorderedDelete xs k) = mset xs - {#xs ! k#})"

text \<open>The case that the \<open>select\<close> of \<open>readLoop\<close> takes.  A receive from a closed \<open>Incoming\<close> channel
  returns at once with \<open>nil\<close>, and the loop does not look at the second result.\<close>

datatype selected = GotPacket bytes | GotClosed | GotDone | GotCloseChan

definition readLoop_body :: "multiplexer \<Rightarrow> selected \<Rightarrow> (multiplexer \<times> bool) go" where
  "readLoop_body m e =
     (case e of
        GotPacket packet \<Rightarrow> handleIncoming m packet
      | GotClosed \<Rightarrow> handleIncoming m []
      | GotDone \<Rightarrow> Some (m, False)
      | GotCloseChan \<Rightarrow> Some (m, False))"

section \<open>The goroutines together\<close>

text \<open>\<open>x_reading\<close>: the loop has not returned yet.  What the users see: \<open>x_open\<close> are the children that \<open>Fork\<close> has
  returned and that nobody has closed, neither by themselves nor with the multiplexer; \<open>x_offered i\<close> are the
  packets that came in while child \<open>i\<close> was open, each with whether its buffer had room then; and \<open>x_got i\<close>
  is what its reader has received.\<close>

record mux_sys =
  x_mux :: multiplexer
  x_reading :: bool
  x_open :: "nat set"
  x_offered :: "nat \<Rightarrow> (bytes \<times> bool) list"
  x_got :: "nat \<Rightarrow> bytes list"

definition mux_start :: mux_sys where
  "mux_start = \<lparr>x_mux = Multiplex, x_reading = True, x_open = {}, x_offered = (\<lambda>_. []), x_got = (\<lambda>_. [])\<rparr>"

datatype mux_op = OpFork nat | OpSelect selected | OpRecv nat | OpChildClose nat | OpClose

definition packet_of :: "selected \<Rightarrow> bytes option" where
  "packet_of e = (case e of GotPacket p \<Rightarrow> Some p | GotClosed \<Rightarrow> Some [] | _ \<Rightarrow> None)"

definition has_room :: "childStream \<Rightarrow> bool" where
  "has_room c \<longleftrightarrow> length (c_buf (ch_incoming c)) < c_cap (ch_incoming c)"

definition mux_step :: "(nat list \<Rightarrow> nat \<Rightarrow> nat list) \<Rightarrow> mux_sys \<Rightarrow> mux_op \<Rightarrow> mux_sys go" where
  "mux_step del s op =
     (case op of
        OpFork n \<Rightarrow>
          (let (m, r) = Fork (x_mux s) n
           in Some (s\<lparr>x_mux := m, x_open := (case r of Inl err \<Rightarrow> x_open s | Inr i \<Rightarrow> insert i (x_open s))\<rparr>))
      | OpSelect e \<Rightarrow>
          if \<not> x_reading s then Some s
          else do {
            (m, continue) \<leftarrow> readLoop_body (x_mux s) e;
            if continue then
              Some (s\<lparr>x_mux := m, x_offered := (\<lambda>i. if i \<in> x_open s
                then x_offered s i @ [(the (packet_of e), has_room (mx_heap (x_mux s) ! i))] else x_offered s i)\<rparr>)
            else do {
              (m, r) \<leftarrow> mux_Close m;
              Some (s\<lparr>x_mux := m, x_reading := False, x_open := {}\<rparr>)
            }
          }
      | OpRecv i \<Rightarrow>
          if i < length (mx_heap (x_mux s)) then
            let c = mx_heap (x_mux s) ! i
            in (case c_buf (ch_incoming c) of
                  [] \<Rightarrow> Some s
                | p # ps \<Rightarrow> Some (s\<lparr>x_mux := (x_mux s)\<lparr>mx_heap := (mx_heap (x_mux s))[i :=
                    c\<lparr>ch_incoming := (ch_incoming c)\<lparr>c_buf := ps\<rparr>\<rparr>]\<rparr>,
                    x_got := (x_got s)(i := x_got s i @ [p])\<rparr>))
          else Some s
      | OpChildClose i \<Rightarrow> do {
          (m, r) \<leftarrow> childClose del (x_mux s) i;
          Some (s\<lparr>x_mux := m, x_open := x_open s - {i}\<rparr>)
        }
      | OpClose \<Rightarrow> do {
          (m, r) \<leftarrow> mux_Close (x_mux s);
          Some (s\<lparr>x_mux := m, x_open := {}\<rparr>)
        })"

inductive mux_reach :: "(nat list \<Rightarrow> nat \<Rightarrow> nat list) \<Rightarrow> mux_sys \<Rightarrow> bool" for del where
  mux_reach_start: "mux_reach del mux_start"
| mux_reach_step: "mux_reach del s \<Longrightarrow> mux_step del s op = Some t \<Longrightarrow> mux_reach del t"

section \<open>The operations on the heap of children\<close>

lemma find_child_None [simp]: "find_child i js = None \<longleftrightarrow> i \<notin> set js"
  by (induction js) auto

lemma find_child_Some: "find_child i js = Some k \<Longrightarrow> k < length js \<and> js ! k = i"
  by (induction js arbitrary: k) (auto split: if_splits)

lemma unordered_delete_facts:
  assumes "unordered_delete_spec del" and "find_child i js = Some k" and "distinct js"
  shows "distinct (del js k)" and "set (del js k) = set js - {i}"
proof -
  have k: "k < length js" "js ! k = i" using find_child_Some [OF assms(2)] by simp_all
  then have "mset (del js k) = mset js - {#i#}" using assms(1) by (auto simp: unordered_delete_spec_def)
  moreover have "i \<in># mset js" using k by auto
  ultimately have m: "mset (i # del js k) = mset js" by simp
  then have d: "distinct (i # del js k)" using assms(3) mset_eq_imp_distinct_iff by blast
  then show "distinct (del js k)" by simp
  have "set (i # del js k) = set js" using m by (metis set_mset_mset)
  with d show "set (del js k) = set js - {i}" by auto
qed

definition open_child :: "childStream \<Rightarrow> bool" where
  "open_child c \<longleftrightarrow> \<not> ch_done c \<and> \<not> c_closed (ch_incoming c)"

definition closed_child :: "childStream \<Rightarrow> bool" where
  "closed_child c \<longleftrightarrow> ch_done c \<and> c_closed (ch_incoming c)"

definition closed_copy :: "childStream \<Rightarrow> childStream" where
  "closed_copy c = \<lparr>ch_incoming = (ch_incoming c)\<lparr>c_closed := True\<rparr>, ch_done = True\<rparr>"

definition offered_copy :: "bytes \<Rightarrow> childStream \<Rightarrow> childStream" where
  "offered_copy p c =
     (if length (c_buf (ch_incoming c)) < c_cap (ch_incoming c)
      then c\<lparr>ch_incoming := (ch_incoming c)\<lparr>c_buf := c_buf (ch_incoming c) @ [p]\<rparr>\<rparr> else c)"

lemma close_child_open:
  "i < length heap \<Longrightarrow> open_child (heap ! i) \<Longrightarrow> close_child heap i = Some (heap[i := closed_copy (heap ! i)])"
  by (simp add: close_child_def open_child_def close_chan_def closed_copy_def)

lemma close_child_closed: "closed_child (heap ! i) \<Longrightarrow> close_child heap i = None"
  by (simp add: close_child_def closed_child_def idx_def)

lemma close_all_eq:
  assumes "distinct is" and "\<forall>i \<in> set is. i < length heap \<and> open_child (heap ! i)"
  shows "close_all is heap =
    Some (map (\<lambda>i. if i \<in> set is then closed_copy (heap ! i) else heap ! i) [0..<length heap])"
  using assms
proof (induction "is" arbitrary: heap)
  case Nil
  then show ?case by (simp add: map_nth)
next
  case (Cons i "is")
  then have "close_child heap i = Some (heap[i := closed_copy (heap ! i)])"
    by (intro close_child_open) auto
  then show ?case using Cons by (auto simp: nth_list_update intro!: nth_equalityI)
qed

lemma offer_all_eq:
  assumes "distinct is" and "\<forall>i \<in> set is. i < length heap \<and> open_child (heap ! i)"
  shows "offer_all p is heap =
    Some (map (\<lambda>i. if i \<in> set is then offered_copy p (heap ! i) else heap ! i) [0..<length heap])"
  using assms
proof (induction "is" arbitrary: heap)
  case Nil
  then show ?case by (simp add: map_nth)
next
  case (Cons i "is")
  then have "\<exists>ch. try_send (ch_incoming (heap ! i)) p = Some ch \<and>
      (heap ! i)\<lparr>ch_incoming := ch\<rparr> = offered_copy p (heap ! i)"
    by (auto simp: open_child_def try_send_def offered_copy_def)
  then obtain ch where "try_send (ch_incoming (heap ! i)) p = Some ch"
    "(heap ! i)\<lparr>ch_incoming := ch\<rparr> = offered_copy p (heap ! i)" by blast
  then show ?case using Cons by (auto simp: nth_list_update intro!: nth_equalityI)
qed


section \<open>The invariant\<close>

definition child_inv :: "childStream \<Rightarrow> bytes list \<Rightarrow> bytes list \<Rightarrow> bool" where
  "child_inv c off got \<longleftrightarrow> (
     let ch = ch_incoming c
     in length (c_buf ch) \<le> c_cap ch \<and> subseq (got @ c_buf ch) off \<and>
        (length off \<le> c_cap ch \<longrightarrow> got @ c_buf ch = off))"

definition child_log :: "childStream \<Rightarrow> (bytes \<times> bool) list \<Rightarrow> bytes list \<Rightarrow> bool" where
  "child_log c off got \<longleftrightarrow> child_inv c (map fst off) got \<and>
     got @ c_buf (ch_incoming c) = map fst (filter snd off)"

definition mux_inv :: "mux_sys \<Rightarrow> bool" where
  "mux_inv s \<longleftrightarrow> (
     let m = x_mux s
     in distinct (mx_children m) \<and> (\<forall>i \<in> set (mx_children m). i < length (mx_heap m)) \<and>
        x_open s = (if mx_closed m then {} else set (mx_children m)) \<and>
        (\<forall>i < length (mx_heap m).
           (if i \<in> set (mx_children m) \<and> \<not> mx_closed m then open_child (mx_heap m ! i)
            else closed_child (mx_heap m ! i)) \<and>
           child_log (mx_heap m ! i) (x_offered s i) (x_got s i)) \<and>
        (\<forall>i \<ge> length (mx_heap m). x_offered s i = [] \<and> x_got s i = []))"

lemma child_inv_offered: "child_inv c off got \<Longrightarrow> child_inv (offered_copy p c) (off @ [p]) got"
  unfolding child_inv_def offered_copy_def Let_def
  by (auto simp: subseq_append_iff simp flip: append_assoc intro: subseq_rev_drop_many list_emb_append_mono)

lemma child_inv_closed [simp]: "child_inv (closed_copy c) off got \<longleftrightarrow> child_inv c off got"
  by (simp add: child_inv_def closed_copy_def Let_def)

lemma child_inv_recv:
  "child_inv c off got \<Longrightarrow> c_buf (ch_incoming c) = p # ps \<Longrightarrow>
     child_inv (c\<lparr>ch_incoming := (ch_incoming c)\<lparr>c_buf := ps\<rparr>\<rparr>) off (got @ [p])"
  by (auto simp: child_inv_def Let_def)

lemma child_log_offered: "child_log c off got \<Longrightarrow> child_log (offered_copy p c) (off @ [(p, has_room c)]) got"
  using child_inv_offered [of c "map fst off" got p]
  by (auto simp: child_log_def offered_copy_def has_room_def)

lemma child_log_closed [simp]: "child_log (closed_copy c) off got \<longleftrightarrow> child_log c off got"
  by (simp add: child_log_def) (simp add: closed_copy_def)

lemma child_log_recv:
  "child_log c off got \<Longrightarrow> c_buf (ch_incoming c) = p # ps \<Longrightarrow>
     child_log (c\<lparr>ch_incoming := (ch_incoming c)\<lparr>c_buf := ps\<rparr>\<rparr>) off (got @ [p])"
  using child_inv_recv [of c "map fst off" got p ps] by (simp add: child_log_def)

lemma open_closed_copies [simp]:
  "closed_child (closed_copy c)" "open_child (offered_copy p c) = open_child c"
  "open_child (c\<lparr>ch_incoming := (ch_incoming c)\<lparr>c_buf := ps\<rparr>\<rparr>) = open_child c"
  "closed_child (c\<lparr>ch_incoming := (ch_incoming c)\<lparr>c_buf := ps\<rparr>\<rparr>) = closed_child c"
  by (auto simp: closed_child_def closed_copy_def open_child_def offered_copy_def)

lemma mux_inv_start: "mux_inv mux_start"
  by (simp add: mux_inv_def mux_start_def Multiplex_def)

lemma mux_Close_eq:
  assumes "mux_inv s"
  shows "mux_Close (x_mux s) =
    (let m = x_mux s
     in if mx_closed m then Some (m, Inl AlreadyClosedErr)
        else Some (m\<lparr>mx_closed := True, mx_stream_closes := mx_stream_closes m + 1, mx_heap :=
          map (\<lambda>i. if i \<in> set (mx_children m) then closed_copy (mx_heap m ! i) else mx_heap m ! i)
            [0..<length (mx_heap m)]\<rparr>, Inr ()))"
proof (cases "mx_closed (x_mux s)")
  case False
  let ?m = "x_mux s"
  have "close_all (mx_children ?m) (mx_heap ?m) =
      Some (map (\<lambda>i. if i \<in> set (mx_children ?m) then closed_copy (mx_heap ?m ! i) else mx_heap ?m ! i)
        [0..<length (mx_heap ?m)])"
    using assms False by (intro close_all_eq) (auto simp: mux_inv_def Let_def)
  with False show ?thesis by (simp add: mux_Close_def Let_def)
qed (simp add: mux_Close_def)

lemma handleIncoming_eq:
  assumes "mux_inv s"
  shows "handleIncoming (x_mux s) p =
    (let m = x_mux s
     in if mx_closed m then Some (m, False)
        else Some (m\<lparr>mx_heap :=
          map (\<lambda>i. if i \<in> set (mx_children m) then offered_copy p (mx_heap m ! i) else mx_heap m ! i)
            [0..<length (mx_heap m)]\<rparr>, True))"
proof (cases "mx_closed (x_mux s)")
  case False
  let ?m = "x_mux s"
  have "offer_all p (mx_children ?m) (mx_heap ?m) =
      Some (map (\<lambda>i. if i \<in> set (mx_children ?m) then offered_copy p (mx_heap ?m ! i) else mx_heap ?m ! i)
        [0..<length (mx_heap ?m)])"
    using assms False by (intro offer_all_eq) (auto simp: mux_inv_def Let_def)
  with False show ?thesis by (simp add: handleIncoming_def Let_def)
qed (simp add: handleIncoming_def)

lemma childClose_eq:
  assumes "mux_inv s" and "unordered_delete_spec del"
  shows "\<exists>js. distinct js \<and> set js = set (mx_children (x_mux s)) - {i} \<and>
    childClose del (x_mux s) i =
      (let m = x_mux s
       in if i \<notin> set (mx_children m) then Some (m, Inl AlreadyClosedErr)
          else if mx_closed m then None
          else Some (m\<lparr>mx_children := js, mx_heap := (mx_heap m)[i := closed_copy (mx_heap m ! i)]\<rparr>, Inr ()))"
proof (cases "i \<in> set (mx_children (x_mux s))")
  case True
  then obtain k where k: "find_child i (mx_children (x_mux s)) = Some k" by fastforce
  have d: "distinct (mx_children (x_mux s))" and i: "i < length (mx_heap (x_mux s))"
    using assms(1) True by (auto simp: mux_inv_def Let_def)
  have "close_child (mx_heap (x_mux s)) i =
      (if mx_closed (x_mux s) then None
       else Some ((mx_heap (x_mux s))[i := closed_copy (mx_heap (x_mux s) ! i)]))"
    using assms(1) True i close_child_open [OF i] close_child_closed [of "mx_heap (x_mux s)" i]
    by (auto simp: mux_inv_def Let_def)
  then show ?thesis
    using True unordered_delete_facts [OF assms(2) k d] k
    by (intro exI [of _ "del (mx_children (x_mux s)) k"]) (simp add: childClose_def Let_def)
next
  case False
  then have none: "find_child i (mx_children (x_mux s)) = None" by simp
  have "distinct (mx_children (x_mux s))" using assms(1) by (simp add: mux_inv_def Let_def)
  with False show ?thesis
    by (intro exI [of _ "mx_children (x_mux s)"]) (simp add: childClose_def none)
qed

lemma mux_inv_closed:
  assumes "mux_inv s" and "mux_Close (x_mux s) = Some (m, r)"
  shows "mux_inv (s\<lparr>x_mux := m, x_open := {}\<rparr>)" and "mux_inv (s\<lparr>x_mux := m, x_reading := False, x_open := {}\<rparr>)"
proof -
  show "mux_inv (s\<lparr>x_mux := m, x_open := {}\<rparr>)"
    using assms(1) assms(2) [unfolded mux_Close_eq [OF assms(1)]]
    by (auto simp: mux_inv_def Let_def split: if_splits)
  then show "mux_inv (s\<lparr>x_mux := m, x_reading := False, x_open := {}\<rparr>)" by (simp add: mux_inv_def)
qed

lemma mux_inv_fork:
  assumes "mux_inv s" and "mux_step del s (OpFork n) = Some t"
  shows "mux_inv t"
proof (cases "mx_closed (x_mux s)")
  case True
  with assms show ?thesis by (auto simp: mux_step_def Fork_def)
next
  case False
  let ?m = "x_mux s" and ?c = "\<lparr>ch_incoming = make_chan n, ch_done = False\<rparr>"
  have inv: "distinct (mx_children ?m)" "\<forall>i \<in> set (mx_children ?m). i < length (mx_heap ?m)"
    "\<And>i. i < length (mx_heap ?m) \<Longrightarrow> (if i \<in> set (mx_children ?m) then open_child (mx_heap ?m ! i)
        else closed_child (mx_heap ?m ! i)) \<and> child_log (mx_heap ?m ! i) (x_offered s i) (x_got s i)"
    "\<And>i. length (mx_heap ?m) \<le> i \<Longrightarrow> x_offered s i = [] \<and> x_got s i = []"
    using assms(1) False by (auto simp: mux_inv_def Let_def)
  have "x_open s = set (mx_children ?m)" using assms(1) False by (simp add: mux_inv_def Let_def)
  moreover have "t = s\<lparr>x_mux := fst (Fork ?m n), x_open := insert (length (mx_heap ?m)) (x_open s)\<rparr>"
    using assms(2) False by (simp add: mux_step_def Fork_def Let_def)
  moreover have new: "open_child ?c" "child_log ?c [] []"
    by (simp_all add: open_child_def make_chan_def child_log_def child_inv_def)
  moreover have "(if i \<in> set (mx_children ?m @ [length (mx_heap ?m)]) then open_child ((mx_heap ?m @ [?c]) ! i)
        else closed_child ((mx_heap ?m @ [?c]) ! i)) \<and>
      child_log ((mx_heap ?m @ [?c]) ! i) (x_offered s i) (x_got s i)" if "i < Suc (length (mx_heap ?m))" for i
  proof (cases "i = length (mx_heap ?m)")
    case True
    with new inv(4) [of i] show ?thesis by simp
  next
    case False
    with inv(3) [of i] that show ?thesis by (simp add: nth_append)
  qed
  ultimately show ?thesis using False inv by (auto simp: mux_inv_def Let_def Fork_def)
qed

lemma mux_inv_select:
  assumes inv: "mux_inv s" and step: "mux_step del s (OpSelect e) = Some t"
  shows "mux_inv t"
proof (cases "x_reading s")
  case reading: True
  obtain m continue where body: "readLoop_body (x_mux s) e = Some (m, continue)"
    using step reading by (auto simp: mux_step_def bind_eq_Some_conv)
  show ?thesis
  proof (cases continue)
    case True
    then obtain p where p: "packet_of e = Some p" "handleIncoming (x_mux s) p = Some (m, True)"
      using body by (cases e) (auto simp: readLoop_body_def packet_of_def)
    from p(2) [unfolded handleIncoming_eq [OF inv]]
    have m: "m = (x_mux s)\<lparr>mx_heap := map (\<lambda>i. if i \<in> set (mx_children (x_mux s))
        then offered_copy p (mx_heap (x_mux s) ! i) else mx_heap (x_mux s) ! i)
          [0..<length (mx_heap (x_mux s))]\<rparr>" and open': "\<not> mx_closed (x_mux s)"
      by (auto simp: Let_def split: if_splits)
    have "t = s\<lparr>x_mux := m, x_offered := (\<lambda>i. if i \<in> x_open s
        then x_offered s i @ [(the (packet_of e), has_room (mx_heap (x_mux s) ! i))] else x_offered s i)\<rparr>"
      using step reading body True by (simp add: mux_step_def)
    note t = this [unfolded p(1) option.sel]
    show ?thesis using inv open' unfolding t m mux_inv_def Let_def by (auto simp: child_log_offered)
  next
    case False
    then have "m = x_mux s"
      using body handleIncoming_eq [OF inv]
      by (cases e) (auto simp: readLoop_body_def Let_def split: if_splits)
    then obtain m' r where "mux_Close (x_mux s) = Some (m', r)" "t = s\<lparr>x_mux := m', x_reading := False, x_open := {}\<rparr>"
      using step reading body False by (auto simp: mux_step_def bind_eq_Some_conv)
    then show ?thesis using mux_inv_closed [OF inv] by simp
  qed
qed (use assms in \<open>simp add: mux_step_def\<close>)

lemma mux_inv_recv:
  assumes inv: "mux_inv s" and step: "mux_step del s (OpRecv i) = Some t"
  shows "mux_inv t"
proof (cases "i < length (mx_heap (x_mux s)) \<and> c_buf (ch_incoming (mx_heap (x_mux s) ! i)) \<noteq> []")
  case True
  then obtain p ps where ps: "c_buf (ch_incoming (mx_heap (x_mux s) ! i)) = p # ps"
    by (cases "c_buf (ch_incoming (mx_heap (x_mux s) ! i))") auto
  then have "child_log ((mx_heap (x_mux s) ! i)\<lparr>ch_incoming :=
      (ch_incoming (mx_heap (x_mux s) ! i))\<lparr>c_buf := ps\<rparr>\<rparr>) (x_offered s i) (x_got s i @ [p])"
    using inv True by (intro child_log_recv) (auto simp: mux_inv_def Let_def)
  with ps True show ?thesis
    using assms by (auto simp: mux_step_def mux_inv_def Let_def nth_list_update)
next
  case False
  then have "t = s" using step by (auto simp: mux_step_def Let_def split: if_splits list.splits)
  with inv show ?thesis by simp
qed

lemma mux_step_inv:
  assumes "mux_inv s" and "unordered_delete_spec del" and "mux_step del s op = Some t"
  shows "mux_inv t"
proof (cases op)
  case (OpFork n)
  then show ?thesis using assms mux_inv_fork by blast
next
  case (OpSelect e)
  then show ?thesis using assms mux_inv_select by blast
next
  case (OpRecv i)
  then show ?thesis using assms mux_inv_recv by blast
next
  case (OpChildClose i)
  obtain js where js: "distinct js" "set js = set (mx_children (x_mux s)) - {i}"
    "childClose del (x_mux s) i =
      (let m = x_mux s
       in if i \<notin> set (mx_children m) then Some (m, Inl AlreadyClosedErr)
          else if mx_closed m then None
          else Some (m\<lparr>mx_children := js, mx_heap := (mx_heap m)[i := closed_copy (mx_heap m ! i)]\<rparr>, Inr ()))"
    using childClose_eq [OF assms(1,2), of i] by blast
  then show ?thesis
    using assms(1,3) OpChildClose
    by (auto simp: mux_step_def mux_inv_def Let_def nth_list_update split: if_splits)
next
  case OpClose
  then show ?thesis
    using assms mux_inv_closed [OF assms(1)] by (auto simp: mux_step_def bind_eq_Some_conv)
qed

lemma mux_reach_inv: "mux_reach del s \<Longrightarrow> unordered_delete_spec del \<Longrightarrow> mux_inv s"
  by (induction rule: mux_reach.induct) (auto simp: mux_inv_start intro: mux_step_inv)


section \<open>The properties\<close>

text \<open>Every packet that comes in reaches every open child whose buffer has room, and only those:
  the buffers of the others, and everything else of the children, stay as they are; and nothing
  panics.\<close>

theorem mux_broadcast:
  assumes "mux_reach del s" and "unordered_delete_spec del" and "\<not> mx_closed (x_mux s)"
  shows "\<exists>m. handleIncoming (x_mux s) p = Some (m, True) \<and> mx_children m = mx_children (x_mux s) \<and>
    length (mx_heap m) = length (mx_heap (x_mux s)) \<and>
    (\<forall>i < length (mx_heap m).
       let c = mx_heap (x_mux s) ! i; ch = ch_incoming c
       in mx_heap m ! i =
         (if \<not> ch_done c \<and> length (c_buf ch) < c_cap ch then c\<lparr>ch_incoming := ch\<lparr>c_buf := c_buf ch @ [p]\<rparr>\<rparr>
          else c))"
proof -
  have inv: "mux_inv s" using mux_reach_inv assms(1,2) by blast
  have "i \<in> set (mx_children (x_mux s)) \<longleftrightarrow> \<not> ch_done (mx_heap (x_mux s) ! i)"
    if "i < length (mx_heap (x_mux s))" for i
    using inv that assms(3)
    by (auto simp: mux_inv_def Let_def open_child_def closed_child_def split: if_splits)
  then show ?thesis
    using assms(3) by (simp add: handleIncoming_eq [OF inv] Let_def offered_copy_def)
qed

definition swap_delete :: "nat list \<Rightarrow> nat \<Rightarrow> nat list" where
  "swap_delete xs k = butlast (xs[k := last xs])"

lemma swap_delete_spec: "unordered_delete_spec swap_delete"
  unfolding unordered_delete_spec_def
proof (intro allI impI)
  fix xs :: "nat list" and k
  assume k: "k < length xs"
  then have ne: "xs \<noteq> []" by auto
  then obtain ys y where xs: "xs = ys @ [y]" by (cases xs rule: rev_cases) auto
  show "mset (swap_delete xs k) = mset xs - {#xs ! k#}"
  proof (cases "k = length ys")
    case True
    then show ?thesis by (simp add: swap_delete_def xs)
  next
    case False
    with k have k': "k < length ys" by (simp add: xs)
    then have "ys ! k \<in># mset ys" by simp
    with k' show ?thesis
      by (simp add: swap_delete_def xs list_update_append mset_update nth_append)
  qed
qed

definition one_child :: mux_sys where
  "one_child = mux_start\<lparr>x_mux := fst (Fork Multiplex 10), x_open := {0}\<rparr>"

lemma one_child_reach: "mux_reach swap_delete one_child"
  by (rule mux_reach_step [OF mux_reach_start, of _ "OpFork 10"])
    (simp add: mux_step_def one_child_def mux_start_def Fork_def Multiplex_def make_chan_def)

theorem mux_broadcast_witness:
  "\<exists>m. handleIncoming (x_mux one_child) [7] = Some (m, True) \<and>
     c_buf (ch_incoming (mx_heap m ! 0)) = [[7]]"
  using mux_broadcast [OF one_child_reach swap_delete_spec, of "[7]"]
  by (auto simp: one_child_def mux_start_def Fork_def Multiplex_def make_chan_def Let_def)

text \<open>C17: A child's reader gets, in their order and each once, just those packets that came in while the child was
  open and its buffer had room; the buffer never outgrows its bound, so that it gets all of them when they fit; and
  a child is open until somebody closes it or the multiplexer.\<close>

theorem mux_delivery:
  assumes "mux_reach del s" and "unordered_delete_spec del" and "i < length (mx_heap (x_mux s))"
    and "ch = ch_incoming (mx_heap (x_mux s) ! i)"
  shows "x_got s i @ c_buf ch = map fst (filter snd (x_offered s i)) \<and> length (c_buf ch) \<le> c_cap ch \<and>
    subseq (x_got s i @ c_buf ch) (map fst (x_offered s i)) \<and>
    (length (x_offered s i) \<le> c_cap ch \<longrightarrow> x_got s i @ c_buf ch = map fst (x_offered s i)) \<and>
    (i \<in> x_open s \<longleftrightarrow> \<not> c_closed ch) \<and> (i \<in> x_open s \<longleftrightarrow> \<not> ch_done (mx_heap (x_mux s) ! i))"
proof -
  have "mux_inv s" using mux_reach_inv assms(1,2) by blast
  then show ?thesis
    using assms(3,4) by (auto simp: mux_inv_def child_log_def child_inv_def open_child_def closed_child_def Let_def split: if_splits)
qed

text \<open>A child of one packet: the second one that comes in is dropped, and after the first has been received a third
  one is not.\<close>

definition small_child :: mux_sys where
  "small_child = the (mux_step swap_delete mux_start (OpFork 1))"

definition third_packet :: mux_sys where
  "third_packet = the (do {
     s \<leftarrow> mux_step swap_delete small_child (OpSelect (GotPacket [7]));
     s \<leftarrow> mux_step swap_delete s (OpSelect (GotPacket [8]));
     s \<leftarrow> mux_step swap_delete s (OpRecv 0);
     mux_step swap_delete s (OpSelect (GotPacket [9]))
   })"

lemmas mux_run_simps = mux_step_def readLoop_body_def handleIncoming_def Fork_def Multiplex_def make_chan_def
  try_send_def packet_of_def has_room_def

lemma third_packet_reach: "mux_reach swap_delete third_packet"
proof -
  have "mux_reach swap_delete small_child"
    by (rule mux_reach_step [OF mux_reach_start, of _ "OpFork 1"])
      (simp add: small_child_def mux_start_def mux_run_simps)
  moreover obtain s1 where s1: "mux_step swap_delete small_child (OpSelect (GotPacket [7])) = Some s1"
    by (simp add: small_child_def mux_start_def mux_run_simps)
  moreover obtain s2 where s2: "mux_step swap_delete s1 (OpSelect (GotPacket [8])) = Some s2"
    using s1 by (auto simp: small_child_def mux_start_def mux_run_simps Let_def)
  moreover obtain s3 where s3: "mux_step swap_delete s2 (OpRecv 0) = Some s3"
    using s1 s2 by (auto simp: small_child_def mux_start_def mux_run_simps Let_def)
  moreover obtain s4 where s4: "mux_step swap_delete s3 (OpSelect (GotPacket [9])) = Some s4"
    using s1 s2 s3 by (auto simp: small_child_def mux_start_def mux_run_simps Let_def)
  moreover have "third_packet = s4" using s1 s2 s3 s4 by (simp add: third_packet_def)
  ultimately show ?thesis by (meson mux_reach_step)
qed

theorem mux_delivery_witness:
  "x_got third_packet 0 @ c_buf (ch_incoming (mx_heap (x_mux third_packet) ! 0)) = [[7], [9]] \<and>
    x_offered third_packet 0 = [([7], True), ([8], False), ([9], True)] \<and> 0 \<in> x_open third_packet"
proof -
  have e: "x_offered third_packet 0 = [([7], True), ([8], False), ([9], True)]" "0 < length (mx_heap (x_mux third_packet))"
    "0 \<in> x_open third_packet"
    by (simp_all add: third_packet_def small_child_def mux_start_def mux_run_simps Let_def)
  from mux_delivery [OF third_packet_reach swap_delete_spec e(2) refl] e(1,3) show ?thesis by simp
qed

text \<open>C18: The only panic: whatever the order of forks, packets, receives and closes, an operation
  panics exactly when it closes a child that was open when the multiplexer was closed.  (\<open>Close\<close>
  closes the channels of the children and leaves them in the list, so that \<open>childClose\<close> finds
  the child and closes its channels again.)\<close>

theorem mux_panics_iff:
  assumes "mux_reach del s" and "unordered_delete_spec del"
  shows "mux_step del s op = None \<longleftrightarrow>
    (\<exists>i. op = OpChildClose i \<and> mx_closed (x_mux s) \<and> i \<in> set (mx_children (x_mux s)))"
proof -
  have inv: "mux_inv s" using mux_reach_inv assms by blast
  have body: "readLoop_body (x_mux s) e \<noteq> None" for e
    using handleIncoming_eq [OF inv] by (cases e) (auto simp: readLoop_body_def Let_def)
  have "mux_Close m \<noteq> None" if "readLoop_body (x_mux s) e = Some (m, False)" for m e
  proof -
    have "m = x_mux s"
      using that handleIncoming_eq [OF inv]
      by (cases e) (auto simp: readLoop_body_def Let_def split: if_splits)
    then show ?thesis using mux_Close_eq [OF inv] by (auto simp: Let_def)
  qed
  note close = this
  show ?thesis
  proof (cases op)
    case (OpSelect e)
    obtain m c where "readLoop_body (x_mux s) e = Some (m, c)" using body [of e] by auto
    then show ?thesis using OpSelect close [of e m]
      by (cases c; cases "mux_Close m") (auto simp: mux_step_def)
  next
    case (OpChildClose i)
    obtain js where "childClose del (x_mux s) i =
      (let m = x_mux s
       in if i \<notin> set (mx_children m) then Some (m, Inl AlreadyClosedErr)
          else if mx_closed m then None
          else Some (m\<lparr>mx_children := js, mx_heap := (mx_heap m)[i := closed_copy (mx_heap m ! i)]\<rparr>, Inr ()))"
      using childClose_eq [OF inv assms(2), of i] by blast
    then show ?thesis using OpChildClose by (simp add: mux_step_def Let_def)
  next
    case OpClose
    then show ?thesis using mux_Close_eq [OF inv] by (auto simp: mux_step_def Let_def bind_eq_None_conv)
  qed (auto simp: mux_step_def Let_def split: list.splits prod.splits)
qed

definition one_closed :: mux_sys where
  "one_closed = the (mux_step swap_delete one_child OpClose)"

lemma one_closed_reach: "mux_reach swap_delete one_closed"
  by (rule mux_reach_step [OF one_child_reach, of "OpClose"])
    (simp add: one_closed_def mux_step_def one_child_def mux_start_def mux_Close_def Fork_def Multiplex_def
      make_chan_def close_child_def close_chan_def)

theorem mux_panics_iff_witness:
  "mux_step swap_delete one_closed (OpChildClose 0) = None"
  using mux_panics_iff [OF one_closed_reach swap_delete_spec, of "OpChildClose 0"]
  by (simp add: one_closed_def mux_step_def one_child_def mux_start_def mux_Close_def Fork_def Multiplex_def
      make_chan_def close_child_def close_chan_def)

end
