(* ===== verification/Stream_Pump.thy ===== *)
theory Stream_Pump
  imports Stream_Mux
begin

text \<open>
  The goroutines that move packets between channels: \<open>forwardPackets\<close> and \<open>mergeDones\<close>
  (\<open>ipstack/chan_util.go\<close>), \<open>filterChan\<close> (\<open>ipstack/filters.go\<close>), and \<open>pipeStream\<close>, \<open>Send\<close> and
  \<open>Loopback\<close> (\<open>ipstack/stream.go\<close>).
\<close>

section \<open>A goroutine between two channels\<close>

text \<open>\<open>pu_src\<close> are the packets in the source channel, each with a flag that says whether a cancel
  channel was closed when it was sent; \<open>pu_hold\<close> is the packet between the two selects of the
  loop; \<open>pu_in\<close> is everything that was ever sent to the source and \<open>pu_out\<close> what the receivers of
  the destination have got.  \<open>pu_merged\<close> is the channel that \<open>mergeDones\<close> makes of two or more.\<close>

record pump =
  pu_in :: "(bytes \<times> bool) list"
  pu_src :: "(bytes \<times> bool) list"
  pu_src_closed :: bool
  pu_hold :: "(bytes \<times> bool) option"
  pu_out :: "(bytes \<times> bool) list"
  pu_running :: bool
  pu_dst_closed :: bool
  pu_panicked :: bool
  pu_cancels :: "bool list"
  pu_merged :: bool

definition new_pump :: "nat \<Rightarrow> pump" where
  "new_pump n = \<lparr>pu_in = [], pu_src = [], pu_src_closed = False, pu_hold = None, pu_out = [],
     pu_running = True, pu_dst_closed = False, pu_panicked = False,
     pu_cancels = replicate n False, pu_merged = False\<rparr>"

definition any_cancel :: "pump \<Rightarrow> bool" where
  "any_cancel p \<longleftrightarrow> True \<in> set (pu_cancels p)"

text \<open>\<open>mergeDones\<close>: of one channel it is that channel, of none it is \<open>nil\<close>.  A watcher that sees its
  channel closed takes the lock and closes the result unless it is closed already.\<close>

definition mergeDones :: "pump \<Rightarrow> bool" where
  "mergeDones p = (case pu_cancels p of [] \<Rightarrow> False | [c] \<Rightarrow> c | _ \<Rightarrow> pu_merged p)"

definition merge_watcher :: "bool \<Rightarrow> bool go" where
  "merge_watcher res = (if res then Some res else if res then None else Some True)"

definition return_from :: "bool \<Rightarrow> pump \<Rightarrow> pump" where
  "return_from closeDst p = p\<lparr>pu_running := False, pu_hold := None, pu_dst_closed := closeDst\<rparr>"

text \<open>What the rest of the program does: send to the source, close it, close a cancel channel; and
  the watchers of \<open>mergeDones\<close>.\<close>

inductive outside :: "pump \<Rightarrow> pump \<Rightarrow> bool" where
  produce: "\<not> pu_src_closed p \<Longrightarrow> outside p
     (p\<lparr>pu_src := pu_src p @ [(x, any_cancel p)], pu_in := pu_in p @ [(x, any_cancel p)]\<rparr>)"
| close_source: "outside p (p\<lparr>pu_src_closed := True\<rparr>)"
| cancel: "i < length (pu_cancels p) \<Longrightarrow> outside p (p\<lparr>pu_cancels := (pu_cancels p)[i := True]\<rparr>)"
| merge: "any_cancel p \<Longrightarrow> merge_watcher (pu_merged p) = Some b \<Longrightarrow> outside p (p\<lparr>pu_merged := b\<rparr>)"

text \<open>The loop of \<open>forwardPackets\<close>.\<close>

inductive forward_step :: "bool \<Rightarrow> pump \<Rightarrow> pump \<Rightarrow> bool" for closeDst where
  fwd_receive: "pu_running p \<Longrightarrow> pu_hold p = None \<Longrightarrow> pu_src p = x # xs \<Longrightarrow>
     forward_step closeDst p
       (if any_cancel p then return_from closeDst (p\<lparr>pu_src := xs\<rparr>) else p\<lparr>pu_src := xs, pu_hold := Some x\<rparr>)"
| fwd_source_closed: "pu_running p \<Longrightarrow> pu_hold p = None \<Longrightarrow> pu_src p = [] \<Longrightarrow> pu_src_closed p \<Longrightarrow>
     forward_step closeDst p (return_from closeDst p)"
| fwd_deliver: "pu_running p \<Longrightarrow> pu_hold p = Some x \<Longrightarrow>
     forward_step closeDst p (p\<lparr>pu_hold := None, pu_out := pu_out p @ [x]\<rparr>)"
| fwd_cancel: "pu_running p \<Longrightarrow> mergeDones p \<Longrightarrow> forward_step closeDst p (return_from closeDst p)"


inductive forward_reach :: "bool \<Rightarrow> nat \<Rightarrow> pump \<Rightarrow> bool" for closeDst n where
  forward_start: "forward_reach closeDst n (new_pump n)"
| forward_outside: "forward_reach closeDst n p \<Longrightarrow> outside p q \<Longrightarrow> forward_reach closeDst n q"
| forward_loop: "forward_reach closeDst n p \<Longrightarrow> forward_step closeDst p q \<Longrightarrow> forward_reach closeDst n q"


section \<open>Pipes, \<open>Send\<close> and \<open>Loopback\<close>\<close>

text \<open>The two ends of a pipe, of which the left one is \<open>pipe1\<close>, and their shared \<open>done\<close> channel.\<close>

record pipe =
  pi_closed1 :: bool
  pi_closed2 :: bool
  pi_done :: bool

definition Pipe :: pipe where
  "Pipe = \<lparr>pi_closed1 = False, pi_closed2 = False, pi_done = False\<rparr>"

definition pipe_Close :: "pipe \<Rightarrow> bool \<Rightarrow> (pipe \<times> (stream_error + unit)) go" where
  "pipe_Close p left = (
     let closed = (if left then pi_closed1 p else pi_closed2 p);
         other = (if left then pi_closed2 p else pi_closed1 p)
     in if closed then Some (p, Inl AlreadyClosedErr)
        else
          let p = (if left then p\<lparr>pi_closed1 := True\<rparr> else p\<lparr>pi_closed2 := True\<rparr>)
          in if \<not> other then
               if pi_done p then None else Some (p\<lparr>pi_done := True\<rparr>, Inr ())
             else Some (p, Inr ()))"

fun pipe_run :: "pipe \<Rightarrow> bool list \<Rightarrow> (pipe \<times> (stream_error + unit) list) go" where
  "pipe_run p [] = Some (p, [])"
| "pipe_run p (left # cs) = do {
     (p, r) \<leftarrow> pipe_Close p left;
     (p, rs) \<leftarrow> pipe_run p cs;
     Some (p, r # rs)
   }"

text \<open>\<open>Send\<close>: \<open>closed\<close> is the stream's \<open>Done\<close> at the first look; then the caller waits until the
  stream takes the packet or is done, whichever the select sees (\<open>taken\<close>).\<close>

definition Send :: "bool \<Rightarrow> bool \<Rightarrow> bytes \<Rightarrow> bytes option \<times> (stream_error + unit)" where
  "Send closed taken packet =
     (if closed then (None, Inl WriteClosedErr)
      else if taken then (Some packet, Inr ()) else (None, Inl WriteClosedErr))"

text \<open>\<open>Loopback\<close>: each received packet is sent, until the stream does not take one any more.\<close>

fun Loopback :: "(bytes \<times> bool) list \<Rightarrow> bytes list" where
  "Loopback [] = []"
| "Loopback ((packet, taken) # incoming) = (if taken then packet # Loopback incoming else [])"

section \<open>Forwarding\<close>

lemma merge_watcher_total: "merge_watcher res = Some True"
  by (cases res) (simp_all add: merge_watcher_def)

definition held :: "pump \<Rightarrow> (bytes \<times> bool) list" where
  "held p = (case pu_hold p of None \<Rightarrow> [] | Some x \<Rightarrow> [x])"

lemma held_simps [simp]: "pu_hold p = None \<Longrightarrow> held p = []" "pu_hold p = Some x \<Longrightarrow> held p = [x]"
  by (simp_all add: held_def)

definition forward_inv :: "bool \<Rightarrow> nat \<Rightarrow> pump \<Rightarrow> bool" where
  "forward_inv closeDst n p \<longleftrightarrow>
     (if pu_running p then pu_in p = pu_out p @ held p @ pu_src p else prefix (pu_out p) (pu_in p)) \<and>
     (\<forall>x \<in> set (pu_out p) \<union> set (held p). \<not> snd x) \<and>
     ((\<exists>x \<in> set (pu_src p). snd x) \<longrightarrow> any_cancel p) \<and>
     pu_dst_closed p = (closeDst \<and> \<not> pu_running p) \<and> \<not> pu_panicked p \<and>
     (\<not> pu_running p \<longrightarrow> any_cancel p \<or> pu_src_closed p) \<and>
     (pu_merged p \<longrightarrow> any_cancel p) \<and> length (pu_cancels p) = n"

lemma any_cancel_simps [simp]:
  "any_cancel (p\<lparr>pu_in := a\<rparr>) = any_cancel p" "any_cancel (p\<lparr>pu_src := b\<rparr>) = any_cancel p"
  "any_cancel (p\<lparr>pu_hold := c\<rparr>) = any_cancel p" "any_cancel (p\<lparr>pu_out := d\<rparr>) = any_cancel p"
  "any_cancel (p\<lparr>pu_running := e\<rparr>) = any_cancel p" "any_cancel (p\<lparr>pu_dst_closed := e\<rparr>) = any_cancel p"
  "any_cancel (p\<lparr>pu_merged := e\<rparr>) = any_cancel p" "any_cancel (p\<lparr>pu_src_closed := e\<rparr>) = any_cancel p"
  "any_cancel (p\<lparr>pu_panicked := e\<rparr>) = any_cancel p"
  by (simp_all add: any_cancel_def)

lemma mergeDones_cancel: "mergeDones p \<Longrightarrow> (pu_merged p \<longrightarrow> any_cancel p) \<Longrightarrow> any_cancel p"
  by (auto simp: mergeDones_def any_cancel_def split: list.splits)

lemma forward_inv_outside:
  assumes "outside p q" and "forward_inv c n p"
  shows "forward_inv c n q"
  using assms
proof (induction rule: outside.induct)
  case (cancel i p)
  then have "any_cancel (p\<lparr>pu_cancels := (pu_cancels p)[i := True]\<rparr>)"
    by (auto simp: any_cancel_def set_update_memI)
  then show ?case using cancel by (auto simp: forward_inv_def held_def split: option.splits if_splits)
qed (auto simp: forward_inv_def held_def split: option.splits if_splits)

lemma forward_inv_step:
  assumes "forward_step c p q" and "forward_inv c n p"
  shows "forward_inv c n q"
  using assms
proof (induction rule: forward_step.induct)
  case (fwd_receive p x xs)
  then show ?case by (auto simp: forward_inv_def return_from_def held_def)
next
  case (fwd_cancel p)
  then have "any_cancel p" using mergeDones_cancel by (auto simp: forward_inv_def)
  then show ?case using fwd_cancel by (auto simp: forward_inv_def return_from_def held_def)
qed (auto simp: forward_inv_def return_from_def held_def)

lemma forward_reach_inv: "forward_reach c n p \<Longrightarrow> forward_inv c n p"
proof (induction rule: forward_reach.induct)
  case forward_start
  then show ?case by (simp add: forward_inv_def new_pump_def held_def)
qed (auto intro: forward_inv_outside forward_inv_step)


lemma forward_can_stop:
  assumes "forward_inv c n p" and "pu_running p" and "any_cancel p"
  shows "\<exists>q r. (q = p \<or> outside p q) \<and> forward_step c q r \<and> \<not> pu_running r"
proof (cases "mergeDones p")
  case True
  then have "forward_step c p (return_from c p)" by (rule fwd_cancel [OF assms(2)])
  moreover have "\<not> pu_running (return_from c p)" by (simp add: return_from_def)
  ultimately show ?thesis by blast
next
  case False
  let ?q = "p\<lparr>pu_merged := True\<rparr>"
  have "outside p ?q" using merge [OF assms(3)] merge_watcher_total by blast
  moreover have "mergeDones ?q"
    using False assms(3) by (auto simp: mergeDones_def any_cancel_def split: list.splits)
  then have "forward_step c ?q (return_from c ?q)" using assms(2) by (intro fwd_cancel) simp_all
  moreover have "\<not> pu_running (return_from c ?q)" by (simp add: return_from_def)
  ultimately show ?thesis by blast
qed

section \<open>Filtering\<close>








section \<open>The properties\<close>

text \<open>C19: \<open>forwardPackets\<close> delivers packets in order, none twice and none left out before one that is
  delivered, and never one that was sent after a cancel channel was closed, although
  \<open>mergeDones\<close> reports the closing only later; it closes the destination exactly when it is
  asked to and has returned; and once a cancel channel is closed it can return, whether or not
  anyone receives.\<close>

theorem forward_packets_correct:
  assumes "forward_reach closeDst n p"
  shows "prefix (map fst (pu_out p)) (map fst (pu_in p)) \<and> (\<forall>x \<in> set (pu_out p). \<not> snd x) \<and>
    pu_dst_closed p = (closeDst \<and> \<not> pu_running p) \<and>
    (pu_running p \<longrightarrow> any_cancel p \<longrightarrow>
       (\<exists>q r. (q = p \<or> outside p q) \<and> forward_step closeDst q r \<and> \<not> pu_running r))"
proof -
  have inv: "forward_inv closeDst n p" using forward_reach_inv assms by blast
  then have "prefix (pu_out p) (pu_in p)" by (auto simp: forward_inv_def split: if_splits)
  then have "prefix (map fst (pu_out p)) (map fst (pu_in p))" by (auto simp: prefix_def)
  then show ?thesis using inv forward_can_stop by (auto simp: forward_inv_def)
qed

definition cancelled_pump :: pump where
  "cancelled_pump = (new_pump 2)\<lparr>pu_cancels := [False, True], pu_src := [([1], True)], pu_in := [([1], True)]\<rparr>"

lemma cancelled_pump_reach: "forward_reach True 2 cancelled_pump"
proof -
  have "forward_reach True 2 ((new_pump 2)\<lparr>pu_cancels := (pu_cancels (new_pump 2))[1 := True]\<rparr>)"
    by (rule forward_outside [OF forward_start cancel]) (simp add: new_pump_def)
  then have "forward_reach True 2 ((new_pump 2)\<lparr>pu_cancels := [False, True]\<rparr>)"
    by (simp add: new_pump_def numeral_2_eq_2)
  from forward_outside [OF this produce, of "[1]"] show ?thesis
    by (simp add: cancelled_pump_def any_cancel_def) (simp add: new_pump_def)
qed

theorem forward_packets_correct_witness:
  "\<exists>q r. (q = cancelled_pump \<or> outside cancelled_pump q) \<and> forward_step True q r \<and> \<not> pu_running r"
  using forward_packets_correct [OF cancelled_pump_reach]
  by (simp add: cancelled_pump_def any_cancel_def new_pump_def)








definition open_ends :: "pipe \<Rightarrow> bool set" where
  "open_ends p = {left. if left then \<not> pi_closed1 p else \<not> pi_closed2 p}"

lemma pipe_Close_cases:
  assumes "pi_done p \<longleftrightarrow> open_ends p \<noteq> UNIV"
  shows "pipe_Close p left = (if left \<in> open_ends p
     then Some (p\<lparr>pi_closed1 := pi_closed1 p \<or> left, pi_closed2 := pi_closed2 p \<or> \<not> left, pi_done := True\<rparr>, Inr ())
     else Some (p, Inl AlreadyClosedErr))"
proof -
  have "pi_done p \<longleftrightarrow> pi_closed1 p \<or> pi_closed2 p"
    using assms by (auto simp: open_ends_def split: if_splits)
  then show ?thesis by (cases p) (auto simp: pipe_Close_def open_ends_def Let_def)
qed

lemma pipe_run_closes:
  assumes "pi_done p \<longleftrightarrow> open_ends p \<noteq> UNIV"
  shows "\<exists>q rs. pipe_run p cs = Some (q, rs) \<and> (pi_done q \<longleftrightarrow> pi_done p \<or> cs \<noteq> []) \<and>
     length (filter (\<lambda>r. r = Inr ()) rs) = card (set cs \<inter> open_ends p)"
  using assms
proof (induction cs arbitrary: p)
  case (Cons left cs)
  show ?case
  proof (cases "left \<in> open_ends p")
    case True
    let ?q = "p\<lparr>pi_closed1 := pi_closed1 p \<or> left, pi_closed2 := pi_closed2 p \<or> \<not> left, pi_done := True\<rparr>"
    have open': "open_ends ?q = open_ends p - {left}" by (auto simp: open_ends_def)
    then have "pi_done ?q \<longleftrightarrow> open_ends ?q \<noteq> UNIV" by auto
    from Cons.IH [OF this] obtain q rs where q: "pipe_run ?q cs = Some (q, rs)" "pi_done q"
      "length (filter (\<lambda>r. r = Inr ()) rs) = card (set cs \<inter> open_ends ?q)" by auto
    have "set (left # cs) \<inter> open_ends p = insert left (set cs \<inter> open_ends ?q)" using True open' by auto
    then have "card (set (left # cs) \<inter> open_ends p) = Suc (card (set cs \<inter> open_ends ?q))"
      using open' by simp
    with q show ?thesis using True pipe_Close_cases [OF Cons.prems] by simp
  next
    case False
    from Cons.IH [OF Cons.prems] obtain q rs where q: "pipe_run p cs = Some (q, rs)"
      "pi_done q \<longleftrightarrow> pi_done p \<or> cs \<noteq> []"
      "length (filter (\<lambda>r. r = Inr ()) rs) = card (set cs \<inter> open_ends p)" by auto
    have "set (left # cs) \<inter> open_ends p = set cs \<inter> open_ends p" using False by auto
    moreover have "pi_done p" using Cons.prems False by auto
    ultimately show ?thesis using q False pipe_Close_cases [OF Cons.prems] by simp
  qed
qed simp

text \<open>Closing the two ends of a pipe in any order and any number of times never panics; each end
  is closed once and reports an error afterwards; and \<open>Done\<close> is closed by the first.\<close>

theorem pipe_close_correct:
  "\<exists>p rs. pipe_run Pipe cs = Some (p, rs) \<and> (pi_done p \<longleftrightarrow> cs \<noteq> []) \<and>
     length (filter (\<lambda>r. r = Inr ()) rs) = card (set cs)"
proof -
  have "open_ends Pipe = UNIV" by (auto simp: open_ends_def Pipe_def)
  then show ?thesis using pipe_run_closes [of Pipe cs] by (simp add: Pipe_def)
qed

end
