(* ===== verification/IP_Stack.thy ===== *)
theory IP_Stack
  imports IP_Frag Stream_Pump
begin

text \<open>
  The sending goroutine of \<open>FragmentOutgoingIPv4\<close> (\<open>ipstack/ip_frag.go\<close>), and the filters of the IP
  layer put together: identifiers, fragments, a network that mixes the fragments of all
  packets, and reassembly.
\<close>

section \<open>The sending goroutine\<close>

text \<open>\<open>forwardLoop\<close>: \<open>fg_in\<close> are the packets taken from \<open>Outgoing\<close>, \<open>fg_pending\<close> the fragments of the last
  one that are still to be sent, \<open>fg_out\<close> what the stream below has taken, and \<open>fg_done\<close> says
  whether that stream is done.  \<open>Send\<close> looks at \<open>Done\<close> first and then waits for either.\<close>

record fragmenter =
  fg_in :: "bytes list"
  fg_pending :: "bytes list"
  fg_out :: "bytes list"
  fg_running :: bool
  fg_done :: bool
  fg_panicked :: bool

definition FragmentOutgoingIPv4 :: fragmenter where
  "FragmentOutgoingIPv4 = \<lparr>fg_in = [], fg_pending = [], fg_out = [], fg_running = True, fg_done = False,
     fg_panicked = False\<rparr>"

inductive forwardLoop :: "(int \<Rightarrow> int \<Rightarrow> int) \<Rightarrow> int \<Rightarrow> fragmenter \<Rightarrow> fragmenter \<Rightarrow> bool" for minInt mtu where
  stream_done: "forwardLoop minInt mtu s (s\<lparr>fg_done := True\<rparr>)"
| take_packet: "fg_running s \<Longrightarrow> fg_pending s = [] \<Longrightarrow>
     forwardLoop minInt mtu s
       (case fragments minInt mtu packet of
          None \<Rightarrow> s\<lparr>fg_in := fg_in s @ [packet], fg_running := False, fg_panicked := True\<rparr>
        | Some fs \<Rightarrow> s\<lparr>fg_in := fg_in s @ [packet], fg_pending := fs\<rparr>)"
| send_fragment: "fg_running s \<Longrightarrow> fg_pending s = fragment # fs \<Longrightarrow> Send closed taken fragment = (sent, r) \<Longrightarrow>
     closed \<or> \<not> taken \<longrightarrow> fg_done s \<Longrightarrow>
     forwardLoop minInt mtu s
       (case r of
          Inr _ \<Rightarrow> s\<lparr>fg_pending := fs, fg_out := fg_out s @ [fragment]\<rparr>
        | Inl err \<Rightarrow> s\<lparr>fg_pending := [], fg_running := False\<rparr>)"
| see_done: "fg_running s \<Longrightarrow> fg_pending s = [] \<Longrightarrow> fg_done s \<Longrightarrow>
     forwardLoop minInt mtu s (s\<lparr>fg_running := False\<rparr>)"

inductive fragmenter_reach :: "(int \<Rightarrow> int \<Rightarrow> int) \<Rightarrow> int \<Rightarrow> fragmenter \<Rightarrow> bool" for minInt mtu where
  fragmenter_start: "fragmenter_reach minInt mtu FragmentOutgoingIPv4"
| fragmenter_step: "fragmenter_reach minInt mtu s \<Longrightarrow> forwardLoop minInt mtu s t \<Longrightarrow> fragmenter_reach minInt mtu t"

definition pieces :: "(int \<Rightarrow> int \<Rightarrow> int) \<Rightarrow> int \<Rightarrow> bytes list \<Rightarrow> bytes list" where
  "pieces minInt mtu ps = concat (map (\<lambda>p. case fragments minInt mtu p of None \<Rightarrow> [] | Some fs \<Rightarrow> fs) ps)"

definition fragmenter_inv :: "(int \<Rightarrow> int \<Rightarrow> int) \<Rightarrow> int \<Rightarrow> fragmenter \<Rightarrow> bool" where
  "fragmenter_inv minInt mtu s \<longleftrightarrow>
     prefix (fg_out s @ fg_pending s) (pieces minInt mtu (fg_in s)) \<and>
     (fg_running s \<longrightarrow> fg_out s @ fg_pending s = pieces minInt mtu (fg_in s)) \<and>
     (fg_panicked s \<longleftrightarrow> (\<exists>p \<in> set (fg_in s). fragments minInt mtu p = None)) \<and>
     (fg_running s \<longrightarrow> \<not> fg_panicked s) \<and> (\<not> fg_running s \<longrightarrow> fg_panicked s \<or> fg_done s)"

lemma pieces_append [simp]:
  "pieces minInt mtu (ps @ [p]) =
     pieces minInt mtu ps @ (case fragments minInt mtu p of None \<Rightarrow> [] | Some fs \<Rightarrow> fs)"
  by (simp add: pieces_def)

lemma fragmenter_inv_step:
  assumes "fragmenter_inv minInt mtu s" and "forwardLoop minInt mtu s t"
  shows "fragmenter_inv minInt mtu t"
  using assms(2,1)
proof cases
  case (take_packet packet)
  then show ?thesis using assms(1)
    by (cases "fragments minInt mtu packet") (auto simp: fragmenter_inv_def)
next
  case (send_fragment fragment fs closed taken sent r)
  have pre: "prefix (fg_out s) (pieces minInt mtu (fg_in s))"
    using assms(1) by (auto simp: fragmenter_inv_def dest: append_prefixD)
  show ?thesis using send_fragment assms(1) pre
    by (cases r) (auto simp: fragmenter_inv_def Send_def split: if_splits)
qed (auto simp: fragmenter_inv_def dest: append_prefixD)

lemma fragmenter_reach_inv: "fragmenter_reach minInt mtu s \<Longrightarrow> fragmenter_inv minInt mtu s"
proof (induction rule: fragmenter_reach.induct)
  case fragmenter_start
  show ?case by (simp add: fragmenter_inv_def FragmentOutgoingIPv4_def pieces_def)
qed (rule fragmenter_inv_step)

text \<open>While the stream below takes packets the goroutine gets all fragments out.\<close>

lemma fragmenter_sends_pending:
  "fragmenter_reach minInt mtu s \<Longrightarrow> fg_running s \<Longrightarrow> fg_pending s = fs \<Longrightarrow>
     fragmenter_reach minInt mtu (s\<lparr>fg_pending := [], fg_out := fg_out s @ fs\<rparr>)"
proof (induction fs arbitrary: s)
  case (Nil s)
  then have eq: "s\<lparr>fg_pending := [], fg_out := fg_out s @ []\<rparr> = s" by (cases s) simp
  show ?case unfolding eq by (rule Nil(1))
next
  case (Cons f fs)
  let ?t = "s\<lparr>fg_pending := fs, fg_out := fg_out s @ [f]\<rparr>"
  have "forwardLoop minInt mtu s ?t"
    using send_fragment [of s f fs False True "Some f" "Inr ()" minInt mtu] Cons.prems
    by (simp add: Send_def)
  then have "fragmenter_reach minInt mtu ?t" using Cons.prems(1) by (rule fragmenter_step [rotated])
  from Cons.IH [OF this] Cons.prems show ?case by simp
qed

lemma fragmenter_sends_all:
  "\<forall>p \<in> set ps. fragments minInt mtu p \<noteq> None \<Longrightarrow>
     \<exists>s. fragmenter_reach minInt mtu s \<and> fg_in s = ps \<and> fg_running s \<and> fg_pending s = []"
proof (induction ps rule: rev_induct)
  case Nil
  then show ?case using fragmenter_start by (intro exI [of _ FragmentOutgoingIPv4]) (simp add: FragmentOutgoingIPv4_def)
next
  case (snoc p ps)
  then obtain s where s: "fragmenter_reach minInt mtu s" "fg_in s = ps" "fg_running s" "fg_pending s = []" by auto
  obtain fs where fs: "fragments minInt mtu p = Some fs" using snoc.prems by auto
  let ?t = "s\<lparr>fg_in := fg_in s @ [p], fg_pending := fs\<rparr>"
  have "fragmenter_reach minInt mtu ?t"
    using fragmenter_step [OF s(1) take_packet [OF s(3,4), of minInt mtu p]] fs by simp
  from fragmenter_sends_pending [OF this] s(2,3) show ?case
    by (intro exI [of _ "?t\<lparr>fg_pending := [], fg_out := fg_out ?t @ fs\<rparr>"]) simp
qed

section \<open>The defragmenter on mixed traffic\<close>

definition recon_key :: "ipv4Reconstruction \<Rightarrow> u16 \<times> bytes" where
  "recon_key r = (Identification r, Source r)"

definition packet_key :: "bytes \<Rightarrow> u16 \<times> bytes" where
  "packet_key p = (be16 (p ! 4) (p ! 5), take 4 (drop 12 p))"

definition recons_of :: "u16 \<times> bytes \<Rightarrow> ipv4Reconstruction list \<Rightarrow> ipv4Reconstruction list" where
  "recons_of k rs = filter (\<lambda>r. recon_key r = k) rs"

definition recon_ok :: "ipv4Reconstruction \<Rightarrow> bool" where
  "recon_ok r \<longleftrightarrow> Fragments r \<noteq> [] \<and> (\<forall>f \<in> set (Fragments r). readable f) \<and>
     sorted (map frag_off (Fragments r))"

definition table_ok :: "ipv4Defragmenter \<Rightarrow> bool" where
  "table_ok d \<longleftrightarrow> (\<forall>r \<in> set (reconstructions d). recon_ok r)"

lemma recons_of_simps [simp]:
  "recons_of k [] = []"
  "recons_of k (r # rs) = (if recon_key r = k then r # recons_of k rs else recons_of k rs)"
  "recons_of k (rs @ qs) = recons_of k rs @ recons_of k qs"
  by (simp_all add: recons_of_def)

lemma recons_of_filter: "recons_of k (filter P rs) = filter P (recons_of k rs)"
  by (simp add: recons_of_def conj_commute)

lemma find_recon_None_iff: "find_recon ident src rs = None \<longleftrightarrow> recons_of (ident, src) rs = []"
  by (induction rs) (auto simp: recon_key_def)

lemma find_recon_split:
  "find_recon ident src rs = Some j \<Longrightarrow> \<exists>xs r ys. rs = xs @ r # ys \<and> length xs = j \<and>
     recons_of (ident, src) xs = [] \<and> recon_key r = (ident, src)"
proof (induction rs arbitrary: j)
  case (Cons q rs)
  show ?case
  proof (cases "recon_key q = (ident, src)")
    case True
    then have "j = 0" using Cons.prems by (auto simp: recon_key_def)
    then show ?thesis using True by (intro exI [of _ "[]"]) simp
  next
    case False
    then obtain i where "find_recon ident src rs = Some i" "j = Suc i"
      using Cons.prems by (auto simp: recon_key_def split: if_splits)
    then obtain xs r ys where "rs = xs @ r # ys" "length xs = i" "recons_of (ident, src) xs = []"
      "recon_key r = (ident, src)"
      using Cons.IH by blast
    then show ?thesis using False \<open>j = Suc i\<close> by (intro exI [of _ "q # xs"]) auto
  qed
qed simp

lemma Reassemble_total:
  assumes "recon_ok r"
  shows "\<exists>p. Reassemble r = Some p"
proof -
  obtain f fs where F: "Fragments r = f # fs" using assms by (cases "Fragments r") (auto simp: recon_ok_def)
  have f: "readable f" and all: "\<forall>g \<in> set (f # fs). readable g" using assms F by (auto simp: recon_ok_def)
  define q where "q = take (header_len f) f @ concat (map payload_of (f # fs))"
  have q: "20 \<le> length q" "20 \<le> header_len q" "header_len q \<le> length q"
  proof -
    have "q ! 0 = f ! 0" using f by (simp add: q_def nth_append readable_def)
    then have "header_len q = header_len f" by (simp add: header_len_def)
    then show "20 \<le> length q" "20 \<le> header_len q" "header_len q \<le> length q"
      using f by (simp_all add: q_def readable_def)
  qed
  have "append_payloads (take (header_len f) f) (f # fs) = Some q"
    using all append_payloads_eq [of "f # fs"] by (simp only: q_def)
  then show ?thesis using f q
    by (simp add: Reassemble_def F readable_ops IPv4_SetFragmentInfo_set_frag IPv4_fields_eq
        IPv4_SetChecksum_eq del: append_payloads.simps)
qed

text \<open>The three things that a fragment can do.\<close>

lemma AddPacket_cases:
  assumes od: "ordered_delete_spec orderedDelete" and ok: "table_ok d" and f: "readable f"
  obtains (first) "recons_of (packet_key f) (filter (\<lambda>r. now1 < DropTime r) (reconstructions d)) = []"
      "AddPacket orderedDelete now1 now2 d f = Some (d\<lparr>reconstructions :=
         filter (\<lambda>r. now1 < DropTime r) (reconstructions d) @ [\<lparr>DropTime = now2 + timeout d,
           Identification = fst (packet_key f), Source = snd (packet_key f), Fragments = [f]\<rparr>]\<rparr>, None)"
  | (more) xs r ys gs where "filter (\<lambda>r. now1 < DropTime r) (reconstructions d) = xs @ r # ys"
      "recons_of (packet_key f) xs = []" "recon_key r = packet_key f" "gs = insert_frag f (Fragments r)"
      "frag_more (last gs) \<or> ready_loop 0 gs = Some False"
      "AddPacket orderedDelete now1 now2 d f =
         Some (d\<lparr>reconstructions := xs @ r\<lparr>Fragments := gs\<rparr> # ys\<rparr>, None)"
  | (last) xs r ys gs p where "filter (\<lambda>r. now1 < DropTime r) (reconstructions d) = xs @ r # ys"
      "recons_of (packet_key f) xs = []" "recon_key r = packet_key f" "gs = insert_frag f (Fragments r)"
      "\<not> frag_more (last gs)" "ready_loop 0 gs = Some True" "Reassemble (r\<lparr>Fragments := gs\<rparr>) = Some p"
      "AddPacket orderedDelete now1 now2 d f = Some (d\<lparr>reconstructions := xs @ ys\<rparr>, Some p)"
proof -
  let ?R = "filter (\<lambda>r. now1 < DropTime r) (reconstructions d)"
  let ?i = "be16 (f ! 4) (f ! 5)" and ?s = "take 4 (drop 12 f)"
  have dropped: "drop_old_loop orderedDelete now1 0 (reconstructions d) = Some ?R"
    using drop_old_loop_eq [OF od, of 0 "reconstructions d" now1] by simp
  show ?thesis
  proof (cases "find_recon ?i ?s ?R")
    case None
    then have "recons_of (packet_key f) ?R = []" by (simp add: find_recon_None_iff packet_key_def)
    moreover have "AddPacket orderedDelete now1 now2 d f = Some (d\<lparr>reconstructions :=
         ?R @ [\<lparr>DropTime = now2 + timeout d, Identification = fst (packet_key f),
           Source = snd (packet_key f), Fragments = [f]\<rparr>]\<rparr>, None)"
      using dropped f None by (simp add: packet_key_def AddPacket_def readable_ops)
    ultimately show ?thesis by (rule first)
  next
    case (Some j)
    from find_recon_split [OF Some] obtain xs r ys where R: "?R = xs @ r # ys" "length xs = j"
      "recons_of (?i, ?s) xs = []" "recon_key r = (?i, ?s)" by blast
    define gs where "gs = insert_frag f (Fragments r)"
    have "r \<in> set ?R" by (simp only: R(1)) simp
    then have r: "recon_ok r" using ok by (auto simp: table_ok_def)
    then have add: "AddFragment r f = Some (r\<lparr>Fragments := gs\<rparr>)"
      using f by (simp add: AddFragment_eq gs_def recon_ok_def)
    have gs: "recon_ok (r\<lparr>Fragments := gs\<rparr>)"
      using r f sorted_insert_frag by (auto simp: recon_ok_def gs_def)
    have rd: "\<forall>g \<in> set gs. readable g" using gs by (simp add: recon_ok_def)
    then obtain b where b: "ready_loop 0 gs = Some b" using ready_loop_total by blast
    have ready: "Ready (r\<lparr>Fragments := gs\<rparr>) = (if frag_more (last gs) then Some False else Some b)"
      using rd b Ready_eq [of "r\<lparr>Fragments := gs\<rparr>"] by (simp add: gs_def)
    obtain p where p: "Reassemble (r\<lparr>Fragments := gs\<rparr>) = Some p" using Reassemble_total [OF gs] by blast
    have del: "orderedDelete (xs @ r\<lparr>Fragments := gs\<rparr> # ys) j = xs @ ys"
      using od R(2) by (simp add: ordered_delete_spec_def)
    have at: "(xs @ r # ys) ! j = r" "(xs @ r # ys)[j := q] = xs @ q # ys" for q
      using R(2) by (auto simp: list_update_append)
    have step: "AddPacket orderedDelete now1 now2 d f =
      (if \<not> frag_more (last gs) \<and> b then Some (d\<lparr>reconstructions := xs @ ys\<rparr>, Some p)
       else Some (d\<lparr>reconstructions := xs @ r\<lparr>Fragments := gs\<rparr> # ys\<rparr>, None))"
      using dropped Some f
      by (simp add: AddPacket_def readable_ops R(1) at add ready p del)
    have key: "recons_of (packet_key f) xs = []" "recon_key r = packet_key f"
      using R(3,4) by (simp_all add: packet_key_def)
    show ?thesis
    proof (cases "\<not> frag_more (last gs) \<and> b")
      case True
      then show ?thesis using last [OF R(1) key gs_def] b p step by simp
    next
      case False
      then have "frag_more (last gs) \<or> ready_loop 0 gs = Some False" using b by auto
      then show ?thesis using more [OF R(1) key gs_def] step False by simp
    qed
  qed
qed


lemma AddPacket_total:
  assumes od: "ordered_delete_spec orderedDelete" and ok: "table_ok d" and f: "readable f"
  shows "\<exists>d' out. AddPacket orderedDelete now1 now2 d f = Some (d', out) \<and> table_ok d' \<and>
    timeout d' = timeout d \<and>
    (\<forall>k. k \<noteq> packet_key f \<longrightarrow> recons_of k (reconstructions d') =
      filter (\<lambda>r. now1 < DropTime r) (recons_of k (reconstructions d)))"
proof -
  let ?R = "filter (\<lambda>r. now1 < DropTime r) (reconstructions d)"
  have R: "\<forall>r \<in> set ?R. recon_ok r" using ok by (simp add: table_ok_def)
  have proj: "recons_of k ?R = filter (\<lambda>r. now1 < DropTime r) (recons_of k (reconstructions d))" for k
    by (rule recons_of_filter)
  from od ok f show ?thesis
  proof (cases rule: AddPacket_cases [where ?now1.0 = now1 and ?now2.0 = now2])
    case first
    have "recon_ok \<lparr>DropTime = now2 + timeout d, Identification = fst (packet_key f),
        Source = snd (packet_key f), Fragments = [f]\<rparr>"
      using f by (simp add: recon_ok_def)
    then show ?thesis using first R proj by (auto simp: table_ok_def recon_key_def)
  next
    case (more xs r ys gs)
    have "recon_ok (r\<lparr>Fragments := gs\<rparr>)"
      using R f more(1,4) sorted_insert_frag by (auto simp: recon_ok_def)
    moreover have "recon_key (r\<lparr>Fragments := gs\<rparr>) = recon_key r" by (simp add: recon_key_def)
    moreover have "recons_of k xs @ recons_of k ys = filter (\<lambda>r. now1 < DropTime r) (recons_of k (reconstructions d))"
      if "k \<noteq> packet_key f" for k
      using proj [of k, unfolded more(1)] more(3) that by simp
    ultimately show ?thesis using more R by (auto simp: table_ok_def)
  next
    case (last xs r ys gs p)
    moreover have "recons_of k xs @ recons_of k ys = filter (\<lambda>r. now1 < DropTime r) (recons_of k (reconstructions d))"
      if "k \<noteq> packet_key f" for k
      using proj [of k, unfolded last(1)] last(3) that by simp
    ultimately show ?thesis using R last(1) by (auto simp: table_ok_def)
  qed
qed

lemma Defragment_total:
  assumes "ordered_delete_spec orderedDelete" and "table_ok d" and "readable f"
  shows "\<exists>d' out. DefragmentIncomingIPv4 orderedDelete now1 now2 d f = Some (d', out) \<and> table_ok d' \<and>
    timeout d' = timeout d \<and>
    (\<forall>k. k \<noteq> packet_key f \<longrightarrow> recons_of k (reconstructions d') = recons_of k (reconstructions d) \<or>
      recons_of k (reconstructions d') = filter (\<lambda>r. now1 < DropTime r) (recons_of k (reconstructions d)))"
  using AddPacket_total [OF assms, of now1 now2] assms
  by (auto simp: DefragmentIncomingIPv4_def readable_ops)

lemma defragment_all_total:
  assumes "ordered_delete_spec orderedDelete" and "\<forall>(now1, now2, f) \<in> set ps. readable f" and "table_ok d"
  shows "\<exists>d' outs. defragment_all orderedDelete d ps = Some (d', outs) \<and> length outs = length ps \<and> table_ok d'"
  using assms(2,3)
proof (induction ps arbitrary: d)
  case (Cons a ps)
  obtain now1 now2 f where a: "a = (now1, now2, f)" by (cases a)
  obtain e out where "DefragmentIncomingIPv4 orderedDelete now1 now2 d f = Some (e, out)" "table_ok e"
    using Defragment_total [OF assms(1) Cons.prems(2), of f now1 now2] Cons.prems(1) a by auto
  moreover obtain d' outs where "defragment_all orderedDelete e ps = Some (d', outs)"
    "length outs = length ps" "table_ok d'"
    using Cons.IH [OF _ \<open>table_ok e\<close>] Cons.prems(1) by auto
  ultimately show ?case using a by simp
qed simp

section \<open>One packet among others\<close>

text \<open>What comes out at the arrivals of one key.\<close>

definition keyed :: "u16 \<times> bytes \<Rightarrow> (int \<times> int \<times> bytes) list \<Rightarrow> bytes option list \<Rightarrow> bytes option list" where
  "keyed k ps outs = map snd (filter (\<lambda>(a, out). packet_key (snd (snd a)) = k) (zip ps outs))"

definition arrived :: "u16 \<times> bytes \<Rightarrow> (int \<times> int \<times> bytes) list \<Rightarrow> bytes list" where
  "arrived k ps = filter (\<lambda>f. packet_key f = k) (map (snd \<circ> snd) ps)"

lemma keyed_simps [simp]:
  "keyed k [] outs = []"
  "keyed k (a # ps) (out # outs) =
     (if packet_key (snd (snd a)) = k then out # keyed k ps outs else keyed k ps outs)"
  by (simp_all add: keyed_def)

lemma arrived_simps [simp]:
  "arrived k [] = []"
  "arrived k ((now1, now2, f) # ps) = (if packet_key f = k then f # arrived k ps else arrived k ps)"
  by (simp_all add: arrived_def)

lemma keyed_none: "arrived k ps = [] \<Longrightarrow> keyed k ps outs = []"
proof (induction ps arbitrary: outs)
  case (Cons a ps)
  then show ?case by (cases a; cases outs) (auto simp: keyed_def split: if_splits)
qed simp

definition gathering :: "u16 \<times> bytes \<Rightarrow> int \<Rightarrow> bytes list \<Rightarrow> ipv4Defragmenter \<Rightarrow> bool" where
  "gathering k deadline fs d \<longleftrightarrow>
     (\<exists>r. recons_of k (reconstructions d) = [r] \<and> deadline \<le> DropTime r \<and> Fragments r = fs \<and> distinct fs)"

lemma gathering_other:
  assumes "gathering k deadline fs d" and "now1 < deadline"
    and "recons_of k (reconstructions d') = recons_of k (reconstructions d) \<or>
      recons_of k (reconstructions d') = filter (\<lambda>r. now1 < DropTime r) (recons_of k (reconstructions d))"
  shows "gathering k deadline fs d'"
  using assms by (auto simp: gathering_def)

lemma gathering_first:
  assumes od: "ordered_delete_spec orderedDelete" and ok: "table_ok d" and f: "readable f"
    and none: "recons_of (packet_key f) (reconstructions d) = []"
  shows "\<exists>d'. AddPacket orderedDelete now1 now2 d f = Some (d', None) \<and>
    gathering (packet_key f) (now2 + timeout d) [f] d'"
proof -
  have "recons_of (packet_key f) (filter (\<lambda>r. now1 < DropTime r) (reconstructions d)) = []"
    using none by (simp add: recons_of_filter)
  with od ok f show ?thesis
  proof (cases rule: AddPacket_cases [where ?now1.0 = now1 and ?now2.0 = now2])
    case first
    then show ?thesis by (simp add: gathering_def recon_key_def)
  qed auto
qed

lemma gathering_next:
  assumes od: "ordered_delete_spec orderedDelete" and ok: "table_ok d" and f: "readable f"
    and g: "gathering (packet_key f) deadline fs d" and fresh: "now1 < deadline" and new: "f \<notin> set fs"
  shows "\<exists>d' out. AddPacket orderedDelete now1 now2 d f = Some (d', out) \<and>
    (let gs = insert_frag f fs
     in if frag_more (last gs) \<or> ready_loop 0 gs = Some False
        then out = None \<and> gathering (packet_key f) deadline gs d'
        else recons_of (packet_key f) (reconstructions d') = [] \<and>
          (\<exists>r. Fragments r = gs \<and> Reassemble r = out))"
proof -
  let ?R = "filter (\<lambda>r. now1 < DropTime r) (reconstructions d)"
  obtain q where q: "recons_of (packet_key f) (reconstructions d) = [q]" "deadline \<le> DropTime q"
    "Fragments q = fs" "distinct fs"
    using g by (auto simp: gathering_def)
  then have R: "recons_of (packet_key f) ?R = [q]" using fresh by (simp add: recons_of_filter)
  from od ok f show ?thesis
  proof (cases rule: AddPacket_cases [where ?now1.0 = now1 and ?now2.0 = now2])
    case first
    then show ?thesis using R by simp
  next
    case (more xs r ys gs)
    have "r = q" "recons_of (packet_key f) ys = []" using R [unfolded more(1)] more(2,3) by auto
    moreover have "recon_key (r\<lparr>Fragments := gs\<rparr>) = packet_key f" using more(3) by (simp add: recon_key_def)
    moreover have "distinct (insert_frag f fs)" using q(4) new by (auto simp: insert_frag_def)
    ultimately show ?thesis using more q by (simp add: gathering_def Let_def)
  next
    case (last xs r ys gs p)
    have "r = q" "recons_of (packet_key f) ys = []" using R [unfolded last(1)] last(2,3) by auto
    then show ?thesis using last q
      by (auto simp: Let_def intro!: exI [of _ "r\<lparr>Fragments := gs\<rparr>"])
  qed
qed

lemma gather_all:
  assumes od: "ordered_delete_spec orderedDelete" and F: "contig 0 F"
    and same: "\<forall>f \<in> set F. readable f \<and> is_fragment f"
    and out: "\<And>r. Fragments r = F \<Longrightarrow> Reassemble r = Some out"
  shows "defragment_all orderedDelete d ps = Some (d', outs) \<Longrightarrow> table_ok d \<Longrightarrow> gathering k deadline fs d \<Longrightarrow>
    \<forall>(now1, now2, f) \<in> set ps. readable f \<and> now1 < deadline \<Longrightarrow> arrived k ps \<noteq> [] \<Longrightarrow>
    mset fs + mset (arrived k ps) = mset F \<Longrightarrow>
    keyed k ps outs = replicate (length (arrived k ps) - 1) None @ [Some out]"
proof (induction ps arbitrary: d d' fs outs)
  case (Cons a ps)
  obtain now1 now2 f where a: "a = (now1, now2, f)" by (cases a)
  have f: "readable f" "now1 < deadline" using Cons.prems(4) a by auto
  obtain e o1 where e: "DefragmentIncomingIPv4 orderedDelete now1 now2 d f = Some (e, o1)" "table_ok e"
    "\<forall>k. k \<noteq> packet_key f \<longrightarrow> recons_of k (reconstructions e) = recons_of k (reconstructions d) \<or>
      recons_of k (reconstructions e) = filter (\<lambda>r. now1 < DropTime r) (recons_of k (reconstructions d))"
    using Defragment_total [OF od Cons.prems(2) f(1)] by blast
  obtain rest where rest: "defragment_all orderedDelete e ps = Some (d', rest)" "outs = o1 # rest"
    using Cons.prems(1) e(1) by (auto simp: a split: bind_split_asm)
  have ps: "\<forall>(now1, now2, f) \<in> set ps. readable f \<and> now1 < deadline" using Cons.prems(4) by simp
  show ?case
  proof (cases "packet_key f = k")
    case False
    then have "gathering k deadline fs e"
      using gathering_other [OF Cons.prems(3) f(2)] e(3) by metis
    then show ?thesis
      using Cons.IH [OF rest(1) e(2) _ ps] Cons.prems(5,6) False by (simp add: a rest(2))
  next
    case True
    define gs where "gs = insert_frag f fs"
    have mF: "mset F = add_mset f (mset fs + mset (arrived k ps))"
      using Cons.prems(6) True by (simp add: a)
    have fF: "f \<in> set F" using arg_cong [OF mF, of set_mset] by simp
    have "distinct F" using contig_sorted [OF F] by (simp add: distinct_map)
    from not_in_rest [OF this mF] have new: "f \<notin> set fs" .
    obtain q where q: "recons_of k (reconstructions d) = [q]" "Fragments q = fs" "distinct fs"
      using Cons.prems(3) by (auto simp: gathering_def)
    have "q \<in> set (recons_of k (reconstructions d))" by (simp add: q(1))
    then have qok: "recon_ok q" using Cons.prems(2) by (auto simp: recons_of_def table_ok_def)
    have gs: "distinct gs" "sorted (map frag_off gs)" "\<forall>g \<in> set gs. readable g"
      using q qok new f(1) sorted_insert_frag [of fs f] by (auto simp: gs_def insert_frag_def recon_ok_def)
    have filt: "DefragmentIncomingIPv4 orderedDelete now1 now2 d f = AddPacket orderedDelete now1 now2 d f"
      using same fF f(1) by (auto simp: DefragmentIncomingIPv4_def readable_ops is_fragment_def)
    have step: "if frag_more (last gs) \<or> ready_loop 0 gs = Some False
      then o1 = None \<and> gathering k deadline gs e
      else recons_of k (reconstructions e) = [] \<and> (\<exists>r. Fragments r = gs \<and> Reassemble r = o1)"
      using gathering_next [OF od Cons.prems(2) f(1) Cons.prems(3) [folded True] f(2) new, of now2]
        e(1) filt True by (auto simp: gs_def Let_def split: if_splits)
    show ?thesis
    proof (cases "arrived k ps = []")
      case last: True
      have "mset F = add_mset f (mset fs)" using mF last by simp
      note whole = insert_last [OF F this, folded gs_def, OF gs(1,2)]
      then have "o1 = Some out" using step out by auto
      then show ?thesis using last True keyed_none [OF last] by (simp add: a rest(2))
    next
      case more: False
      have "frag_more (last gs) \<or> ready_loop 0 gs = Some False"
        using insert_more [OF F mF, folded gs_def, OF _ gs(1,3)] more by simp
      then have "o1 = None" "gathering k deadline gs e" using step by simp_all
      moreover have "mset gs + mset (arrived k ps) = mset F"
        by (simp add: gs_def mset_insert_frag mF)
      ultimately have "keyed k ps rest = replicate (length (arrived k ps) - 1) None @ [Some out]"
        using Cons.IH [OF rest(1) e(2) _ ps more] by blast
      then show ?thesis using more True \<open>o1 = None\<close>
        by (cases "arrived k ps") (simp_all add: a rest(2))
    qed
  qed
qed simp

lemma gather_start:
  assumes od: "ordered_delete_spec orderedDelete" and F: "contig 0 F"
    and same: "\<forall>f \<in> set F. readable f \<and> is_fragment f"
    and out: "\<And>r. Fragments r = F \<Longrightarrow> Reassemble r = Some out" and long: "1 < length F"
  shows "defragment_all orderedDelete d ps = Some (d', outs) \<Longrightarrow> table_ok d \<Longrightarrow>
    recons_of k (reconstructions d) = [] \<Longrightarrow> timeout d = T \<Longrightarrow>
    \<forall>(now1, now2, f) \<in> set ps. readable f \<and> t \<le> now2 \<and> now1 < t + T \<Longrightarrow>
    mset (arrived k ps) = mset F \<Longrightarrow>
    keyed k ps outs = replicate (length (arrived k ps) - 1) None @ [Some out]"
proof (induction ps arbitrary: d d' outs)
  case Nil
  then show ?case using long by simp
next
  case (Cons a ps)
  obtain now1 now2 f where a: "a = (now1, now2, f)" by (cases a)
  have f: "readable f" "t \<le> now2" using Cons.prems(5) a by auto
  obtain e o1 where e: "DefragmentIncomingIPv4 orderedDelete now1 now2 d f = Some (e, o1)" "table_ok e"
    "timeout e = timeout d" "\<forall>k. k \<noteq> packet_key f \<longrightarrow>
      recons_of k (reconstructions e) = recons_of k (reconstructions d) \<or>
      recons_of k (reconstructions e) = filter (\<lambda>r. now1 < DropTime r) (recons_of k (reconstructions d))"
    using Defragment_total [OF od Cons.prems(2) f(1)] by blast
  obtain rest where rest: "defragment_all orderedDelete e ps = Some (d', rest)" "outs = o1 # rest"
    using Cons.prems(1) e(1) by (auto simp: a split: bind_split_asm)
  have ps: "\<forall>(now1, now2, f) \<in> set ps. readable f \<and> t \<le> now2 \<and> now1 < t + T" using Cons.prems(5) by simp
  show ?case
  proof (cases "packet_key f = k")
    case False
    then have "recons_of k (reconstructions e) = []" using e(4) Cons.prems(3) by (metis filter.simps(1))
    then show ?thesis
      using Cons.IH [OF rest(1) e(2) _ _ ps] e(3) Cons.prems(4,6) False by (simp add: a rest(2))
  next
    case True
    have m: "add_mset f (mset (arrived k ps)) = mset F" using Cons.prems(6) True by (simp add: a)
    then have "f \<in> set F" by (metis set_mset_mset union_single_eq_member)
    then have "DefragmentIncomingIPv4 orderedDelete now1 now2 d f = AddPacket orderedDelete now1 now2 d f"
      using same f(1) by (auto simp: DefragmentIncomingIPv4_def readable_ops is_fragment_def)
    then have o1: "o1 = None" and g: "gathering k (now2 + timeout d) [f] e"
      using gathering_first [OF od Cons.prems(2) f(1) Cons.prems(3) [folded True], of now1 now2] e(1) True by auto
    have "gathering k (t + T) [f] e"
      using g f(2) Cons.prems(4) by (auto simp: gathering_def)
    moreover have "size (add_mset f (mset (arrived k ps))) = length F" by (simp only: m size_mset)
    then have more: "arrived k ps \<noteq> []" using long by auto
    moreover have "mset [f] + mset (arrived k ps) = mset F" using m by simp
    moreover have "\<forall>(now1, now2, f) \<in> set ps. readable f \<and> now1 < t + T" using ps by auto
    ultimately have "keyed k ps rest = replicate (length (arrived k ps) - 1) None @ [Some out]"
      using gather_all [OF od F same out rest(1) e(2)] by blast
    then show ?thesis using more True o1 by (cases "arrived k ps") (simp_all add: a rest(2))
  qed
qed

text \<open>A packet that needs no reassembly passes at once.\<close>

lemma gather_single:
  assumes od: "ordered_delete_spec orderedDelete" and f: "readable f" "\<not> is_fragment f" "packet_key f = k"
  shows "defragment_all orderedDelete d ps = Some (d', outs) \<Longrightarrow> table_ok d \<Longrightarrow>
    \<forall>(now1, now2, g) \<in> set ps. readable g \<Longrightarrow> arrived k ps = [f] \<Longrightarrow> keyed k ps outs = [Some f]"
proof (induction ps arbitrary: d d' outs)
  case (Cons a ps)
  obtain now1 now2 g where a: "a = (now1, now2, g)" by (cases a)
  have g: "readable g" using Cons.prems(3) a by auto
  obtain e o1 where e: "DefragmentIncomingIPv4 orderedDelete now1 now2 d g = Some (e, o1)" "table_ok e"
    using Defragment_total [OF od Cons.prems(2) g] by blast
  obtain rest where rest: "defragment_all orderedDelete e ps = Some (d', rest)" "outs = o1 # rest"
    using Cons.prems(1) e(1) by (auto simp: a split: bind_split_asm)
  show ?case
  proof (cases "packet_key g = k")
    case True
    then have "g = f" "arrived k ps = []" using Cons.prems(4) by (simp_all add: a)
    moreover have "o1 = Some f" if "g = f"
      using e(1) f(1,2) that by (auto simp: DefragmentIncomingIPv4_def readable_ops is_fragment_def)
    ultimately show ?thesis using True keyed_none by (simp add: a rest(2))
  next
    case False
    then show ?thesis using Cons.IH [OF rest(1) e(2)] Cons.prems(3,4) by (simp add: a rest(2))
  qed
qed simp

section \<open>The layers together\<close>

lemma Reassemble_fragment_list:
  assumes v: "IPv4_Valid p = Some True" and mtu: "int (header_len p) + 8 \<le> mtu"
    and ne: "fragment_list mtu p \<noteq> []" and r: "Fragments r = fragment_list mtu p"
  shows "Reassemble r = Some (defragmented p)"
proof (rule Reassemble_fragments [OF v])
  note F = fragment_list_contig [OF v mtu]
  have "hd (fragment_list mtu p) \<in> set (fragment_list mtu p)" using ne by simp
  note m = fragment_list_member [OF v mtu this]
  show "header_len (hd (fragment_list mtu p)) = header_len p" by (rule m)
  show "hd (fragment_list mtu p) ! i = p ! i" if "i < header_len p" "i \<notin> {2, 3, 6, 7, 10, 11}" for i
    using that by (rule m)
  show "\<forall>f \<in> set (fragment_list mtu p). readable f" using contig_readable [OF F(1)] by blast
  show "concat (map payload_of (fragment_list mtu p)) = payload_of p" by (rule F(2))
qed (use ne r in auto)

definition delivered :: "int \<Rightarrow> bytes \<Rightarrow> bytes" where
  "delivered mtu q = (if int (length q) < mtu then q else defragmented q)"

text \<open>A packet that the fragmenter does not drop, and its fragments.\<close>

definition sendable :: "int \<Rightarrow> bytes \<Rightarrow> bool" where
  "sendable mtu q \<longleftrightarrow> IPv4_Valid q = Some True \<and> \<not> is_fragment q \<and> int (header_len q) + 8 \<le> mtu \<and>
     (int (length q) < mtu \<or> q ! 6 AND 0x40 = 0)"

definition wire :: "int \<Rightarrow> bytes \<Rightarrow> bytes list" where
  "wire mtu q = (if int (length q) < mtu then [q] else fragment_list mtu q)"

lemma fragments_wire:
  assumes "min_int_spec minInt" and "sendable mtu q"
  shows "fragments minInt mtu q = Some (wire mtu q)"
proof (cases "int (length q) < mtu")
  case True
  then show ?thesis by (simp add: fragments_def wire_def)
next
  case False
  have q: "IPv4_Valid q = Some True" "int (header_len q) + 8 \<le> mtu"
    using assms(2) by (simp_all add: sendable_def)
  have "IPv4_FragmentInfo q = Some (False, False, 0)"
    using assms(2) False readable_ops(1) [OF valid_readable [OF q(1)]]
    by (simp add: sendable_def is_fragment_def)
  from fragments_eq [OF assms(1) q(1) this _ q(2)] show ?thesis using False by (simp add: wire_def)
qed

lemma pieces_wire:
  assumes "min_int_spec minInt" and "\<forall>q \<in> set qs. sendable mtu q"
  shows "pieces minInt mtu qs = concat (map (wire mtu) qs)"
  using assms(2) fragments_wire [OF assms(1)] by (induction qs) (simp_all add: pieces_def)

lemma wire_member:
  assumes "sendable mtu q" and "f \<in> set (wire mtu q)"
  shows "readable f \<and> packet_key f = packet_key q"
proof (cases "int (length q) < mtu")
  case True
  then show ?thesis using assms valid_readable by (simp add: wire_def sendable_def)
next
  case False
  have q: "IPv4_Valid q = Some True" "int (header_len q) + 8 \<le> mtu" "f \<in> set (fragment_list mtu q)"
    using assms False by (simp_all add: sendable_def wire_def)
  show ?thesis using fragment_same_packet [OF q] by (simp add: same_packet_def packet_key_def)
qed

lemma wire_of_key:
  assumes "distinct (map packet_key qs)" and "\<forall>q \<in> set qs. sendable mtu q" and "q \<in> set qs"
  shows "filter (\<lambda>f. packet_key f = packet_key q) (concat (map (wire mtu) qs)) = wire mtu q"
  using assms
proof (induction qs)
  case (Cons p qs)
  have p: "\<forall>f \<in> set (wire mtu p). packet_key f = packet_key p"
    using Cons.prems(2) wire_member by auto
  have qs: "\<forall>x \<in> set qs. \<forall>f \<in> set (wire mtu x). packet_key f = packet_key x"
    using Cons.prems(2) wire_member by auto
  show ?case
  proof (cases "q = p")
    case True
    have "filter (\<lambda>f. packet_key f = packet_key q) (concat (map (wire mtu) qs)) = []"
      using qs Cons.prems(1) True by (auto simp: filter_empty_conv image_iff)
    then show ?thesis using p True by simp
  next
    case False
    then have q: "q \<in> set qs" "packet_key p \<noteq> packet_key q" using Cons.prems by auto
    then have "filter (\<lambda>f. packet_key f = packet_key q) (wire mtu p) = []"
      using p by (auto simp: filter_empty_conv)
    then show ?thesis using Cons q by simp
  qed
qed simp

lemma wire_delivered:
  assumes od: "ordered_delete_spec orderedDelete" and q: "sendable mtu q" and ok: "table_ok d"
    and run: "defragment_all orderedDelete d ps = Some (d', outs)"
    and none: "recons_of (packet_key q) (reconstructions d) = []"
    and ps: "\<forall>(now1, now2, f) \<in> set ps. readable f \<and> t \<le> now2 \<and> now1 < t + timeout d"
    and mine: "mset (arrived (packet_key q) ps) = mset (wire mtu q)"
  shows "keyed (packet_key q) ps outs =
    replicate (length (wire mtu q) - 1) None @ [Some (delivered mtu q)]"
proof -
  have v: "IPv4_Valid q = Some True" "int (header_len q) + 8 \<le> mtu" "\<not> is_fragment q"
    using q by (simp_all add: sendable_def)
  note len = ip_valid_length [OF v(1)]
  have rd: "\<forall>(now1, now2, f) \<in> set ps. readable f" using ps by auto
  have size: "length (arrived (packet_key q) ps) = length (wire mtu q)"
    using mine by (metis size_mset)
  consider "int (length q) < mtu" | f where "mtu \<le> int (length q)" "fragment_list mtu q = [f]"
    | "mtu \<le> int (length q)" "1 < length (fragment_list mtu q)"
  proof -
    have "concat (map payload_of (fragment_list mtu q)) = payload_of q"
      by (rule fragment_list_contig [OF v(1,2)])
    moreover have "payload_of q \<noteq> []" if "mtu \<le> int (length q)" using that v(2) len by (simp add: payload_of_def)
    ultimately have "mtu \<le> int (length q) \<Longrightarrow> fragment_list mtu q \<noteq> []" by fastforce
    then show ?thesis using that less_le_not_le [of "int (length q)" mtu] linear [of "int (length q)" mtu]
      by (cases "fragment_list mtu q"; cases "tl (fragment_list mtu q)") auto
  qed
  then show ?thesis
  proof cases
    case 1
    then have "arrived (packet_key q) ps = [q]" using mine by (simp add: wire_def)
    with gather_single [OF od valid_readable [OF v(1)] v(3) refl run ok rd] 1
    show ?thesis by (simp add: wire_def delivered_def)
  next
    case (2 f)
    have f: "f = defragmented q" using 2(2) v(2,1) by (rule fragment_list_single)
    have "readable f" "\<not> is_fragment f"
      using fragment_list_contig(1) [OF v(1,2)] by (auto simp: 2(2) is_fragment_def)
    moreover have "f \<in> set (wire mtu q)" using 2 by (simp add: wire_def)
    then have "packet_key f = packet_key q" using wire_member [OF q] by simp
    moreover have "arrived (packet_key q) ps = [f]" using mine 2 by (simp add: wire_def)
    ultimately have "keyed (packet_key q) ps outs = [Some f]"
      using gather_single [OF od _ _ _ run ok rd] by blast
    then show ?thesis using 2 f by (simp add: wire_def delivered_def)
  next
    case 3
    let ?F = "fragment_list mtu q"
    have w: "wire mtu q = ?F" using 3 by (simp add: wire_def)
    note F = fragment_list_contig [OF v(1,2)]
    obtain g h G where F2: "?F = g # h # G" using 3(2) by (cases ?F; cases "tl ?F") auto
    have same: "\<forall>f \<in> set ?F. readable f \<and> is_fragment f"
      using contig_readable [OF F(1)] contig_is_fragment F(1) F2 by metis
    have out: "Reassemble r = Some (defragmented q)" if "Fragments r = ?F" for r
      by (rule Reassemble_fragment_list [OF v(1,2) _ that]) (simp add: F2)
    have "keyed (packet_key q) ps outs =
        replicate (length (arrived (packet_key q) ps) - 1) None @ [Some (defragmented q)]"
      by (rule gather_start [OF od F(1) same out 3(2) run ok none refl ps mine [unfolded w]])
    then show ?thesis using 3(1) by (simp add: size delivered_def)
  qed
qed

text \<open>Identifiers: the packets that come out of \<open>AddIPv4Identifiers\<close>.\<close>

definition taken :: "bytes option list \<Rightarrow> bytes list" where
  "taken outs = map the (filter (\<lambda>out. out \<noteq> None) outs)"

lemma taken_simps [simp]:
  "taken [] = []" "taken (None # outs) = taken outs" "taken (Some q # outs) = q # taken outs"
  by (simp_all add: taken_def)

lemma identified_keys:
  assumes "\<forall>p \<in> set packets. IPv4_Valid p = Some True" and "length packets \<le> 65536"
    and "identify_all curId packets = Some outs"
  shows "distinct (map packet_key (taken outs)) \<and> (\<forall>q \<in> set (taken outs). IPv4_Valid q = Some True \<and> \<not> is_fragment q)"
proof -
  have "\<exists>ks. distinct ks \<and> set ks \<subseteq> {..<length packets} \<and>
      map (\<lambda>q. fst (packet_key q)) (taken outs) = map (\<lambda>k. curId + of_nat k) ks \<and>
      (\<forall>q \<in> set (taken outs). IPv4_Valid q = Some True \<and> \<not> is_fragment q)"
    if "\<forall>p \<in> set packets. IPv4_Valid p = Some True" "identify_all curId packets = Some outs"
    for packets curId outs
    using that
  proof (induction packets arbitrary: curId outs)
    case (Cons p packets)
    have p: "IPv4_Valid p = Some True" using Cons.prems(1) by simp
    obtain rest where rest: "identify_all (curId + 1) packets = Some rest"
      and outs: "outs = (if p ! 6 AND 0x20 \<noteq> 0 \<or> be_int (p ! 6 AND 0x1f) (p ! 7) \<noteq> 0 then None
        else Some (with_ip_checksum (put16 p 4 curId))) # rest"
      using Cons.prems(2) p by (auto simp: AddIPv4Identifiers_eq split: bind_split_asm)
    obtain ks where ks: "distinct ks" "set ks \<subseteq> {..<length packets}"
      "map (\<lambda>q. fst (packet_key q)) (taken rest) = map (\<lambda>k. curId + 1 + of_nat k) ks"
      "\<forall>q \<in> set (taken rest). IPv4_Valid q = Some True \<and> \<not> is_fragment q"
      using Cons.IH [OF _ rest] Cons.prems(1) by auto
    have shift: "map (\<lambda>k. curId + 1 + of_nat k) ks = map (\<lambda>k. curId + of_nat k) (map Suc ks)"
      by (simp add: comp_def add.assoc)
    have sub: "set (map Suc ks) \<subseteq> {..<Suc (length packets)}" "0 \<notin> set (map Suc ks)" "distinct (map Suc ks)"
      using ks(1,2) by (auto simp: distinct_map)
    let ?q = "with_ip_checksum (put16 p 4 curId)"
    have len: "20 \<le> length p" using ip_valid_length [OF p] by simp
    have q: "IPv4_Valid ?q = Some True" "?q ! 6 = p ! 6" "?q ! 7 = p ! 7" "be16 (?q ! 4) (?q ! 5) = curId"
      using identified_packet [OF p, of curId] len by (simp_all add: nth_with_ip_checksum nth_put16)
    show ?case
    proof (cases "p ! 6 AND 0x20 \<noteq> 0 \<or> be_int (p ! 6 AND 0x1f) (p ! 7) \<noteq> 0")
      case True
      then have "taken outs = taken rest" using outs by simp
      then show ?thesis using ks sub shift by (intro exI [of _ "map Suc ks"]) auto
    next
      case False
      then have o: "taken outs = ?q # taken rest" using outs by simp
      have "\<not> is_fragment ?q" using False q by (simp add: is_fragment_def frag_more_def frag_off_def)
      then show ?thesis using ks sub shift q o
        by (intro exI [of _ "0 # map Suc ks"]) (auto simp: packet_key_def)
    qed
  qed simp
  from this [OF assms(1,3)] obtain ks where ks: "distinct ks" "set ks \<subseteq> {..<length packets}"
    "map (\<lambda>q. fst (packet_key q)) (taken outs) = map (\<lambda>k. curId + of_nat k) ks"
    "\<forall>q \<in> set (taken outs). IPv4_Valid q = Some True \<and> \<not> is_fragment q" by blast
  have "inj_on (\<lambda>k. curId + of_nat k) (set ks)"
  proof (rule inj_onI)
    fix i j
    assume "i \<in> set ks" "j \<in> set ks" and eq: "curId + of_nat i = curId + of_nat j"
    then have "i < 65536" "j < 65536" using ks(2) assms(2) by force+
    then show "i = j" using eq of_nat_u16_inj by simp
  qed
  then have "distinct (map (\<lambda>k. curId + of_nat k :: u16) ks)" using ks(1) by (simp add: distinct_map)
  then have "distinct (map fst (map packet_key (taken outs)))" using ks(3) by (simp add: comp_def)
  then show ?thesis using ks(4) distinct_map by blast
qed

text \<open>All packets together: what comes out at the arrivals of each key, and as a whole.\<close>

lemma layers_deliver:
  assumes od: "ordered_delete_spec orderedDelete" and keys: "distinct (map packet_key qs)"
    and qs: "\<forall>q \<in> set qs. sendable mtu q"
    and perm: "mset (map (snd \<circ> snd) arrivals) = mset (concat (map (wire mtu) qs))"
    and times: "\<forall>(now1, now2, f) \<in> set arrivals. t \<le> now2 \<and> now1 < t + timeout (new_defragmenter T)"
  obtains d outs where "defragment_all orderedDelete (new_defragmenter T) arrivals = Some (d, outs)"
    "length outs = length arrivals"
    "\<And>q. q \<in> set qs \<Longrightarrow> \<exists>n. length (arrived (packet_key q) arrivals) = Suc n \<and>
       keyed (packet_key q) arrivals outs = replicate n None @ [Some (delivered mtu q)]"
proof -
  let ?d = "new_defragmenter T"
  have mem: "readable f" if "f \<in> set (concat (map (wire mtu) qs))" for f using that qs wire_member by auto
  have ps: "\<forall>(now1, now2, f) \<in> set arrivals. readable f \<and> t \<le> now2 \<and> now1 < t + timeout ?d"
    using times mem mset_eq_setD [OF perm] by fastforce
  have ok: "table_ok ?d" "recons_of k (reconstructions ?d) = []" for k
    by (simp_all add: table_ok_def new_defragmenter_def)
  obtain d outs where run: "defragment_all orderedDelete ?d arrivals = Some (d, outs)"
    "length outs = length arrivals"
    using defragment_all_total [OF od _ ok(1), of arrivals] ps by fastforce
  have "\<exists>n. length (arrived (packet_key q) arrivals) = Suc n \<and>
      keyed (packet_key q) arrivals outs = replicate n None @ [Some (delivered mtu q)]" if q: "q \<in> set qs" for q
  proof -
    have "mset (arrived (packet_key q) arrivals) =
        filter_mset (\<lambda>f. packet_key f = packet_key q) (mset (concat (map (wire mtu) qs)))"
      by (simp add: arrived_def mset_filter perm [symmetric])
    also have "\<dots> = mset (wire mtu q)" using wire_of_key [OF keys qs q] by (simp flip: mset_filter)
    finally have mine: "mset (arrived (packet_key q) arrivals) = mset (wire mtu q)" .
    have s: "sendable mtu q" using qs q by blast
    note res = wire_delivered [OF od s ok(1) run(1) ok(2) ps mine]
    have "wire mtu q \<noteq> []"
    proof
      assume "wire mtu q = []"
      then have "keyed (packet_key q) arrivals outs = []" using mine keyed_none by simp
      with res show False by simp
    qed
    then have "length (arrived (packet_key q) arrivals) = Suc (length (wire mtu q) - 1)"
      using mine by (metis Suc_pred length_greater_0_conv size_mset diff_Suc_1)
    then show ?thesis using res by blast
  qed
  with run show ?thesis using that by blast
qed

lemma sum_list_add_one:
  "distinct ks \<Longrightarrow> k \<in> set ks \<Longrightarrow>
     (\<Sum>j\<leftarrow>ks. if k = j then add_mset x (f j) else f j) = add_mset x (\<Sum>j\<leftarrow>ks. f j)"
proof (induction ks)
  case (Cons j ks)
  show ?case
  proof (cases "k = j")
    case True
    then have "(\<Sum>j\<leftarrow>ks. if k = j then add_mset x (f j) else f j) = (\<Sum>j\<leftarrow>ks. f j)"
      using Cons.prems(1) by (intro arg_cong [where f = sum_list] map_cong) auto
    then show ?thesis using True by simp
  qed (use Cons in simp)
qed simp

lemma taken_by_key:
  assumes "distinct ks"
  shows "length outs = length ps \<Longrightarrow> \<forall>a \<in> set ps. packet_key (snd (snd a)) \<in> set ks \<Longrightarrow>
    mset (taken outs) = (\<Sum>k\<leftarrow>ks. mset (taken (keyed k ps outs)))"
proof (induction ps arbitrary: outs)
  case Nil
  then show ?case by (induction ks) simp_all
next
  case (Cons a ps)
  then obtain out rest where outs: "outs = out # rest" by (cases outs) auto
  let ?f = "\<lambda>k. mset (taken (keyed k ps rest))"
  have IH: "mset (taken rest) = (\<Sum>k\<leftarrow>ks. ?f k)" by (rule Cons.IH) (use Cons.prems outs in auto)
  have k: "packet_key (snd (snd a)) \<in> set ks" using Cons.prems(2) by simp
  show ?case
  proof (cases out)
    case None
    then have "mset (taken (keyed k (a # ps) outs)) = ?f k" for k by (simp add: outs)
    then show ?thesis using IH None by (simp add: outs)
  next
    case (Some x)
    have "mset (taken (keyed k (a # ps) outs)) =
        (if packet_key (snd (snd a)) = k then add_mset x (?f k) else ?f k)" for k
      by (simp add: outs Some)
    then show ?thesis using sum_list_add_one [OF assms k, of x ?f] IH by (simp add: outs Some)
  qed
qed

lemma taken_append [simp]: "taken (xs @ ys) = taken xs @ taken ys"
  by (simp add: taken_def)

lemma taken_replicate_None [simp]: "taken (replicate n None) = []"
  by (simp add: taken_def)

section \<open>Properties\<close>

text \<open>The sending goroutine transmits the fragments of the packets that it takes, in order and
  without gaps, as far as it has come; it stops only when the stream below is done, and panics
  only on a packet on which the fragmenter itself panics.\<close>

theorem fragments_forwarded:
  assumes "fragmenter_reach minInt mtu s"
  shows "prefix (fg_out s @ fg_pending s) (pieces minInt mtu (fg_in s)) \<and>
    (fg_running s \<longrightarrow> fg_out s @ fg_pending s = pieces minInt mtu (fg_in s)) \<and>
    (fg_panicked s \<longleftrightarrow> (\<exists>p \<in> set (fg_in s). fragments minInt mtu p = None)) \<and>
    (\<not> fg_running s \<longrightarrow> fg_panicked s \<or> fg_done s)"
  using fragmenter_reach_inv [OF assms] by (auto simp: fragmenter_inv_def)

theorem fragments_forwarded_witness:
  "\<exists>s. fragmenter_reach min 36 s \<and> fg_in s = [sample_packet] \<and> fg_out s = fragment_list 36 sample_packet"
proof -
  have fs: "fragments min 36 sample_packet = Some (fragment_list 36 sample_packet)"
    by (rule fragments_eq [OF min_int_spec_min]) (simp_all add: sample_packet_facts)
  obtain s where s: "fragmenter_reach min 36 s" "fg_in s = [sample_packet]" "fg_running s" "fg_pending s = []"
    using fragmenter_sends_all [of "[sample_packet]" min 36] fs by auto
  then show ?thesis using fragments_forwarded [OF s(1)] fs by (auto simp: pieces_def)
qed

text \<open>C30: The defragmenter never panics: whatever packets with a whole header arrive, whatever the
  clock says and whatever it has collected before, it returns, and its table stays well-formed.\<close>

theorem defragmenter_total:
  assumes "ordered_delete_spec orderedDelete"
    and "\<forall>(now1, now2, f) \<in> set arrivals. IPv4_Valid f = Some True"
  shows "\<exists>d outs. defragment_all orderedDelete (new_defragmenter T) arrivals = Some (d, outs) \<and>
    length outs = length arrivals \<and>
    (\<forall>r \<in> set (reconstructions d). Fragments r \<noteq> [] \<and> sorted (map frag_off (Fragments r)))"
proof -
  have "table_ok (new_defragmenter T)" by (simp add: table_ok_def new_defragmenter_def)
  then show ?thesis
    using defragment_all_total [OF assms(1), of arrivals "new_defragmenter T"] assms(2) valid_readable
    by (fastforce simp: table_ok_def recon_ok_def)
qed

theorem defragmenter_total_witness:
  "\<exists>d outs. defragment_all (\<lambda>xs i. take i xs @ drop (Suc i) xs) (new_defragmenter 0)
     [(0, 0, sample_packet), (5, 6, sample_packet)] = Some (d, outs) \<and> length outs = 2"
  using defragmenter_total [OF ordered_delete_spec_take_drop,
      of "[(0, 0, sample_packet), (5, 6, sample_packet)]" 0] sample_packet_facts(1)
  by auto

text \<open>The layers together deliver every packet.  Up to 65536 packets are numbered by
  \<open>AddIPv4Identifiers\<close>, fragmented and sent by \<open>FragmentOutgoingIPv4\<close>; the network mixes all
  fragments in any order; and \<open>DefragmentIncomingIPv4\<close> hands out each packet exactly when the last
  of its pieces arrives, whatever pieces of other packets come between.\<close>

theorem ip_layers_deliver:
  assumes "ordered_delete_spec orderedDelete" and "min_int_spec minInt"
    and "\<forall>p \<in> set packets. IPv4_Valid p = Some True" and "length packets \<le> 65536"
    and "identify_all curId packets = Some numbered"
    and "fragmenter_reach minInt mtu s" and "fg_in s = taken numbered" and "fg_running s" and "fg_pending s = []"
    and "\<forall>q \<in> set (taken numbered). int (header_len q) + 8 \<le> mtu \<and> (int (length q) < mtu \<or> q ! 6 AND 0x40 = 0)"
    and "mset (map (snd \<circ> snd) arrivals) = mset (fg_out s)"
    and "\<forall>(now1, now2, f) \<in> set arrivals. t \<le> now2 \<and> now1 < t + timeout (new_defragmenter T)"
    and "q \<in> set (taken numbered)"
  shows "\<exists>d outs n. defragment_all orderedDelete (new_defragmenter T) arrivals = Some (d, outs) \<and>
    length (arrived (packet_key q) arrivals) = Suc n \<and>
    keyed (packet_key q) arrivals outs = replicate n None @ [Some (delivered mtu q)]"
proof -
  let ?qs = "taken numbered"
  have keys: "distinct (map packet_key ?qs)" and qs: "\<forall>q \<in> set ?qs. sendable mtu q"
    using identified_keys [OF assms(3-5)] assms(10) by (auto simp: sendable_def)
  have "fg_out s = concat (map (wire mtu) ?qs)"
    using fragmenter_reach_inv [OF assms(6)] assms(7-9) pieces_wire [OF assms(2) qs]
    by (simp add: fragmenter_inv_def)
  then have perm: "mset (map (snd \<circ> snd) arrivals) = mset (concat (map (wire mtu) ?qs))" using assms(11) by simp
  obtain d outs where "defragment_all orderedDelete (new_defragmenter T) arrivals = Some (d, outs)"
    "\<And>q. q \<in> set ?qs \<Longrightarrow> \<exists>n. length (arrived (packet_key q) arrivals) = Suc n \<and>
       keyed (packet_key q) arrivals outs = replicate n None @ [Some (delivered mtu q)]"
    using layers_deliver [OF assms(1) keys qs perm assms(12)] by blast
  then show ?thesis using assms(13) by blast
qed

theorem ip_layers_deliver_witness:
  "\<exists>q r s d outs n. identify_all 7 [sample_packet, sample_packet] = Some [Some q, Some r] \<and>
     fragmenter_reach min 36 s \<and> fg_in s = [q, r] \<and>
     defragment_all (\<lambda>xs i. take i xs @ drop (Suc i) xs) (new_defragmenter 0)
       (map (\<lambda>f. (0, 0, f)) (rev (fg_out s))) = Some (d, outs) \<and>
     keyed (packet_key q) (map (\<lambda>f. (0, 0, f)) (rev (fg_out s))) outs =
       replicate n None @ [Some (delivered 36 q)]"
proof -
  define q where "q = with_ip_checksum (put16 sample_packet 4 7)"
  define r where "r = with_ip_checksum (put16 sample_packet 4 8)"
  have run: "identify_all 7 [sample_packet, sample_packet] = Some [Some q, Some r]"
    using sample_packet_facts(1)
    by (simp add: AddIPv4Identifiers_eq q_def r_def) (simp add: sample_packet_def be_int_def)
  have same: "x ! 6 = 0 \<and> header_len x = 20 \<and> length x = 44" if "x \<in> {q, r}" for x
    using that sample_packet_facts
    by (auto simp: q_def r_def nth_with_ip_checksum nth_put16) (simp_all add: sample_packet_def)
  have mtu: "\<forall>x \<in> set (taken [Some q, Some r]). int (header_len x) + 8 \<le> 36 \<and>
      (int (length x) < 36 \<or> x ! 6 AND 0x40 = 0)"
    using same by auto
  have valid: "\<forall>p \<in> set [sample_packet, sample_packet]. IPv4_Valid p = Some True"
    using sample_packet_facts(1) by simp
  have "\<forall>x \<in> set [q, r]. sendable 36 x"
    using identified_keys [OF valid _ run] mtu by (auto simp: sendable_def)
  then have "\<forall>x \<in> set [q, r]. fragments min 36 x \<noteq> None"
    using fragments_wire [OF min_int_spec_min, of 36] by auto
  then obtain s where s: "fragmenter_reach min 36 s" "fg_in s = [q, r]" "fg_running s" "fg_pending s = []"
    using fragmenter_sends_all by blast
  have "\<exists>d outs n. defragment_all (\<lambda>xs i. take i xs @ drop (Suc i) xs) (new_defragmenter 0)
       (map (\<lambda>f. (0, 0, f)) (rev (fg_out s))) = Some (d, outs) \<and>
     length (arrived (packet_key q) (map (\<lambda>f. (0, 0, f)) (rev (fg_out s)))) = Suc n \<and>
     keyed (packet_key q) (map (\<lambda>f. (0, 0, f)) (rev (fg_out s))) outs =
       replicate n None @ [Some (delivered 36 q)]"
    by (rule ip_layers_deliver [OF ordered_delete_spec_take_drop min_int_spec_min valid _ run s(1) _ s(3,4) mtu,
          where t = 0])
      (simp_all add: s(2) new_defragmenter_def comp_def)
  then show ?thesis using run s by blast
qed

end
