(* ===== verification/Transport.thy ===== *)
theory Transport
  imports IPv4
begin

text \<open>
  What TCP (\<open>ipstack/tcp.go\<close>) and UDP (\<open>ipstack/udp.go\<close>) packets share: an IP address with a
  port (\<open>net.TCPAddr\<close>, \<open>net.UDPAddr\<close>), the layout of 32-bit fields, and the checksum over
  the payload of the IP packet and a pseudo header.
\<close>

record net_addr =
  IP :: bytes
  Port :: int

section \<open>32-bit big-endian fields\<close>

definition hi16 :: "u32 \<Rightarrow> u16" where
  "hi16 v = ucast (drop_bit 16 v)"

definition lo16 :: "u32 \<Rightarrow> u16" where
  "lo16 v = ucast v"

definition join16 :: "u16 \<Rightarrow> u16 \<Rightarrow> u32" where
  "join16 hi lo = push_bit 16 (ucast hi) OR ucast lo"

lemma join16_hi16_lo16 [simp, go]: "join16 (hi16 v) (lo16 v) = v"
  by (rule bit_word_eqI) (auto simp: join16_def hi16_def lo16_def bit_simps)

lemma hi16_join16 [simp, go]: "hi16 (join16 a b) = a"
  by (rule bit_word_eqI) (auto simp: join16_def hi16_def bit_simps dest: bit_imp_le_length)

lemma lo16_join16 [simp, go]: "lo16 (join16 a b) = b"
  by (rule bit_word_eqI) (auto simp: join16_def lo16_def bit_simps)

section \<open>The checksum with a pseudo header\<close>

definition pseudo_header :: "byte \<Rightarrow> bytes \<Rightarrow> bytes" where
  "pseudo_header proto p =
     take 4 (drop 12 p) @ take 4 (drop 16 p) @
     [0, proto, hi8 (of_nat (length p - header_len p)), lo8 (of_nat (length p - header_len p))]"

definition transport_sum :: "byte \<Rightarrow> bytes \<Rightarrow> u16" where
  "transport_sum proto p = InternetChecksum (pseudo_header proto p @ drop (header_len p) p)"

lemma length_pseudo_header: "20 \<le> length p \<Longrightarrow> length (pseudo_header proto p) = 12"
  by (simp add: pseudo_header_def)

lemma even_header_len [simp]: "even (header_len p)"
  by (simp add: header_len_def)

lemma drop_put16_at: "drop n (put16 xs (n + k) v) = put16 (drop n xs) k v"
  by (simp add: put16_def drop_update_swap)

lemma transport_sum_put16:
  assumes "IPv4_Valid p = Some True"
  shows "transport_sum proto (put16 p (header_len p + k) v) =
    InternetChecksum (put16 (pseudo_header proto p @ drop (header_len p) p) (12 + k) v)"
proof -
  note len = ip_valid_length [OF assms]
  have "take 4 (drop n (put16 p (header_len p + k) v)) = take 4 (drop n p)" if "n + 4 \<le> 20" for n
    using that len by (intro nth_equalityI) (auto simp: put16_def)
  then have "pseudo_header proto (put16 p (header_len p + k) v) = pseudo_header proto p"
    using len by (simp add: pseudo_header_def)
  then show ?thesis
    using len length_pseudo_header [of p proto]
    by (simp add: transport_sum_def drop_put16_at put16_append)
qed

text \<open>Storing the checksum of the packet with a zero field there makes the checksum 0.  UDP
  stores \<open>0xffff\<close> instead of 0, which has the same residue.\<close>

lemma transport_sum_set:
  assumes valid: "IPv4_Valid p = Some True" and k: "even k" "header_len p + k + 2 \<le> length p"
    and v: "unat v mod 65535 = unat (transport_sum proto (put16 p (header_len p + k) 0)) mod 65535"
    and pos: "v \<noteq> 0 \<or> transport_sum proto (put16 p (header_len p + k) 0) = 0"
  shows "transport_sum proto (put16 p (header_len p + k) v) = 0"
proof -
  note len = ip_valid_length [OF valid]
  let ?xs = "pseudo_header proto p @ drop (header_len p) p"
  have "length ?xs \<le> 131074" "Suc (12 + k) < length ?xs"
    using len k length_pseudo_header [of p proto] by auto
  moreover have "v \<noteq> 0 \<or> word_sum (put16 ?xs (12 + k) 0) > 0"
    using pos InternetChecksum_eq_0_iff [of "put16 ?xs (12 + k) 0"] \<open>length ?xs \<le> 131074\<close>
    by (auto simp: transport_sum_put16 [OF valid])
  ultimately show ?thesis
    unfolding transport_sum_put16 [OF valid]
    using k v by (intro InternetChecksum_put16) (auto simp: transport_sum_put16 [OF valid])
qed

text \<open>A change of one byte of the payload or of an address is noticed.\<close>

lemma transport_sum_detects:
  assumes valid: "IPv4_Valid p = Some True" and sum: "transport_sum proto p = 0"
    and i: "header_len p \<le> i" "i < length p" and b: "b \<noteq> p ! i"
  shows "transport_sum proto (p[i := b]) \<noteq> 0"
proof -
  note len = ip_valid_length [OF valid]
  let ?xs = "pseudo_header proto p @ drop (header_len p) p"
  obtain j where j: "i = header_len p + j" using i by (metis le_Suc_ex)
  have "take 4 (drop n (p[i := b])) = take 4 (drop n p)" if "n + 4 \<le> 20" for n
    using that len i by (intro nth_equalityI) auto
  moreover have hl: "header_len (p[i := b]) = header_len p" using i len by simp
  ultimately have "pseudo_header proto (p[i := b]) = pseudo_header proto p"
    by (simp add: pseudo_header_def)
  then have "pseudo_header proto (p[i := b]) @ drop (header_len (p[i := b])) (p[i := b]) =
      ?xs[12 + (i - header_len p) := b]"
    using len i length_pseudo_header [of p proto] hl
    by (simp add: list_update_append drop_update_swap j)
  then have "transport_sum proto (p[i := b]) = InternetChecksum (?xs[12 + (i - header_len p) := b])"
    by (simp add: transport_sum_def)
  moreover have "InternetChecksum (?xs[12 + (i - header_len p) := b]) \<noteq> 0"
  proof (rule InternetChecksum_detects)
    show "InternetChecksum ?xs = 0" using sum by (simp add: transport_sum_def)
    show "length ?xs \<le> 131074" "12 + (i - header_len p) < length ?xs"
      using len i length_pseudo_header [of p proto] by auto
    show "b \<noteq> ?xs ! (12 + (i - header_len p))"
      using b len i length_pseudo_header [of p proto] by (simp add: nth_append j)
  qed
  ultimately show ?thesis by simp
qed

lemma valid_put16:
  assumes "IPv4_Valid p = Some True" and "header_len p \<le> k"
  shows "IPv4_Valid (put16 p k v) = Some True"
  by (rule ip_valid_cong [OF assms(1)])
    (use ip_valid_length [OF assms(1)] assms(2) in \<open>simp_all add: put16_def\<close>)

text \<open>A field behind the IP header is none of its fields.\<close>

lemma ip_fields_put16:
  assumes "20 \<le> length p" and "20 \<le> k"
  shows "IPv4_SourceAddr (put16 p k v) = IPv4_SourceAddr p" and "IPv4_DestAddr (put16 p k v) = IPv4_DestAddr p"
    and "IPv4_Proto (put16 p k v) = IPv4_Proto p" and "IPv4_FragmentInfo (put16 p k v) = IPv4_FragmentInfo p"
    and "header_len (put16 p k v) = header_len p"
proof -
  have nth: "put16 p k v ! i = p ! i" if "i < 20" for i using that assms by (simp add: put16_def)
  have "take 4 (drop n (put16 p k v)) = take 4 (drop n p)" if "n + 4 \<le> 20" for n
    using that assms nth by (intro nth_equalityI) auto
  then show "IPv4_SourceAddr (put16 p k v) = IPv4_SourceAddr p" "IPv4_DestAddr (put16 p k v) = IPv4_DestAddr p"
    "IPv4_Proto (put16 p k v) = IPv4_Proto p" "IPv4_FragmentInfo (put16 p k v) = IPv4_FragmentInfo p"
    using assms nth by (simp_all add: IPv4_fields_eq)
  show "header_len (put16 p k v) = header_len p" using nth by (simp add: header_len_def)
qed

text \<open>An IP packet around the bytes of a transport protocol.\<close>

lemma NewIPv4Packet_around:
  assumes addr: "To4 source = Some src" "To4 dest = Some dst" and "length xs \<le> 65515"
    and proto: "0 \<le> proto" "proto < 256"
  obtains r where "NewIPv4Packet ttl proto source dest xs = Some r" and "IPv4_Valid r = Some True"
    and "length r = 20 + length xs" and "header_len r = 20" and "drop 20 r = xs" and "\<And>i. r ! (20 + i) = xs ! i"
    and "IPv4_SourceAddr r = Some src" and "IPv4_DestAddr r = Some dst" and "IPv4_Proto r = Some proto"
    and "IPv4_FragmentInfo r = Some (False, False, 0)"
proof -
  obtain r where r: "NewIPv4Packet ttl proto source dest xs = Some r" using NewIPv4Packet_Some [OF addr] .
  note f = NewIPv4Packet_fields [OF addr r]
  have v: "IPv4_Valid r = Some True" using NewIPv4Packet_valid_iff [OF addr r] assms(3) by simp
  have d: "drop 20 r = xs" using f(1,2,5) ip_valid_length [OF v] IPv4_Payload_eq [of r] by auto
  then have "r ! (20 + i) = xs ! i" for i using f(1) by (metis nth_drop le_add1)
  then show ?thesis using that r v f d proto by simp
qed

end
