(* ===== verification/ICMP.thy ===== *)
theory ICMP
  imports Transport
begin

text \<open>
  \<open>ipstack/icmp.go\<close>: ICMP packets and the body of the loop of \<open>RespondToPingsIPv4\<close>, which
  turns an echo request into the reply in place.  The ICMP packet is a slice of the IP packet
  and shares its bytes: \<open>store_payload\<close> is the IP packet after writes through that slice.
\<close>

definition ICMP_Valid :: "bytes \<Rightarrow> bool" where
  "ICMP_Valid i = (if length i < 8 then False else True)"

definition ICMP_Type :: "bytes \<Rightarrow> int go" where
  "ICMP_Type i = do { b \<leftarrow> idx i 0; Some (uint b) }"

definition ICMP_SetType :: "bytes \<Rightarrow> int \<Rightarrow> bytes go" where
  "ICMP_SetType i t = upd i 0 (word_of_int t)"

definition ICMP_Checksum :: "bytes \<Rightarrow> u16 go" where
  "ICMP_Checksum i = Some (InternetChecksum i)"

definition ICMP_SetChecksum :: "bytes \<Rightarrow> bytes go" where
  "ICMP_SetChecksum i = do {
     i \<leftarrow> upd i 2 0;
     i \<leftarrow> upd i 3 0;
     checksum \<leftarrow> ICMP_Checksum i;
     i \<leftarrow> upd i 2 (hi8 checksum);
     upd i 3 (lo8 checksum)
   }"

definition store_payload :: "bytes \<Rightarrow> bytes \<Rightarrow> bytes" where
  "store_payload ip payload = take (length ip - length payload) ip @ payload"

text \<open>The packet that the loop sends for one incoming packet that \<open>FilterIPv4Proto\<close> let
  through, if any.\<close>

definition ping_reply :: "bytes \<Rightarrow> bytes option go" where
  "ping_reply ipPacket = do {
     packet \<leftarrow> IPv4_Payload ipPacket;
     if \<not> ICMP_Valid packet then Some None
     else do {
       c \<leftarrow> ICMP_Checksum packet;
       t \<leftarrow> ICMP_Type packet;
       if c \<noteq> 0 \<or> t \<noteq> 8 then Some None
       else do {
         packet \<leftarrow> ICMP_SetType packet 0;
         packet \<leftarrow> ICMP_SetChecksum packet;
         let ipPacket = store_payload ipPacket packet;
         source \<leftarrow> IPv4_SourceAddr ipPacket;
         dest \<leftarrow> IPv4_DestAddr ipPacket;
         ipPacket \<leftarrow> copy_slice ipPacket 12 16 dest;
         ipPacket \<leftarrow> copy_slice ipPacket 16 20 source;
         ipPacket \<leftarrow> IPv4_SetChecksum ipPacket;
         Some (Some ipPacket)
       }
     }
   }"

text \<open>The whole loop over the packets of the stream, with the filter in front: the replies in
  the order they are sent.\<close>

fun RespondToPingsIPv4 :: "bytes list \<Rightarrow> bytes list go" where
  "RespondToPingsIPv4 [] = Some []"
| "RespondToPingsIPv4 (p # ps) = do {
     f \<leftarrow> FilterIPv4Proto 1 p;
     r \<leftarrow> (case f of None \<Rightarrow> Some None | Some d \<Rightarrow> ping_reply d);
     rs \<leftarrow> RespondToPingsIPv4 ps;
     Some (case r of None \<Rightarrow> rs | Some q \<Rightarrow> q # rs)
   }"

section \<open>The checksum\<close>

definition icmp_ok :: "bytes \<Rightarrow> bool" where
  "icmp_ok i \<longleftrightarrow> ICMP_Valid i \<and> length i \<le> 131074"

lemma ICMP_Valid_iff: "ICMP_Valid i \<longleftrightarrow> 8 \<le> length i"
  by (auto simp: ICMP_Valid_def)

definition with_icmp_checksum :: "bytes \<Rightarrow> bytes" where
  "with_icmp_checksum i = put16 i 2 (InternetChecksum (put16 i 2 0))"

lemma ICMP_SetChecksum_eq: "4 \<le> length i \<Longrightarrow> ICMP_SetChecksum i = Some (with_icmp_checksum i)"
  by (simp add: ICMP_SetChecksum_def with_icmp_checksum_def put16_def ICMP_Checksum_def
      hi8_def lo8_def list_update_swap [of 2 3])

interpretation icmp: checksummed icmp_ok ICMP_Checksum ICMP_SetChecksum
proof unfold_locales
  fix i assume ok: "icmp_ok i"
  then have len: "8 \<le> length i" "length i \<le> 131074" by (auto simp: icmp_ok_def ICMP_Valid_iff)
  show "\<exists>c. ICMP_Checksum i = Some c" by (simp add: ICMP_Checksum_def)
  show "\<exists>q. ICMP_SetChecksum i = Some q \<and> icmp_ok q \<and> length q = length i"
    using len by (simp add: ICMP_SetChecksum_eq icmp_ok_def ICMP_Valid_iff with_icmp_checksum_def)
  fix q assume "ICMP_SetChecksum i = Some q"
  then have q: "q = with_icmp_checksum i" using len by (simp add: ICMP_SetChecksum_eq)
  show "ICMP_Checksum q = Some 0"
    using len by (simp add: q ICMP_Checksum_def with_icmp_checksum_def InternetChecksum_set)
  show "ICMP_SetChecksum q = Some q"
    using len by (simp add: q ICMP_SetChecksum_eq with_icmp_checksum_def)
qed

section \<open>The reply\<close>

text \<open>What the reply is, as one list: the addresses are exchanged, the type is 0, both
  checksums are fresh, and the rest is as it was.\<close>

definition echo_reply :: "bytes \<Rightarrow> bytes" where
  "echo_reply p = with_ip_checksum (take 12 p @ take 4 (drop 16 p) @ take 4 (drop 12 p) @
     take (header_len p - 20) (drop 20 p) @ with_icmp_checksum ((drop (header_len p) p)[0 := 0]))"

lemma length_with_icmp_checksum [simp]: "length (with_icmp_checksum i) = length i"
  by (simp add: with_icmp_checksum_def)

lemma ping_reply_eq:
  assumes valid: "IPv4_Valid p = Some True"
  shows "ping_reply p = Some (
    if header_len p + 8 \<le> length p \<and> InternetChecksum (drop (header_len p) p) = 0 \<and> p ! header_len p = 8
    then Some (echo_reply p) else None)"
proof -
  note len = ip_valid_length [OF valid]
  have pl: "IPv4_Payload p = Some (drop (header_len p) p)" using len by (intro IPv4_Payload_eq) auto
  show ?thesis
  proof (cases "header_len p + 8 \<le> length p")
    case False
    then have "\<not> ICMP_Valid (drop (header_len p) p)" by (simp add: ICMP_Valid_iff)
    then show ?thesis using False by (simp add: ping_reply_def pl)
  next
    case True
    then have nonempty: "drop (header_len p) p \<noteq> []" "drop (header_len p) p ! 0 = p ! header_len p"
      by auto
    have type: "uint (p ! header_len p) = 8 \<longleftrightarrow> p ! header_len p = 8"
      by (simp add: word_uint_eq_iff)
    let ?i = "with_icmp_checksum ((drop (header_len p) p)[0 := 0])"
    let ?q = "take (header_len p) p @ ?i"
    have q: "store_payload p ?i = ?q" using len by (simp add: store_payload_def)
    have ql: "length ?q = length p" using len by simp
    have tq: "take 20 ?q = take 20 p" using len by simp
    have addr: "take 4 (drop n ?q) = take 4 (drop n p)" if "n + 4 \<le> 20" for n
      using that len by (intro nth_equalityI) (auto simp: nth_append)
    obtain s0 s1 s2 s3 where s: "take 4 (drop 12 p) = [s0, s1, s2, s3]"
      using len list4_eq [of "take 4 (drop 12 p)"] by force
    obtain d0 d1 d2 d3 where d: "take 4 (drop 16 p) = [d0, d1, d2, d3]"
      using len list4_eq [of "take 4 (drop 16 p)"] by force
    have d20: "drop 20 ?q = take (header_len p - 20) (drop 20 p) @ ?i"
      using len by (simp add: drop_take)
    have swap: "(do {
        x \<leftarrow> copy_slice ?q 12 16 (take 4 (drop 16 p));
        x \<leftarrow> copy_slice x 16 20 (take 4 (drop 12 p));
        x \<leftarrow> IPv4_SetChecksum x;
        Some (Some x) }) = Some (Some (echo_reply p))"
    proof -
      let ?r = "take 12 p @ take 4 (drop 16 p) @ take 4 (drop 12 p) @ drop 20 ?q"
      have "copy_slice ?q 12 16 (take 4 (drop 16 p)) = Some (take 12 p @ take 4 (drop 16 p) @ drop 16 ?q)"
        using len ql by (simp add: copy_list_same_length)
      moreover have "copy_slice (take 12 p @ take 4 (drop 16 p) @ drop 16 ?q) 16 20 (take 4 (drop 12 p)) = Some ?r"
        using len ql by (simp add: copy_list_same_length)
      moreover have "header_len ?r = header_len p" using len by (simp add: header_len_def nth_append)
      then have "IPv4_SetChecksum ?r = Some (with_ip_checksum ?r)"
        using len ql by (intro IPv4_SetChecksum_eq) simp_all
      ultimately show ?thesis unfolding d20 by (simp add: echo_reply_def)
    qed
    show ?thesis
    proof (cases "InternetChecksum (drop (header_len p) p) = 0 \<and> p ! header_len p = 8")
      case False
      then show ?thesis using True nonempty type
        by (auto simp: ping_reply_def pl ICMP_Valid_iff ICMP_Checksum_def ICMP_Type_def)
    next
      case c: True
      then show ?thesis using True nonempty len ql addr swap
        by (simp add: ping_reply_def pl ICMP_Valid_iff ICMP_Checksum_def ICMP_Type_def ICMP_SetType_def
            ICMP_SetChecksum_eq q IPv4_fields_eq)
    qed
  qed
qed


lemma drop_header_swap:
  assumes "20 \<le> header_len p" and "header_len p \<le> length p"
  shows "length (echo_reply p) = length p" and "header_len (echo_reply p) = header_len p"
    and "drop (header_len p) (echo_reply p) = with_icmp_checksum ((drop (header_len p) p)[0 := 0])"
    and "take 4 (drop 12 (echo_reply p)) = take 4 (drop 16 p)"
    and "take 4 (drop 16 (echo_reply p)) = take 4 (drop 12 p)"
    and "i < 12 \<Longrightarrow> i \<noteq> 10 \<Longrightarrow> i \<noteq> 11 \<Longrightarrow> echo_reply p ! i = p ! i"
proof -
  let ?r = "take 12 p @ take 4 (drop 16 p) @ take 4 (drop 12 p) @
     take (header_len p - 20) (drop 20 p) @ with_icmp_checksum ((drop (header_len p) p)[0 := 0])"
  have hl: "header_len ?r = header_len p" using assms by (simp add: header_len_def nth_append)
  obtain c where c: "echo_reply p = put16 ?r 10 c" by (simp add: echo_reply_def with_ip_checksum_def)
  show "length (echo_reply p) = length p" using assms by (simp add: c)
  show "header_len (echo_reply p) = header_len p" using hl by (simp add: c)
  have split: "drop (header_len p) (A @ B @ C @ M @ I) = I" "take 4 (drop 12 (A @ B @ C @ M @ I)) = B"
    "take 4 (drop 16 (A @ B @ C @ M @ I)) = C"
    if "length A = 12" "length B = 4" "length C = 4" "length M = header_len p - 20" for A B C M I :: bytes
    using that assms by simp_all
  have "drop n (echo_reply p) = drop n ?r" if "12 \<le> n" for n using that by (simp add: c)
  then have "drop (header_len p) (echo_reply p) = drop (header_len p) ?r"
    "drop 12 (echo_reply p) = drop 12 ?r" "drop 16 (echo_reply p) = drop 16 ?r"
    using assms by (simp_all del: append_take_drop_id drop_append)
  moreover have "length (take 12 p) = 12" "length (take 4 (drop 16 p)) = 4" "length (take 4 (drop 12 p)) = 4"
    "length (take (header_len p - 20) (drop 20 p)) = header_len p - 20"
    using assms by simp_all
  ultimately show "drop (header_len p) (echo_reply p) = with_icmp_checksum ((drop (header_len p) p)[0 := 0])"
    "take 4 (drop 12 (echo_reply p)) = take 4 (drop 16 p)"
    "take 4 (drop 16 (echo_reply p)) = take 4 (drop 12 p)"
    by (simp_all only: split)
  show "echo_reply p ! i = p ! i" if "i < 12" "i \<noteq> 10" "i \<noteq> 11"
    using that assms by (simp add: c put16_def nth_append)
qed

section \<open>Properties\<close>

lemma ping_reply_spec:
  assumes "IPv4_Valid p = Some True" and "IPv4_SourceAddr p = Some src"
    and "IPv4_DestAddr p = Some dst" and "IPv4_Payload p = Some req"
  shows "ping_reply p = Some (
      if ICMP_Valid req \<and> InternetChecksum req = 0 \<and> req ! 0 = 8 then Some (echo_reply p) else None) \<and>
    (ICMP_Valid req \<longrightarrow> (\<exists>rep. IPv4_Valid (echo_reply p) = Some True \<and>
       IPv4_Checksum (echo_reply p) = Some 0 \<and>
       IPv4_SourceAddr (echo_reply p) = Some dst \<and> IPv4_DestAddr (echo_reply p) = Some src \<and>
       IPv4_Payload (echo_reply p) = Some rep \<and> ICMP_Type rep = Some 0 \<and> ICMP_Checksum rep = Some 0 \<and>
       length rep = length req \<and> rep ! 1 = req ! 1 \<and> drop 4 rep = drop 4 req))"
proof -
  note len = ip_valid_length [OF assms(1)]
  have req: "req = drop (header_len p) p"
    using assms(4) len IPv4_Payload_eq [of p] by (cases "p = []") auto
  have sd: "src = take 4 (drop 12 p)" "dst = take 4 (drop 16 p)"
    using assms(2,3) len by (simp_all add: IPv4_fields_eq)
  note r = drop_header_swap [OF len(3,4)]
  have "ping_reply p = Some (
      if ICMP_Valid req \<and> InternetChecksum req = 0 \<and> req ! 0 = 8 then Some (echo_reply p) else None)"
    using len by (auto simp: ping_reply_eq [OF assms(1)] req ICMP_Valid_iff)
  moreover have "\<exists>rep. IPv4_Valid (echo_reply p) = Some True \<and>
       IPv4_Checksum (echo_reply p) = Some 0 \<and>
       IPv4_SourceAddr (echo_reply p) = Some dst \<and> IPv4_DestAddr (echo_reply p) = Some src \<and>
       IPv4_Payload (echo_reply p) = Some rep \<and> ICMP_Type rep = Some 0 \<and> ICMP_Checksum rep = Some 0 \<and>
       length rep = length req \<and> rep ! 1 = req ! 1 \<and> drop 4 rep = drop 4 req"
    if "ICMP_Valid req"
  proof -
    have l8: "8 \<le> length req" "length req \<le> 131074" using that len by (simp_all add: req ICMP_Valid_iff)
    have v: "IPv4_Valid (echo_reply p) = Some True"
      by (rule ip_valid_cong [OF assms(1)]) (simp_all add: r)
    have pl: "IPv4_Payload (echo_reply p) = Some (with_icmp_checksum (req[0 := 0]))"
      using IPv4_Payload_eq [of "echo_reply p"] r(1-3) len by (simp add: req)
    have "IPv4_Checksum (echo_reply p) = Some 0"
      unfolding echo_reply_def using len
      by (intro IPv4_Checksum_with_ip_checksum) (simp_all add: header_len_def nth_append)
    moreover have "ICMP_Type (with_icmp_checksum (req[0 := 0])) = Some 0"
    proof -
      have "0 < length (with_icmp_checksum (req[0 := 0]))"
        unfolding length_with_icmp_checksum length_list_update using l8(1) by linarith
      moreover have "req \<noteq> []" using l8(1) by (cases req) auto
      ultimately show ?thesis using l8
        by (simp only: ICMP_Type_def idx_Some) (simp add: with_icmp_checksum_def nth_put16)
    qed
    moreover have "InternetChecksum (with_icmp_checksum (req[0 := 0])) = 0"
      using l8 by (simp add: with_icmp_checksum_def InternetChecksum_set)
    ultimately show ?thesis
      using v pl l8 r(1,4,5) len
      by (auto simp: IPv4_fields_eq sd ICMP_Checksum_def with_icmp_checksum_def nth_put16
          intro!: exI [of _ "with_icmp_checksum (req[0 := 0])"])
  qed
  ultimately show ?thesis by blast
qed

text \<open>\<open>RespondToPingsIPv4\<close> answers a valid packet exactly when it holds an ICMP echo request
  with a correct checksum.  The reply is a valid IPv4 packet of the same length with correct
  IP and ICMP checksums, the addresses exchanged, type 0, and the identifier, sequence number
  and data of the request; nothing panics.\<close>

theorem ping_reply_correct:
  assumes "IPv4_Valid p = Some True" and "IPv4_SourceAddr p = Some src"
    and "IPv4_DestAddr p = Some dst" and "IPv4_Payload p = Some req"
  shows "ping_reply p = Some (
      if ICMP_Valid req \<and> InternetChecksum req = 0 \<and> req ! 0 = 8 then Some (echo_reply p) else None) \<and>
    (ICMP_Valid req \<longrightarrow> (\<exists>rep. IPv4_Valid (echo_reply p) = Some True \<and>
       IPv4_Checksum (echo_reply p) = Some 0 \<and>
       IPv4_SourceAddr (echo_reply p) = Some dst \<and> IPv4_DestAddr (echo_reply p) = Some src \<and>
       IPv4_Payload (echo_reply p) = Some rep \<and> ICMP_Type rep = Some 0 \<and> ICMP_Checksum rep = Some 0 \<and>
       length rep = length req \<and> rep ! 1 = req ! 1 \<and> drop 4 rep = drop 4 req))"
  using assms by (rule ping_reply_spec)

definition example_ping :: bytes where
  "example_ping = [0x45, 0, 0, 28, 0, 0, 0, 0, 64, 1, 0, 0, 10, 0, 0, 1, 10, 0, 0, 2,
     8, 0, 0xf7, 0xff, 0, 0, 0, 0]"

theorem ping_reply_correct_witness:
  "ping_reply example_ping = Some (Some (echo_reply example_ping)) \<and>
   IPv4_Valid (echo_reply example_ping) = Some True \<and>
   IPv4_DestAddr (echo_reply example_ping) = Some [10, 0, 0, 1]"
proof -
  have v: "IPv4_Valid example_ping = Some True" "IPv4_SourceAddr example_ping = Some [10, 0, 0, 1]"
    "IPv4_DestAddr example_ping = Some [10, 0, 0, 2]"
    "IPv4_Payload example_ping = Some [8, 0, 0xf7, 0xff, 0, 0, 0, 0]"
    by (simp_all add: ip_valid_iff be_int_eq header_len_def example_ping_def IPv4_fields_eq
        IPv4_Payload_eq)
  have "InternetChecksum [8, 0, 0xf7, 0xff, 0, 0, 0, 0] = 0"
    by (subst InternetChecksum_eq_0_iff) simp_all
  then show ?thesis
    using ping_reply_correct [OF v] by (auto simp: ICMP_Valid_iff)
qed

end
