(* ===== verification/Tunnel_Wire.thy ===== *)
theory Tunnel_Wire
  imports Go_Prelude
begin

text \<open>
  The byte layouts that the tunnels exchange with the kernel: socket addresses
  (\<open>tunnet/utils_linux.go\<close>, \<open>tunnet/utils_darwin.go\<close>), the routing messages of Darwin
  (\<open>tunnet/route_darwin.go\<close>) and the routing request of Linux (\<open>tunnet/route_linux.go\<close>).
  \<open>systemByteOrder\<close> is little-endian on both systems.
\<close>

section \<open>Little-endian fields\<close>

definition le16 :: "u16 \<Rightarrow> bytes" where
  "le16 v = [lo8 v, hi8 v]"

definition le32 :: "u32 \<Rightarrow> bytes" where
  "le32 v = [ucast v, ucast (drop_bit 8 v), ucast (drop_bit 16 v), ucast (drop_bit 24 v)]"

definition get_le16 :: "bytes \<Rightarrow> u16" where
  "get_le16 bs = be16 (bs ! 1) (bs ! 0)"

definition get_le32 :: "bytes \<Rightarrow> u32" where
  "get_le32 bs = ucast (bs ! 0) OR push_bit 8 (ucast (bs ! 1)) OR push_bit 16 (ucast (bs ! 2)) OR
     push_bit 24 (ucast (bs ! 3))"

lemma length_le [simp]: "length (le16 v) = 2" "length (le32 w) = 4"
  by (simp_all add: le16_def le32_def)

lemma get_le16_le16 [simp]: "get_le16 (le16 v) = v"
  by (simp add: get_le16_def le16_def)

lemma get_le32_le32 [simp]: "get_le32 (le32 v) = v"
proof -
  have "v = ucast (ucast v :: byte) OR push_bit 8 (ucast (ucast (drop_bit 8 v) :: byte)) OR
      push_bit 16 (ucast (ucast (drop_bit 16 v) :: byte)) OR
      push_bit 24 (ucast (ucast (drop_bit 24 v) :: byte))"
  proof (rule bit_word_eqI)
    fix n
    assume "n < LENGTH(32)"
    then consider "n < 8" | "8 \<le> n" "n - 8 < 8" | "16 \<le> n" "n - 16 < 8" | "24 \<le> n" "n < 32" by fastforce
    then show "bit v n = bit (ucast (ucast v :: byte) OR push_bit 8 (ucast (ucast (drop_bit 8 v) :: byte)) OR
      push_bit 16 (ucast (ucast (drop_bit 16 v) :: byte)) OR
      push_bit 24 (ucast (ucast (drop_bit 24 v) :: byte)) :: u32) n"
      by cases (auto simp: bit_simps)
  qed
  then show ?thesis by (simp add: get_le32_def le32_def numeral_2_eq_2 numeral_3_eq_3)
qed

section \<open>Socket addresses\<close>

definition packSockaddr4_linux :: "bytes \<Rightarrow> int \<Rightarrow> bytes go" where
  "packSockaddr4_linux addr port = do {
     ip4 \<leftarrow> To4 addr;
     let p = (word_of_int port :: u16);
     Some (le16 2 @ [hi8 p, lo8 p] @ ip4 @ replicate 8 0)
   }"

definition packSockaddr4_darwin :: "bytes \<Rightarrow> int \<Rightarrow> bytes go" where
  "packSockaddr4_darwin addr port = do {
     ip4 \<leftarrow> To4 addr;
     let p = (word_of_int port :: u16);
     Some ([16, 2] @ [hi8 p, lo8 p] @ ip4 @ replicate 8 0)
   }"

definition unpackSockaddr4 :: "bytes \<Rightarrow> (bytes \<times> int) go" where
  "unpackSockaddr4 data =
     (if length data \<noteq> 16 then None
      else do {
        p \<leftarrow> slice data 2 4;
        let port = be16 (p ! 0) (p ! 1);
        ip \<leftarrow> slice data 4 8;
        Some (ip, uint port)
      })"

lemma pack_length:
  "packSockaddr4_linux addr port = Some s \<Longrightarrow> length s = 16"
  "packSockaddr4_darwin addr port = Some s \<Longrightarrow> length s = 16"
  by (auto simp: packSockaddr4_linux_def packSockaddr4_darwin_def bind_eq_Some_conv Let_def dest: To4_length)

lemma unpack_pack:
  assumes "length ip4 = 4"
  shows "unpackSockaddr4 (a # b # [hi8 p, lo8 p] @ ip4 @ replicate 8 0) = Some (ip4, uint p)"
  using assms by (simp add: unpackSockaddr4_def slice_def)

section \<open>Routing messages on Darwin\<close>

text \<open>The integers of 32 bits are kept as words; the array \<open>rm_Metrics\<close> has 56 bytes.\<close>

record routeMsgHeader =
  rm_MessageLen :: u16
  rm_Version :: byte
  rm_Type :: byte
  rm_Index :: u16
  rm_Flags :: u32
  rm_Addrs :: u32
  rm_Pid :: u32
  rm_Seq :: u32
  rm_Errno :: u32
  rm_Use :: u32
  rm_Inits :: u32
  rm_Metrics :: bytes

definition zero_route_header :: routeMsgHeader where
  "zero_route_header = \<lparr>rm_MessageLen = 0, rm_Version = 0, rm_Type = 0, rm_Index = 0, rm_Flags = 0,
     rm_Addrs = 0, rm_Pid = 0, rm_Seq = 0, rm_Errno = 0, rm_Use = 0, rm_Inits = 0,
     rm_Metrics = replicate 56 0\<rparr>"

definition route_Encode :: "routeMsgHeader \<Rightarrow> bytes" where
  "route_Encode r =
     le16 (rm_MessageLen r) @ [rm_Version r] @ [rm_Type r] @ le16 (rm_Index r) @ le16 0 @
     le32 (rm_Flags r) @ le32 (rm_Addrs r) @ le32 (rm_Pid r) @ le32 (rm_Seq r) @ le32 (rm_Errno r) @
     le32 (rm_Use r) @ le32 (rm_Inits r) @ rm_Metrics r"

text \<open>\<open>binary.Read\<close> of a field of \<open>n\<close> bytes: when fewer are left it takes them all, and the field keeps
  its value, since the error is ignored.\<close>

definition read_field :: "nat \<Rightarrow> (bytes \<Rightarrow> 'a) \<Rightarrow> 'a \<Rightarrow> bytes \<Rightarrow> 'a \<times> bytes" where
  "read_field n get old buf =
     (if length buf < n then (old, []) else (get (take n buf), drop n buf))"

definition route_Decode :: "routeMsgHeader \<Rightarrow> bytes \<Rightarrow> routeMsgHeader" where
  "route_Decode r buf = (
     let (MessageLen, buf) = read_field 2 get_le16 (rm_MessageLen r) buf;
         (Version, buf) = read_field 1 hd (rm_Version r) buf;
         (Type, buf) = read_field 1 hd (rm_Type r) buf;
         (Index, buf) = read_field 2 get_le16 (rm_Index r) buf;
         buf = drop 2 buf;
         (Flags, buf) = read_field 4 get_le32 (rm_Flags r) buf;
         (Addrs, buf) = read_field 4 get_le32 (rm_Addrs r) buf;
         (Pid, buf) = read_field 4 get_le32 (rm_Pid r) buf;
         (Seq, buf) = read_field 4 get_le32 (rm_Seq r) buf;
         (Errno, buf) = read_field 4 get_le32 (rm_Errno r) buf;
         (Use, buf) = read_field 4 get_le32 (rm_Use r) buf;
         (Inits, buf) = read_field 4 get_le32 (rm_Inits r) buf
     in \<lparr>rm_MessageLen = MessageLen, rm_Version = Version, rm_Type = Type, rm_Index = Index,
          rm_Flags = Flags, rm_Addrs = Addrs, rm_Pid = Pid, rm_Seq = Seq, rm_Errno = Errno,
          rm_Use = Use, rm_Inits = Inits, rm_Metrics = copy_list (rm_Metrics r) buf\<rparr>)"

text \<open>The message of \<open>AddRoute\<close>: \<open>runRouteMsg\<close> fills in the length, the version and the number, and writes
  the header and the three addresses.\<close>

definition route_message :: "routeMsgHeader \<Rightarrow> bytes \<Rightarrow> bytes" where
  "route_message header body =
     route_Encode (header\<lparr>rm_MessageLen := of_nat (92 + length body), rm_Version := 5, rm_Seq := 1337\<rparr>) @ body"

definition add_route_header :: routeMsgHeader where
  "add_route_header = zero_route_header\<lparr>rm_Type := 1, rm_Addrs := 1 OR 2 OR 4\<rparr>"

definition add_route_body :: "bytes \<Rightarrow> bytes \<Rightarrow> bytes \<Rightarrow> bytes go" where
  "add_route_body destination gateway msk = do {
     d \<leftarrow> packSockaddr4_darwin destination 0;
     g \<leftarrow> packSockaddr4_darwin gateway 0;
     m \<leftarrow> packSockaddr4_darwin msk 0;
     Some (d @ g @ m)
   }"

section \<open>The routing request on Linux\<close>

definition add_route_request :: "bytes \<Rightarrow> bytes \<Rightarrow> bytes \<Rightarrow> bytes go" where
  "add_route_request destination gateway msk = do {
     let requestData = replicate 120 0;
     d \<leftarrow> packSockaddr4_linux destination 0;
     requestData \<leftarrow> copy_slice requestData 8 (length requestData) d;
     g \<leftarrow> packSockaddr4_linux gateway 0;
     requestData \<leftarrow> copy_slice requestData 24 (length requestData) g;
     m \<leftarrow> packSockaddr4_linux msk 0;
     requestData \<leftarrow> copy_slice requestData 40 (length requestData) m;
     copy_slice requestData 56 58 (le16 3)
   }"

section \<open>Properties\<close>

lemma read_field_append [simp]:
  "length xs = n \<Longrightarrow> read_field n get old (xs @ ys) = (get xs, ys)"
  "read_field 1 get old (x # ys) = (get [x], ys)"
  "read_field (Suc 0) get old (x # ys) = (get [x], ys)"
  by (simp_all add: read_field_def)

lemma route_Encode_length: "length (rm_Metrics r) = 56 \<Longrightarrow> length (route_Encode r) = 92"
  by (simp add: route_Encode_def)

lemma route_Decode_Encode:
  assumes "length (rm_Metrics r) = 56" and "length (rm_Metrics r0) = 56"
  shows "route_Decode r0 (route_Encode r @ rest) = r"
  using assms by (simp add: route_Decode_def route_Encode_def copy_list_def)

text \<open>Socket addresses survive the kernel's layout on both systems: the address and the low 16 bits
  of the port are read back, and packing panics exactly for an address that is not IPv4.\<close>

theorem sockaddr_roundtrip:
  "(case To4 addr of
      None \<Rightarrow> packSockaddr4_linux addr port = None \<and> packSockaddr4_darwin addr port = None
    | Some ip \<Rightarrow> \<exists>l d. packSockaddr4_linux addr port = Some l \<and> packSockaddr4_darwin addr port = Some d \<and>
        length l = 16 \<and> length d = 16 \<and>
        unpackSockaddr4 l = Some (ip, port mod 65536) \<and> unpackSockaddr4 d = Some (ip, port mod 65536))"
proof (cases "To4 addr")
  case (Some ip)
  have "length ip = 4" using Some by (rule To4_length)
  moreover have "uint (word_of_int port :: u16) = port mod 65536"
    by (simp add: uint_word_of_int)
  ultimately show ?thesis
    using Some unpack_pack [of ip _ _ "word_of_int port"]
    by (simp add: packSockaddr4_linux_def packSockaddr4_darwin_def le16_def Let_def)
qed (simp add: packSockaddr4_linux_def packSockaddr4_darwin_def)

text \<open>C37: A routing message with the addresses of \<open>AddRoute\<close>, for any header, has the length that it announces, and
  every field at its place in the kernel's \<open>rt_msghdr\<close>; whoever decodes it reads all the fields of the header back,
  with the length, version and number that \<open>runRouteMsg\<close> has filled in, whatever stood in the receiver before; the
  three addresses follow.  For \<open>AddRoute\<close> itself, the header that is read is given field by field.\<close>

theorem route_message_roundtrip:
  assumes "To4 destination = Some d" and "To4 gateway = Some g" and "length msk = 4"
    and "length (rm_Metrics r) = 56" and "length (rm_Metrics r0) = 56"
  shows "\<exists>body m. add_route_body destination gateway msk = Some body \<and>
    m = route_message r body \<and> length m = 140 \<and>
    route_Decode r0 m = r\<lparr>rm_MessageLen := 140, rm_Version := 5, rm_Seq := 1337\<rparr> \<and>
    take 8 m = [140, 0, 5, rm_Type r] @ le16 (rm_Index r) @ [0, 0] \<and>
    map (\<lambda>k. get_le32 (take 4 (drop k m))) [8, 12, 16, 20, 24, 28, 32] =
      [rm_Flags r, rm_Addrs r, rm_Pid r, 1337, rm_Errno r, rm_Use r, rm_Inits r] \<and>
    take 56 (drop 36 m) = rm_Metrics r \<and>
    map unpackSockaddr4 [take 16 (drop 92 m), take 16 (drop 108 m), drop 124 m] =
      [Some (d, 0), Some (g, 0), Some (msk, 0)] \<and>
    route_Decode r0 (route_message add_route_header body) = \<lparr>rm_MessageLen = 140, rm_Version = 5, rm_Type = 1,
      rm_Index = 0, rm_Flags = 0, rm_Addrs = 7, rm_Pid = 0, rm_Seq = 1337, rm_Errno = 0, rm_Use = 0, rm_Inits = 0,
      rm_Metrics = replicate 56 0\<rparr>"
proof -
  have len: "length d = 4" "length g = 4" using assms To4_length by auto
  let ?s = "\<lambda>ip. [16, 2, 0, 0] @ ip @ replicate 8 (0 :: byte)"
  define b where "b = ?s d @ ?s g @ ?s msk"
  have body: "add_route_body destination gateway msk = Some b"
    using assms by (simp add: add_route_body_def packSockaddr4_darwin_def hi8_def lo8_def b_def)
  have l: "length b = 48" using len assms(3) by (simp add: b_def)
  have msg: "route_message q b = route_Encode (q\<lparr>rm_MessageLen := 140, rm_Version := 5, rm_Seq := 1337\<rparr>) @ b" for q
    by (simp add: route_message_def l)
  let ?h = "r\<lparr>rm_MessageLen := 140, rm_Version := 5, rm_Seq := 1337\<rparr>"
  have le: "length (route_Encode ?h) = 92" using assms(4) by (intro route_Encode_length) simp
  define m where "m = route_message r b"
  have m: "m = route_Encode ?h @ b" by (simp only: m_def msg)
  have "route_Decode r0 m = ?h"
    unfolding m by (rule route_Decode_Encode) (use assms in simp_all)
  moreover have "route_Decode r0 (route_message add_route_header b) =
      add_route_header\<lparr>rm_MessageLen := 140, rm_Version := 5, rm_Seq := 1337\<rparr>"
    unfolding msg by (rule route_Decode_Encode) (use assms in \<open>simp_all add: add_route_header_def zero_route_header_def\<close>)
  then have "route_Decode r0 (route_message add_route_header b) = \<lparr>rm_MessageLen = 140, rm_Version = 5, rm_Type = 1,
      rm_Index = 0, rm_Flags = 0, rm_Addrs = 7, rm_Pid = 0, rm_Seq = 1337, rm_Errno = 0, rm_Use = 0, rm_Inits = 0,
      rm_Metrics = replicate 56 0\<rparr>"
    by (simp add: add_route_header_def zero_route_header_def)
  moreover have "take 8 m = [140, 0, 5, rm_Type r] @ le16 (rm_Index r) @ [0, 0]"
    by (simp add: m route_Encode_def le16_def lo8_def hi8_def)
  moreover have "map (\<lambda>k. get_le32 (take 4 (drop k m))) [8, 12, 16, 20, 24, 28, 32] =
      [rm_Flags r, rm_Addrs r, rm_Pid r, 1337, rm_Errno r, rm_Use r, rm_Inits r]"
    by (simp add: m route_Encode_def)
  moreover have "take 56 (drop 36 m) = rm_Metrics r"
    using assms(4) by (simp add: m route_Encode_def)
  moreover have "map unpackSockaddr4 [take 16 (drop 92 m), take 16 (drop 108 m),
      drop 124 m] = [Some (d, 0), Some (g, 0), Some (msk, 0)]"
    using le len assms(3) by (simp add: m b_def unpackSockaddr4_def slice_def be16_def)
  moreover have "length m = 140" using le l by (simp add: m)
  ultimately show ?thesis using body m_def
    by - (rule exI [of _ b], rule exI [of _ m], (intro conjI; assumption))
qed

theorem route_message_roundtrip_witness:
  "\<exists>body. add_route_body [10, 0, 0, 0] [10, 0, 0, 1] [255, 0, 0, 0] = Some body \<and>
     route_Decode zero_route_header (route_message (zero_route_header\<lparr>rm_Use := 7, rm_Inits := 8\<rparr>) body) =
       zero_route_header\<lparr>rm_MessageLen := 140, rm_Version := 5, rm_Seq := 1337, rm_Use := 7, rm_Inits := 8\<rparr>"
  using route_message_roundtrip [of "[10, 0, 0, 0]" "[10, 0, 0, 0]" "[10, 0, 0, 1]" "[10, 0, 0, 1]"
      "[255, 0, 0, 0]" "zero_route_header\<lparr>rm_Use := 7, rm_Inits := 8\<rparr>" zero_route_header]
  by (auto simp: zero_route_header_def)

text \<open>The request of Linux has the three addresses and the flags at the places of the kernel's
  \<open>rtentry\<close>, and zeros everywhere else.\<close>

theorem route_request_layout:
  assumes "To4 destination = Some d" and "To4 gateway = Some g" and "length msk = 4"
  shows "\<exists>q. add_route_request destination gateway msk = Some q \<and> length q = 120 \<and>
    map unpackSockaddr4 [take 16 (drop 8 q), take 16 (drop 24 q), take 16 (drop 40 q)] =
      [Some (d, 0), Some (g, 0), Some (msk, 0)] \<and>
    get_le16 (drop 56 q) = 3 \<and> (\<forall>b \<in> set (take 8 q @ drop 58 q). b = 0)"
proof -
  have len: "length d = 4" "length g = 4" using assms To4_length by auto
  let ?s = "\<lambda>ip. [2, 0, 0, 0] @ ip @ replicate 8 (0 :: byte)"
  have pack: "packSockaddr4_linux destination 0 = Some (?s d)" "packSockaddr4_linux gateway 0 = Some (?s g)"
    "packSockaddr4_linux msk 0 = Some (?s msk)"
    using assms by (simp_all add: packSockaddr4_linux_def hi8_def lo8_def le16_def)
  have unpack: "unpackSockaddr4 (?s ip) = Some (ip, 0)" if "length ip = 4" for ip
    using that by (simp add: unpackSockaddr4_def slice_def be16_def)
  define a b c where "a = ?s d" and "b = ?s g" and "c = ?s msk"
  have abc: "length a = 16" "length b = 16" "length c = 16" using len assms(3) by (simp_all add: a_def b_def c_def)
  have pack: "packSockaddr4_linux destination 0 = Some a" "packSockaddr4_linux gateway 0 = Some b"
    "packSockaddr4_linux msk 0 = Some c"
    using pack by (simp_all only: a_def b_def c_def)
  let ?z = "\<lambda>n. replicate n (0 :: byte)"
  let ?q = "?z 8 @ a @ b @ c @ [3, 0] @ ?z 62"
  have z: "replicate 120 (0 :: byte) = ?z 8 @ ?z 112" by (simp flip: replicate_add)
  have "copy_slice (?z 120) 8 120 a = Some (?z 8 @ a @ ?z 96)"
    using abc by (simp add: copy_list_def)
  moreover have "copy_slice (?z 8 @ a @ ?z 96) 24 120 b = Some (?z 8 @ a @ b @ ?z 80)"
    using abc by (simp add: copy_list_def)
  moreover have "copy_slice (?z 8 @ a @ b @ ?z 80) 40 120 c = Some (?z 8 @ a @ b @ c @ ?z 64)"
    using abc by (simp add: copy_list_def)
  moreover have "copy_slice (?z 8 @ a @ b @ c @ ?z 64) 56 58 (le16 3) = Some ?q"
    using abc by (simp add: copy_list_def le16_def lo8_def hi8_def)
  ultimately have "add_route_request destination gateway msk = Some ?q"
    using abc by (simp add: add_route_request_def pack del: copy_slice_Some)
  moreover have "map unpackSockaddr4 [take 16 (drop 8 ?q), take 16 (drop 24 ?q), take 16 (drop 40 ?q)] =
      [Some (d, 0), Some (g, 0), Some (msk, 0)]"
    using abc unpack len assms(3) by (simp add: a_def b_def c_def)
  moreover have "get_le16 (drop 56 ?q) = 3" using abc by (simp add: get_le16_def be16_def)
  moreover have "\<forall>b \<in> set (take 8 ?q @ drop 58 ?q). b = 0" using abc by simp
  ultimately show ?thesis using abc by (intro exI [of _ ?q]) simp
qed

theorem route_request_layout_witness:
  "\<exists>q. add_route_request [10, 0, 0, 0] [10, 0, 0, 1] [255, 0, 0, 0] = Some q \<and> length q = 120"
  using route_request_layout [of "[10, 0, 0, 0]" "[10, 0, 0, 0]" "[10, 0, 0, 1]" "[10, 0, 0, 1]" "[255, 0, 0, 0]"]
  by auto

end
