(* ===== verification/Tunnel_FD.thy ===== *)
theory Tunnel_FD
  imports Go_Prelude
begin

text \<open>
  The shared file descriptor of a tunnel (\<open>tunnet/utun_posix.go\<close>: \<open>fdTunnelBase\<close>).  Calls of many
  goroutines run at the same time; \<open>operate\<close> counts them, and the last one that leaves after
  \<open>Close\<close> closes the descriptor.  A step of the model is what one goroutine does while it holds
  \<open>refLock\<close>, or one system call.
\<close>

section \<open>The reference count\<close>

record fdTunnelBase =
  fd_name :: bytes
  fd_refCount :: int
  fd_closed :: bool

definition new_fdTunnelBase :: "bytes \<Rightarrow> fdTunnelBase" where
  "new_fdTunnelBase name = \<lparr>fd_name = name, fd_refCount = 0, fd_closed = False\<rparr>"

text \<open>The beginning of \<open>operate\<close>: \<open>None\<close> is \<open>os.ErrClosed\<close>.\<close>

definition operate_enter :: "fdTunnelBase \<Rightarrow> fdTunnelBase option" where
  "operate_enter f = (if fd_closed f then None else Some (f\<lparr>fd_refCount := fd_refCount f + 1\<rparr>))"

text \<open>Its deferred function; the second result says whether it closes the descriptor.\<close>

definition operate_leave :: "fdTunnelBase \<Rightarrow> fdTunnelBase \<times> bool" where
  "operate_leave f = (
     let f = f\<lparr>fd_refCount := fd_refCount f - 1\<rparr>
     in (f, fd_closed f \<and> fd_refCount f = 0))"

definition mark_closed :: "fdTunnelBase \<Rightarrow> fdTunnelBase" where
  "mark_closed f = f\<lparr>fd_closed := True\<rparr>"

section \<open>Goroutines\<close>

text \<open>Where a goroutine is: in the function of an ordinary call, in \<open>Close\<close> before and behind its
  \<open>Shutdown\<close>, and behind the function.  \<open>fs_calls\<close> are the system calls on the descriptor, in
  their order, and \<open>fs_rejected\<close> counts the calls that got \<open>os.ErrClosed\<close>.\<close>

datatype phase = Working | BeforeShutdown | BeforeMark | Leaving

datatype fd_call = UseFd | ShutdownFd | CloseFd

record fd_sys =
  fs_base :: fdTunnelBase
  fs_threads :: "phase list"
  fs_calls :: "fd_call list"
  fs_rejected :: nat

definition fd_start :: "bytes \<Rightarrow> fd_sys" where
  "fd_start name = \<lparr>fs_base = new_fdTunnelBase name, fs_threads = [], fs_calls = [], fs_rejected = 0\<rparr>"

definition enter :: "phase \<Rightarrow> fd_sys \<Rightarrow> fd_sys" where
  "enter ph s = (case operate_enter (fs_base s) of
       None \<Rightarrow> s\<lparr>fs_rejected := fs_rejected s + 1\<rparr>
     | Some f \<Rightarrow> s\<lparr>fs_base := f, fs_threads := fs_threads s @ [ph]\<rparr>)"

definition leave :: "nat \<Rightarrow> fd_sys \<Rightarrow> fd_sys" where
  "leave i s = (
     let (f, closes) = operate_leave (fs_base s)
     in s\<lparr>fs_base := f, fs_threads := take i (fs_threads s) @ drop (Suc i) (fs_threads s),
          fs_calls := fs_calls s @ (if closes then [CloseFd] else [])\<rparr>)"

text \<open>\<open>started\<close>: a call of an operation (\<open>Working\<close>) or of \<open>Close\<close>.\<close>

inductive fd_step :: "fd_sys \<Rightarrow> fd_sys \<Rightarrow> bool" where
  started: "ph = Working \<or> ph = BeforeShutdown \<Longrightarrow> fd_step s (enter ph s)"
| used: "i < length (fs_threads s) \<Longrightarrow> fs_threads s ! i = Working \<Longrightarrow>
     fd_step s (s\<lparr>fs_calls := fs_calls s @ [UseFd]\<rparr>)"
| finished: "i < length (fs_threads s) \<Longrightarrow> fs_threads s ! i = Working \<Longrightarrow>
     fd_step s (s\<lparr>fs_threads := (fs_threads s)[i := Leaving]\<rparr>)"
| shut_down: "i < length (fs_threads s) \<Longrightarrow> fs_threads s ! i = BeforeShutdown \<Longrightarrow>
     fd_step s (s\<lparr>fs_threads := (fs_threads s)[i := BeforeMark], fs_calls := fs_calls s @ [ShutdownFd]\<rparr>)"
| marked: "i < length (fs_threads s) \<Longrightarrow> fs_threads s ! i = BeforeMark \<Longrightarrow>
     fd_step s (s\<lparr>fs_threads := (fs_threads s)[i := Leaving], fs_base := mark_closed (fs_base s)\<rparr>)"
| left: "i < length (fs_threads s) \<Longrightarrow> fs_threads s ! i = Leaving \<Longrightarrow> fd_step s (leave i s)"

inductive fd_reach :: "bytes \<Rightarrow> fd_sys \<Rightarrow> bool" for name where
  fd_reach_start: "fd_reach name (fd_start name)"
| fd_reach_step: "fd_reach name s \<Longrightarrow> fd_step s t \<Longrightarrow> fd_reach name t"

section \<open>The invariant\<close>

definition fd_inv :: "fd_sys \<Rightarrow> bool" where
  "fd_inv s \<longleftrightarrow>
     fd_refCount (fs_base s) = int (length (fs_threads s)) \<and>
     (\<exists>cs. CloseFd \<notin> set cs \<and> fs_calls s = cs @ (if fd_closed (fs_base s) \<and> fs_threads s = [] then [CloseFd] else []))"

lemma fd_inv_start: "fd_inv (fd_start name)"
  by (simp add: fd_inv_def fd_start_def new_fdTunnelBase_def)

lemma fd_inv_step:
  assumes "fd_step s t" and "fd_inv s"
  shows "fd_inv t"
  using assms
proof cases
  case (started ph)
  then show ?thesis using assms(2)
    by (auto simp: fd_inv_def enter_def operate_enter_def)
next
  case (left i)
  have "length (take i (fs_threads s) @ drop (Suc i) (fs_threads s)) = length (fs_threads s) - 1"
    "fs_threads s \<noteq> []"
    using left(2) by auto
  moreover have "take i (fs_threads s) @ drop (Suc i) (fs_threads s) = [] \<longleftrightarrow> length (fs_threads s) = 1"
    using left(2) by (cases "fs_threads s") auto
  ultimately show ?thesis using assms(2) left(1,2)
    by (auto simp: fd_inv_def leave_def operate_leave_def Let_def)
qed (auto simp: fd_inv_def mark_closed_def split: if_splits)

lemma fd_reach_inv: "fd_reach name s \<Longrightarrow> fd_inv s"
  by (induction rule: fd_reach.induct) (auto intro: fd_inv_start fd_inv_step)

text \<open>Once the tunnel is marked closed it stays so, and no call comes in.\<close>

lemma closed_stays: "fd_step s t \<Longrightarrow> fd_closed (fs_base s) \<Longrightarrow> fd_closed (fs_base t)"
  by (cases rule: fd_step.cases)
    (auto simp: enter_def operate_enter_def leave_def operate_leave_def mark_closed_def Let_def)

section \<open>Leaving\<close>

text \<open>How many steps the goroutines still have to make, the system calls of ordinary calls aside.\<close>

fun steps_left :: "phase \<Rightarrow> nat" where
  "steps_left BeforeShutdown = 3"
| "steps_left BeforeMark = 2"
| "steps_left Working = 2"
| "steps_left Leaving = 1"

definition remaining_steps :: "fd_sys \<Rightarrow> nat" where
  "remaining_steps s = sum_list (map steps_left (fs_threads s))"

lemma sum_list_advance:
  assumes "i < length ts" and "steps_left q < steps_left (ts ! i)"
  shows "sum_list (map steps_left (ts[i := q])) < sum_list (map steps_left ts)"
proof -
  have "ts = take i ts @ ts ! i # drop (Suc i) ts" using assms(1) by (simp add: id_take_nth_drop)
  then have "sum_list (map steps_left ts) =
      sum_list (map steps_left (take i ts)) + steps_left (ts ! i) + sum_list (map steps_left (drop (Suc i) ts))"
    by (metis (no_types) add.assoc list.simps(9) map_append sum_list.Cons sum_list_append)
  then show ?thesis using assms by (simp add: upd_conv_take_nth_drop)
qed

lemma sum_list_leave:
  assumes "i < length ts"
  shows "sum_list (map steps_left (take i ts @ drop (Suc i) ts)) < sum_list (map steps_left ts)"
proof -
  have "sum_list (map steps_left (ts[i := Leaving])) =
      sum_list (map steps_left (take i ts)) + 1 + sum_list (map steps_left (drop (Suc i) ts))"
    using assms by (simp add: upd_conv_take_nth_drop)
  moreover have "sum_list (map steps_left (ts[i := Leaving])) \<le> sum_list (map steps_left ts)"
    using sum_list_advance [OF assms, of Leaving]
    by (cases "ts ! i") (auto simp: list_update_same_conv [OF assms, THEN iffD2])
  ultimately show ?thesis by simp
qed

lemma closed_step_remaining:
  assumes "fd_step s t" and "fd_closed (fs_base s)"
  shows "remaining_steps t < remaining_steps s \<or>
    fs_threads t = fs_threads s \<and> fs_base t = fs_base s"
  using assms
proof cases
  case (left i)
  then show ?thesis using sum_list_leave [OF left(2)]
    by (simp add: leave_def operate_leave_def Let_def remaining_steps_def)
qed (auto simp: enter_def operate_enter_def remaining_steps_def mark_closed_def intro!: sum_list_advance)

lemma closed_can_step:
  assumes "fd_closed (fs_base s)" and "fs_threads s \<noteq> []"
  shows "\<exists>t. fd_step s t \<and> remaining_steps t < remaining_steps s \<and> fd_closed (fs_base t)"
proof -
  have i: "0 < length (fs_threads s)" using assms(2) by simp
  have "\<exists>t. fd_step s t \<and> fs_threads t \<noteq> fs_threads s"
  proof (cases "fs_threads s ! 0")
    case Working
    have "(fs_threads s)[0 := Leaving] \<noteq> fs_threads s" using i Working by (metis nth_list_update_eq phase.distinct(5))
    then show ?thesis using finished [OF i Working] by (intro exI conjI) (assumption, simp)
  next
    case BeforeShutdown
    have "(fs_threads s)[0 := BeforeMark] \<noteq> fs_threads s"
      using i BeforeShutdown by (metis nth_list_update_eq phase.distinct(7))
    then show ?thesis using shut_down [OF i BeforeShutdown] by (intro exI conjI) (assumption, simp)
  next
    case BeforeMark
    have "(fs_threads s)[0 := Leaving] \<noteq> fs_threads s" using i BeforeMark by (metis nth_list_update_eq phase.distinct(11))
    then show ?thesis using marked [OF i BeforeMark] by (intro exI conjI) (assumption, simp)
  next
    case Leaving
    have "length (fs_threads (leave 0 s)) \<noteq> length (fs_threads s)"
      using i by (cases "fs_threads s") (simp_all add: leave_def operate_leave_def Let_def)
    then show ?thesis using left [OF i Leaving] by (intro exI [of _ "leave 0 s"]) auto
  qed
  then obtain t where t: "fd_step s t" "fs_threads t \<noteq> fs_threads s" by blast
  then show ?thesis using closed_step_remaining [OF t(1) assms(1)] closed_stays [OF t(1) assms(1)] by blast
qed

lemma closed_drains:
  "fd_closed (fs_base s) \<Longrightarrow> \<exists>t. fd_step\<^sup>*\<^sup>* s t \<and> fs_threads t = [] \<and> fd_closed (fs_base t)"
proof (induction "remaining_steps s" arbitrary: s rule: less_induct)
  case less
  show ?case
  proof (cases "fs_threads s = []")
    case True
    then show ?thesis using less.prems by blast
  next
    case False
    then obtain t where "fd_step s t" "remaining_steps t < remaining_steps s" "fd_closed (fs_base t)"
      using closed_can_step less.prems by blast
    then show ?thesis using less.hyps by (meson converse_rtranclp_into_rtranclp)
  qed
qed

lemma fd_reach_steps: "fd_step\<^sup>*\<^sup>* s t \<Longrightarrow> fd_reach name s \<Longrightarrow> fd_reach name t"
  by (induction rule: rtranclp_induct) (auto intro: fd_reach_step)

section \<open>Properties\<close>

text \<open>C27: The descriptor is never used after it was closed, and closed at most once: however calls of
  operations and of \<open>Close\<close> overlap, \<open>refCount\<close> is the number of goroutines inside \<open>operate\<close>, and
  \<open>close(fd)\<close> is the last system call and has happened exactly when the tunnel is marked closed
  and all of them have left.\<close>

theorem fd_lifecycle:
  assumes "fd_reach name s"
  shows "fd_refCount (fs_base s) = int (length (fs_threads s)) \<and>
    (\<exists>cs. CloseFd \<notin> set cs \<and>
       fs_calls s = cs @ (if fd_closed (fs_base s) \<and> fs_threads s = [] then [CloseFd] else []))"
  using fd_reach_inv [OF assms] by (simp add: fd_inv_def)

text \<open>Two calls of \<open>Close\<close> at the same time.\<close>

definition two_closers :: fd_sys where
  "two_closers = \<lparr>fs_base = \<lparr>fd_name = [], fd_refCount = 0, fd_closed = True\<rparr>, fs_threads = [],
     fs_calls = [ShutdownFd, ShutdownFd, CloseFd], fs_rejected = 0\<rparr>"

lemma two_closers_reach: "fd_reach [] two_closers"
proof -
  let ?s = "\<lambda>n c ts cs. \<lparr>fs_base = \<lparr>fd_name = [], fd_refCount = n, fd_closed = c\<rparr>, fs_threads = ts,
     fs_calls = cs, fs_rejected = 0\<rparr>"
  have 0: "fd_reach [] (?s 0 False [] [])"
    using fd_reach_start [of "[]"] by (simp add: fd_start_def new_fdTunnelBase_def)
  have 1: "fd_reach [] (?s 1 False [BeforeShutdown] [])"
    using fd_reach_step [OF 0 started [of BeforeShutdown]] by (simp add: enter_def operate_enter_def)
  have 2: "fd_reach [] (?s 2 False [BeforeShutdown, BeforeShutdown] [])"
    using fd_reach_step [OF 1 started [of BeforeShutdown]] by (simp add: enter_def operate_enter_def)
  have 3: "fd_reach [] (?s 2 False [BeforeMark, BeforeShutdown] [ShutdownFd])"
    using fd_reach_step [OF 2 shut_down [of 0]] by simp
  have 4: "fd_reach [] (?s 2 False [BeforeMark, BeforeMark] [ShutdownFd, ShutdownFd])"
    using fd_reach_step [OF 3 shut_down [of 1]] by simp
  have 5: "fd_reach [] (?s 2 True [Leaving, BeforeMark] [ShutdownFd, ShutdownFd])"
    using fd_reach_step [OF 4 marked [of 0]] by (simp add: mark_closed_def)
  have 6: "fd_reach [] (?s 1 True [BeforeMark] [ShutdownFd, ShutdownFd])"
    using fd_reach_step [OF 5 left [of 0]] by (simp add: leave_def operate_leave_def)
  have 7: "fd_reach [] (?s 1 True [Leaving] [ShutdownFd, ShutdownFd])"
    using fd_reach_step [OF 6 marked [of 0]] by (simp add: mark_closed_def)
  show ?thesis
    using fd_reach_step [OF 7 left [of 0]] by (simp add: leave_def operate_leave_def two_closers_def)
qed

theorem fd_lifecycle_witness:
  "fd_refCount (fs_base two_closers) = 0 \<and>
     (\<exists>cs. CloseFd \<notin> set cs \<and> fs_calls two_closers = cs @ [CloseFd])"
  using fd_lifecycle [OF two_closers_reach] by (simp add: two_closers_def)

text \<open>C28: A closed tunnel comes to its end: once it is marked closed no call gets in, every step of
  the goroutines inside but their system calls brings them nearer to the end, and when they are
  out the descriptor is closed.\<close>

theorem fd_gets_closed:
  assumes "fd_reach name s" and "fd_closed (fs_base s)"
  shows "(\<forall>t. fd_step s t \<longrightarrow> fd_closed (fs_base t) \<and>
      (remaining_steps t < remaining_steps s \<or> fs_threads t = fs_threads s \<and> fs_base t = fs_base s)) \<and>
    (\<exists>t. fd_step\<^sup>*\<^sup>* s t \<and> fs_threads t = [] \<and> last (fs_calls t) = CloseFd)"
proof -
  obtain t where t: "fd_step\<^sup>*\<^sup>* s t" "fs_threads t = []" "fd_closed (fs_base t)"
    using closed_drains [OF assms(2)] by blast
  have "last (fs_calls t) = CloseFd"
    using fd_reach_inv [OF fd_reach_steps [OF t(1) assms(1)]] t(2,3) by (auto simp: fd_inv_def)
  then show ?thesis using t closed_step_remaining closed_stays assms(2) by blast
qed

theorem fd_gets_closed_witness: "\<exists>t. fd_step\<^sup>*\<^sup>* two_closers t \<and> last (fs_calls t) = CloseFd"
  using fd_gets_closed [OF two_closers_reach] by (auto simp: two_closers_def)

end
