(* ===== verification/Tunnel_Sys.thy ===== *)
theory Tunnel_Sys
  imports Tunnel_Wire Tunnel_FD
begin

text \<open>
  The operations of the tunnels (\<open>tunnet/utun_posix.go\<close>, \<open>utun_linux.go\<close>, \<open>utun_darwin.go\<close>) and of the
  routing table (\<open>route_linux.go\<close>, \<open>route_darwin.go\<close>), as sequences of system calls.  The kernel is a
  parameter: a record of functions on a state \<open>'w\<close> of which nothing is known but what a
  hypothesis says.
\<close>

section \<open>The kernel\<close>

text \<open>A call returns an error number or its value; \<open>ioctl\<close>, \<open>getsockopt\<close> and \<open>connect\<close> return 0 for
  success.  \<open>k_ioctl\<close> and \<open>k_getsockopt\<close> return the memory that they were given a pointer to.\<close>

record 'w kernel =
  k_socket :: "int \<Rightarrow> int \<Rightarrow> int \<Rightarrow> 'w \<Rightarrow> 'w \<times> (nat + nat)"
  k_open :: "string \<Rightarrow> 'w \<Rightarrow> 'w \<times> (nat + nat)"
  k_close :: "nat \<Rightarrow> 'w \<Rightarrow> 'w"
  k_shutdown :: "nat \<Rightarrow> 'w \<Rightarrow> 'w \<times> nat"
  k_ioctl :: "nat \<Rightarrow> int \<Rightarrow> bytes \<Rightarrow> 'w \<Rightarrow> 'w \<times> bytes \<times> nat"
  k_getsockopt :: "nat \<Rightarrow> int \<Rightarrow> int \<Rightarrow> bytes \<Rightarrow> 'w \<Rightarrow> 'w \<times> bytes \<times> nat \<times> nat"
  k_connect :: "nat \<Rightarrow> bytes \<Rightarrow> 'w \<Rightarrow> 'w \<times> nat"
  k_read :: "nat \<Rightarrow> nat \<Rightarrow> 'w \<Rightarrow> 'w \<times> (nat + bytes)"
  k_write :: "nat \<Rightarrow> bytes \<Rightarrow> 'w \<Rightarrow> 'w \<times> (nat + nat)"

datatype os = Linux | Darwin

datatype tun_error = OsErrClosed | Errno nat | OnlyIPv4 | UnexpectedWriteSize

definition errno_result :: "nat \<Rightarrow> tun_error + unit" where
  "errno_result e = (if e = 0 then Inr () else Inl (Errno e))"

text \<open>The request numbers.  The \<open>i\<close>-th address is the local one, the destination, the mask.\<close>

definition SIOCGIFMTU :: "os \<Rightarrow> int" where
  "SIOCGIFMTU os = (case os of Linux \<Rightarrow> 0x8921 | Darwin \<Rightarrow> 0xc0206933)"

definition SIOCSIFMTU :: "os \<Rightarrow> int" where
  "SIOCSIFMTU os = (case os of Linux \<Rightarrow> 0x8922 | Darwin \<Rightarrow> 0x80206934)"

definition get_addr_ioctls :: "os \<Rightarrow> int list" where
  "get_addr_ioctls os =
     (case os of Linux \<Rightarrow> [0x8915, 0x8917, 0x891b] | Darwin \<Rightarrow> [0xc0206921, 0xc0206922, 0xc0206925])"

definition set_addr_ioctls :: "int list" where
  "set_addr_ioctls = [0x8916, 0x8918, 0x891c]"

section \<open>The shared descriptor\<close>

record tunnel =
  tf_fd :: nat
  tf_base :: fdTunnelBase

text \<open>\<open>operate\<close>, of which \<open>Tunnel_FD\<close> shows what happens when calls overlap.\<close>

definition operate ::
  "'w kernel \<Rightarrow> tunnel \<Rightarrow> (fdTunnelBase \<Rightarrow> 'w \<Rightarrow> ('w \<times> fdTunnelBase \<times> (tun_error + 'a)) go) \<Rightarrow> 'w \<Rightarrow>
     ('w \<times> tunnel \<times> (tun_error + 'a)) go" where
  "operate k t fu w =
     (case operate_enter (tf_base t) of
        None \<Rightarrow> Some (w, t, Inl OsErrClosed)
      | Some f \<Rightarrow> do {
          (w, f, r) \<leftarrow> fu f w;
          let (f, closes) = operate_leave f;
          let w = (if closes then k_close k (tf_fd t) w else w);
          Some (w, t\<lparr>tf_base := f\<rparr>, r)
        })"

definition fd_Close :: "'w kernel \<Rightarrow> tunnel \<Rightarrow> 'w \<Rightarrow> ('w \<times> tunnel \<times> (tun_error + unit)) go" where
  "fd_Close k t w = operate k t (\<lambda>f w.
     let (w, e) = k_shutdown k (tf_fd t) w in Some (w, mark_closed f, errno_result e)) w"

section \<open>Interface requests\<close>

text \<open>The second result is the request data, which the call writes back.\<close>

definition ifreqIOCTL_linux ::
  "'w kernel \<Rightarrow> bytes \<Rightarrow> int \<Rightarrow> bytes \<Rightarrow> 'w \<Rightarrow> ('w \<times> bytes \<times> (tun_error + unit)) go" where
  "ifreqIOCTL_linux k name ioctl reqData w =
     (case k_socket k 2 2 0 w of
        (w, Inl err) \<Rightarrow> Some (w, reqData, Inl (Errno err))
      | (w, Inr sock) \<Rightarrow> do {
          let ifreq = copy_list (replicate 40 0) name;
          ifreq \<leftarrow> copy_slice ifreq 16 (length ifreq) reqData;
          let (w, ifreq, sysErr) = k_ioctl k sock ioctl ifreq w;
          back \<leftarrow> slice_from ifreq 16;
          let reqData = copy_list reqData back;
          Some (k_close k sock w, reqData, errno_result sysErr)
        })"

definition ifreqIOCTL_darwin ::
  "'w kernel \<Rightarrow> bytes \<Rightarrow> int \<Rightarrow> bytes \<Rightarrow> 'w \<Rightarrow> ('w \<times> bytes \<times> (tun_error + unit)) go" where
  "ifreqIOCTL_darwin k name ioctl reqData w =
     (case k_socket k 2 2 0 w of
        (w, Inl err) \<Rightarrow> Some (w, reqData, Inl (Errno err))
      | (w, Inr sock) \<Rightarrow> do {
          let ifreq = replicate (if length reqData > 16 then 16 + length reqData else 32) 0;
          ifreq \<leftarrow> copy_slice ifreq 0 16 name;
          ifreq \<leftarrow> copy_slice ifreq 16 (length ifreq) reqData;
          let (w, ifreq, sysErr) = k_ioctl k sock ioctl ifreq w;
          back \<leftarrow> slice_from ifreq 16;
          let reqData = copy_list reqData back;
          Some (k_close k sock w, reqData, errno_result sysErr)
        })"

definition ifreqIOCTL ::
  "os \<Rightarrow> 'w kernel \<Rightarrow> bytes \<Rightarrow> int \<Rightarrow> bytes \<Rightarrow> 'w \<Rightarrow> ('w \<times> bytes \<times> (tun_error + unit)) go" where
  "ifreqIOCTL os = (case os of Linux \<Rightarrow> ifreqIOCTL_linux | Darwin \<Rightarrow> ifreqIOCTL_darwin)"

definition packSockaddr4 :: "os \<Rightarrow> bytes \<Rightarrow> int \<Rightarrow> bytes go" where
  "packSockaddr4 os = (case os of Linux \<Rightarrow> packSockaddr4_linux | Darwin \<Rightarrow> packSockaddr4_darwin)"

definition posix_MTU :: "os \<Rightarrow> 'w kernel \<Rightarrow> tunnel \<Rightarrow> 'w \<Rightarrow> ('w \<times> tunnel \<times> (tun_error + int)) go" where
  "posix_MTU os k p w = operate k p (\<lambda>f w. do {
     (w, buf, r) \<leftarrow> ifreqIOCTL os k (fd_name f) (SIOCGIFMTU os) (replicate 4 0) w;
     Some (w, f, case r of Inl err \<Rightarrow> Inl err | Inr _ \<Rightarrow> Inr (uint (get_le32 buf)))
   }) w"

definition posix_SetMTU :: "os \<Rightarrow> 'w kernel \<Rightarrow> tunnel \<Rightarrow> int \<Rightarrow> 'w \<Rightarrow> ('w \<times> tunnel \<times> (tun_error + unit)) go" where
  "posix_SetMTU os k p mtu w = operate k p (\<lambda>f w. do {
     (w, buf, r) \<leftarrow> ifreqIOCTL os k (fd_name f) (SIOCSIFMTU os) (le32 (word_of_int mtu)) w;
     Some (w, f, r)
   }) w"

text \<open>\<open>net.IPv4zero\<close> has 16 bytes.\<close>

definition IPv4zero :: bytes where
  "IPv4zero = replicate 10 0 @ [255, 255, 0, 0, 0, 0]"

lemma To4_IPv4zero [simp]: "To4 IPv4zero = Some [0, 0, 0, 0]"
  by code_simp

text \<open>\<open>Addresses\<close>: the addresses that the requests return, up to the first error.\<close>

fun get_addresses ::
  "os \<Rightarrow> 'w kernel \<Rightarrow> bytes \<Rightarrow> int list \<Rightarrow> 'w \<Rightarrow> ('w \<times> (tun_error + bytes list)) go" where
  "get_addresses os k name [] w = Some (w, Inr [])"
| "get_addresses os k name (ioctl # ioctls) w = do {
     sockaddrOut \<leftarrow> packSockaddr4 os IPv4zero 0;
     (w, sockaddrOut, r) \<leftarrow> ifreqIOCTL os k name ioctl sockaddrOut w;
     case r of
       Inl err \<Rightarrow> Some (w, Inl err)
     | Inr _ \<Rightarrow> do {
         (ip, port) \<leftarrow> unpackSockaddr4 sockaddrOut;
         (w, r) \<leftarrow> get_addresses os k name ioctls w;
         Some (w, case r of Inl err \<Rightarrow> Inl err | Inr ips \<Rightarrow> Inr (ip # ips))
       }
   }"

definition posix_Addresses ::
  "os \<Rightarrow> 'w kernel \<Rightarrow> tunnel \<Rightarrow> 'w \<Rightarrow> ('w \<times> tunnel \<times> (tun_error + bytes list)) go" where
  "posix_Addresses os k p w = operate k p (\<lambda>f w. do {
     (w, r) \<leftarrow> get_addresses os k (fd_name f) (get_addr_ioctls os) w;
     Some (w, f, r)
   }) w"

text \<open>\<open>SetAddresses\<close>, on Linux one request for each address.\<close>

fun set_addresses ::
  "'w kernel \<Rightarrow> bytes \<Rightarrow> (int \<times> bytes) list \<Rightarrow> 'w \<Rightarrow> ('w \<times> (tun_error + unit)) go" where
  "set_addresses k name [] w = Some (w, Inr ())"
| "set_addresses k name ((ioctl, addr) # as) w = do {
     sockaddr \<leftarrow> packSockaddr4_linux addr 0;
     (w, sockaddr, r) \<leftarrow> ifreqIOCTL_linux k name ioctl sockaddr w;
     case r of Inl err \<Rightarrow> Some (w, Inl err) | Inr _ \<Rightarrow> set_addresses k name as w
   }"

definition SetAddresses_linux ::
  "'w kernel \<Rightarrow> tunnel \<Rightarrow> bytes \<Rightarrow> bytes \<Rightarrow> bytes \<Rightarrow> 'w \<Rightarrow> ('w \<times> tunnel \<times> (tun_error + unit)) go" where
  "SetAddresses_linux k t local dest msk w = operate k t (\<lambda>f w.
     if To4 local = None \<or> To4 dest = None \<or> length msk \<noteq> 4 then Some (w, f, Inl OnlyIPv4)
     else do {
       (w, r) \<leftarrow> set_addresses k (fd_name f) (zip set_addr_ioctls [local, dest, msk]) w;
       Some (w, f, r)
     }) w"

definition SetAddresses_darwin ::
  "'w kernel \<Rightarrow> tunnel \<Rightarrow> bytes \<Rightarrow> bytes \<Rightarrow> bytes \<Rightarrow> 'w \<Rightarrow> ('w \<times> tunnel \<times> (tun_error + unit)) go" where
  "SetAddresses_darwin k u local dest msk w = operate k u (\<lambda>f w.
     if To4 local = None \<or> To4 dest = None \<or> length msk \<noteq> 4 then Some (w, f, Inl OnlyIPv4)
     else do {
       (w, buf, r) \<leftarrow> ifreqIOCTL_darwin k (fd_name f) 0x80206919 (replicate (16 * 3) 0) w;
       l \<leftarrow> packSockaddr4_darwin local 0;
       d \<leftarrow> packSockaddr4_darwin dest 0;
       m \<leftarrow> packSockaddr4_darwin msk 0;
       (w, buf, r) \<leftarrow> ifreqIOCTL_darwin k (fd_name f) 0x8040691a (l @ d @ m) w;
       Some (w, f, r)
     }) w"

section \<open>Packets\<close>

text \<open>The loop of \<open>ReadPacket\<close>, which goes on as long as the read is interrupted (\<open>EINTR\<close>, 4).  The
  packets of Darwin have a header of four bytes.\<close>

partial_function (option) read_loop ::
  "'w kernel \<Rightarrow> nat \<Rightarrow> 'w \<Rightarrow> ('w \<times> (tun_error + bytes)) option" where
  "read_loop k fd w =
     (case k_read k fd 65536 w of
        (w, Inr data) \<Rightarrow> Some (w, Inr data)
      | (w, Inl err) \<Rightarrow> if err \<noteq> 4 then Some (w, Inl (Errno err)) else read_loop k fd w)"

definition ReadPacket_linux :: "'w kernel \<Rightarrow> tunnel \<Rightarrow> 'w \<Rightarrow> ('w \<times> tunnel \<times> (tun_error + bytes)) go" where
  "ReadPacket_linux k t w = operate k t (\<lambda>f w. do {
     (w, r) \<leftarrow> read_loop k (tf_fd t) w;
     Some (w, f, r)
   }) w"

definition ReadPacket_darwin :: "'w kernel \<Rightarrow> tunnel \<Rightarrow> 'w \<Rightarrow> ('w \<times> tunnel \<times> (tun_error + bytes)) go" where
  "ReadPacket_darwin k u w = operate k u (\<lambda>f w. do {
     (w, r) \<leftarrow> read_loop k (tf_fd u) w;
     case r of
       Inl err \<Rightarrow> Some (w, f, Inl err)
     | Inr data \<Rightarrow> do { packet \<leftarrow> slice_from data 4; Some (w, f, Inr packet) }
   }) w"

definition write_result :: "'w \<times> (nat + nat) \<Rightarrow> 'w \<times> (tun_error + unit)" where
  "write_result wr = (fst wr, case snd wr of Inl err \<Rightarrow> Inl (Errno err) | Inr n \<Rightarrow> Inr ())"

definition WritePacket_linux ::
  "'w kernel \<Rightarrow> tunnel \<Rightarrow> bytes \<Rightarrow> 'w \<Rightarrow> ('w \<times> tunnel \<times> (tun_error + unit)) go" where
  "WritePacket_linux k t buffer w = operate k t (\<lambda>f w.
     let (w, r) = write_result (k_write k (tf_fd t) buffer w) in Some (w, f, r)) w"

definition WritePacket_darwin ::
  "'w kernel \<Rightarrow> tunnel \<Rightarrow> bytes \<Rightarrow> 'w \<Rightarrow> ('w \<times> tunnel \<times> (tun_error + unit)) go" where
  "WritePacket_darwin k u buffer w = operate k u (\<lambda>f w.
     let (w, r) = write_result (k_write k (tf_fd u) ([0, 0, 0, 2] @ buffer) w) in Some (w, f, r)) w"

section \<open>Opening a tunnel\<close>

text \<open>The name that the kernel wrote: up to the first zero of 16 bytes.\<close>

definition tun_name :: "bytes \<Rightarrow> bytes" where
  "tun_name ifreq = takeWhile (\<lambda>x. x \<noteq> 0) (take 16 ifreq)"

definition openTunFile :: "'w kernel \<Rightarrow> 'w \<Rightarrow> ('w \<times> (tun_error + tunnel)) go" where
  "openTunFile k w =
     (case k_open k ''/dev/net/tun'' w of
        (w, Inl err) \<Rightarrow> Some (w, Inl (Errno err))
      | (w, Inr fd) \<Rightarrow> do {
          ifreq \<leftarrow> copy_slice (replicate 40 0) 16 18 (le16 0x1001);
          let (w, ifreq, sysErr) = k_ioctl k fd 0x400454ca ifreq w;
          if sysErr \<noteq> 0 then Some (k_close k fd w, Inl (Errno sysErr))
          else do {
            let (w, unused, sysErr) = k_ioctl k fd 0x400454cb [] w;
            if sysErr \<noteq> 0 then Some (k_close k fd w, Inl (Errno sysErr))
            else do {
              let res = \<lparr>tf_fd = fd, tf_base = new_fdTunnelBase (tun_name ifreq)\<rparr>;
              (w, flags, r) \<leftarrow> ifreqIOCTL_linux k (tun_name ifreq) 0x8913 [0, 0] w;
              case r of
                Inl err \<Rightarrow> Some (k_close k fd w, Inl err)
              | Inr _ \<Rightarrow> do {
                  f0 \<leftarrow> idx flags 0;
                  f1 \<leftarrow> idx flags 1;
                  let newFlags = le16 1;
                  (w, flags, r) \<leftarrow> ifreqIOCTL_linux k (tun_name ifreq) 0x8914
                    [f0 OR newFlags ! 0, f1 OR newFlags ! 1] w;
                  case r of
                    Inl err \<Rightarrow> Some (k_close k fd w, Inl err)
                  | Inr _ \<Rightarrow> Some (w, Inr res)
                }
            }
          }
        })"

definition getControlID :: "'w kernel \<Rightarrow> nat \<Rightarrow> 'w \<Rightarrow> ('w \<times> (tun_error + bytes)) go" where
  "getControlID k fd w = do {
     ctlInfo \<leftarrow> copy_slice (replicate 128 0) 4 128 (map of_char ''com.apple.net.utun_control'');
     let (w, ctlInfo, sysErr) = k_ioctl k fd 0xc0644e03 ctlInfo w;
     if sysErr \<noteq> 0 then Some (w, Inl (Errno sysErr))
     else do { ctl \<leftarrow> slice ctlInfo 0 4; Some (w, Inr ctl) }
   }"

definition connectToControl :: "'w kernel \<Rightarrow> nat \<Rightarrow> bytes \<Rightarrow> 'w \<Rightarrow> ('w \<times> (tun_error + unit)) go" where
  "connectToControl k fd controlID w = do {
     addrData \<leftarrow> copy_slice ([32, 32, 2] @ replicate 29 0) 4 32 controlID;
     let (w, sysErr) = k_connect k fd addrData w;
     Some (w, errno_result sysErr)
   }"

text \<open>The deferred function of \<open>openUtunSocket\<close> closes the socket when there is an error.\<close>

definition close_on_error :: "'w kernel \<Rightarrow> nat \<Rightarrow> 'w \<times> (tun_error + 'a) \<Rightarrow> 'w \<times> (tun_error + 'a)" where
  "close_on_error k fd wr = (case snd wr of Inl err \<Rightarrow> (k_close k fd (fst wr), Inl err) | Inr x \<Rightarrow> wr)"

definition openUtunSocket :: "'w kernel \<Rightarrow> 'w \<Rightarrow> ('w \<times> (tun_error + tunnel)) go" where
  "openUtunSocket k w =
     (case k_socket k 32 2 2 w of
        (w, Inl err) \<Rightarrow> Some (w, Inl (Errno err))
      | (w, Inr fd) \<Rightarrow> map_option (close_on_error k fd) (do {
          (w, r) \<leftarrow> getControlID k fd w;
          case r of
            Inl err \<Rightarrow> Some (w, Inl err)
          | Inr controlID \<Rightarrow> do {
              (w, r) \<leftarrow> connectToControl k fd controlID w;
              case r of
                Inl err \<Rightarrow> Some (w, Inl err)
              | Inr _ \<Rightarrow> do {
                  let (w, nameData, nameLen, sysErr) = k_getsockopt k fd 2 2 (replicate 32 0) w;
                  if sysErr \<noteq> 0 then Some (w, Inl (Errno sysErr))
                  else if nameLen = 0 then None
                  else do {
                    name \<leftarrow> slice nameData 0 (nameLen - 1);
                    Some (w, Inr \<lparr>tf_fd = fd, tf_base = new_fdTunnelBase name\<rparr>)
                  }
                }
            }
        }))"

text \<open>Both files wrap what they have opened in a \<open>posixTunnel\<close>.\<close>

definition MakeTunnel :: "os \<Rightarrow> 'w kernel \<Rightarrow> 'w \<Rightarrow> ('w \<times> (tun_error + tunnel)) go" where
  "MakeTunnel os = (case os of Linux \<Rightarrow> openTunFile | Darwin \<Rightarrow> openUtunSocket)"

section \<open>Routes\<close>

definition AddRoute_linux ::
  "'w kernel \<Rightarrow> bytes \<Rightarrow> bytes \<Rightarrow> bytes \<Rightarrow> 'w \<Rightarrow> ('w \<times> (tun_error + unit)) go" where
  "AddRoute_linux k destination gateway msk w =
     (if To4 destination = None \<or> To4 gateway = None \<or> length msk \<noteq> 4 then Some (w, Inl OnlyIPv4)
      else case k_socket k 2 2 0 w of
        (w, Inl err) \<Rightarrow> Some (w, Inl (Errno err))
      | (w, Inr sock) \<Rightarrow> do {
          requestData \<leftarrow> add_route_request destination gateway msk;
          let (w, requestData, sysErr) = k_ioctl k sock 0x890b requestData w;
          Some (k_close k sock w, errno_result sysErr)
        })"

definition runRouteMsg :: "'w kernel \<Rightarrow> routeMsgHeader \<Rightarrow> bytes \<Rightarrow> 'w \<Rightarrow> 'w \<times> (tun_error + unit)" where
  "runRouteMsg k header body w =
     (case k_socket k 17 3 0 w of
        (w, Inl err) \<Rightarrow> (w, Inl (Errno err))
      | (w, Inr sock) \<Rightarrow>
          let buf = route_message header body
          in (case k_write k sock buf w of
                (w, Inl err) \<Rightarrow> (k_close k sock w, Inl (Errno err))
              | (w, Inr n) \<Rightarrow>
                  (k_close k sock w, if n \<noteq> length buf then Inl UnexpectedWriteSize else Inr ())))"

definition AddRoute_darwin ::
  "'w kernel \<Rightarrow> bytes \<Rightarrow> bytes \<Rightarrow> bytes \<Rightarrow> 'w \<Rightarrow> ('w \<times> (tun_error + unit)) go" where
  "AddRoute_darwin k destination gateway msk w =
     (if To4 destination = None \<or> To4 gateway = None \<or> length msk \<noteq> 4 then Some (w, Inl OnlyIPv4)
      else do {
        body \<leftarrow> add_route_body destination gateway msk;
        Some (runRouteMsg k add_route_header body w)
      })"

section \<open>What the kernel promises\<close>

text \<open>\<open>fds w\<close> is the set of descriptors of the process.  A new one was not in it; only \<open>close\<close> takes
  one out; and no call changes the size of the memory that it writes to.\<close>

definition returns_fd :: "('w \<Rightarrow> nat set) \<Rightarrow> 'w \<Rightarrow> 'w \<times> (nat + nat) \<Rightarrow> bool" where
  "returns_fd fds w wr \<longleftrightarrow>
     (case snd wr of
        Inl err \<Rightarrow> fds (fst wr) = fds w
      | Inr fd \<Rightarrow> fd \<notin> fds w \<and> fds (fst wr) = insert fd (fds w))"

definition kernel_fds :: "'w kernel \<Rightarrow> ('w \<Rightarrow> nat set) \<Rightarrow> bool" where
  "kernel_fds k fds \<longleftrightarrow>
     (\<forall>w d t p. returns_fd fds w (k_socket k d t p w)) \<and> (\<forall>w path. returns_fd fds w (k_open k path w)) \<and>
     (\<forall>w fd. fds (k_close k fd w) = fds w - {fd}) \<and> (\<forall>w fd. fds (fst (k_shutdown k fd w)) = fds w) \<and>
     (\<forall>w fd r m. fds (fst (k_ioctl k fd r m w)) = fds w \<and> length (fst (snd (k_ioctl k fd r m w))) = length m) \<and>
     (\<forall>w fd l opt m. fds (fst (k_getsockopt k fd l opt m w)) = fds w) \<and>
     (\<forall>w fd a. fds (fst (k_connect k fd a w)) = fds w) \<and> (\<forall>w fd n. fds (fst (k_read k fd n w)) = fds w) \<and>
     (\<forall>w fd bs. fds (fst (k_write k fd bs w)) = fds w)"

lemma kernel_fds_D:
  assumes "kernel_fds k fds"
  shows "k_socket k d ty p w = (w', Inl e) \<Longrightarrow> fds w' = fds w"
    and "k_socket k d ty p w = (w', Inr fd) \<Longrightarrow> fd \<notin> fds w \<and> fds w' = insert fd (fds w)"
    and "k_open k path w = (w', Inl e) \<Longrightarrow> fds w' = fds w"
    and "k_open k path w = (w', Inr fd) \<Longrightarrow> fd \<notin> fds w \<and> fds w' = insert fd (fds w)"
    and "fds (k_close k fd w) = fds w - {fd}"
    and "k_shutdown k fd w = (w', n) \<Longrightarrow> fds w' = fds w"
    and "k_ioctl k fd r m w = (w', m', n) \<Longrightarrow> fds w' = fds w \<and> length m' = length m"
    and "k_getsockopt k fd l opt m w = (w', x) \<Longrightarrow> fds w' = fds w"
    and "k_connect k fd m w = (w', n) \<Longrightarrow> fds w' = fds w"
    and "k_write k fd m w = (w', wr) \<Longrightarrow> fds w' = fds w"
    and "fds (fst (k_read k fd sz w)) = fds w"
proof -
  have "returns_fd fds w (k_socket k d ty p w)" "returns_fd fds w (k_open k path w)"
    using assms by (simp_all add: kernel_fds_def)
  then show "k_socket k d ty p w = (w', Inl e) \<Longrightarrow> fds w' = fds w"
    "k_socket k d ty p w = (w', Inr fd) \<Longrightarrow> fd \<notin> fds w \<and> fds w' = insert fd (fds w)"
    "k_open k path w = (w', Inl e) \<Longrightarrow> fds w' = fds w"
    "k_open k path w = (w', Inr fd) \<Longrightarrow> fd \<notin> fds w \<and> fds w' = insert fd (fds w)"
    by (simp_all add: returns_fd_def)
  have "fds (fst (k_shutdown k fd w)) = fds w" "fds (fst (k_ioctl k fd r m w)) = fds w"
    "length (fst (snd (k_ioctl k fd r m w))) = length m" "fds (fst (k_getsockopt k fd l opt m w)) = fds w"
    "fds (fst (k_connect k fd m w)) = fds w" "fds (fst (k_write k fd m w)) = fds w"
    using assms by (simp_all add: kernel_fds_def)
  then show "k_shutdown k fd w = (w', n) \<Longrightarrow> fds w' = fds w"
    "k_ioctl k fd r m w = (w', m', n) \<Longrightarrow> fds w' = fds w \<and> length m' = length m"
    "k_getsockopt k fd l opt m w = (w', x) \<Longrightarrow> fds w' = fds w"
    "k_connect k fd m w = (w', n) \<Longrightarrow> fds w' = fds w"
    "k_write k fd m w = (w', wr) \<Longrightarrow> fds w' = fds w"
    by simp_all
  show "fds (k_close k fd w) = fds w - {fd}" "fds (fst (k_read k fd sz w)) = fds w"
    using assms by (simp_all add: kernel_fds_def)
qed

section \<open>Calls and descriptors\<close>

lemma ifreqIOCTL_linux_fds:
  assumes "kernel_fds k fds" and "length req \<le> 24"
  shows "\<exists>w' req' r. ifreqIOCTL_linux k name ioctl req w = Some (w', req', r) \<and> fds w' = fds w \<and>
    length req' = length req"
proof (cases "k_socket k 2 2 0 w")
  case (Pair w1 res)
  show ?thesis
  proof (cases res)
    case (Inl e)
    then show ?thesis using Pair kernel_fds_D(1) [OF assms(1)] by (auto simp: ifreqIOCTL_linux_def)
  next
    case (Inr sock)
    let ?m = "take 16 (copy_list (replicate 40 0) name) @ copy_list (drop 16 (copy_list (replicate 40 0) name)) req"
    obtain w2 m n where io: "k_ioctl k sock ioctl ?m w1 = (w2, m, n)" by (cases "k_ioctl k sock ioctl ?m w1") auto
    have s: "sock \<notin> fds w" "fds w1 = insert sock (fds w)" using kernel_fds_D(2) [OF assms(1)] Pair Inr by auto
    have i: "fds w2 = fds w1" "length m = 40" using kernel_fds_D(7) [OF assms(1) io] by simp_all
    have "fds (k_close k sock w2) = fds w" using kernel_fds_D(5) [OF assms(1)] s i by simp
    then show ?thesis using Pair Inr io i(2) by (simp add: ifreqIOCTL_linux_def)
  qed
qed

lemma ifreqIOCTL_darwin_fds:
  assumes "kernel_fds k fds"
  shows "\<exists>w' req' r. ifreqIOCTL_darwin k name ioctl req w = Some (w', req', r) \<and> fds w' = fds w \<and>
    length req' = length req"
proof (cases "k_socket k 2 2 0 w")
  case (Pair w1 res)
  show ?thesis
  proof (cases res)
    case (Inl e)
    then show ?thesis using Pair kernel_fds_D(1) [OF assms(1)] by (auto simp: ifreqIOCTL_darwin_def)
  next
    case (Inr sock)
    define n where "n = (if length req > 16 then 16 + length req else 32)"
    have n: "16 \<le> n" by (simp add: n_def)
    define m0 where "m0 = copy_list (take 16 (replicate n 0)) name @ drop 16 (replicate n (0 :: byte))"
    have m0: "copy_slice (replicate n 0) 0 16 name = Some m0" "length m0 = n"
      using n by (simp_all add: m0_def)
    define m1 where "m1 = take 16 m0 @ copy_list (drop 16 m0) req"
    have m1: "copy_slice m0 16 (length m0) req = Some m1" "length m1 = n"
      using n m0(2) by (simp_all add: m1_def)
    obtain w2 m e where io: "k_ioctl k sock ioctl m1 w1 = (w2, m, e)" by (cases "k_ioctl k sock ioctl m1 w1") auto
    have s: "sock \<notin> fds w" "fds w1 = insert sock (fds w)" using kernel_fds_D(2) [OF assms(1)] Pair Inr by auto
    have i: "fds w2 = fds w1" "length m = n" using kernel_fds_D(7) [OF assms(1) io] m1 by simp_all
    have "fds (k_close k sock w2) = fds w" using kernel_fds_D(5) [OF assms(1)] s i by simp
    then show ?thesis using Pair Inr io i(2) n m0 m1
      by (simp add: ifreqIOCTL_darwin_def n_def [symmetric] del: copy_slice_Some)
  qed
qed

lemma ifreqIOCTL_fds:
  assumes "kernel_fds k fds" and "length req \<le> 24"
  obtains w' req' r where "ifreqIOCTL os k name ioctl req w = Some (w', req', r)" "fds w' = fds w"
    "length req' = length req"
proof -
  have "\<exists>w' req' r. ifreqIOCTL os k name ioctl req w = Some (w', req', r) \<and> fds w' = fds w \<and>
      length req' = length req"
    using ifreqIOCTL_linux_fds [OF assms, of name ioctl w] ifreqIOCTL_darwin_fds [OF assms(1), of name ioctl req w]
    by (cases os) (simp_all add: ifreqIOCTL_def)
  then show ?thesis using that by blast
qed

text \<open>What \<open>operate\<close> does with a function that does not close the tunnel.\<close>

lemma operate_closed: "fd_closed (tf_base t) \<Longrightarrow> operate k t fu w = Some (w, t, Inl OsErrClosed)"
  by (simp add: operate_def operate_enter_def)

lemma operate_open:
  assumes "\<not> fd_closed (tf_base t)"
    and "\<And>f. f = (tf_base t)\<lparr>fd_refCount := fd_refCount (tf_base t) + 1\<rparr> \<Longrightarrow> fu f w = Some (w', f, r)"
  shows "operate k t fu w = Some (w', t, r)"
  using assms by (simp add: operate_def operate_enter_def operate_leave_def)

lemma operate_fds:
  assumes "\<And>f. \<exists>w' r. fu f w = Some (w', f, r) \<and> fds w' = fds w"
  shows "\<exists>w' r. operate k t fu w = Some (w', t, r) \<and> fds w' = fds w"
proof (cases "fd_closed (tf_base t)")
  case False
  obtain w' r where "fu ((tf_base t)\<lparr>fd_refCount := fd_refCount (tf_base t) + 1\<rparr>) w =
      Some (w', (tf_base t)\<lparr>fd_refCount := fd_refCount (tf_base t) + 1\<rparr>, r)" "fds w' = fds w"
    using assms by blast
  then show ?thesis using operate_open [OF False, of fu w w' r k] by blast
qed (simp add: operate_closed)

lemma packSockaddr4_total: "To4 addr \<noteq> None \<Longrightarrow> \<exists>s. packSockaddr4 os addr port = Some s \<and> length s = 16"
proof -
  assume "To4 addr \<noteq> None"
  then obtain ip where "To4 addr = Some ip" by auto
  moreover from this have "length ip = 4" by (rule To4_length)
  ultimately show ?thesis
    by (cases os) (simp_all add: packSockaddr4_def packSockaddr4_linux_def packSockaddr4_darwin_def Let_def)
qed

lemma get_addresses_fds:
  assumes "kernel_fds k fds"
  shows "\<exists>w' r. get_addresses os k name ioctls w = Some (w', r) \<and> fds w' = fds w"
proof (induction ioctls arbitrary: w)
  case (Cons io ios)
  obtain s where s: "packSockaddr4 os IPv4zero 0 = Some s" "length s = 16"
    using packSockaddr4_total [of IPv4zero os 0] by auto
  obtain w1 s1 r where io: "ifreqIOCTL os k name io s w = Some (w1, s1, r)" "fds w1 = fds w" "length s1 = length s"
    by (rule ifreqIOCTL_fds [OF assms, of s os name io w]) (use s(2) in auto)
  obtain w2 r2 where rest: "get_addresses os k name ios w1 = Some (w2, r2)" "fds w2 = fds w1"
    using Cons.IH by blast
  show ?case
  proof (cases r)
    case (Inr u)
    obtain ip port where "unpackSockaddr4 s1 = Some (ip, port)"
      using io(3) s(2) by (auto simp: unpackSockaddr4_def slice_def)
    then show ?thesis using s io rest Inr by simp
  qed (use s io in simp)
qed simp

lemma set_addresses_fds:
  assumes "kernel_fds k fds"
  shows "\<forall>(io, a) \<in> set as. To4 a \<noteq> None \<Longrightarrow>
    \<exists>w' r. set_addresses k name as w = Some (w', r) \<and> fds w' = fds w"
proof (induction as arbitrary: w)
  case (Cons x as)
  obtain io a where x: "x = (io, a)" by (cases x)
  obtain s where s: "packSockaddr4_linux a 0 = Some s" "length s = 16"
    using packSockaddr4_total [of a Linux 0] Cons.prems by (auto simp: x packSockaddr4_def)
  obtain w1 s1 r where io: "ifreqIOCTL_linux k name io s w = Some (w1, s1, r)" "fds w1 = fds w"
    using ifreqIOCTL_linux_fds [OF assms, of s name io w] s(2) by auto
  obtain w2 r2 where rest: "set_addresses k name as w1 = Some (w2, r2)" "fds w2 = fds w1"
    using Cons.IH [of w1] Cons.prems by auto
  show ?case using s io rest by (cases r) (simp_all add: x)
qed simp

end
