(* ===== verification/Tunnel_Calls.thy ===== *)
theory Tunnel_Calls
  imports Tunnel_Sys "HOL-Library.Sublist"
begin

text \<open>
  What the operations of the tunnels do with the kernel: descriptors, the MTU, the addresses and
  packets.  A small kernel shows that the hypotheses can hold.
\<close>

section \<open>A kernel\<close>

text \<open>Descriptors, one value of bytes for each interface (the 16 bytes of its name) and slot, and the
  results of the next reads.\<close>

record world =
  w_fds :: "nat list"
  w_slots :: "bytes \<Rightarrow> int \<Rightarrow> bytes"
  w_reads :: "(nat + bytes) list"

definition new_fd :: "world \<Rightarrow> world \<times> (nat + nat)" where
  "new_fd w = (let fd = Suc (sum_list (w_fds w)) in (w\<lparr>w_fds := fd # w_fds w\<rparr>, Inr fd))"

text \<open>The slot that a request stores to or loads from.\<close>

definition store_slot :: "int \<Rightarrow> int option" where
  "store_slot r = (if r = 0x8922 then Some 0 else if r = 0x8916 then Some 1 else if r = 0x8918 then Some 2
     else if r = 0x891c then Some 3 else None)"

definition load_slot :: "int \<Rightarrow> int option" where
  "load_slot r = (if r = 0x8921 then Some 0 else if r = 0x8915 then Some 1 else if r = 0x8917 then Some 2
     else if r = 0x891b then Some 3 else None)"

definition sample_ioctl :: "nat \<Rightarrow> int \<Rightarrow> bytes \<Rightarrow> world \<Rightarrow> world \<times> bytes \<times> nat" where
  "sample_ioctl fd r m w =
     (case store_slot r of
        Some i \<Rightarrow> (w\<lparr>w_slots := (w_slots w)(take 16 m := (w_slots w (take 16 m))(i := take 16 (drop 16 m)))\<rparr>, m, 0)
      | None \<Rightarrow>
          (case load_slot r of
             Some i \<Rightarrow> (w, take 16 m @ copy_list (drop 16 m) (w_slots w (take 16 m) i @ replicate 16 0), 0)
           | None \<Rightarrow> (w, m, 0)))"

definition sample_read :: "world \<Rightarrow> world \<times> (nat + bytes)" where
  "sample_read w = (case w_reads w of [] \<Rightarrow> (w, Inl 9) | r # rs \<Rightarrow> (w\<lparr>w_reads := rs\<rparr>, r))"

definition sample_kernel :: "world kernel" where
  "sample_kernel = \<lparr>k_socket = (\<lambda>d t p. new_fd), k_open = (\<lambda>path. new_fd),
     k_close = (\<lambda>fd w. w\<lparr>w_fds := filter (\<lambda>x. x \<noteq> fd) (w_fds w)\<rparr>), k_shutdown = (\<lambda>fd w. (w, 0)),
     k_ioctl = sample_ioctl, k_getsockopt = (\<lambda>fd l opt m w. (w, m, length m, if m = [] then 22 else 0)), k_connect = (\<lambda>fd a w. (w, 0)),
     k_read = (\<lambda>fd n. sample_read), k_write = (\<lambda>fd bs w. (w, Inr (length bs)))\<rparr>"

lemma sample_ioctl_facts:
  "w_fds (fst (sample_ioctl fd r m w)) = w_fds w" "length (fst (snd (sample_ioctl fd r m w))) = length m"
  by (auto simp: sample_ioctl_def split: option.split)

lemma sample_kernel_fds: "kernel_fds sample_kernel (\<lambda>w. set (w_fds w))"
proof -
  have "Suc (sum_list xs) \<notin> set xs" for xs :: "nat list"
    using member_le_sum_list [of "Suc (sum_list xs)" xs] by auto
  then have "returns_fd (\<lambda>w. set (w_fds w)) w (new_fd w)" for w
    by (simp add: returns_fd_def new_fd_def Let_def)
  then show ?thesis
    by (auto simp: kernel_fds_def sample_kernel_def sample_ioctl_facts sample_read_def split: list.split)
qed

definition sample_tunnel :: tunnel where
  "sample_tunnel = \<lparr>tf_fd = 3, tf_base = new_fdTunnelBase [116, 117, 110, 48]\<rparr>"

definition sample_world :: world where
  "sample_world = \<lparr>w_fds = [3], w_slots = (\<lambda>name i. []), w_reads = [Inl 4, Inr [0, 0, 0, 2, 69], Inr []]\<rparr>"

section \<open>Interface requests that succeed\<close>

text \<open>The request as the kernel sees it: the name in 16 bytes, then the data.\<close>

lemma copy_list_replicate:
  "length name \<le> 16 \<Longrightarrow> copy_list (replicate (16 + n) (0 :: byte)) name =
     copy_list (replicate 16 0) name @ replicate n 0"
  by (simp add: copy_list_def flip: replicate_add)

lemma ifreqIOCTL_eq:
  assumes "length name \<le> 16" and "length req \<le> 24"
  obtains m where "take 16 m = copy_list (replicate 16 0) name" "take (length req) (drop 16 m) = req"
    "16 + length req \<le> length m"
    "\<And>w. ifreqIOCTL os k name ioctl req w =
     (case k_socket k 2 2 0 w of
        (w, Inl err) \<Rightarrow> Some (w, req, Inl (Errno err))
      | (w, Inr sock) \<Rightarrow> do {
          let (w, ifreq, sysErr) = k_ioctl k sock ioctl m w;
          back \<leftarrow> slice_from ifreq 16;
          Some (k_close k sock w, copy_list req back, errno_result sysErr)
        })"
proof -
  define n where "n = (case os of Linux \<Rightarrow> 24 | Darwin \<Rightarrow> if length req > 16 then length req else 16)"
  define h where "h = copy_list (replicate 16 (0 :: byte)) name"
  have n: "length req \<le> n" using assms by (auto simp: n_def split: os.split)
  have h: "length h = 16" by (simp add: h_def)
  have eq: "ifreqIOCTL os k name ioctl req w =
     (case k_socket k 2 2 0 w of
        (w, Inl err) \<Rightarrow> Some (w, req, Inl (Errno err))
      | (w, Inr sock) \<Rightarrow> do {
          let (w, ifreq, sysErr) = k_ioctl k sock ioctl (h @ copy_list (replicate n 0) req) w;
          back \<leftarrow> slice_from ifreq 16;
          Some (k_close k sock w, copy_list req back, errno_result sysErr)
        })" for w
  proof (cases os)
    case Linux
    have "copy_list (replicate 40 0) name = h @ replicate n 0"
      using copy_list_replicate [OF assms(1), of 24] by (simp add: h_def n_def Linux)
    then show ?thesis using h by (cases "k_socket k 2 2 0 w"; cases "snd (k_socket k 2 2 0 w)")
        (simp_all add: ifreqIOCTL_def ifreqIOCTL_linux_def Linux Let_def)
  next
    case Darwin
    have "copy_slice (replicate (16 + n) 0) 0 16 name = Some (h @ replicate n 0)"
      by (simp add: h_def)
    moreover have "(if length req > 16 then 16 + length req else 32) = 16 + n"
      by (simp add: n_def Darwin)
    ultimately show ?thesis using h by (cases "k_socket k 2 2 0 w"; cases "snd (k_socket k 2 2 0 w)")
        (simp_all add: ifreqIOCTL_def ifreqIOCTL_darwin_def Darwin Let_def)
  qed
  show ?thesis
    by (rule that [of "h @ copy_list (replicate n 0) req"]) (use h n eq in \<open>simp_all add: h_def copy_list_def\<close>)
qed

lemma ifreqIOCTL_ok:
  assumes k: "kernel_fds k fds" and len: "length name \<le> 16" "length req \<le> 24"
    and run: "ifreqIOCTL os k name ioctl req w = Some (w', req', Inr ())"
  obtains w1 sock m w2 m' where "k_socket k 2 2 0 w = (w1, Inr sock)" "k_ioctl k sock ioctl m w1 = (w2, m', 0)"
    "take 16 m = copy_list (replicate 16 0) name" "take (length req) (drop 16 m) = req"
    "length m' = length m" "16 + length req \<le> length m" "w' = k_close k sock w2"
    "req' = take (length req) (drop 16 m')"
proof -
  obtain m where m: "take 16 m = copy_list (replicate 16 0) name" "take (length req) (drop 16 m) = req"
    "16 + length req \<le> length m" and eq: "\<And>w. ifreqIOCTL os k name ioctl req w =
     (case k_socket k 2 2 0 w of
        (w, Inl err) \<Rightarrow> Some (w, req, Inl (Errno err))
      | (w, Inr sock) \<Rightarrow> do {
          let (w, ifreq, sysErr) = k_ioctl k sock ioctl m w;
          back \<leftarrow> slice_from ifreq 16;
          Some (k_close k sock w, copy_list req back, errno_result sysErr)
        })"
    using ifreqIOCTL_eq [OF len, of os k ioctl] by blast
  obtain w1 sock where s: "k_socket k 2 2 0 w = (w1, Inr sock)"
    using run by (cases "k_socket k 2 2 0 w"; cases "snd (k_socket k 2 2 0 w)") (auto simp: eq)
  obtain w2 m' e where io: "k_ioctl k sock ioctl m w1 = (w2, m', e)" by (cases "k_ioctl k sock ioctl m w1") auto
  have l: "length m' = length m" using kernel_fds_D(7) [OF k io] by simp
  have "e = 0" "w' = k_close k sock w2" "req' = copy_list req (drop 16 m')"
    using run m(3) l by (auto simp: eq s io errno_result_def split: if_splits)
  moreover have "copy_list req (drop 16 m') = take (length req) (drop 16 m')"
    using m(3) l by (simp add: copy_list_def)
  ultimately show ?thesis using that s io m l by simp
qed

section \<open>Descriptors\<close>

lemma operate_keeps:
  "operate k t fu w = Some (w', t', r) \<Longrightarrow>
     (\<And>f w1 f1 r1. fu f w = Some (w1, f1, r1) \<Longrightarrow> f1 = f) \<Longrightarrow> t' = t"
proof -
  assume run: "operate k t fu w = Some (w', t', r)" and keep: "\<And>f w1 f1 r1. fu f w = Some (w1, f1, r1) \<Longrightarrow> f1 = f"
  show "t' = t"
  proof (cases "fd_closed (tf_base t)")
    case False
    let ?f = "(tf_base t)\<lparr>fd_refCount := fd_refCount (tf_base t) + 1\<rparr>"
    obtain w1 f1 r1 where fu: "fu ?f w = Some (w1, f1, r1)"
      using run False by (cases "fu ?f w") (auto simp: operate_def operate_enter_def)
    then have "f1 = ?f" by (rule keep)
    then show ?thesis using operate_open [OF False, of fu w w1 r1 k] fu run by simp
  qed (use run in \<open>simp add: operate_closed\<close>)
qed

lemma route_request_total:
  assumes "To4 destination = Some d" and "To4 gateway = Some g" and "length msk = 4"
  shows "\<exists>q. add_route_request destination gateway msk = Some q"
proof -
  obtain a b c where "packSockaddr4_linux destination 0 = Some a" "length a = 16"
    "packSockaddr4_linux gateway 0 = Some b" "length b = 16" "packSockaddr4_linux msk 0 = Some c" "length c = 16"
    using packSockaddr4_total [of destination Linux 0] packSockaddr4_total [of gateway Linux 0]
      packSockaddr4_total [of msk Linux 0] assms
    by (auto simp: packSockaddr4_def)
  then show ?thesis by (simp add: add_route_request_def)
qed

lemma runRouteMsg_fds:
  assumes k: "kernel_fds k fds"
  shows "fds (fst (runRouteMsg k header body w)) = fds w"
proof (cases "k_socket k 17 3 0 w")
  case (Pair w1 res)
  show ?thesis
  proof (cases res)
    case (Inl e)
    then show ?thesis using Pair kernel_fds_D(1) [OF k Pair [unfolded Inl]] by (simp add: runRouteMsg_def)
  next
    case (Inr sock)
    let ?buf = "route_message header body"
    obtain w2 r where wr: "k_write k sock ?buf w1 = (w2, r)" by (cases "k_write k sock ?buf w1")
    have "fds (k_close k sock w2) = fds w"
      using kernel_fds_D(2) [OF k Pair [unfolded Inr]] kernel_fds_D(5) [OF k] kernel_fds_D(10) [OF k wr] by auto
    then show ?thesis using Pair Inr wr by (cases r) (simp_all add: runRouteMsg_def Let_def)
  qed
qed

lemma tunnel_MTU_returns:
  assumes k: "kernel_fds k fds"
  shows "\<exists>w' r. posix_MTU os k t w = Some (w', t, r) \<and> fds w' = fds w"
  unfolding posix_MTU_def
proof (rule operate_fds)
  fix f
  obtain w' b r where "ifreqIOCTL os k (fd_name f) (SIOCGIFMTU os) (replicate 4 0) w = Some (w', b, r)" "fds w' = fds w"
    by (rule ifreqIOCTL_fds [OF k, of "replicate 4 0" os "fd_name f" "SIOCGIFMTU os" w]) auto
  then show "\<exists>w' r. (do { (w, buf, r) \<leftarrow> ifreqIOCTL os k (fd_name f) (SIOCGIFMTU os) (replicate 4 0) w;
      Some (w, f, case r of Inl err \<Rightarrow> Inl err | Inr _ \<Rightarrow> Inr (uint (get_le32 buf))) }) = Some (w', f, r) \<and> fds w' = fds w"
    by simp
qed

lemma tunnel_Addresses_returns:
  assumes k: "kernel_fds k fds"
  shows "\<exists>w' r. posix_Addresses os k t w = Some (w', t, r) \<and> fds w' = fds w"
  unfolding posix_Addresses_def
proof (rule operate_fds)
  fix f
  show "\<exists>w' r. (do { (w, r) \<leftarrow> get_addresses os k (fd_name f) (get_addr_ioctls os) w; Some (w, f, r) }) =
      Some (w', f, r) \<and> fds w' = fds w"
    using get_addresses_fds [OF k, of os "fd_name f" "get_addr_ioctls os" w] by auto
qed

lemma tunnel_SetMTU_returns:
  assumes k: "kernel_fds k fds"
  shows "\<exists>w' r. posix_SetMTU os k t mtu w = Some (w', t, r) \<and> fds w' = fds w"
  unfolding posix_SetMTU_def
proof (rule operate_fds)
  fix f
  obtain w' b r where "ifreqIOCTL os k (fd_name f) (SIOCSIFMTU os) (le32 (word_of_int mtu)) w = Some (w', b, r)"
    "fds w' = fds w"
    by (rule ifreqIOCTL_fds [OF k, of "le32 (word_of_int mtu)" os "fd_name f" "SIOCSIFMTU os" w]) auto
  then show "\<exists>w' r. (do { (w, buf, r) \<leftarrow> ifreqIOCTL os k (fd_name f) (SIOCSIFMTU os) (le32 (word_of_int mtu)) w;
      Some (w, f, r) }) = Some (w', f, r) \<and> fds w' = fds w"
    by simp
qed

lemma tunnel_SetAddresses_linux_returns:
  assumes k: "kernel_fds k fds"
  shows "\<exists>w' r. SetAddresses_linux k t local dest msk w = Some (w', t, r) \<and> fds w' = fds w"
  unfolding SetAddresses_linux_def
proof (rule operate_fds)
  fix f
  show "\<exists>w' r. (if To4 local = None \<or> To4 dest = None \<or> length msk \<noteq> 4 then Some (w, f, Inl OnlyIPv4)
      else do { (w, r) \<leftarrow> set_addresses k (fd_name f) (zip set_addr_ioctls [local, dest, msk]) w; Some (w, f, r) }) =
      Some (w', f, r) \<and> fds w' = fds w"
  proof (cases "To4 local = None \<or> To4 dest = None \<or> length msk \<noteq> 4")
    case False
    define as where "as = zip set_addr_ioctls [local, dest, msk]"
    have "\<forall>(io, a) \<in> set as. To4 a \<noteq> None" using False by (auto simp: as_def set_addr_ioctls_def)
    then obtain w' r where "set_addresses k (fd_name f) as w = Some (w', r)" "fds w' = fds w"
      using set_addresses_fds [OF k] by blast
    then show ?thesis unfolding if_not_P [OF False] as_def [symmetric] by simp
  qed auto
qed

lemma tunnel_SetAddresses_darwin_returns:
  assumes k: "kernel_fds k fds"
  shows "\<exists>w' r. SetAddresses_darwin k t local dest msk w = Some (w', t, r) \<and> fds w' = fds w"
  unfolding SetAddresses_darwin_def
proof (rule operate_fds)
  fix f
  show "\<exists>w' r. (if To4 local = None \<or> To4 dest = None \<or> length msk \<noteq> 4 then Some (w, f, Inl OnlyIPv4)
      else do {
        (w, buf, r) \<leftarrow> ifreqIOCTL_darwin k (fd_name f) 0x80206919 (replicate (16 * 3) 0) w;
        l \<leftarrow> packSockaddr4_darwin local 0;
        d \<leftarrow> packSockaddr4_darwin dest 0;
        m \<leftarrow> packSockaddr4_darwin msk 0;
        (w, buf, r) \<leftarrow> ifreqIOCTL_darwin k (fd_name f) 0x8040691a (l @ d @ m) w;
        Some (w, f, r) }) = Some (w', f, r) \<and> fds w' = fds w"
  proof (cases "To4 local = None \<or> To4 dest = None \<or> length msk \<noteq> 4")
    case False
    obtain l d m where pack: "packSockaddr4_darwin local 0 = Some l" "packSockaddr4_darwin dest 0 = Some d"
      "packSockaddr4_darwin msk 0 = Some m"
      using packSockaddr4_total [of local Darwin 0] packSockaddr4_total [of dest Darwin 0]
        packSockaddr4_total [of msk Darwin 0] False
      by (auto simp: packSockaddr4_def)
    obtain w1 b1 r1 where 1: "ifreqIOCTL_darwin k (fd_name f) 0x80206919 (replicate (16 * 3) 0) w = Some (w1, b1, r1)"
      "fds w1 = fds w"
      using ifreqIOCTL_darwin_fds [OF k] by blast
    obtain w2 b2 r2 where 2: "ifreqIOCTL_darwin k (fd_name f) 0x8040691a (l @ d @ m) w1 = Some (w2, b2, r2)"
      "fds w2 = fds w1"
      using ifreqIOCTL_darwin_fds [OF k] by blast
    show ?thesis unfolding if_not_P [OF False] using pack 1 2 by simp
  qed auto
qed

lemma tunnel_AddRoute_linux_returns:
  assumes k: "kernel_fds k fds"
  shows "\<exists>w' r. AddRoute_linux k dest gateway msk w = Some (w', r) \<and> fds w' = fds w"
proof (cases "To4 dest = None \<or> To4 gateway = None \<or> length msk \<noteq> 4")
  case False
  obtain q where q: "add_route_request dest gateway msk = Some q"
    using False route_request_total [of dest _ gateway _ msk] by auto
  show ?thesis
  proof (cases "k_socket k 2 2 0 w")
    case (Pair w1 res)
    show ?thesis
    proof (cases res)
      case (Inl e)
      then show ?thesis using Pair kernel_fds_D(1) [OF k] False by (auto simp: AddRoute_linux_def)
    next
      case (Inr sock)
      obtain w2 m n where io: "k_ioctl k sock 0x890b q w1 = (w2, m, n)" by (cases "k_ioctl k sock 0x890b q w1") auto
      have "fds (k_close k sock w2) = fds w"
        using kernel_fds_D(2) [OF k] kernel_fds_D(5) [OF k] kernel_fds_D(7) [OF k io] Pair Inr by fastforce
      then show ?thesis using Pair Inr io q False by (auto simp: AddRoute_linux_def)
    qed
  qed
qed (auto simp: AddRoute_linux_def)

lemma tunnel_AddRoute_darwin_returns:
  assumes k: "kernel_fds k fds"
  shows "\<exists>w' r. AddRoute_darwin k dest gateway msk w = Some (w', r) \<and> fds w' = fds w"
proof (cases "To4 dest = None \<or> To4 gateway = None \<or> length msk \<noteq> 4")
  case False
  obtain b where b: "add_route_body dest gateway msk = Some b"
    using False packSockaddr4_total [of dest Darwin 0] packSockaddr4_total [of gateway Darwin 0]
      packSockaddr4_total [of msk Darwin 0]
    by (auto simp: packSockaddr4_def add_route_body_def)
  have "fds (fst (runRouteMsg k add_route_header b w)) = fds w" by (rule runRouteMsg_fds [OF k])
  then show ?thesis using b False
    by (cases "runRouteMsg k add_route_header b w") (auto simp: AddRoute_darwin_def)
qed (auto simp: AddRoute_darwin_def)

lemma tunnel_calls_fds:
  assumes k: "kernel_fds k fds"
  shows "(\<exists>w' r. posix_MTU os k t w = Some (w', t, r) \<and> fds w' = fds w) \<and>
    (\<exists>w' r. posix_SetMTU os k t mtu w = Some (w', t, r) \<and> fds w' = fds w) \<and>
    (\<exists>w' r. posix_Addresses os k t w = Some (w', t, r) \<and> fds w' = fds w) \<and>
    (\<exists>w' r. SetAddresses_linux k t local dest msk w = Some (w', t, r) \<and> fds w' = fds w) \<and>
    (\<exists>w' r. SetAddresses_darwin k t local dest msk w = Some (w', t, r) \<and> fds w' = fds w) \<and>
    (\<exists>w' r. AddRoute_linux k dest gateway msk w = Some (w', r) \<and> fds w' = fds w) \<and>
    (\<exists>w' r. AddRoute_darwin k dest gateway msk w = Some (w', r) \<and> fds w' = fds w)"
  by (intro conjI tunnel_MTU_returns [OF k] tunnel_SetMTU_returns [OF k] tunnel_Addresses_returns [OF k]
      tunnel_SetAddresses_linux_returns [OF k] tunnel_SetAddresses_darwin_returns [OF k] tunnel_AddRoute_linux_returns [OF k] tunnel_AddRoute_darwin_returns [OF k])

section \<open>The interface of a tunnel\<close>

text \<open>The interface \<open>Tunnel\<close> (\<open>tunnet/tunnet.go\<close>): its methods, for tunnels of type \<open>'t\<close> in a system of type \<open>'w\<close>.\<close>

record ('t, 'w) Tunnel =
  tn_Name :: "'t \<Rightarrow> bytes"
  tn_ReadPacket :: "'t \<Rightarrow> 'w \<Rightarrow> ('w \<times> 't \<times> (tun_error + bytes)) go"
  tn_WritePacket :: "'t \<Rightarrow> bytes \<Rightarrow> 'w \<Rightarrow> ('w \<times> 't \<times> (tun_error + unit)) go"
  tn_MTU :: "'t \<Rightarrow> 'w \<Rightarrow> ('w \<times> 't \<times> (tun_error + int)) go"
  tn_SetMTU :: "'t \<Rightarrow> int \<Rightarrow> 'w \<Rightarrow> ('w \<times> 't \<times> (tun_error + unit)) go"
  tn_Addresses :: "'t \<Rightarrow> 'w \<Rightarrow> ('w \<times> 't \<times> (tun_error + bytes list)) go"
  tn_SetAddresses :: "'t \<Rightarrow> bytes \<Rightarrow> bytes \<Rightarrow> bytes \<Rightarrow> 'w \<Rightarrow> ('w \<times> 't \<times> (tun_error + unit)) go"
  tn_Close :: "'t \<Rightarrow> 'w \<Rightarrow> ('w \<times> 't \<times> (tun_error + unit)) go"

text \<open>The methods of the tunnels that \<open>MakeTunnel\<close> returns.\<close>

definition posix_tunnel :: "os \<Rightarrow> 'w kernel \<Rightarrow> (tunnel, 'w) Tunnel" where
  "posix_tunnel os k = \<lparr>tn_Name = (\<lambda>t. fd_name (tf_base t)),
     tn_ReadPacket = (case os of Linux \<Rightarrow> ReadPacket_linux k | Darwin \<Rightarrow> ReadPacket_darwin k),
     tn_WritePacket = (case os of Linux \<Rightarrow> WritePacket_linux k | Darwin \<Rightarrow> WritePacket_darwin k),
     tn_MTU = posix_MTU os k, tn_SetMTU = posix_SetMTU os k, tn_Addresses = posix_Addresses os k,
     tn_SetAddresses = (case os of Linux \<Rightarrow> SetAddresses_linux k | Darwin \<Rightarrow> SetAddresses_darwin k),
     tn_Close = fd_Close k\<rparr>"

text \<open>A session of calls, one after the other, and their results.\<close>

datatype tunnel_call = CallName | CallRead | CallWrite bytes | CallMTU | CallSetMTU int | CallAddresses
  | CallSetAddresses bytes bytes bytes | CallClose

datatype tunnel_result = ResName bytes | ResPacket bytes | ResMTU int | ResAddresses "bytes list" | ResOk
  | ResErr tun_error

definition call_result ::
  "('a \<Rightarrow> tunnel_result) \<Rightarrow> ('w \<times> 't \<times> (tun_error + 'a)) go \<Rightarrow> ('w \<times> 't \<times> tunnel_result) go" where
  "call_result ok res = do {
     (w, t, r) \<leftarrow> res;
     Some (w, t, case r of Inl err \<Rightarrow> ResErr err | Inr x \<Rightarrow> ok x)
   }"

definition make_call :: "('t, 'w) Tunnel \<Rightarrow> tunnel_call \<Rightarrow> 't \<Rightarrow> 'w \<Rightarrow> ('w \<times> 't \<times> tunnel_result) go" where
  "make_call T c t w = (case c of
       CallName \<Rightarrow> Some (w, t, ResName (tn_Name T t))
     | CallRead \<Rightarrow> call_result ResPacket (tn_ReadPacket T t w)
     | CallWrite bs \<Rightarrow> call_result (\<lambda>u. ResOk) (tn_WritePacket T t bs w)
     | CallMTU \<Rightarrow> call_result ResMTU (tn_MTU T t w)
     | CallSetMTU mtu \<Rightarrow> call_result (\<lambda>u. ResOk) (tn_SetMTU T t mtu w)
     | CallAddresses \<Rightarrow> call_result ResAddresses (tn_Addresses T t w)
     | CallSetAddresses local dest msk \<Rightarrow> call_result (\<lambda>u. ResOk) (tn_SetAddresses T t local dest msk w)
     | CallClose \<Rightarrow> call_result (\<lambda>u. ResOk) (tn_Close T t w))"

primrec tunnel_session_of ::
  "('t, 'w) Tunnel \<Rightarrow> tunnel_call list \<Rightarrow> 't \<Rightarrow> 'w \<Rightarrow> ('w \<times> 't \<times> tunnel_result list) go" where
  "tunnel_session_of T [] t w = Some (w, t, [])"
| "tunnel_session_of T (c # cs) t w = do {
     (w, t, r) \<leftarrow> make_call T c t w;
     (w, t, rs) \<leftarrow> tunnel_session_of T cs t w;
     Some (w, t, r # rs)
   }"

text \<open>What a user relies on: calls leave the tunnel as it is but for \<open>Close\<close>, which keeps its name, and a closed
  tunnel refuses every call but \<open>Name\<close> without touching the system.\<close>

definition refusal :: "bytes \<Rightarrow> tunnel_call \<Rightarrow> tunnel_result" where
  "refusal name c = (if c = CallName then ResName name else ResErr OsErrClosed)"

locale packet_tunnel =
  fixes T :: "('t, 'w) Tunnel" and closed :: "'t \<Rightarrow> bool"
  assumes refuses: "closed t \<Longrightarrow> make_call T c t w = Some (w, t, refusal (tn_Name T t) c)"
    and keeps: "make_call T c t w = Some (w', t', r) \<Longrightarrow> c \<noteq> CallClose \<Longrightarrow> t' = t"
    and closes: "make_call T CallClose t w = Some (w', t', r) \<Longrightarrow> closed t' \<and> tn_Name T t' = tn_Name T t"

context packet_tunnel
begin

lemma session_closed:
  "closed t \<Longrightarrow> tunnel_session_of T cs t w = Some (w, t, map (refusal (tn_Name T t)) cs)"
  by (induction cs) (simp_all add: refuses)

lemma session_append:
  "tunnel_session_of T (cs @ ds) t w = do {
     (w, t, rs) \<leftarrow> tunnel_session_of T cs t w;
     (w, t, rs') \<leftarrow> tunnel_session_of T ds t w;
     Some (w, t, rs @ rs')
   }"
proof (induction cs arbitrary: t w)
  case Nil
  show ?case by (cases "tunnel_session_of T ds t w") auto
next
  case (Cons c cs)
  show ?case by (auto simp: Cons split: bind_split)
qed

lemma session_keeps: "tunnel_session_of T cs t w = Some (w', t', rs) \<Longrightarrow> CallClose \<notin> set cs \<Longrightarrow> t' = t"
proof (induction cs arbitrary: w rs)
  case (Cons c cs)
  obtain w1 t1 r rs1 where "make_call T c t w = Some (w1, t1, r)" "tunnel_session_of T cs t1 w1 = Some (w', t', rs1)"
    using Cons.prems(1) by (auto simp: bind_eq_Some_conv)
  moreover from this have "t1 = t" by (rule_tac keeps) (use Cons.prems(2) in auto)
  ultimately show ?case using Cons.IH Cons.prems(2) by auto
qed simp

lemma session_close:
  assumes run: "tunnel_session_of T (cs @ CallClose # ds) t w = Some (w', t', rs)" and "CallClose \<notin> set cs"
  obtains w1 rs1 r where "tunnel_session_of T cs t w = Some (w1, t, rs1)"
    "make_call T CallClose t w1 = Some (w', t', r)" "closed t'" "rs = rs1 @ r # map (refusal (tn_Name T t)) ds"
proof -
  obtain w1 t1 rs1 w2 r rs2 t2 where parts: "tunnel_session_of T cs t w = Some (w1, t1, rs1)"
    "make_call T CallClose t1 w1 = Some (w2, t2, r)" "tunnel_session_of T ds t2 w2 = Some (w', t', rs2)"
    "rs = rs1 @ r # rs2"
    using run by (simp only: session_append) (auto simp: bind_eq_Some_conv)
  have "t1 = t" by (rule session_keeps [OF parts(1) assms(2)])
  then have "closed t2" "tn_Name T t2 = tn_Name T t" using closes parts(2) by blast+
  then show ?thesis using that parts \<open>t1 = t\<close> by (simp add: session_closed)
qed

end

lemma fd_Close_closed: "fd_Close k t w = Some (w', t', r) \<Longrightarrow> fd_closed (tf_base t')"
proof (cases "fd_closed (tf_base t)")
  case True
  then show "fd_Close k t w = Some (w', t', r) \<Longrightarrow> ?thesis" by (simp add: fd_Close_def operate_closed)
next
  case False
  assume "fd_Close k t w = Some (w', t', r)"
  with False show ?thesis
    by (auto simp: fd_Close_def operate_def operate_enter_def operate_leave_def mark_closed_def Let_def
        split: prod.splits)
qed

lemma fd_Close_name: "fd_Close k t w = Some (w', t', r) \<Longrightarrow> fd_name (tf_base t') = fd_name (tf_base t)"
  by (cases "fd_closed (tf_base t)")
    (auto simp: fd_Close_def operate_def operate_enter_def operate_leave_def mark_closed_def Let_def split: prod.splits)

lemma reads_keep:
  "ReadPacket_linux k t w = Some (w', t', r) \<Longrightarrow> t' = t" "ReadPacket_darwin k t w = Some (w', t', r) \<Longrightarrow> t' = t"
  by (unfold ReadPacket_linux_def ReadPacket_darwin_def; erule operate_keeps;
      auto simp: bind_eq_Some_conv split: sum.splits; metis sum.exhaust)+

lemma writes_keep:
  "WritePacket_linux k t bs w = Some (w', t', r) \<Longrightarrow> t' = t" "WritePacket_darwin k t bs w = Some (w', t', r) \<Longrightarrow> t' = t"
  by (unfold WritePacket_linux_def WritePacket_darwin_def; erule operate_keeps; auto split: prod.splits)+

lemma interface_keeps:
  "posix_MTU os k t w = Some (w', t', r1) \<Longrightarrow> t' = t" "posix_SetMTU os k t mtu w = Some (w', t', r2) \<Longrightarrow> t' = t"
  "posix_Addresses os k t w = Some (w', t', r3) \<Longrightarrow> t' = t"
  "SetAddresses_linux k t local dest msk w = Some (w', t', r2) \<Longrightarrow> t' = t"
  "SetAddresses_darwin k t local dest msk w = Some (w', t', r2) \<Longrightarrow> t' = t"
  by (unfold posix_MTU_def posix_SetMTU_def posix_Addresses_def SetAddresses_linux_def SetAddresses_darwin_def;
      erule operate_keeps; auto simp: bind_eq_Some_conv split: if_splits)+

lemma tunnel_refuses:
  assumes "fd_closed (tf_base t)"
  shows "ReadPacket_linux k t w = Some (w, t, Inl OsErrClosed)" "ReadPacket_darwin k t w = Some (w, t, Inl OsErrClosed)"
    "WritePacket_linux k t bs w = Some (w, t, Inl OsErrClosed)" "WritePacket_darwin k t bs w = Some (w, t, Inl OsErrClosed)"
    "fd_Close k t w = Some (w, t, Inl OsErrClosed)" "posix_MTU os k t w = Some (w, t, Inl OsErrClosed)"
    "posix_SetMTU os k t mtu w = Some (w, t, Inl OsErrClosed)" "posix_Addresses os k t w = Some (w, t, Inl OsErrClosed)"
    "SetAddresses_linux k t local dest msk w = Some (w, t, Inl OsErrClosed)"
    "SetAddresses_darwin k t local dest msk w = Some (w, t, Inl OsErrClosed)"
  using assms
  by (simp_all add: fd_Close_def ReadPacket_linux_def WritePacket_linux_def ReadPacket_darwin_def WritePacket_darwin_def
      posix_MTU_def posix_SetMTU_def posix_Addresses_def SetAddresses_linux_def SetAddresses_darwin_def operate_closed)

lemma posix_refuses:
  "fd_closed (tf_base t) \<Longrightarrow> make_call (posix_tunnel os k) c t w = Some (w, t, refusal (fd_name (tf_base t)) c)"
  by (cases os; cases c) (simp_all add: make_call_def posix_tunnel_def refusal_def call_result_def tunnel_refuses)

lemma posix_keeps: "make_call (posix_tunnel os k) c t w = Some (w', t', r) \<Longrightarrow> c \<noteq> CallClose \<Longrightarrow> t' = t"
  by (cases os; cases c)
    (auto simp: make_call_def posix_tunnel_def call_result_def bind_eq_Some_conv
      dest: reads_keep writes_keep interface_keeps)

lemma posix_closes:
  "make_call (posix_tunnel os k) CallClose t w = Some (w', t', r) \<Longrightarrow>
     fd_closed (tf_base t') \<and> fd_name (tf_base t') = fd_name (tf_base t)"
  by (auto simp: make_call_def posix_tunnel_def call_result_def bind_eq_Some_conv dest: fd_Close_closed fd_Close_name)

interpretation posix_tun: packet_tunnel "posix_tunnel os k" "\<lambda>t. fd_closed (tf_base t)"
  for os and k :: "'w kernel"
proof unfold_locales
  fix t w c w' t' r
  have [simp]: "tn_Name (posix_tunnel os k) t = fd_name (tf_base t)" for t by (simp add: posix_tunnel_def)
  show "fd_closed (tf_base t) \<Longrightarrow> make_call (posix_tunnel os k) c t w = Some (w, t, refusal (tn_Name (posix_tunnel os k) t) c)"
    by (simp add: posix_refuses)
  show "make_call (posix_tunnel os k) c t w = Some (w', t', r) \<Longrightarrow> c \<noteq> CallClose \<Longrightarrow> t' = t" by (rule posix_keeps)
  show "make_call (posix_tunnel os k) CallClose t w = Some (w', t', r) \<Longrightarrow>
      fd_closed (tf_base t') \<and> tn_Name (posix_tunnel os k) t' = tn_Name (posix_tunnel os k) t"
    using posix_closes [of os k t w w' t' r] by simp
qed

section \<open>Opening and closing\<close>

lemma openTunFile_fds:
  assumes k: "kernel_fds k fds"
  shows "\<exists>w' r. openTunFile k w = Some (w', r) \<and>
    (case r of Inl err \<Rightarrow> fds w' = fds w
     | Inr t \<Rightarrow> tf_fd t \<notin> fds w \<and> fds w' = insert (tf_fd t) (fds w) \<and> fd_refCount (tf_base t) = 0 \<and>
         \<not> fd_closed (tf_base t) \<and> length (fd_name (tf_base t)) \<le> 16)"
proof -
  let ?nm = "''/dev/net/tun''"
  obtain w1 res where op: "k_open k ?nm w = (w1, res)" by (cases "k_open k ?nm w")
  show ?thesis
  proof (cases res)
    case (Inl e)
    then show ?thesis using kernel_fds_D(3) [OF k op [unfolded Inl]] op by (simp add: openTunFile_def)
  next
    case (Inr fd)
    have fd: "fd \<notin> fds w" "fds w1 = insert fd (fds w)" using kernel_fds_D(4) [OF k op [unfolded Inr]] by simp_all
    have cl: "fds (k_close k fd v) = fds w" if "fds v = fds w1" for v
      using kernel_fds_D(5) [OF k, of fd v] that fd by simp
    define q where "q = replicate 16 0 @ le16 0x1001 @ replicate 22 0"
    have q: "copy_slice (replicate 40 0) 16 18 (le16 0x1001) = Some q"
      by (simp add: q_def copy_list_def le16_def)
    obtain w2 m e2 where io2: "k_ioctl k fd 0x400454ca q w1 = (w2, m, e2)" by (cases "k_ioctl k fd 0x400454ca q w1") auto
    obtain w3 u e3 where io3: "k_ioctl k fd 0x400454cb [] w2 = (w3, u, e3)" by (cases "k_ioctl k fd 0x400454cb [] w2") auto
    have f2: "fds w2 = fds w1" "fds w3 = fds w1"
      using kernel_fds_D(7) [OF k io2] kernel_fds_D(7) [OF k io3] by simp_all
    obtain w4 fl r4 where io4: "ifreqIOCTL_linux k (tun_name m) 0x8913 [0, 0] w3 = Some (w4, fl, r4)"
      "fds w4 = fds w1" "length fl = 2"
      using ifreqIOCTL_linux_fds [OF k, of "[0, 0]" "tun_name m" "0x8913" w3] f2 by auto
    let ?fl = "[fl ! 0 OR le16 1 ! 0, fl ! 1 OR le16 1 ! 1]"
    obtain w5 fl5 r5 where io5: "ifreqIOCTL_linux k (tun_name m) 0x8914 ?fl w4 = Some (w5, fl5, r5)" "fds w5 = fds w1"
      using ifreqIOCTL_linux_fds [OF k, of ?fl "tun_name m" "0x8914" w4] io4(2) by auto
    have "length (tun_name m) \<le> 16"
      using length_takeWhile_le [of "\<lambda>x. x \<noteq> 0" "take 16 m"] by (simp add: tun_name_def)
    then show ?thesis
      using op Inr q io2 io3 io4 io5 f2 cl fd
      by (cases r4; cases r5) (simp_all add: openTunFile_def new_fdTunnelBase_def del: copy_slice_Some)
  qed
qed

lemma fd_Close_fds:
  assumes k: "kernel_fds k fds" and t: "fd_refCount (tf_base t) = 0" "\<not> fd_closed (tf_base t)"
  shows "\<exists>w' r. fd_Close k t w = Some (w', t\<lparr>tf_base := (tf_base t)\<lparr>fd_closed := True\<rparr>\<rparr>, r) \<and> fds w' = fds w - {tf_fd t}"
proof -
  obtain w1 e where sh: "k_shutdown k (tf_fd t) w = (w1, e)" by (cases "k_shutdown k (tf_fd t) w")
  have "fds (k_close k (tf_fd t) w1) = fds w - {tf_fd t}"
    using kernel_fds_D(5) [OF k] kernel_fds_D(6) [OF k sh] by simp
  moreover have "fd_refCount (tf_base t) + 1 - 1 = 0" using t(1) by simp
  ultimately show ?thesis using t sh
    by (cases t; cases "tf_base t")
      (simp add: fd_Close_def operate_def operate_enter_def operate_leave_def mark_closed_def Let_def)
qed

text \<open>On Darwin \<open>getsockopt\<close> reports the length of the name with its final zero, at most the 32 bytes that it was
  given.\<close>

definition kernel_names :: "'w kernel \<Rightarrow> bool" where
  "kernel_names k \<longleftrightarrow> (\<forall>fd l opt m w w' m' n. k_getsockopt k fd l opt m w = (w', m', n, 0) \<longrightarrow>
     length m' = length m \<and> 0 < n \<and> n \<le> length m)"

lemma openUtunSocket_fds:
  assumes k: "kernel_fds k fds" and nm: "kernel_names k"
  shows "\<exists>w' r. openUtunSocket k w = Some (w', r) \<and>
    (case r of Inl err \<Rightarrow> fds w' = fds w
     | Inr t \<Rightarrow> tf_fd t \<notin> fds w \<and> fds w' = insert (tf_fd t) (fds w) \<and> fd_refCount (tf_base t) = 0 \<and>
         \<not> fd_closed (tf_base t))"
proof -
  obtain w1 res where op: "k_socket k 32 2 2 w = (w1, res)" by (cases "k_socket k 32 2 2 w")
  show ?thesis
  proof (cases res)
    case (Inl e)
    then show ?thesis using kernel_fds_D(1) [OF k op [unfolded Inl]] op by (simp add: openUtunSocket_def)
  next
    case (Inr fd)
    have fd: "fd \<notin> fds w" "fds w1 = insert fd (fds w)" using kernel_fds_D(2) [OF k op [unfolded Inr]] by simp_all
    have cl: "fds (k_close k fd v) = fds w" if "fds v = fds w1" for v
      using kernel_fds_D(5) [OF k, of fd v] that fd by simp
    define q :: bytes where "q = replicate 4 0 @ copy_list (replicate 124 0) (map of_char ''com.apple.net.utun_control'')"
    have q: "copy_slice (replicate 128 0) 4 128 (map of_char ''com.apple.net.utun_control'') = Some q" "length q = 128"
      by (simp_all add: q_def)
    obtain w2 m e2 where io2: "k_ioctl k fd 0xc0644e03 q w1 = (w2, m, e2)" by (cases "k_ioctl k fd 0xc0644e03 q w1") auto
    have f2: "fds w2 = fds w1" "length m = 128" using kernel_fds_D(7) [OF k io2] q(2) by simp_all
    define a where "a = [32, 32, 2, 0] @ copy_list (replicate 28 0) (take 4 m)"
    have a: "copy_slice ([32, 32, 2] @ replicate 29 0) 4 32 (take 4 m) = Some a"
      by (simp add: a_def)
    obtain w3 e3 where io3: "k_connect k fd a w2 = (w3, e3)" by (cases "k_connect k fd a w2")
    have f3: "fds w3 = fds w1" using kernel_fds_D(9) [OF k io3] f2 by simp
    obtain w4 nd n e4 where io4: "k_getsockopt k fd 2 2 (replicate 32 0) w3 = (w4, nd, n, e4)"
      by (cases "k_getsockopt k fd 2 2 (replicate 32 0) w3") auto
    have f4: "fds w4 = fds w1" using kernel_fds_D(8) [OF k io4] f3 by simp
    have n: "length nd = 32 \<and> 0 < n \<and> n \<le> 32" if "e4 = 0"
      using nm io4 that unfolding kernel_names_def by fastforce
    note facts = op Inr q a io2 io3 io4 f2 f3 f4 cl fd
    note defs = openUtunSocket_def getControlID_def connectToControl_def errno_result_def close_on_error_def
      new_fdTunnelBase_def
    show ?thesis
    proof (cases "e4 = 0")
      case True
      then have "slice nd 0 (n - 1) = Some (take (n - 1) nd)" "n \<noteq> 0" using n by auto
      then show ?thesis using facts True by (simp add: defs del: copy_slice_Some)
    next
      case False
      then show ?thesis using facts by (simp add: defs del: copy_slice_Some)
    qed
  qed
qed

lemma MakeTunnel_fds:
  assumes "kernel_fds k fds" and "kernel_names k"
  shows "\<exists>w' r. MakeTunnel os k w = Some (w', r) \<and>
    (case r of Inl err \<Rightarrow> fds w' = fds w
     | Inr t \<Rightarrow> tf_fd t \<notin> fds w \<and> fds w' = insert (tf_fd t) (fds w) \<and> fd_refCount (tf_base t) = 0 \<and>
         \<not> fd_closed (tf_base t))"
proof (cases os)
  case Linux
  obtain w' r where "openTunFile k w = Some (w', r)"
    "case r of Inl err \<Rightarrow> fds w' = fds w
     | Inr t \<Rightarrow> tf_fd t \<notin> fds w \<and> fds w' = insert (tf_fd t) (fds w) \<and> fd_refCount (tf_base t) = 0 \<and>
         \<not> fd_closed (tf_base t) \<and> length (fd_name (tf_base t)) \<le> 16"
    using openTunFile_fds [OF assms(1)] by blast
  then show ?thesis using Linux
    by (intro exI [of _ w'] exI [of _ r]) (auto simp: MakeTunnel_def split: sum.splits)
next
  case Darwin
  then show ?thesis using openUtunSocket_fds [OF assms, of w] by (simp add: MakeTunnel_def)
qed

text \<open>C33: Opening a tunnel, on either system, gives back exactly one new descriptor when it succeeds, and none when
  it fails at any of its requests; \<open>Close\<close> gives it back, and every later call of any method but \<open>Name\<close> is
  refused without a system call.\<close>

theorem tunnel_open_close:
  assumes k: "kernel_fds k fds" "kernel_names k"
  shows "\<exists>w1 r. MakeTunnel os k w = Some (w1, r) \<and>
    (case r of Inl err \<Rightarrow> fds w1 = fds w
     | Inr t \<Rightarrow> tf_fd t \<notin> fds w \<and> fds w1 = insert (tf_fd t) (fds w) \<and>
         (\<exists>w2 t2 r2. fd_Close k t w1 = Some (w2, t2, r2) \<and> fds w2 = fds w \<and>
            (\<forall>v. fd_Close k t2 v = Some (v, t2, Inl OsErrClosed) \<and>
              ReadPacket_linux k t2 v = Some (v, t2, Inl OsErrClosed) \<and>
              ReadPacket_darwin k t2 v = Some (v, t2, Inl OsErrClosed) \<and>
              (\<forall>buffer. WritePacket_linux k t2 buffer v = Some (v, t2, Inl OsErrClosed) \<and>
                 WritePacket_darwin k t2 buffer v = Some (v, t2, Inl OsErrClosed)) \<and>
              (\<forall>os. posix_MTU os k t2 v = Some (v, t2, Inl OsErrClosed) \<and>
                 (\<forall>mtu. posix_SetMTU os k t2 mtu v = Some (v, t2, Inl OsErrClosed)) \<and>
                 posix_Addresses os k t2 v = Some (v, t2, Inl OsErrClosed)) \<and>
              (\<forall>local dest msk. SetAddresses_linux k t2 local dest msk v = Some (v, t2, Inl OsErrClosed) \<and>
                 SetAddresses_darwin k t2 local dest msk v = Some (v, t2, Inl OsErrClosed)))))"
proof -
  obtain w1 r where open1: "MakeTunnel os k w = Some (w1, r)"
    "case r of Inl err \<Rightarrow> fds w1 = fds w
     | Inr t \<Rightarrow> tf_fd t \<notin> fds w \<and> fds w1 = insert (tf_fd t) (fds w) \<and> fd_refCount (tf_base t) = 0 \<and>
         \<not> fd_closed (tf_base t)"
    using MakeTunnel_fds [OF k] by blast
  show ?thesis
  proof (cases r)
    case (Inr t)
    let ?t2 = "t\<lparr>tf_base := (tf_base t)\<lparr>fd_closed := True\<rparr>\<rparr>"
    obtain w2 r2 where "fd_Close k t w1 = Some (w2, ?t2, r2)" "fds w2 = fds w1 - {tf_fd t}"
      using fd_Close_fds [OF k(1), of t w1] open1(2) Inr by auto
    moreover have "fd_closed (tf_base ?t2)" by simp
    note tunnel_refuses [OF this]
    ultimately show ?thesis using open1 Inr by auto
  qed (use open1 in simp)
qed

lemma sample_kernel_names: "kernel_names sample_kernel"
  by (auto simp: kernel_names_def sample_kernel_def)

theorem tunnel_open_close_witness:
  "\<exists>w1 t w2 t2 r2. openTunFile sample_kernel sample_world = Some (w1, Inr t) \<and>
     fd_Close sample_kernel t w1 = Some (w2, t2, r2) \<and> set (w_fds w2) = {3}"
proof -
  have io: "\<exists>u v. ifreqIOCTL_linux sample_kernel name r req w = Some (u, v, Inr ()) \<and> length v = length req"
    if "length req \<le> 24" for name r req w
    using that
    by (auto simp: ifreqIOCTL_linux_def sample_kernel_def new_fd_def Let_def sample_ioctl_def errno_result_def
        split: option.split)
  have "snd (the (openTunFile sample_kernel sample_world)) \<in> range Inr"
  proof -
    have op: "k_open sample_kernel s w = new_fd w" for s w by (simp add: sample_kernel_def)
    obtain w1 fd where fd: "new_fd sample_world = (w1, Inr fd)" by (simp add: new_fd_def Let_def)
    have q: "\<exists>q. copy_slice (replicate 40 0) 16 18 (le16 0x1001) = Some q" by simp
    then obtain q where q: "copy_slice (replicate 40 0) 16 18 (le16 0x1001) = Some q" by blast
    have ks: "k_ioctl sample_kernel fd r m w = (w, m, 0)" if "r \<in> {0x400454ca, 0x400454cb}" for fd r m w
      using that by (auto simp: sample_kernel_def sample_ioctl_def store_slot_def load_slot_def)
    obtain w4 fl where io4: "ifreqIOCTL_linux sample_kernel (tun_name q) 0x8913 [0, 0] w1 = Some (w4, fl, Inr ())"
      "length fl = 2"
      using io [of "[0, 0]" "tun_name q" "0x8913" w1] by auto
    obtain w5 fl5 where io5: "ifreqIOCTL_linux sample_kernel (tun_name q) 0x8914
        [fl ! 0 OR le16 1 ! 0, fl ! 1 OR le16 1 ! 1] w4 = Some (w5, fl5, Inr ())"
      using io [of "[fl ! 0 OR le16 1 ! 0, fl ! 1 OR le16 1 ! 1]" "tun_name q" "0x8914" w4] by auto
    show ?thesis using io4 io5 q fd by (simp add: openTunFile_def op ks del: copy_slice_Some)
  qed
  then show ?thesis
    using tunnel_open_close [OF sample_kernel_fds sample_kernel_names, where os = Linux and w = sample_world]
    by (auto simp: sample_world_def MakeTunnel_def)
qed

text \<open>C35: A session with a tunnel on either system, calls of all the methods of the interface in any order: up to
  the first \<open>Close\<close> no call changes the tunnel, and behind it every call but \<open>Name\<close>, which still gives the
  name, is refused and the system is as \<open>Close\<close> has left it.\<close>

theorem tunnel_sessions:
  assumes "tunnel_session_of (posix_tunnel os k) (cs @ CallClose # ds) t w = Some (w', t', rs)"
    and "CallClose \<notin> set cs"
  shows "fd_closed (tf_base t') \<and>
    (\<exists>w1 rs1 r. tunnel_session_of (posix_tunnel os k) cs t w = Some (w1, t, rs1) \<and>
       fd_Close k t w1 = Some (w', t', r) \<and>
       rs = rs1 @ (case r of Inl err \<Rightarrow> ResErr err | Inr _ \<Rightarrow> ResOk) #
         map (\<lambda>c. if c = CallName then ResName (fd_name (tf_base t)) else ResErr OsErrClosed) ds)"
proof -
  obtain w1 rs1 r where run: "tunnel_session_of (posix_tunnel os k) cs t w = Some (w1, t, rs1)"
    "make_call (posix_tunnel os k) CallClose t w1 = Some (w', t', r)" "fd_closed (tf_base t')"
    "rs = rs1 @ r # map (refusal (tn_Name (posix_tunnel os k) t)) ds"
    by (rule posix_tun.session_close [OF assms])
  obtain r' where "fd_Close k t w1 = Some (w', t', r')" "r = (case r' of Inl err \<Rightarrow> ResErr err | Inr _ \<Rightarrow> ResOk)"
    using run(2) by (auto simp: make_call_def posix_tunnel_def call_result_def bind_eq_Some_conv)
  then show ?thesis using run by (auto simp: refusal_def posix_tunnel_def)
qed

text \<open>A packet is read, the MTU set; after \<open>Close\<close> only the name is left.\<close>

theorem tunnel_sessions_witness:
  "\<exists>w' t' rs. tunnel_session_of (posix_tunnel Linux sample_kernel)
       [CallRead, CallSetMTU 1500, CallClose, CallMTU, CallName] sample_tunnel sample_world = Some (w', t', rs) \<and>
     fd_closed (tf_base t') \<and>
     rs = [ResPacket [0, 0, 0, 2, 69], ResOk, ResOk, ResErr OsErrClosed, ResName [116, 117, 110, 48]]"
proof -
  let ?w1 = "sample_world\<lparr>w_reads := [Inr []]\<rparr>"
  have "read_loop sample_kernel 3 sample_world = Some (?w1, Inr [0, 0, 0, 2, 69])"
    by (simp add: read_loop.simps sample_kernel_def sample_read_def sample_world_def)
  then have read: "ReadPacket_linux sample_kernel sample_tunnel sample_world = Some (?w1, sample_tunnel, Inr [0, 0, 0, 2, 69])"
    unfolding ReadPacket_linux_def by (intro operate_open) (simp_all add: sample_tunnel_def new_fdTunnelBase_def)
  have "map_option snd (posix_SetMTU Linux sample_kernel sample_tunnel 1500 ?w1) = Some (sample_tunnel, Inr ())"
    by code_simp
  then obtain w2 where set: "posix_SetMTU Linux sample_kernel sample_tunnel 1500 ?w1 = Some (w2, sample_tunnel, Inr ())"
    by auto
  obtain w3 t3 where cl: "fd_Close sample_kernel sample_tunnel w2 = Some (w3, t3, Inr ())" "fd_closed (tf_base t3)"
    "fd_name (tf_base t3) = [116, 117, 110, 48]"
    by (simp add: fd_Close_def operate_def operate_enter_def operate_leave_def sample_tunnel_def new_fdTunnelBase_def
        mark_closed_def errno_result_def) (simp add: sample_kernel_def)
  have run: "tunnel_session_of (posix_tunnel Linux sample_kernel)
       ([CallRead, CallSetMTU 1500] @ CallClose # [CallMTU, CallName]) sample_tunnel sample_world = Some (w3, t3,
         [ResPacket [0, 0, 0, 2, 69], ResOk, ResOk, ResErr OsErrClosed, ResName [116, 117, 110, 48]])"
    using read set cl
    by (simp add: make_call_def posix_tunnel_def call_result_def tunnel_refuses)
  from tunnel_sessions [OF run] show ?thesis using run by auto
qed

section \<open>The MTU\<close>

text \<open>What the kernel keeps for an interface, which it finds by the 16 bytes of its name: a request that
  succeeds stores the four bytes after the name or writes them there.\<close>

definition kernel_mtu :: "os \<Rightarrow> 'w kernel \<Rightarrow> ('w \<Rightarrow> bytes \<Rightarrow> u32) \<Rightarrow> bool" where
  "kernel_mtu os k mtu \<longleftrightarrow>
     (\<forall>w d ty p. mtu (fst (k_socket k d ty p w)) = mtu w) \<and> (\<forall>w fd. mtu (k_close k fd w) = mtu w) \<and>
     (\<forall>w fd m w' m'. 20 \<le> length m \<longrightarrow> k_ioctl k fd (SIOCSIFMTU os) m w = (w', m', 0) \<longrightarrow>
        mtu w' (take 16 m) = get_le32 (take 4 (drop 16 m))) \<and>
     (\<forall>w fd m w' m'. 20 \<le> length m \<longrightarrow> k_ioctl k fd (SIOCGIFMTU os) m w = (w', m', 0) \<longrightarrow>
        get_le32 (take 4 (drop 16 m')) = mtu w (take 16 m))"

lemma not_Inr_unit: "b \<noteq> Inr () \<longleftrightarrow> (\<exists>e. b = Inl e)" "(\<forall>e. c \<noteq> Inl e) \<longleftrightarrow> c = Inr ()"
  by (cases b; simp) (cases c; simp)

lemma case_eq_Inr:
  "(case b of Inl e \<Rightarrow> Inl e | Inr x \<Rightarrow> Inr (g x)) = Inr y \<longleftrightarrow> (\<exists>x. b = Inr x \<and> y = g x)"
  by (cases b) auto

lemma take_copy_list: "n \<le> length to \<Longrightarrow> n \<le> length src \<Longrightarrow> take n (copy_list to src) = take n src"
  by (simp add: copy_list_def)

lemma operate_ok:
  assumes "operate k t fu w = Some (w', t', Inr x)"
    and "\<And>f w1 f1 r1. fu f w = Some (w1, f1, r1) \<Longrightarrow> f1 = f"
  obtains "\<not> fd_closed (tf_base t)" "t' = t"
    "fu ((tf_base t)\<lparr>fd_refCount := fd_refCount (tf_base t) + 1\<rparr>) w =
       Some (w', (tf_base t)\<lparr>fd_refCount := fd_refCount (tf_base t) + 1\<rparr>, Inr x)"
proof -
  let ?f = "(tf_base t)\<lparr>fd_refCount := fd_refCount (tf_base t) + 1\<rparr>"
  have op: "\<not> fd_closed (tf_base t)" using assms(1) by (auto simp: operate_closed)
  then obtain w1 f1 r1 where fu: "fu ?f w = Some (w1, f1, r1)"
    using assms(1) by (cases "fu ?f w") (auto simp: operate_def operate_enter_def)
  then have "f1 = ?f" by (rule assms(2))
  then have "operate k t fu w = Some (w1, t, r1)" using operate_open [OF op, of fu w w1 r1 k] fu by simp
  then show ?thesis using assms(1) fu \<open>f1 = ?f\<close> op that by simp
qed

text \<open>An MTU that \<open>SetMTU\<close> has set is what \<open>MTU\<close> returns, modulo \<open>2 ^ 32\<close>: the request carries the name
  of the interface and the number in the places where the kernel reads and writes them.\<close>

theorem mtu_roundtrip:
  assumes k: "kernel_fds k fds" "kernel_mtu os k mtu" and len: "length (fd_name (tf_base t)) \<le> 16"
    and set_ok: "posix_SetMTU os k t n w = Some (w1, t1, Inr ())"
  shows "\<exists>w2 r. posix_MTU os k t1 w1 = Some (w2, t1, r) \<and> (\<forall>m. r = Inr m \<longrightarrow> m = n mod 2 ^ 32)"
proof -
  define nm where "nm = fd_name (tf_base t)"
  define N where "N = copy_list (replicate 16 (0 :: byte)) nm"
  have closes: "mtu (fst (k_socket k d ty p v)) = mtu v" "mtu (k_close k fd v) = mtu v" for d ty p fd v
    using k(2) by (simp_all add: kernel_mtu_def)
  obtain b where t1: "t1 = t" and op: "\<not> fd_closed (tf_base t)"
    and set_run: "ifreqIOCTL os k nm (SIOCSIFMTU os) (le32 (word_of_int n)) w = Some (w1, b, Inr ())"
    using set_ok unfolding posix_SetMTU_def
    by (rule operate_ok) (auto simp: bind_eq_Some_conv nm_def)
  obtain v1 s m v2 m' where st: "k_ioctl k s (SIOCSIFMTU os) m v1 = (v2, m', 0)" "take 16 m = N"
    "take (length (le32 (word_of_int n))) (drop 16 m) = le32 (word_of_int n)"
    "16 + length (le32 (word_of_int n)) \<le> length m" "w1 = k_close k s v2"
    by (rule ifreqIOCTL_ok [OF k(1) _ _ set_run]) (use len in \<open>auto simp: N_def nm_def\<close>)
  have "20 \<le> length m" using st(4) by simp
  then have "mtu v2 (take 16 m) = get_le32 (take 4 (drop 16 m))"
    using k(2) st(1) unfolding kernel_mtu_def by blast
  then have stored: "mtu w1 N = word_of_int n" using st(2,3,5) by (simp add: closes)
  obtain w2 r where get: "posix_MTU os k t w1 = Some (w2, t, r)"
    using tunnel_MTU_returns [OF k(1), of os t w1] by blast
  moreover have "x = n mod 2 ^ 32" if r: "r = Inr x" for x
  proof -
    obtain b2 where get_run: "ifreqIOCTL os k nm (SIOCGIFMTU os) (replicate 4 0) w1 = Some (w2, b2, Inr ())"
      "x = uint (get_le32 b2)"
      using get [unfolded posix_MTU_def r]
      by (rule operate_ok) (auto simp: bind_eq_Some_conv nm_def not_Inr_unit split: sum.splits)
    obtain u1 s2 m2 u2 m2' where gt: "k_socket k 2 2 0 w1 = (u1, Inr s2)"
      "k_ioctl k s2 (SIOCGIFMTU os) m2 u1 = (u2, m2', 0)" "take 16 m2 = N"
      "16 + length (replicate 4 (0 :: byte)) \<le> length m2" "b2 = take (length (replicate 4 (0 :: byte))) (drop 16 m2')"
      by (rule ifreqIOCTL_ok [OF k(1) _ _ get_run(1)]) (use len in \<open>auto simp: N_def nm_def\<close>)
    have "20 \<le> length m2" using gt(4) by simp
    then have "get_le32 (take 4 (drop 16 m2')) = mtu u1 (take 16 m2)"
      using k(2) gt(2) unfolding kernel_mtu_def by blast
    moreover have "mtu u1 = mtu w1" using closes(1) [of 2 2 0 w1] gt(1) by simp
    ultimately show ?thesis using gt(3,5) stored get_run(2) by (simp add: unsigned_of_int take_bit_eq_mod)
  qed
  ultimately show ?thesis using t1 by blast
qed

theorem mtu_roundtrip_witness:
  "\<exists>w1. posix_SetMTU Linux sample_kernel sample_tunnel 1500 sample_world = Some (w1, sample_tunnel, Inr ()) \<and>
     (\<exists>w2 r. posix_MTU Linux sample_kernel sample_tunnel w1 = Some (w2, sample_tunnel, r) \<and>
        (\<forall>m. r = Inr m \<longrightarrow> m = 1500))"
proof -
  have k: "kernel_mtu Linux sample_kernel (\<lambda>w name. get_le32 (take 4 (w_slots w name 0 @ replicate 16 0)))"
    by (auto simp: kernel_mtu_def sample_kernel_def new_fd_def Let_def sample_ioctl_def store_slot_def load_slot_def
        SIOCSIFMTU_def SIOCGIFMTU_def take_copy_list)
  have "map_option snd (posix_SetMTU Linux sample_kernel sample_tunnel 1500 sample_world) =
      Some (sample_tunnel, Inr ())"
    by code_simp
  then obtain w1 where "posix_SetMTU Linux sample_kernel sample_tunnel 1500 sample_world =
      Some (w1, sample_tunnel, Inr ())"
    by auto
  then show ?thesis
    using mtu_roundtrip [OF sample_kernel_fds k, where t = sample_tunnel and n = 1500 and w = sample_world]
    by (auto simp: sample_tunnel_def new_fdTunnelBase_def)
qed

section \<open>Addresses\<close>

text \<open>The addresses of an interface, as the kernel documents its requests: the local address (number 0) is set with
  \<open>SIOCSIFADDR\<close> (\<open>0x8916\<close>) and read with \<open>SIOCGIFADDR\<close> (\<open>0x8915\<close>), that of the destination (1) with
  \<open>SIOCSIFDSTADDR\<close> (\<open>0x8918\<close>) and \<open>SIOCGIFDSTADDR\<close> (\<open>0x8917\<close>), the mask (2) with \<open>SIOCSIFNETMASK\<close>
  (\<open>0x891c\<close>) and \<open>SIOCGIFNETMASK\<close> (\<open>0x891b\<close>).  A request has the name in 16 bytes, then a socket
  address, whose bytes 4 to 8 the kernel keeps.  A new local address may change the other two; a new
  destination leaves the local address, and a new mask both.\<close>

definition kernel_addrs :: "'w kernel \<Rightarrow> ('w \<Rightarrow> bytes \<Rightarrow> nat \<Rightarrow> bytes) \<Rightarrow> bool" where
  "kernel_addrs k addrs \<longleftrightarrow>
     (\<forall>w d ty p. addrs (fst (k_socket k d ty p w)) = addrs w) \<and> (\<forall>w fd. addrs (k_close k fd w) = addrs w) \<and>
     (\<forall>w fd m w' m'. 32 \<le> length m \<longrightarrow>
        (k_ioctl k fd 0x8916 m w = (w', m', 0) \<longrightarrow> addrs w' (take 16 m) 0 = take 4 (drop 20 m)) \<and>
        (k_ioctl k fd 0x8918 m w = (w', m', 0) \<longrightarrow> addrs w' (take 16 m) 1 = take 4 (drop 20 m) \<and>
           addrs w' (take 16 m) 0 = addrs w (take 16 m) 0) \<and>
        (k_ioctl k fd 0x891c m w = (w', m', 0) \<longrightarrow> addrs w' (take 16 m) 2 = take 4 (drop 20 m) \<and>
           addrs w' (take 16 m) 0 = addrs w (take 16 m) 0 \<and> addrs w' (take 16 m) 1 = addrs w (take 16 m) 1) \<and>
        (k_ioctl k fd 0x8915 m w = (w', m', 0) \<longrightarrow> addrs w' = addrs w \<and> take 4 (drop 20 m') = addrs w (take 16 m) 0) \<and>
        (k_ioctl k fd 0x8917 m w = (w', m', 0) \<longrightarrow> addrs w' = addrs w \<and> take 4 (drop 20 m') = addrs w (take 16 m) 1) \<and>
        (k_ioctl k fd 0x891b m w = (w', m', 0) \<longrightarrow> addrs w' = addrs w \<and> take 4 (drop 20 m') = addrs w (take 16 m) 2))"

text \<open>\<open>up w name\<close>: the interface is there and the process may open a socket; then its addresses can be read.\<close>

definition kernel_answers :: "'w kernel \<Rightarrow> ('w \<Rightarrow> bytes \<Rightarrow> bool) \<Rightarrow> bool" where
  "kernel_answers k up \<longleftrightarrow>
     (\<forall>w name. up w name \<longrightarrow> (\<exists>w' fd. k_socket k 2 2 0 w = (w', Inr fd) \<and> up w' name)) \<and>
     (\<forall>w fd name. up w name \<longrightarrow> up (k_close k fd w) name) \<and>
     (\<forall>w fd m r. 32 \<le> length m \<longrightarrow> up w (take 16 m) \<longrightarrow> r \<in> {0x8915, 0x8917, 0x891b} \<longrightarrow>
        (\<exists>w' m'. k_ioctl k fd r m w = (w', m', 0) \<and> up w' (take 16 m)))"

lemma kernel_addrs_D:
  assumes k: "kernel_addrs k addrs" and i: "i < 3" and l: "32 \<le> length m"
  shows "k_ioctl k fd (set_addr_ioctls ! i) m w = (w', m', 0) \<Longrightarrow>
      addrs w' (take 16 m) i = take 4 (drop 20 m) \<and> (\<forall>j < i. addrs w' (take 16 m) j = addrs w (take 16 m) j)"
    and "k_ioctl k fd (get_addr_ioctls Linux ! i) m w = (w', m', 0) \<Longrightarrow>
      addrs w' = addrs w \<and> take 4 (drop 20 m') = addrs w (take 16 m) i"
proof -
  consider "i = 0" | "i = 1" | "i = 2" using i by linarith
  then have "(k_ioctl k fd (set_addr_ioctls ! i) m w = (w', m', 0) \<longrightarrow>
      addrs w' (take 16 m) i = take 4 (drop 20 m) \<and> (\<forall>j < i. addrs w' (take 16 m) j = addrs w (take 16 m) j)) \<and>
    (k_ioctl k fd (get_addr_ioctls Linux ! i) m w = (w', m', 0) \<longrightarrow>
      addrs w' = addrs w \<and> take 4 (drop 20 m') = addrs w (take 16 m) i)"
    by cases (use k l in \<open>auto simp: kernel_addrs_def set_addr_ioctls_def get_addr_ioctls_def less_2_cases_iff\<close>)
  then show "k_ioctl k fd (set_addr_ioctls ! i) m w = (w', m', 0) \<Longrightarrow>
      addrs w' (take 16 m) i = take 4 (drop 20 m) \<and> (\<forall>j < i. addrs w' (take 16 m) j = addrs w (take 16 m) j)"
    "k_ioctl k fd (get_addr_ioctls Linux ! i) m w = (w', m', 0) \<Longrightarrow>
      addrs w' = addrs w \<and> take 4 (drop 20 m') = addrs w (take 16 m) i"
    by blast+
qed

lemma set_address_ok:
  assumes k: "kernel_fds k fds" "kernel_addrs k addrs" and len: "length nm \<le> 16" and i: "i < 3"
    and pack: "packSockaddr4_linux a 0 = Some s"
    and run: "ifreqIOCTL_linux k nm (set_addr_ioctls ! i) s w = Some (w1, b, Inr ())"
  shows "To4 a = Some (addrs w1 (copy_list (replicate 16 0) nm) i)"
    and "j < i \<Longrightarrow> addrs w1 (copy_list (replicate 16 0) nm) j = addrs w (copy_list (replicate 16 0) nm) j"
proof -
  have ls: "length s = 16" using pack pack_length by blast
  obtain v1 q m v2 m' where st: "k_socket k 2 2 0 w = (v1, Inr q)"
    "k_ioctl k q (set_addr_ioctls ! i) m v1 = (v2, m', 0)" "take 16 m = copy_list (replicate 16 0) nm"
    "take (length s) (drop 16 m) = s" "16 + length s \<le> length m" "w1 = k_close k q v2"
    by (rule ifreqIOCTL_ok [OF k(1) len, of s Linux "set_addr_ioctls ! i" w w1 b])
      (use run ls in \<open>auto simp: ifreqIOCTL_def\<close>)
  have "32 \<le> length m" using st(5) ls by simp
  then have "addrs v2 (take 16 m) i = take 4 (drop 20 m) \<and>
      (\<forall>j < i. addrs v2 (take 16 m) j = addrs v1 (take 16 m) j)"
    using kernel_addrs_D [OF k(2) i] st(2) by blast
  moreover have "addrs w1 = addrs v2" using k(2) st(6) by (simp add: kernel_addrs_def)
  moreover have "addrs (fst (k_socket k 2 2 0 w)) = addrs w" using k(2) by (simp add: kernel_addrs_def)
  then have "addrs v1 = addrs w" using st(1) by simp
  moreover have "take 4 (drop 20 m) = take 4 (drop 4 s)"
    by (subst st(4) [symmetric]) (simp add: ls drop_take)
  moreover obtain ip where "To4 a = Some ip" using pack by (auto simp: packSockaddr4_linux_def bind_eq_Some_conv)
  moreover from this have "take 4 (drop 4 s) = ip"
    using pack To4_length [of a ip] by (auto simp: packSockaddr4_linux_def Let_def le16_def)
  ultimately show "To4 a = Some (addrs w1 (copy_list (replicate 16 0) nm) i)"
    "j < i \<Longrightarrow> addrs w1 (copy_list (replicate 16 0) nm) j = addrs w (copy_list (replicate 16 0) nm) j"
    using st(3) by simp_all
qed

lemma get_address_ok:
  assumes k: "kernel_fds k fds" "kernel_addrs k addrs" and len: "length nm \<le> 16" and i: "i < 3"
    and ls: "length s = 16"
    and run: "ifreqIOCTL Linux k nm (get_addr_ioctls Linux ! i) s w = Some (w1, b, Inr ())"
  shows "addrs w1 = addrs w" and "\<exists>p. unpackSockaddr4 b = Some (addrs w (copy_list (replicate 16 0) nm) i, p)"
proof -
  obtain v1 q m v2 m' where st: "k_socket k 2 2 0 w = (v1, Inr q)"
    "k_ioctl k q (get_addr_ioctls Linux ! i) m v1 = (v2, m', 0)" "take 16 m = copy_list (replicate 16 0) nm"
    "length m' = length m" "16 + length s \<le> length m" "w1 = k_close k q v2" "b = take (length s) (drop 16 m')"
    by (rule ifreqIOCTL_ok [OF k(1) len, of s Linux "get_addr_ioctls Linux ! i" w w1 b])
      (use run ls in auto)
  have l: "32 \<le> length m" using st(5) ls by simp
  then have "addrs v2 = addrs v1 \<and> take 4 (drop 20 m') = addrs v1 (take 16 m) i"
    using kernel_addrs_D [OF k(2) i] st(2) by blast
  moreover have "addrs w1 = addrs v2" using k(2) st(6) by (simp add: kernel_addrs_def)
  moreover have "addrs (fst (k_socket k 2 2 0 w)) = addrs w" using k(2) by (simp add: kernel_addrs_def)
  then have "addrs v1 = addrs w" using st(1) by simp
  moreover have "unpackSockaddr4 b = Some (take 4 (drop 20 m'), uint (be16 (b ! 2) (b ! 3)))"
    using l ls st(4,7) by (simp add: unpackSockaddr4_def Let_def drop_take)
  ultimately show "addrs w1 = addrs w"
    "\<exists>p. unpackSockaddr4 b = Some (addrs w (copy_list (replicate 16 0) nm) i, p)"
    using st(3) by simp_all
qed

lemma get_addresses_answers:
  assumes k: "kernel_fds k fds" "kernel_answers k up" and len: "length nm \<le> 16"
  shows "up w (copy_list (replicate 16 0) nm) \<Longrightarrow> set ios \<subseteq> set (get_addr_ioctls Linux) \<Longrightarrow>
    \<exists>w' ips. get_addresses Linux k nm ios w = Some (w', Inr ips)"
proof (induction ios arbitrary: w)
  case (Cons io ios)
  define N where "N = copy_list (replicate 16 (0 :: byte)) nm"
  obtain s where s: "packSockaddr4 Linux IPv4zero 0 = Some s" "length s = 16"
    using packSockaddr4_total [of IPv4zero Linux 0] by auto
  obtain m where m: "take 16 m = N" "16 + length s \<le> length m" and eq: "\<And>w. ifreqIOCTL Linux k nm io s w =
     (case k_socket k 2 2 0 w of
        (w, Inl err) \<Rightarrow> Some (w, s, Inl (Errno err))
      | (w, Inr sock) \<Rightarrow> do {
          let (w, ifreq, sysErr) = k_ioctl k sock io m w;
          back \<leftarrow> slice_from ifreq 16;
          Some (k_close k sock w, copy_list s back, errno_result sysErr)
        })"
    by (rule ifreqIOCTL_eq [OF len, of s Linux k io]) (use s in \<open>auto simp: N_def\<close>)
  have up: "up w N" using Cons.prems(1) by (simp add: N_def)
  obtain w1 sock where sock: "k_socket k 2 2 0 w = (w1, Inr sock)" "up w1 N"
    using k(2) up unfolding kernel_answers_def by metis
  have io: "io \<in> {0x8915, 0x8917, 0x891b}" and l: "32 \<le> length m"
    using Cons.prems(2) m(2) s(2) by (auto simp: get_addr_ioctls_def)
  obtain w2 m' where call: "k_ioctl k sock io m w1 = (w2, m', 0)" "up w2 N"
    using k(2) sock(2) io l m(1) unfolding kernel_answers_def by metis
  have "length m' = length m" using kernel_fds_D(7) [OF k(1) call(1)] by simp
  then obtain b where run: "ifreqIOCTL Linux k nm io s w = Some (k_close k sock w2, b, Inr ())" "length b = 16"
    using s(2) l sock(1) call(1) by (simp add: eq errno_result_def)
  obtain ip p where ip: "unpackSockaddr4 b = Some (ip, p)" using run(2) by (simp add: unpackSockaddr4_def Let_def)
  have "up (k_close k sock w2) N" using k(2) call(2) by (simp add: kernel_answers_def)
  then obtain w' ips where "get_addresses Linux k nm ios (k_close k sock w2) = Some (w', Inr ips)"
    using Cons.IH [of "k_close k sock w2"] Cons.prems(2) by (auto simp: N_def)
  then show ?case using s(1) run(1) ip by simp
qed simp

lemma set_addresses_ok:
  assumes k: "kernel_fds k fds" "kernel_addrs k addrs" and len: "length nm \<le> 16"
    and N: "N = copy_list (replicate 16 0) nm"
  shows "set_addresses k nm (zip (drop i set_addr_ioctls) as) w = Some (w', Inr ()) \<Longrightarrow> i + length as = 3 \<Longrightarrow>
    (\<forall>j < length as. To4 (as ! j) = Some (addrs w' N (i + j))) \<and> (\<forall>j < i. addrs w' N j = addrs w N j)"
proof (induction as arbitrary: i w)
  case (Cons a as)
  have i: "i < 3" using Cons.prems(2) by simp
  then have d: "drop i set_addr_ioctls = (set_addr_ioctls ! i) # drop (Suc i) set_addr_ioctls"
    by (intro Cons_nth_drop_Suc [symmetric]) (simp add: set_addr_ioctls_def)
  obtain s w1 b where step: "packSockaddr4_linux a 0 = Some s"
    "ifreqIOCTL_linux k nm (set_addr_ioctls ! i) s w = Some (w1, b, Inr ())"
    "set_addresses k nm (zip (drop (Suc i) set_addr_ioctls) as) w1 = Some (w', Inr ())"
    using Cons.prems(1) by (auto simp: d bind_eq_Some_conv not_Inr_unit split: sum.splits)
  have rest: "(\<forall>j < length as. To4 (as ! j) = Some (addrs w' N (Suc i + j))) \<and>
      (\<forall>j < Suc i. addrs w' N j = addrs w1 N j)"
    by (rule Cons.IH) (use step(3) Cons.prems(2) in auto)
  have here: "To4 a = Some (addrs w1 N i)" "\<And>j. j < i \<Longrightarrow> addrs w1 N j = addrs w N j"
    using set_address_ok [OF k len i step(1,2)] by (auto simp: N)
  show ?case
  proof (intro conjI allI impI)
    fix j
    assume "j < length (a # as)"
    then show "To4 ((a # as) ! j) = Some (addrs w' N (i + j))" using rest here by (cases j) auto
  qed (use rest here in auto)
qed simp

lemma get_addresses_ok:
  assumes k: "kernel_fds k fds" "kernel_addrs k addrs" and len: "length nm \<le> 16"
    and N: "N = copy_list (replicate 16 0) nm"
  shows "get_addresses Linux k nm (drop i (get_addr_ioctls Linux)) w = Some (w', Inr ips) \<Longrightarrow>
    ips = map (addrs w N) [i..<3]"
proof (induction "3 - i" arbitrary: i w ips)
  case 0
  then show ?case by (simp add: get_addr_ioctls_def)
next
  case (Suc n)
  have i: "i < 3" using Suc.hyps(2) by simp
  then have d: "drop i (get_addr_ioctls Linux) = (get_addr_ioctls Linux ! i) # drop (Suc i) (get_addr_ioctls Linux)"
    by (intro Cons_nth_drop_Suc [symmetric]) (simp add: get_addr_ioctls_def)
  obtain s w1 b ip p rest where step: "packSockaddr4 Linux IPv4zero 0 = Some s"
    "ifreqIOCTL Linux k nm (get_addr_ioctls Linux ! i) s w = Some (w1, b, Inr ())"
    "unpackSockaddr4 b = Some (ip, p)"
    "get_addresses Linux k nm (drop (Suc i) (get_addr_ioctls Linux)) w1 = Some (w', Inr rest)" "ips = ip # rest"
    using Suc.prems by (auto simp: d bind_eq_Some_conv not_Inr_unit case_eq_Inr split: sum.split_asm)
  have "length s = 16" using step(1) pack_length by (auto simp: packSockaddr4_def)
  note here = get_address_ok [OF k len i this step(2)]
  have "rest = map (addrs w1 N) [Suc i..<3]" by (rule Suc.hyps(1)) (use Suc.hyps(2) step(4) in auto)
  then show ?case using here step(3,5) i by (simp add: N upt_conv_Cons)
qed

lemma slot_copy:
  "8 \<le> length to \<Longrightarrow> 8 \<le> length src \<Longrightarrow> take 4 (drop 4 (copy_list to src)) = take 4 (drop 4 src)"
  by (simp add: take_drop take_copy_list)

text \<open>C34: After \<open>SetAddresses\<close> has succeeded on Linux, and while the interface is up, \<open>Addresses\<close> succeeds
  and returns the addresses that were set: the local one, the destination and the mask, each in four bytes.\<close>

theorem addresses_roundtrip:
  assumes k: "kernel_fds k fds" "kernel_addrs k addrs" "kernel_answers k up"
    and len: "length (fd_name (tf_base t)) \<le> 16"
    and set_ok: "SetAddresses_linux k t local dest msk w = Some (w1, t1, Inr ())"
    and up: "up w1 (copy_list (replicate 16 0) (fd_name (tf_base t)))"
  shows "\<exists>w2 l d. To4 local = Some l \<and> To4 dest = Some d \<and> length msk = 4 \<and>
    posix_Addresses Linux k t1 w1 = Some (w2, t1, Inr [l, d, msk])"
proof -
  define nm where "nm = fd_name (tf_base t)"
  define N where "N = copy_list (replicate 16 (0 :: byte)) nm"
  have op: "\<not> fd_closed (tf_base t)" and t1: "t1 = t" and v4: "length msk = 4"
    and run: "set_addresses k nm (zip (drop 0 set_addr_ioctls) [local, dest, msk]) w = Some (w1, Inr ())"
    using set_ok unfolding SetAddresses_linux_def
    by (rule operate_ok; auto simp: bind_eq_Some_conv nm_def not_Inr_unit split: if_splits sum.splits)+
  have st: "To4 ([local, dest, msk] ! j) = Some (addrs w1 N j)" if "j < 3" for j
    using set_addresses_ok [OF k(1,2) len [folded nm_def] N_def run] that by simp
  have stored: "To4 local = Some (addrs w1 N 0)" "To4 dest = Some (addrs w1 N 1)" "msk = addrs w1 N 2"
    using st [of 0] st [of 1] st [of 2] v4 by simp_all
  obtain w2 ips where "get_addresses Linux k nm (drop 0 (get_addr_ioctls Linux)) w1 = Some (w2, Inr ips)"
    using get_addresses_answers [OF k(1,3) len [folded nm_def], of w1 "get_addr_ioctls Linux"] up by (auto simp: nm_def)
  moreover from this have "ips = map (addrs w1 N) [0..<3]"
    by (rule get_addresses_ok [OF k(1,2) len [folded nm_def] N_def])
  then have "ips = [addrs w1 N 0, addrs w1 N 1, addrs w1 N 2]" by (simp add: upt_rec numeral_2_eq_2)
  ultimately have "posix_Addresses Linux k t w1 = Some (w2, t, Inr [addrs w1 N 0, addrs w1 N 1, addrs w1 N 2])"
    unfolding posix_Addresses_def by (intro operate_open [OF op]) (simp add: nm_def)
  then show ?thesis using stored t1 v4 by auto
qed

lemma sample_ioctl_get:
  "r \<in> {0x8915, 0x8917, 0x891b} \<Longrightarrow> \<exists>m'. sample_ioctl fd r m w = (w, m', 0)"
  by (auto simp: sample_ioctl_def store_slot_def load_slot_def)

theorem addresses_roundtrip_witness:
  "\<exists>w1 w2. SetAddresses_linux sample_kernel sample_tunnel [10, 0, 0, 1] [10, 0, 0, 2] [255, 255, 255, 0] sample_world =
       Some (w1, sample_tunnel, Inr ()) \<and>
     posix_Addresses Linux sample_kernel sample_tunnel w1 =
       Some (w2, sample_tunnel, Inr [[10, 0, 0, 1], [10, 0, 0, 2], [255, 255, 255, 0]])"
proof -
  define addrs where "addrs = (\<lambda>(w :: world) name i. take 4 (drop 4 (w_slots w name (int i + 1) @ replicate 16 0)))"
  have k: "kernel_addrs sample_kernel addrs"
    by (auto simp: kernel_addrs_def addrs_def sample_kernel_def new_fd_def Let_def sample_ioctl_def store_slot_def
        load_slot_def slot_copy drop_take)
  have up: "kernel_answers sample_kernel (\<lambda>w name. True)"
    using sample_ioctl_get by (fastforce simp: kernel_answers_def sample_kernel_def new_fd_def Let_def)
  have "map_option snd (SetAddresses_linux sample_kernel sample_tunnel [10, 0, 0, 1] [10, 0, 0, 2]
      [255, 255, 255, 0] sample_world) = Some (sample_tunnel, Inr ())"
    by code_simp
  then obtain w1 where "SetAddresses_linux sample_kernel sample_tunnel [10, 0, 0, 1] [10, 0, 0, 2]
      [255, 255, 255, 0] sample_world = Some (w1, sample_tunnel, Inr ())"
    by auto
  then show ?thesis
    using addresses_roundtrip [OF sample_kernel_fds k up, where t = sample_tunnel and local = "[10, 0, 0, 1]"
        and dest = "[10, 0, 0, 2]" and msk = "[255, 255, 255, 0]" and w = sample_world]
    by (auto simp: sample_tunnel_def new_fdTunnelBase_def)
qed

section \<open>Reading packets\<close>

text \<open>The kernel after \<open>n\<close> reads.\<close>

primrec after_reads :: "'w kernel \<Rightarrow> nat \<Rightarrow> nat \<Rightarrow> 'w \<Rightarrow> 'w" where
  "after_reads k fd 0 w = w"
| "after_reads k fd (Suc n) w = after_reads k fd n (fst (k_read k fd 65536 w))"

definition read_answer :: "'w kernel \<Rightarrow> nat \<Rightarrow> nat \<Rightarrow> 'w \<Rightarrow> nat + bytes" where
  "read_answer k fd n w = snd (k_read k fd 65536 (after_reads k fd n w))"

lemma read_loop_returns:
  "(\<And>i. i < n \<Longrightarrow> read_answer k fd i w = Inl 4) \<Longrightarrow> read_answer k fd n w \<noteq> Inl 4 \<Longrightarrow>
     read_loop k fd w = Some (after_reads k fd (Suc n) w, map_sum Errno id (read_answer k fd n w))"
proof (induction n arbitrary: w)
  case 0
  obtain w1 r where "k_read k fd 65536 w = (w1, r)" by (cases "k_read k fd 65536 w")
  then show ?case using 0 by (cases r) (auto simp: read_answer_def read_loop.simps)
next
  case (Suc n)
  obtain w1 r where r: "k_read k fd 65536 w = (w1, r)" by (cases "k_read k fd 65536 w")
  have "read_answer k fd 0 w = Inl 4" by (rule Suc.prems(1)) simp
  then have "r = Inl 4" using r by (simp add: read_answer_def)
  moreover have step: "read_answer k fd i w1 = read_answer k fd (Suc i) w" for i using r by (simp add: read_answer_def)
  have "read_loop k fd w1 = Some (after_reads k fd (Suc n) w1, map_sum Errno id (read_answer k fd n w1))"
    by (rule Suc.IH) (use Suc.prems in \<open>simp_all add: step\<close>)
  ultimately show ?case using r by (subst read_loop.simps) (simp add: step)
qed

lemma read_loop_answer: "read_loop k fd w = Some res \<Longrightarrow> \<exists>n. read_answer k fd n w \<noteq> Inl 4"
proof (rule read_loop.raw_induct [where P = "\<lambda>k fd w res. \<exists>n. read_answer k fd n w \<noteq> Inl 4"])
  fix loop k fd w res
  assume IH: "\<And>k fd w res. loop k fd w = Some res \<Longrightarrow> \<exists>n. read_answer k fd n w \<noteq> Inl 4"
    and run: "(case k_read k fd 65536 w of
        (w, Inr data) \<Rightarrow> Some (w, Inr data)
      | (w, Inl err) \<Rightarrow> if err \<noteq> 4 then Some (w, Inl (Errno err)) else loop k fd w) = Some res"
  obtain w1 r where r: "k_read k fd 65536 w = (w1, r)" by (cases "k_read k fd 65536 w")
  show "\<exists>n. read_answer k fd n w \<noteq> Inl 4"
  proof (cases "r = Inl 4")
    case True
    then have "loop k fd w1 = Some res" using run r by simp
    then obtain n where "read_answer k fd n w1 \<noteq> Inl 4" using IH by blast
    then have "read_answer k fd (Suc n) w \<noteq> Inl 4" using r by (simp add: read_answer_def)
    then show ?thesis ..
  next
    case False
    then have "read_answer k fd 0 w \<noteq> Inl 4" using r by (simp add: read_answer_def)
    then show ?thesis ..
  qed
qed

lemma read_loop_cases:
  obtains "\<forall>i. read_answer k fd i w = Inl 4" "read_loop k fd w = None"
  | n where "\<forall>i < n. read_answer k fd i w = Inl 4" "read_answer k fd n w \<noteq> Inl 4"
      "read_loop k fd w = Some (after_reads k fd (Suc n) w, map_sum Errno id (read_answer k fd n w))"
proof (cases "\<forall>i. read_answer k fd i w = Inl 4")
  case True
  then have "read_loop k fd w = None" using read_loop_answer [of k fd w] by (cases "read_loop k fd w") auto
  then show ?thesis using that True by blast
next
  case False
  define n where "n = (LEAST n. read_answer k fd n w \<noteq> Inl 4)"
  have "read_answer k fd n w \<noteq> Inl 4" using False LeastI_ex [of "\<lambda>n. read_answer k fd n w \<noteq> Inl 4"] by (auto simp: n_def)
  moreover have "read_answer k fd i w = Inl 4" if "i < n" for i
    using not_less_Least [of i "\<lambda>n. read_answer k fd n w \<noteq> Inl 4"] that by (auto simp: n_def)
  ultimately show ?thesis using that read_loop_returns [of n k fd w] by blast
qed

lemma ReadPacket_eq:
  assumes op: "\<not> fd_closed (tf_base t)"
  shows "ReadPacket_linux k t w = (case read_loop k (tf_fd t) w of None \<Rightarrow> None | Some (v, r) \<Rightarrow> Some (v, t, r))"
    and "ReadPacket_darwin k t w = (case read_loop k (tf_fd t) w of None \<Rightarrow> None
      | Some (v, Inl err) \<Rightarrow> Some (v, t, Inl err)
      | Some (v, Inr data) \<Rightarrow> if length data < 4 then None else Some (v, t, Inr (drop 4 data)))"
  using op by (auto simp: ReadPacket_linux_def ReadPacket_darwin_def operate_def operate_enter_def operate_leave_def
      slice_from_def split: option.split sum.split)

text \<open>C36: Reading a packet of an open tunnel goes on exactly as long as the reads are interrupted, then gives the
  error or the data of the first read that was not; on Darwin the data loses its header of four bytes, and
  a read that returns fewer than four bytes panics.  If every read is interrupted it never returns.\<close>

theorem read_packet_outcomes:
  assumes op: "\<not> fd_closed (tf_base t)"
  shows "((\<forall>i < n. read_answer k (tf_fd t) i w = Inl 4) \<and> read_answer k (tf_fd t) n w = ans \<and> ans \<noteq> Inl 4 \<longrightarrow>
      ReadPacket_linux k t w = Some (after_reads k (tf_fd t) (Suc n) w, t, map_sum Errno id ans) \<and>
      ReadPacket_darwin k t w =
        (case ans of
           Inl err \<Rightarrow> Some (after_reads k (tf_fd t) (Suc n) w, t, Inl (Errno err))
         | Inr data \<Rightarrow> if length data < 4 then None
             else Some (after_reads k (tf_fd t) (Suc n) w, t, Inr (drop 4 data)))) \<and>
    ((\<forall>i. read_answer k (tf_fd t) i w = Inl 4) \<longrightarrow> ReadPacket_linux k t w = None \<and> ReadPacket_darwin k t w = None)"
proof -
  show ?thesis
    using read_loop_returns [of n k "tf_fd t" w] read_loop_answer [of k "tf_fd t" w]
    by (cases "read_loop k (tf_fd t) w") (auto simp: ReadPacket_eq [OF op] split: sum.split)
qed

text \<open>The first read is interrupted, the second has a packet; a read after a shutdown has no bytes; and a kernel
  that interrupts every read.\<close>

theorem read_packet_outcomes_witness:
  "(\<exists>v. ReadPacket_darwin sample_kernel sample_tunnel sample_world = Some (v, sample_tunnel, Inr [69])) \<and>
   ReadPacket_darwin sample_kernel sample_tunnel (sample_world\<lparr>w_reads := [Inr []]\<rparr>) = None \<and>
   ReadPacket_linux (sample_kernel\<lparr>k_read := (\<lambda>fd n w. (w, Inl 4))\<rparr>) sample_tunnel sample_world = None"
proof (intro conjI)
  have op: "\<not> fd_closed (tf_base sample_tunnel)" by code_simp
  have "\<forall>i < 1. read_answer sample_kernel (tf_fd sample_tunnel) i sample_world = Inl 4"
    "read_answer sample_kernel (tf_fd sample_tunnel) 1 sample_world = Inr [0, 0, 0, 2, 69]"
    by (simp_all add: read_answer_def sample_kernel_def sample_read_def sample_world_def)
  then show "\<exists>v. ReadPacket_darwin sample_kernel sample_tunnel sample_world = Some (v, sample_tunnel, Inr [69])"
    using read_packet_outcomes [OF op, where n = 1 and k = sample_kernel and w = sample_world
        and ans = "Inr [0, 0, 0, 2, 69]"]
    by auto
  have "read_answer sample_kernel (tf_fd sample_tunnel) 0 (sample_world\<lparr>w_reads := [Inr []]\<rparr>) = Inr []"
    by (simp add: read_answer_def sample_kernel_def sample_read_def sample_world_def)
  then show "ReadPacket_darwin sample_kernel sample_tunnel (sample_world\<lparr>w_reads := [Inr []]\<rparr>) = None"
    using read_packet_outcomes [OF op, where n = 0 and k = sample_kernel
        and w = "sample_world\<lparr>w_reads := [Inr []]\<rparr>" and ans = "Inr []"]
    by auto
  show "ReadPacket_linux (sample_kernel\<lparr>k_read := (\<lambda>fd n w. (w, Inl 4))\<rparr>) sample_tunnel sample_world = None"
    using read_packet_outcomes [OF op, where k = "sample_kernel\<lparr>k_read := (\<lambda>fd n w. (w, Inl 4))\<rparr>"
        and w = sample_world]
    by (simp add: read_answer_def)
qed

section \<open>No call leaks a descriptor\<close>

lemma tunnel_WritePacket_returns:
  assumes k: "kernel_fds k fds"
  shows "\<exists>w' r. WritePacket_linux k t buffer w = Some (w', t, r) \<and> fds w' = fds w"
    and "\<exists>w' r. WritePacket_darwin k t buffer w = Some (w', t, r) \<and> fds w' = fds w"
proof -
  have wr: "\<exists>w' r. (let (w, r) = write_result (k_write k (tf_fd t) bs w) in Some (w, f, r)) = Some (w', f, r) \<and> fds w' = fds w"
    for bs and f :: fdTunnelBase
    using kernel_fds_D(10) [OF k, of "tf_fd t" bs w]
    by (cases "k_write k (tf_fd t) bs w") (auto simp: write_result_def)
  show "\<exists>w' r. WritePacket_linux k t buffer w = Some (w', t, r) \<and> fds w' = fds w"
    unfolding WritePacket_linux_def by (rule operate_fds) (rule wr)
  show "\<exists>w' r. WritePacket_darwin k t buffer w = Some (w', t, r) \<and> fds w' = fds w"
    unfolding WritePacket_darwin_def by (rule operate_fds) (rule wr)
qed

lemma after_reads_fds: "kernel_fds k fds \<Longrightarrow> fds (after_reads k fd n w) = fds w"
  by (induction n arbitrary: w) (simp_all add: kernel_fds_D(11))

lemma tunnel_ReadPacket_returns:
  assumes k: "kernel_fds k fds"
  shows "\<forall>w' t' r. ReadPacket_linux k t w = Some (w', t', r) \<longrightarrow> t' = t \<and> fds w' = fds w"
    and "\<forall>w' t' r. ReadPacket_darwin k t w = Some (w', t', r) \<longrightarrow> t' = t \<and> fds w' = fds w"
    and "ReadPacket_linux k t w = None \<longleftrightarrow>
      \<not> fd_closed (tf_base t) \<and> (\<forall>i. read_answer k (tf_fd t) i w = Inl 4)"
    and "ReadPacket_darwin k t w = None \<longleftrightarrow> \<not> fd_closed (tf_base t) \<and>
      ((\<forall>i. read_answer k (tf_fd t) i w = Inl 4) \<or>
       (\<exists>n data. (\<forall>i < n. read_answer k (tf_fd t) i w = Inl 4) \<and> read_answer k (tf_fd t) n w = Inr data \<and>
          length data < 4))" (is ?dead)
proof -
  have "(\<forall>w' t' r. ReadPacket_linux k t w = Some (w', t', r) \<longrightarrow> t' = t \<and> fds w' = fds w) \<and>
    (\<forall>w' t' r. ReadPacket_darwin k t w = Some (w', t', r) \<longrightarrow> t' = t \<and> fds w' = fds w) \<and>
    (ReadPacket_linux k t w = None \<longleftrightarrow> \<not> fd_closed (tf_base t) \<and> (\<forall>i. read_answer k (tf_fd t) i w = Inl 4)) \<and> ?dead"
  proof (cases "fd_closed (tf_base t)")
    case False
    note eq = ReadPacket_eq [OF False, of k w]
    show ?thesis
    proof (cases rule: read_loop_cases [of k "tf_fd t" w])
      case 1
      then show ?thesis using False by (simp add: eq)
    next
      case (2 n)
      have first: "m = n" if "\<forall>i < m. read_answer k (tf_fd t) i w = Inl 4" "read_answer k (tf_fd t) m w \<noteq> Inl 4" for m
        using 2(1,2) that by (metis linorder_neqE_nat)
      then have short: "(\<exists>m data. (\<forall>i < m. read_answer k (tf_fd t) i w = Inl 4) \<and> read_answer k (tf_fd t) m w = Inr data \<and>
          length data < 4) \<longleftrightarrow> (\<exists>data. read_answer k (tf_fd t) n w = Inr data \<and> length data < 4)"
        using 2(1) by (metis sum.distinct(1))
      have some: "(\<forall>i. read_answer k (tf_fd t) i w = Inl 4) \<longleftrightarrow> False" using 2(2) by blast
      have "fds (after_reads k (tf_fd t) (Suc n) w) = fds w" by (rule after_reads_fds [OF k])
      then show ?thesis using False unfolding short some
        by (cases "read_answer k (tf_fd t) n w") (simp_all add: eq 2(3))
    qed
  qed (simp add: tunnel_refuses)
  then show "\<forall>w' t' r. ReadPacket_linux k t w = Some (w', t', r) \<longrightarrow> t' = t \<and> fds w' = fds w"
    "\<forall>w' t' r. ReadPacket_darwin k t w = Some (w', t', r) \<longrightarrow> t' = t \<and> fds w' = fds w"
    "ReadPacket_linux k t w = None \<longleftrightarrow> \<not> fd_closed (tf_base t) \<and> (\<forall>i. read_answer k (tf_fd t) i w = Inl 4)" ?dead
    by blast+
qed

lemma tunnel_Close_returns:
  assumes k: "kernel_fds k fds"
  shows "\<exists>w' r. fd_Close k t w = Some (w', t\<lparr>tf_base := (tf_base t)\<lparr>fd_closed := True\<rparr>\<rparr>, r) \<and>
    fds w' = (if fd_closed (tf_base t) \<or> fd_refCount (tf_base t) \<noteq> 0 then fds w else fds w - {tf_fd t})"
proof (cases "fd_closed (tf_base t)")
  case True
  then have "t\<lparr>tf_base := (tf_base t)\<lparr>fd_closed := True\<rparr>\<rparr> = t" by (cases t; cases "tf_base t") simp
  then show ?thesis using True by (simp add: tunnel_refuses)
next
  case False
  obtain w1 e where sh: "k_shutdown k (tf_fd t) w = (w1, e)" by (cases "k_shutdown k (tf_fd t) w")
  have "fds w1 = fds w" using kernel_fds_D(6) [OF k sh] by simp
  moreover have "fd_refCount (tf_base t) + 1 - 1 = fd_refCount (tf_base t)" by simp
  ultimately show ?thesis using False sh
    by (cases t; cases "tf_base t")
      (simp add: fd_Close_def operate_def operate_enter_def operate_leave_def mark_closed_def Let_def kernel_fds_D(5) [OF k])
qed

text \<open>C32: No method of a tunnel and no \<open>AddRoute\<close> leaks a descriptor or leaves the reference count changed, on either
  system and whatever the kernel answers: sockets that are opened for a request are closed on every path, and only
  \<open>Close\<close>, when no other call is inside, takes a descriptor away, that of the tunnel.  None of them panics
  but \<open>ReadPacket\<close> on Darwin, and that exactly when the first read that is not interrupted returns fewer
  than four bytes; both \<open>ReadPacket\<close> do not return if every read is interrupted.\<close>

theorem tunnel_calls_leak_nothing:
  assumes k: "kernel_fds k fds"
  shows "(\<exists>w' r. posix_MTU os k t w = Some (w', t, r) \<and> fds w' = fds w) \<and>
    (\<exists>w' r. posix_SetMTU os k t mtu w = Some (w', t, r) \<and> fds w' = fds w) \<and>
    (\<exists>w' r. posix_Addresses os k t w = Some (w', t, r) \<and> fds w' = fds w) \<and>
    (\<exists>w' r. SetAddresses_linux k t local dest msk w = Some (w', t, r) \<and> fds w' = fds w) \<and>
    (\<exists>w' r. SetAddresses_darwin k t local dest msk w = Some (w', t, r) \<and> fds w' = fds w) \<and>
    (\<exists>w' r. AddRoute_linux k dest gateway msk w = Some (w', r) \<and> fds w' = fds w) \<and>
    (\<exists>w' r. AddRoute_darwin k dest gateway msk w = Some (w', r) \<and> fds w' = fds w) \<and>
    (\<exists>w' r. WritePacket_linux k t buffer w = Some (w', t, r) \<and> fds w' = fds w) \<and>
    (\<exists>w' r. WritePacket_darwin k t buffer w = Some (w', t, r) \<and> fds w' = fds w) \<and>
    (\<forall>w' t' r. ReadPacket_linux k t w = Some (w', t', r) \<longrightarrow> t' = t \<and> fds w' = fds w) \<and>
    (\<forall>w' t' r. ReadPacket_darwin k t w = Some (w', t', r) \<longrightarrow> t' = t \<and> fds w' = fds w) \<and>
    (ReadPacket_linux k t w = None \<longleftrightarrow> \<not> fd_closed (tf_base t) \<and> (\<forall>i. read_answer k (tf_fd t) i w = Inl 4)) \<and>
    (ReadPacket_darwin k t w = None \<longleftrightarrow> \<not> fd_closed (tf_base t) \<and>
      ((\<forall>i. read_answer k (tf_fd t) i w = Inl 4) \<or>
       (\<exists>n data. (\<forall>i < n. read_answer k (tf_fd t) i w = Inl 4) \<and> read_answer k (tf_fd t) n w = Inr data \<and>
          length data < 4))) \<and>
    (\<exists>w' r. fd_Close k t w = Some (w', t\<lparr>tf_base := (tf_base t)\<lparr>fd_closed := True\<rparr>\<rparr>, r) \<and>
      fds w' = (if fd_closed (tf_base t) \<or> fd_refCount (tf_base t) \<noteq> 0 then fds w else fds w - {tf_fd t}))"
  by (intro conjI tunnel_MTU_returns [OF k] tunnel_SetMTU_returns [OF k] tunnel_Addresses_returns [OF k]
      tunnel_SetAddresses_linux_returns [OF k] tunnel_SetAddresses_darwin_returns [OF k] tunnel_AddRoute_linux_returns [OF k]
      tunnel_AddRoute_darwin_returns [OF k] tunnel_WritePacket_returns [OF k] tunnel_ReadPacket_returns [OF k]
      tunnel_Close_returns [OF k])

theorem tunnel_calls_leak_nothing_witness:
  "(\<exists>w' r. posix_MTU Linux sample_kernel sample_tunnel sample_world = Some (w', sample_tunnel, r) \<and> set (w_fds w') = {3}) \<and>
   (\<exists>w' r. fd_Close sample_kernel sample_tunnel sample_world =
      Some (w', sample_tunnel\<lparr>tf_base := (tf_base sample_tunnel)\<lparr>fd_closed := True\<rparr>\<rparr>, r) \<and> w_fds w' = [])"
  using tunnel_calls_leak_nothing [OF sample_kernel_fds, where os = Linux and t = sample_tunnel and w = sample_world]
  by (auto simp: sample_world_def sample_tunnel_def new_fdTunnelBase_def)

end
