(* ===== verification/Demo_Stack.thy ===== *)
theory Demo_Stack
  imports IP_Stack ICMP Tunnel_Calls
begin

text \<open>
  The stack of the demos (\<open>examples/setup.go\<close>): the tunnel is opened and configured, and the filters
  are put on its stream.  The goroutines of the filters hand packets on in order and without
  buffers, so a run is a run of the functions below over the packets.
\<close>

section \<open>Addresses\<close>

text \<open>\<open>net.ParseIP\<close> returns 16 bytes.\<close>

definition MyIP :: bytes where
  "MyIP = replicate 10 0 @ [255, 255, 10, 13, 37, 2]"

definition Gateway :: bytes where
  "Gateway = replicate 10 0 @ [255, 255, 10, 13, 37, 1]"

definition MaskedGateway :: bytes where
  "MaskedGateway = replicate 10 0 @ [255, 255, 10, 13, 37, 0]"

definition Netmask :: bytes where
  "Netmask = [255, 255, 255, 252]"

section \<open>Setting up\<close>

text \<open>The system calls of \<open>SetupTunnel\<close> on Linux.  \<open>essentials.Must\<close> ends the program when there is an
  error, here \<open>None\<close>.\<close>

definition must :: "'e + 'a \<Rightarrow> 'a go" where
  "must r = (case r of Inl err \<Rightarrow> None | Inr x \<Rightarrow> Some x)"

lemma must_Some [simp]: "must r = Some x \<longleftrightarrow> r = Inr x"
  by (cases r) (simp_all add: must_def)

definition SetupTunnel :: "'w kernel \<Rightarrow> 'w \<Rightarrow> ('w \<times> tunnel \<times> int) go" where
  "SetupTunnel k w = do {
     (w, r) \<leftarrow> openTunFile k w;
     tun \<leftarrow> must r;
     (w, tun, r) \<leftarrow> posix_MTU Linux k tun w;
     mtu \<leftarrow> must r;
     (w, tun, r) \<leftarrow> SetAddresses_linux k tun MyIP Gateway Netmask w;
     u \<leftarrow> must r;
     (w, r) \<leftarrow> AddRoute_linux k MaskedGateway Gateway Netmask w;
     u \<leftarrow> must r;
     Some (w, tun, mtu)
   }"

section \<open>The filters\<close>

text \<open>An incoming packet passes \<open>FilterIPv4Valid\<close>, \<open>FilterIPv4Checksums\<close> and \<open>DefragmentIncomingIPv4\<close>.\<close>

definition stack_incoming ::
  "(ipv4Reconstruction list \<Rightarrow> nat \<Rightarrow> ipv4Reconstruction list) \<Rightarrow> int \<Rightarrow> int \<Rightarrow> ipv4Defragmenter \<Rightarrow> bytes \<Rightarrow>
     (ipv4Defragmenter \<times> bytes option) go" where
  "stack_incoming orderedDelete now1 now2 d packet = do {
     v \<leftarrow> FilterIPv4Valid packet;
     c \<leftarrow> (case v of None \<Rightarrow> Some None | Some packet \<Rightarrow> FilterIPv4Checksums packet);
     case c of
       None \<Rightarrow> Some (d, None)
     | Some packet \<Rightarrow> DefragmentIncomingIPv4 orderedDelete now1 now2 d packet
   }"

fun stack_receive ::
  "(ipv4Reconstruction list \<Rightarrow> nat \<Rightarrow> ipv4Reconstruction list) \<Rightarrow> ipv4Defragmenter \<Rightarrow>
     (int \<times> int \<times> bytes) list \<Rightarrow> (ipv4Defragmenter \<times> bytes option list) go" where
  "stack_receive orderedDelete d [] = Some (d, [])"
| "stack_receive orderedDelete d ((now1, now2, packet) # ps) = do {
     (d, out) \<leftarrow> stack_incoming orderedDelete now1 now2 d packet;
     (d, outs) \<leftarrow> stack_receive orderedDelete d ps;
     Some (d, out # outs)
   }"

text \<open>An outgoing packet passes \<open>AddIPv4Identifiers\<close> and \<open>FragmentOutgoingIPv4\<close>.\<close>

fun stack_send :: "(int \<Rightarrow> int \<Rightarrow> int) \<Rightarrow> int \<Rightarrow> u16 \<Rightarrow> bytes list \<Rightarrow> (u16 \<times> bytes list) go" where
  "stack_send minInt mtu curId [] = Some (curId, [])"
| "stack_send minInt mtu curId (packet # packets) = do {
     (curId, out) \<leftarrow> AddIPv4Identifiers curId packet;
     fs \<leftarrow> (case out of None \<Rightarrow> Some [] | Some packet \<Rightarrow> fragments minInt mtu packet);
     (curId, rest) \<leftarrow> stack_send minInt mtu curId packets;
     Some (curId, fs @ rest)
   }"

text \<open>\<open>SetupIPServices\<close>: what the two services send for a packet that the multiplexer gives to both of
  their streams, the loopback service first.\<close>

definition ip_services :: "bytes \<Rightarrow> bytes list go" where
  "ip_services packet = do {
     loop \<leftarrow> FilterIPv4Dest MyIP packet;
     ping \<leftarrow> FilterIPv4Dest Gateway packet;
     replies \<leftarrow> RespondToPingsIPv4 (case ping of None \<Rightarrow> [] | Some p \<Rightarrow> [p]);
     Some ((case loop of None \<Rightarrow> [] | Some p \<Rightarrow> [p]) @ replies)
   }"

section \<open>What a packet keeps\<close>

text \<open>A packet that the sender accepts for an MTU, and the same packet at the other end.\<close>

definition deliverable :: "int \<Rightarrow> bytes \<Rightarrow> bool" where
  "deliverable mtu p \<longleftrightarrow> IPv4_Valid p = Some True \<and> int (header_len p) + 8 \<le> mtu \<and>
     (\<exists>df. IPv4_FragmentInfo p = Some (df, False, 0) \<and> (int (length p) < mtu \<or> \<not> df))"

definition same_datagram :: "bytes \<Rightarrow> bytes \<Rightarrow> bool" where
  "same_datagram p g \<longleftrightarrow> IPv4_Valid g = Some True \<and> IPv4_Checksum g = Some 0 \<and>
     IPv4_SourceAddr g = IPv4_SourceAddr p \<and> IPv4_DestAddr g = IPv4_DestAddr p \<and>
     IPv4_Proto g = IPv4_Proto p \<and> IPv4_TTL g = IPv4_TTL p \<and> IPv4_Payload g = IPv4_Payload p"

text \<open>A packet that the filters let through.\<close>

definition undamaged :: "bytes \<Rightarrow> bool" where
  "undamaged f \<longleftrightarrow> IPv4_Valid f = Some True \<and> IPv4_Checksum f = Some 0"

lemma same_datagramI:
  assumes p: "IPv4_Valid p = Some True" and len: "length g = length p"
    and eq: "\<And>i. i < length p \<Longrightarrow> i \<notin> {4, 5, 6, 7, 10, 11} \<Longrightarrow> g ! i = p ! i"
    and ck: "IPv4_Checksum g = Some 0"
  shows "same_datagram p g"
proof -
  note lens = ip_valid_length [OF p]
  have g: "IPv4_Valid g = Some True" by (rule ip_valid_cong [OF p len]) (use eq lens in simp_all)
  have tail: "drop n g = drop n p" if "12 \<le> n" for n
    by (rule nth_equalityI) (use that len eq in auto)
  have addr: "take 4 (drop n g) = take 4 (drop n p)" if "12 \<le> n" for n using tail [OF that] by simp
  have hl: "header_len g = header_len p" using eq [of 0] lens by (simp add: header_len_def)
  have "drop (header_len p) g = drop (header_len p) p" using lens by (intro tail) simp
  then show ?thesis
    using lens len hl g ck eq [of 8] eq [of 9] addr
    by (simp add: same_datagram_def IPv4_fields_eq IPv4_Payload_eq)
qed

lemma identified_deliverable:
  fixes v :: u16
  assumes "deliverable mtu p"
  defines "q \<equiv> with_ip_checksum (put16 p 4 v)"
  shows "AddIPv4Identifiers v p = Some (v + 1, Some q)" and "sendable mtu q" and "undamaged q"
    and "same_datagram p (delivered mtu q)"
proof -
  obtain df where p: "IPv4_Valid p = Some True" "int (header_len p) + 8 \<le> mtu"
    "IPv4_FragmentInfo p = Some (df, False, 0)" "int (length p) < mtu \<or> \<not> df"
    using assms by (auto simp: deliverable_def)
  note len = ip_valid_length [OF p(1)]
  have flags: "df = (p ! 6 AND 0x40 \<noteq> 0)" "p ! 6 AND 0x20 = 0" "be_int (p ! 6 AND 0x1f) (p ! 7) = 0"
    using p(3) len by (auto simp: IPv4_fields_eq)
  show "AddIPv4Identifiers v p = Some (v + 1, Some q)"
    using AddIPv4Identifiers_eq [OF p(1), of v] flags by (simp add: q_def)
  note q = identified_packet [OF p(1), of v, folded q_def]
  have ql: "length q = length p" "header_len q = header_len p" by (simp_all add: q_def)
  have nth: "q ! i = p ! i" if "i \<notin> {4, 5, 10, 11}" for i
    using that len by (simp add: q_def nth_with_ip_checksum nth_put16)
  have frag: "\<not> is_fragment q"
    using flags nth [of 6] nth [of 7] by (simp add: is_fragment_def frag_more_def frag_off_def)
  show "sendable mtu q"
    using q(1) frag p(2,4) flags(1) nth [of 6] ql by (auto simp: sendable_def)
  show "undamaged q" using q by (simp add: undamaged_def)
  show "same_datagram p (delivered mtu q)"
  proof (rule same_datagramI [OF p(1)])
    show "length (delivered mtu q) = length p" using ql by (simp add: delivered_def defragmented_def)
    show "delivered mtu q ! i = p ! i" if "i < length p" "i \<notin> {4, 5, 6, 7, 10, 11}" for i
      using that nth [of i] by (simp add: delivered_def defragmented_def nth_with_ip_checksum)
    have "header_len (q[6 := 0, 7 := 0]) = header_len q" by (simp add: header_len_def)
    then have "IPv4_Checksum (defragmented q) = Some 0"
      unfolding defragmented_def by (intro IPv4_Checksum_with_ip_checksum) (use len ql in auto)
    then show "IPv4_Checksum (delivered mtu q) = Some 0" using q(3) by (simp add: delivered_def)
  qed
qed

section \<open>Sending and receiving\<close>

lemma stack_send_eq:
  assumes mi: "min_int_spec minInt" and "\<forall>p \<in> set packets. deliverable mtu p"
  obtains qs where "stack_send minInt mtu curId packets = Some (curId + of_nat (length packets), concat (map (wire mtu) qs))"
    "identify_all curId packets = Some (map Some qs)" "\<forall>q \<in> set qs. sendable mtu q \<and> undamaged q"
    "list_all2 (\<lambda>p q. same_datagram p (delivered mtu q)) packets qs"
proof -
  have "\<exists>qs. stack_send minInt mtu curId packets =
        Some (curId + of_nat (length packets), concat (map (wire mtu) qs)) \<and>
      identify_all curId packets = Some (map Some qs) \<and> (\<forall>q \<in> set qs. sendable mtu q \<and> undamaged q) \<and>
      list_all2 (\<lambda>p q. same_datagram p (delivered mtu q)) packets qs"
    using assms(2)
  proof (induction packets arbitrary: curId)
    case (Cons p packets)
    define q where "q = with_ip_checksum (put16 p 4 curId)"
    have p: "deliverable mtu p" using Cons.prems by simp
    note q = identified_deliverable [OF p, of curId, folded q_def]
    obtain qs where "stack_send minInt mtu (curId + 1) packets =
        Some (curId + 1 + of_nat (length packets), concat (map (wire mtu) qs))"
      "identify_all (curId + 1) packets = Some (map Some qs)" "\<forall>q \<in> set qs. sendable mtu q \<and> undamaged q"
      "list_all2 (\<lambda>p q. same_datagram p (delivered mtu q)) packets qs"
      using Cons.IH [of "curId + 1"] Cons.prems by auto
    then show ?case using q fragments_wire [OF mi q(2)]
      by (intro exI [of _ "q # qs"]) (simp add: add.assoc)
  qed simp
  then show ?thesis using that by blast
qed

lemma wire_undamaged:
  assumes "sendable mtu q" and "undamaged q" and "f \<in> set (wire mtu q)"
  shows "undamaged f"
proof (cases "int (length q) < mtu")
  case True
  then show ?thesis using assms by (simp add: wire_def)
next
  case False
  have "IPv4_Valid q = Some True" "int (header_len q) + 8 \<le> mtu" "f \<in> set (fragment_list mtu q)"
    using assms False by (simp_all add: sendable_def wire_def)
  then show ?thesis using fragment_list_member(1,2) by (simp add: undamaged_def)
qed

lemma stack_incoming_eq:
  "stack_incoming orderedDelete now1 now2 d f =
     (if undamaged f then DefragmentIncomingIPv4 orderedDelete now1 now2 d f else Some (d, None))"
proof (cases "IPv4_Valid f = Some True")
  case True
  note len = ip_valid_length [OF True]
  obtain c where "IPv4_Checksum f = Some c" using IPv4_Checksum_eq [of f] len by auto
  then show ?thesis using True
    by (simp add: stack_incoming_def FilterIPv4Valid_def FilterIPv4Checksums_def checksum_filter_def undamaged_def)
next
  case False
  then have "IPv4_Valid f = Some False" by (simp add: IPv4_Valid_eq)
  then show ?thesis
    by (simp add: stack_incoming_def FilterIPv4Valid_def undamaged_def)
qed

lemma stack_receive_eq:
  "defragment_all orderedDelete d (filter (\<lambda>a. undamaged (snd (snd a))) ps) = Some (d', outs) \<Longrightarrow>
     \<exists>outs'. stack_receive orderedDelete d ps = Some (d', outs') \<and> length outs' = length ps \<and> taken outs' = taken outs"
proof (induction ps arbitrary: d outs)
  case (Cons a ps)
  obtain now1 now2 f where a: "a = (now1, now2, f)" by (cases a)
  show ?case
  proof (cases "undamaged f")
    case True
    then obtain d1 out rest where d1: "DefragmentIncomingIPv4 orderedDelete now1 now2 d f = Some (d1, out)"
      "defragment_all orderedDelete d1 (filter (\<lambda>a. undamaged (snd (snd a))) ps) = Some (d', rest)" "outs = out # rest"
      using Cons.prems by (auto simp: a bind_eq_Some_conv)
    obtain outs' where "stack_receive orderedDelete d1 ps = Some (d', outs')" "length outs' = length ps"
      "taken outs' = taken rest"
      using Cons.IH [OF d1(2)] by blast
    then show ?thesis using d1 True
      by (intro exI [of _ "out # outs'"]) (cases out; simp add: a stack_incoming_eq)
  next
    case False
    then obtain outs' where "stack_receive orderedDelete d ps = Some (d', outs')" "length outs' = length ps"
      "taken outs' = taken outs"
      using Cons.IH [of d outs] Cons.prems by (auto simp: a)
    then show ?thesis using False by (intro exI [of _ "None # outs'"]) (simp add: a stack_incoming_eq)
  qed
qed simp

lemma stacks_deliver_all:
  assumes od: "ordered_delete_spec orderedDelete" and mi: "min_int_spec minInt"
    and packets: "\<forall>p \<in> set packets. deliverable mtu p" and few: "length packets \<le> 65536"
    and send: "stack_send minInt mtu curId packets = Some (curId', sent)"
    and arr: "mset (map (snd \<circ> snd) arrivals) = mset sent + mset junk" and junk: "\<forall>f \<in> set junk. \<not> undamaged f"
    and times: "\<forall>(now1, now2, f) \<in> set arrivals. t \<le> now2 \<and> now1 < t + timeout (new_defragmenter T)"
  shows "\<exists>d outs got. stack_receive orderedDelete (new_defragmenter T) arrivals = Some (d, outs) \<and>
    length outs = length arrivals \<and> mset (taken outs) = mset got \<and> list_all2 same_datagram packets got"
proof -
  obtain qs where run: "stack_send minInt mtu curId packets =
      Some (curId + of_nat (length packets), concat (map (wire mtu) qs))"
    and ids: "identify_all curId packets = Some (map Some qs)"
    and good: "\<forall>q \<in> set qs. sendable mtu q \<and> undamaged q"
    and same: "list_all2 (\<lambda>p q. same_datagram p (delivered mtu q)) packets qs"
    by (rule stack_send_eq [OF mi packets, of curId])
  have sent: "sent = concat (map (wire mtu) qs)" using run send by simp
  have taken: "taken (map Some qs) = qs" by (induction qs) simp_all
  have keys: "distinct (map packet_key qs)"
    using identified_keys [OF _ few ids] packets by (simp add: taken deliverable_def)
  let ?ok = "\<lambda>a :: int \<times> int \<times> bytes. undamaged (snd (snd a))"
  have su: "\<forall>f \<in> set sent. undamaged f" using sent good wire_undamaged by auto
  then have "filter_mset undamaged (mset sent + mset junk) = mset sent"
    using junk by (simp add: filter_id_conv [THEN iffD2] filter_empty_conv [THEN iffD2] flip: mset_filter)
  moreover have "map (snd \<circ> snd) (filter ?ok arrivals) = filter undamaged (map (snd \<circ> snd) arrivals)"
    by (simp add: filter_map comp_def)
  then have "mset (map (snd \<circ> snd) (filter ?ok arrivals)) = filter_mset undamaged (mset (map (snd \<circ> snd) arrivals))"
    by (simp only: mset_filter)
  ultimately have perm: "mset (map (snd \<circ> snd) (filter ?ok arrivals)) = mset (concat (map (wire mtu) qs))"
    using arr sent by simp
  obtain d outs where run: "defragment_all orderedDelete (new_defragmenter T) (filter ?ok arrivals) = Some (d, outs)"
    "length outs = length (filter ?ok arrivals)"
    and each: "\<And>q. q \<in> set qs \<Longrightarrow> \<exists>n. length (arrived (packet_key q) (filter ?ok arrivals)) = Suc n \<and>
       keyed (packet_key q) (filter ?ok arrivals) outs = replicate n None @ [Some (delivered mtu q)]"
    using layers_deliver [OF od keys _ perm, of t T] good times by auto
  have "\<forall>a \<in> set (filter ?ok arrivals). packet_key (snd (snd a)) \<in> set (map packet_key qs)"
  proof
    fix a
    assume "a \<in> set (filter ?ok arrivals)"
    then have "snd (snd a) \<in> set (concat (map (wire mtu) qs))"
      using mset_eq_setD [OF perm] by force
    then show "packet_key (snd (snd a)) \<in> set (map packet_key qs)" using good wire_member by auto
  qed
  from taken_by_key [OF keys run(2) this]
  have "mset (taken outs) = (\<Sum>q\<leftarrow>qs. mset (taken (keyed (packet_key q) (filter ?ok arrivals) outs)))"
    by (simp add: comp_def)
  also have "\<dots> = (\<Sum>q\<leftarrow>qs. {#delivered mtu q#})"
    using each by (intro arg_cong [where f = sum_list] map_cong) fastforce+
  also have "\<dots> = mset (map (delivered mtu) qs)" by (induction qs) simp_all
  finally have "mset (taken outs) = mset (map (delivered mtu) qs)" .
  moreover obtain outs' where "stack_receive orderedDelete (new_defragmenter T) arrivals = Some (d, outs')"
    "length outs' = length arrivals" "taken outs' = taken outs"
    using stack_receive_eq [OF run(1)] by blast
  moreover have "list_all2 same_datagram packets (map (delivered mtu) qs)"
    using same by (simp add: list_all2_map2)
  ultimately show ?thesis by metis
qed

lemma stack_delivers_one:
  assumes "ordered_delete_spec orderedDelete" and "min_int_spec minInt"
    and "\<forall>p \<in> set packets. deliverable mtu p" and "length packets \<le> 65536"
    and "stack_send minInt mtu curId packets = Some (curId', sent)"
    and "mset (map (snd \<circ> snd) arrivals) = mset sent + mset junk" and "\<forall>f \<in> set junk. \<not> undamaged f"
    and "\<forall>(now1, now2, f) \<in> set arrivals. t \<le> now2 \<and> now1 < t + timeout (new_defragmenter T)"
    and "p \<in> set packets"
  obtains d outs g where "stack_receive orderedDelete (new_defragmenter T) arrivals = Some (d, outs)"
    and "Some g \<in> set outs" and "same_datagram p g"
proof -
  obtain d outs got where run: "stack_receive orderedDelete (new_defragmenter T) arrivals = Some (d, outs)"
    and got: "mset (taken outs) = mset got" "list_all2 same_datagram packets got"
    using stacks_deliver_all [OF assms(1-8)] by blast
  obtain g where g: "g \<in> set got" "same_datagram p g"
    using got(2) assms(9) by (metis in_set_conv_nth list_all2_conv_all_nth)
  have "g \<in> set (taken outs)" using g(1) mset_eq_setD [OF got(1)] by simp
  then have "Some g \<in> set outs" by (auto simp: taken_def)
  then show ?thesis using that run g(2) by blast
qed

section \<open>Properties\<close>

text \<open>When \<open>SetupTunnel\<close> comes to its end, whatever the kernel answered, the process has one descriptor more,
  that of the tunnel, which is open and not in use.\<close>

theorem setup_opens_one:
  assumes k: "kernel_fds k fds" and run: "SetupTunnel k w = Some (w', tun, mtu)"
  shows "fds w' = insert (tf_fd tun) (fds w) \<and> tf_fd tun \<notin> fds w \<and>
    \<not> fd_closed (tf_base tun) \<and> fd_refCount (tf_base tun) = 0"
proof -
  obtain w1 t w2 t2 w3 t3 where c: "openTunFile k w = Some (w1, Inr t)" "posix_MTU Linux k t w1 = Some (w2, t2, Inr mtu)"
    "SetAddresses_linux k t2 MyIP Gateway Netmask w2 = Some (w3, t3, Inr ())"
    "AddRoute_linux k MaskedGateway Gateway Netmask w3 = Some (w', Inr ())" "tun = t3"
    using run by (auto simp: SetupTunnel_def bind_eq_Some_conv)
  have "t2 = t \<and> fds w2 = fds w1"
    using tunnel_MTU_returns [OF k, of Linux t w1] c(2) by auto
  moreover have "t3 = t2 \<and> fds w3 = fds w2"
    using tunnel_calls_fds [OF k, where t = t2 and w = w2 and local = MyIP and dest = Gateway and msk = Netmask] c(3)
    by (auto simp del: split_paired_Ex)
  moreover have "fds w' = fds w3"
    using tunnel_calls_fds [OF k, where w = w3 and dest = MaskedGateway and gateway = Gateway and msk = Netmask] c(4)
    by (auto simp del: split_paired_Ex)
  moreover have "tf_fd t \<notin> fds w \<and> fds w1 = insert (tf_fd t) (fds w) \<and> fd_refCount (tf_base t) = 0 \<and>
      \<not> fd_closed (tf_base t)"
    using openTunFile_fds [OF k, of w] c(1) by auto
  ultimately show ?thesis using c(5) by simp
qed

theorem setup_opens_one_witness:
  "\<exists>w' tun mtu. SetupTunnel sample_kernel sample_world = Some (w', tun, mtu) \<and> set (w_fds w') = {tf_fd tun, 3}"
proof -
  have "map_option snd (SetupTunnel sample_kernel sample_world) \<noteq> None" by code_simp
  then obtain w' tun mtu where run: "SetupTunnel sample_kernel sample_world = Some (w', tun, mtu)" by auto
  from setup_opens_one [OF sample_kernel_fds run] run show ?thesis by (auto simp: sample_world_def)
qed

text \<open>C1: Two stacks deliver.  Whatever valid packets one end sends (up to 65536, so that the identifications
  do not repeat), the network may reorder all their fragments and mix in any packets that are damaged, that
  is invalid or with a wrong header checksum: within the timeout the other end hands each packet out
  exactly once, with its addresses, protocol, TTL and payload, and nothing else.\<close>

theorem stacks_deliver:
  assumes "ordered_delete_spec orderedDelete" and "min_int_spec minInt"
    and "\<forall>p \<in> set packets. deliverable mtu p" and "length packets \<le> 65536"
    and "stack_send minInt mtu curId packets = Some (curId', sent)"
    and "mset (map (snd \<circ> snd) arrivals) = mset sent + mset junk" and "\<forall>f \<in> set junk. \<not> undamaged f"
    and "\<forall>(now1, now2, f) \<in> set arrivals. t \<le> now2 \<and> now1 < t + timeout (new_defragmenter T)"
  shows "\<exists>d outs got. stack_receive orderedDelete (new_defragmenter T) arrivals = Some (d, outs) \<and>
    length outs = length arrivals \<and> mset (taken outs) = mset got \<and> list_all2 same_datagram packets got"
  using assms by (rule stacks_deliver_all)

lemma sample_deliverable: "deliverable 36 sample_packet"
  using sample_packet_facts by (auto simp: deliverable_def)

theorem stacks_deliver_witness:
  "\<exists>sent d outs got. stack_send min 36 0xffff [sample_packet, sample_packet] = Some (1, sent) \<and>
     stack_receive (\<lambda>xs i. take i xs @ drop (Suc i) xs) (new_defragmenter 0)
       ((3, 4, [1, 2, 3]) # map (\<lambda>f. (0, 0, f)) (rev sent)) = Some (d, outs) \<and>
     mset (taken outs) = mset got \<and> list_all2 same_datagram [sample_packet, sample_packet] got"
proof -
  have del: "\<forall>p \<in> set [sample_packet, sample_packet]. deliverable 36 p" by (simp add: sample_deliverable)
  obtain qs where send: "stack_send min 36 0xffff [sample_packet, sample_packet] =
      Some (0xffff + of_nat (length [sample_packet, sample_packet]), concat (map (wire 36) qs))"
    by (rule stack_send_eq [OF min_int_spec_min del])
  define sent where "sent = concat (map (wire 36) qs)"
  have run: "stack_send min 36 0xffff [sample_packet, sample_packet] = Some (1, sent)"
    using send by (simp add: sent_def)
  have "\<not> undamaged [1, 2, 3]" by (simp add: undamaged_def IPv4_Valid_def)
  then have "\<exists>d outs got. stack_receive (\<lambda>xs i. take i xs @ drop (Suc i) xs) (new_defragmenter 0)
       ((3, 4, [1, 2, 3]) # map (\<lambda>f. (0, 0, f)) (rev sent)) = Some (d, outs) \<and>
     length outs = length ((3, 4, [1, 2, 3]) # map (\<lambda>f. (0 :: int, 0 :: int, f)) (rev sent)) \<and>
     mset (taken outs) = mset got \<and> list_all2 same_datagram [sample_packet, sample_packet] got"
    by (intro stacks_deliver [OF ordered_delete_spec_take_drop min_int_spec_min del _ run,
          where junk = "[[1, 2, 3]]" and t = 0])
      (auto simp: new_defragmenter_def comp_def)
  then show ?thesis using run by blast
qed

lemma ip_services_ping:
  assumes g: "same_datagram p g" and p: "IPv4_DestAddr p = Some [10, 13, 37, 1]" "IPv4_Proto p = Some 1"
    "IPv4_SourceAddr p = Some src" "IPv4_Payload p = Some req"
    and req: "ICMP_Valid req" "InternetChecksum req = 0" "req ! 0 = 8"
  shows "\<exists>reply rep. ip_services g = Some [reply] \<and> IPv4_Valid reply = Some True \<and> IPv4_Checksum reply = Some 0 \<and>
    IPv4_SourceAddr reply = Some [10, 13, 37, 1] \<and> IPv4_DestAddr reply = Some src \<and>
    IPv4_Payload reply = Some rep \<and> ICMP_Type rep = Some 0 \<and> ICMP_Checksum rep = Some 0 \<and>
    drop 4 rep = drop 4 req"
proof -
  have f: "IPv4_Valid g = Some True" "IPv4_SourceAddr g = Some src" "IPv4_DestAddr g = Some [10, 13, 37, 1]"
    "IPv4_Payload g = Some req" "IPv4_Proto g = Some 1"
    using g p by (simp_all add: same_datagram_def)
  have "To4 MyIP = Some [10, 13, 37, 2]" "To4 Gateway = Some [10, 13, 37, 1]" by code_simp+
  then have "ip_services g = Some [echo_reply g]"
    using ping_reply_spec [OF f(1-4)] req f
    by (simp add: ip_services_def FilterIPv4Dest_def FilterIPv4Proto_def slice_of_def)
  moreover have "\<exists>rep. IPv4_Valid (echo_reply g) = Some True \<and>
       IPv4_Checksum (echo_reply g) = Some 0 \<and>
       IPv4_SourceAddr (echo_reply g) = Some [10, 13, 37, 1] \<and> IPv4_DestAddr (echo_reply g) = Some src \<and>
       IPv4_Payload (echo_reply g) = Some rep \<and> ICMP_Type rep = Some 0 \<and> ICMP_Checksum rep = Some 0 \<and>
       length rep = length req \<and> rep ! 1 = req ! 1 \<and> drop 4 rep = drop 4 req"
    using ping_reply_spec [OF f(1-4)] req(1) by blast
  ultimately show ?thesis by blast
qed

text \<open>C26: The demo answers pings.  An echo request to the gateway that another stack sends, among other packets,
  in fragments and through a network as above, is handed to the services, and they send exactly one packet
  for it: a valid one from the gateway to the sender, with correct checksums, type 0, and the identifier,
  sequence number and data of the request.\<close>

theorem demo_answers_pings:
  assumes "ordered_delete_spec orderedDelete" and "min_int_spec minInt"
    and "\<forall>p \<in> set packets. deliverable mtu p" and "length packets \<le> 65536"
    and "stack_send minInt mtu curId packets = Some (curId', sent)"
    and "mset (map (snd \<circ> snd) arrivals) = mset sent + mset junk" and "\<forall>f \<in> set junk. \<not> undamaged f"
    and "\<forall>(now1, now2, f) \<in> set arrivals. t \<le> now2 \<and> now1 < t + timeout (new_defragmenter T)"
    and "p \<in> set packets" and "IPv4_DestAddr p = Some [10, 13, 37, 1]" and "IPv4_Proto p = Some 1"
    and "IPv4_SourceAddr p = Some src" and "IPv4_Payload p = Some req"
    and "ICMP_Valid req" and "InternetChecksum req = 0" and "req ! 0 = 8"
  shows "\<exists>d outs g reply rep. stack_receive orderedDelete (new_defragmenter T) arrivals = Some (d, outs) \<and>
    Some g \<in> set outs \<and> ip_services g = Some [reply] \<and>
    IPv4_Valid reply = Some True \<and> IPv4_Checksum reply = Some 0 \<and>
    IPv4_SourceAddr reply = Some [10, 13, 37, 1] \<and> IPv4_DestAddr reply = Some src \<and>
    IPv4_Payload reply = Some rep \<and> ICMP_Type rep = Some 0 \<and> ICMP_Checksum rep = Some 0 \<and>
    drop 4 rep = drop 4 req"
proof -
  obtain d outs g where run: "stack_receive orderedDelete (new_defragmenter T) arrivals = Some (d, outs)"
    and g: "Some g \<in> set outs" "same_datagram p g"
    by (rule stack_delivers_one [OF assms(1-9)])
  then show ?thesis using ip_services_ping [OF g(2) assms(10-16)] by blast
qed

definition gateway_ping :: bytes where
  "gateway_ping = [0x45, 0, 0, 28, 0, 0, 0, 0, 64, 1, 0, 0, 10, 0, 0, 1, 10, 13, 37, 1,
     8, 0, 0xf7, 0xff, 0, 0, 0, 0]"

theorem demo_answers_pings_witness:
  "\<exists>sent d outs g reply. stack_send min 1500 0 [gateway_ping] = Some (1, sent) \<and>
     stack_receive (\<lambda>xs i. take i xs @ drop (Suc i) xs) (new_defragmenter 0)
       (map (\<lambda>f. (0, 0, f)) sent) = Some (d, outs) \<and>
     Some g \<in> set outs \<and> ip_services g = Some [reply] \<and> IPv4_DestAddr reply = Some [10, 0, 0, 1]"
proof -
  have p: "IPv4_Valid gateway_ping = Some True" "IPv4_DestAddr gateway_ping = Some [10, 13, 37, 1]"
    "IPv4_Proto gateway_ping = Some 1" "IPv4_SourceAddr gateway_ping = Some [10, 0, 0, 1]"
    "IPv4_Payload gateway_ping = Some [8, 0, 0xf7, 0xff, 0, 0, 0, 0]"
    "IPv4_FragmentInfo gateway_ping = Some (False, False, 0)"
    "header_len gateway_ping = 20" "length gateway_ping = 28"
    by (simp_all add: ip_valid_iff be_int_eq header_len_def gateway_ping_def IPv4_fields_eq IPv4_Payload_eq be_int_def)
  have ping: "ICMP_Valid [8, 0, 0xf7, 0xff, 0, 0, 0, 0]" "InternetChecksum [8, 0, 0xf7, 0xff, 0, 0, 0, 0] = 0"
    by (simp add: ICMP_Valid_def, subst InternetChecksum_eq_0_iff) simp_all
  have del: "\<forall>p \<in> set [gateway_ping]. deliverable 1500 p" using p by (auto simp: deliverable_def)
  obtain qs where send: "stack_send min 1500 0 [gateway_ping] =
      Some (0 + of_nat (length [gateway_ping]), concat (map (wire 1500) qs))"
    by (rule stack_send_eq [OF min_int_spec_min del])
  define sent where "sent = concat (map (wire 1500) qs)"
  have run: "stack_send min 1500 0 [gateway_ping] = Some (1, sent)" using send by (simp add: sent_def)
  have "\<exists>d outs g reply rep. stack_receive (\<lambda>xs i. take i xs @ drop (Suc i) xs) (new_defragmenter 0)
       (map (\<lambda>f. (0, 0, f)) sent) = Some (d, outs) \<and>
    Some g \<in> set outs \<and> ip_services g = Some [reply] \<and>
    IPv4_Valid reply = Some True \<and> IPv4_Checksum reply = Some 0 \<and>
    IPv4_SourceAddr reply = Some [10, 13, 37, 1] \<and> IPv4_DestAddr reply = Some [10, 0, 0, 1] \<and>
    IPv4_Payload reply = Some rep \<and> ICMP_Type rep = Some 0 \<and> ICMP_Checksum rep = Some 0 \<and>
    drop 4 rep = drop 4 [8, 0, 0xf7, 0xff, 0, 0, 0, 0]"
    by (rule demo_answers_pings [OF ordered_delete_spec_take_drop min_int_spec_min del _ run, where junk = "[]" and t = 0
          and p = gateway_ping])
      (use p ping in \<open>simp_all add: new_defragmenter_def comp_def\<close>)
  then show ?thesis using run by blast
qed

end
