(* ===== verification/UDP.thy ===== *)
theory UDP
  imports Transport
begin

text \<open>
  \<open>ipstack/udp.go\<close> and the packet filters of \<open>ipstack/net_udp.go\<close>: UDP packets inside IPv4
  packets.  A \<open>UDPHeader\<close> is the slice of the 8 bytes behind the IP header; a setter returns
  the changed bytes and \<open>store_udp\<close> is the packet that shares them.
\<close>

section \<open>The header\<close>

definition UDP_field :: "bytes \<Rightarrow> nat \<Rightarrow> u16 go" where
  "UDP_field u i = do {
     let off = push_bit 1 i;
     a \<leftarrow> idx u off;
     b \<leftarrow> idx u (off + 1);
     Some (be16 a b)
   }"

definition UDP_setField :: "bytes \<Rightarrow> nat \<Rightarrow> u16 \<Rightarrow> bytes go" where
  "UDP_setField u i val = do {
     let off = push_bit 1 i;
     u \<leftarrow> upd u off (hi8 val);
     upd u (off + 1) (lo8 val)
   }"

definition UDP_SourcePort :: "bytes \<Rightarrow> u16 go" where "UDP_SourcePort u = UDP_field u 0"
definition UDP_SetSourcePort :: "bytes \<Rightarrow> u16 \<Rightarrow> bytes go" where
  "UDP_SetSourcePort u val = UDP_setField u 0 val"
definition UDP_DestPort :: "bytes \<Rightarrow> u16 go" where "UDP_DestPort u = UDP_field u 1"
definition UDP_SetDestPort :: "bytes \<Rightarrow> u16 \<Rightarrow> bytes go" where
  "UDP_SetDestPort u val = UDP_setField u 1 val"
definition UDP_Length :: "bytes \<Rightarrow> u16 go" where "UDP_Length u = UDP_field u 2"
definition UDP_SetLength :: "bytes \<Rightarrow> u16 \<Rightarrow> bytes go" where
  "UDP_SetLength u val = UDP_setField u 2 val"
definition UDP_Checksum :: "bytes \<Rightarrow> u16 go" where "UDP_Checksum u = UDP_field u 3"
definition UDP_SetChecksum :: "bytes \<Rightarrow> u16 \<Rightarrow> bytes go" where
  "UDP_SetChecksum u val = UDP_setField u 3 val"

section \<open>Packets\<close>

definition UDP4_Header :: "bytes \<Rightarrow> bytes go" where
  "UDP4_Header u = do { p \<leftarrow> IPv4_Payload u; slice p 0 8 }"

definition UDP4_Payload :: "bytes \<Rightarrow> bytes go" where
  "UDP4_Payload u = do { p \<leftarrow> IPv4_Payload u; slice_from p 8 }"

definition store_udp :: "bytes \<Rightarrow> bytes \<Rightarrow> bytes go" where
  "store_udp u h = do {
     p \<leftarrow> IPv4_Payload u;
     let base = length u - length p;
     Some (take base u @ h @ drop (base + length h) u)
   }"

definition UDP4_Valid :: "bytes \<Rightarrow> bool go" where
  "UDP4_Valid u = do {
     v \<leftarrow> IPv4_Valid u;
     if \<not> v then Some False
     else do {
       p \<leftarrow> IPv4_Payload u;
       if length p < 8 then Some False
       else do {
         header \<leftarrow> UDP4_Header u;
         len \<leftarrow> UDP_Length header;
         payload \<leftarrow> UDP4_Payload u;
         Some (unat len = length header + length payload)
       }
     }
   }"

definition UDP4_SourceAddr :: "bytes \<Rightarrow> net_addr go" where
  "UDP4_SourceAddr u = do {
     ip \<leftarrow> IPv4_SourceAddr u;
     h \<leftarrow> UDP4_Header u;
     port \<leftarrow> UDP_SourcePort h;
     Some \<lparr>IP = ip, Port = uint port\<rparr>
   }"

definition UDP4_DestAddr :: "bytes \<Rightarrow> net_addr go" where
  "UDP4_DestAddr u = do {
     ip \<leftarrow> IPv4_DestAddr u;
     h \<leftarrow> UDP4_Header u;
     port \<leftarrow> UDP_DestPort h;
     Some \<lparr>IP = ip, Port = uint port\<rparr>
   }"

definition UDP4_UseChecksum :: "bytes \<Rightarrow> bool go" where
  "UDP4_UseChecksum u = do { h \<leftarrow> UDP4_Header u; c \<leftarrow> UDP_Checksum h; Some (c \<noteq> 0) }"

definition UDP4_Checksum :: "bytes \<Rightarrow> u16 go" where
  "UDP4_Checksum u = do {
     p \<leftarrow> IPv4_Payload u;
     let udpLen = length p;
     let pseudo = replicate (12 + udpLen) 0;
     source \<leftarrow> IPv4_SourceAddr u;
     pseudo \<leftarrow> copy_slice pseudo 0 (length pseudo) (slice_of (To4 source));
     dest \<leftarrow> IPv4_DestAddr u;
     pseudo \<leftarrow> copy_slice pseudo 4 (length pseudo) (slice_of (To4 dest));
     pseudo \<leftarrow> upd pseudo 9 17;
     pseudo \<leftarrow> upd pseudo 10 (of_nat (drop_bit 8 udpLen));
     pseudo \<leftarrow> upd pseudo 11 (of_nat udpLen);
     p \<leftarrow> IPv4_Payload u;
     pseudo \<leftarrow> copy_slice pseudo 12 (length pseudo) p;
     Some (InternetChecksum pseudo)
   }"

definition UDP4_SetChecksum :: "bytes \<Rightarrow> bytes go" where
  "UDP4_SetChecksum u = do {
     h \<leftarrow> UDP4_Header u;
     h \<leftarrow> UDP_SetChecksum h 0;
     u \<leftarrow> store_udp u h;
     c \<leftarrow> UDP4_Checksum u;
     let c = (if c = 0 then 0xffff else c);
     h \<leftarrow> UDP4_Header u;
     h \<leftarrow> UDP_SetChecksum h c;
     store_udp u h
   }"

definition NewUDP4Packet :: "int \<Rightarrow> net_addr \<Rightarrow> net_addr \<Rightarrow> bytes \<Rightarrow> bytes go" where
  "NewUDP4Packet ttl source dest payload = do {
     let uPacket = replicate (8 + length payload) 0;
     uHeader \<leftarrow> slice uPacket 0 8;
     uHeader \<leftarrow> UDP_SetSourcePort uHeader (word_of_int (Port source));
     uHeader \<leftarrow> UDP_SetDestPort uHeader (word_of_int (Port dest));
     uHeader \<leftarrow> UDP_SetLength uHeader (of_nat (length uPacket));
     let uPacket = uHeader @ drop 8 uPacket;
     uPacket \<leftarrow> copy_slice uPacket 8 (length uPacket) payload;
     res \<leftarrow> NewIPv4Packet ttl 17 (IP source) (IP dest) uPacket;
     UDP4_SetChecksum res
   }"

section \<open>Filters\<close>

text \<open>The \<open>FilterFunc\<close>s of \<open>NewUDP4Net\<close>, \<open>DialUDP\<close> and \<open>ListenUDP\<close>.\<close>

definition NewUDP4Net_filter :: "bytes \<Rightarrow> bytes option go" where
  "NewUDP4Net_filter packet = do {
     v \<leftarrow> UDP4_Valid packet;
     if \<not> v then Some None
     else do {
       use \<leftarrow> UDP4_UseChecksum packet;
       if \<not> use then Some (Some packet)
       else do {
         c \<leftarrow> UDP4_Checksum packet;
         Some (if c = 0 then Some packet else None)
       }
     }
   }"

definition DialUDP_filter :: "net_addr \<Rightarrow> net_addr \<Rightarrow> bytes \<Rightarrow> bytes option go" where
  "DialUDP_filter laddr raddr d = do {
     source \<leftarrow> UDP4_SourceAddr d;
     dest \<leftarrow> UDP4_DestAddr d;
     Some (if \<not> IP_Equal (IP source) (IP raddr) \<or> Port source \<noteq> Port raddr \<or> Port dest \<noteq> Port laddr
           then None else Some d)
   }"

definition ListenUDP_filter :: "net_addr \<Rightarrow> bytes \<Rightarrow> bytes option go" where
  "ListenUDP_filter laddr d = do {
     dest \<leftarrow> UDP4_DestAddr d;
     Some (if Port dest \<noteq> Port laddr then None else Some d)
   }"

section \<open>The operations on valid packets\<close>

lemma UDP_field_eq:
  "i < 4 \<Longrightarrow> 8 \<le> length u \<Longrightarrow> UDP_field u i = Some (be16 (u ! (2 * i)) (u ! (2 * i + 1)))"
  by (simp add: UDP_field_def push_bit_eq_mult mult.commute Let_def)

lemma UDP_setField_eq:
  "i < 4 \<Longrightarrow> 8 \<le> length u \<Longrightarrow> UDP_setField u i v = Some (put16 u (2 * i) v)"
  by (simp add: UDP_setField_def push_bit_eq_mult mult.commute put16_def Let_def)

lemma udp_valid_iff:
  "UDP4_Valid p = Some True \<longleftrightarrow>
     IPv4_Valid p = Some True \<and> header_len p + 8 \<le> length p \<and>
     unat (be16 (p ! (header_len p + 4)) (p ! (header_len p + 5))) = length p - header_len p"
proof (cases "IPv4_Valid p = Some True")
  case True
  note len = ip_valid_length [OF True]
  have "IPv4_Payload p = Some (drop (header_len p) p)" using len by (intro IPv4_Payload_eq) auto
  then show ?thesis using True len
    by (auto simp: UDP4_Valid_def UDP4_Header_def UDP4_Payload_def UDP_Length_def UDP_field_eq)
qed (auto simp: UDP4_Valid_def IPv4_Valid_eq)

lemma UDP4_Valid_total: "\<exists>v. UDP4_Valid p = Some v"
proof (cases "IPv4_Valid p = Some True")
  case True
  note len = ip_valid_length [OF True]
  have "IPv4_Payload p = Some (drop (header_len p) p)" using len by (intro IPv4_Payload_eq) auto
  then show ?thesis using True
    by (auto simp: UDP4_Valid_def UDP4_Header_def UDP4_Payload_def UDP_Length_def UDP_field_eq)
qed (auto simp: UDP4_Valid_def IPv4_Valid_eq)

lemma udp_valid_length:
  assumes "UDP4_Valid p = Some True"
  shows "IPv4_Valid p = Some True" and "header_len p + 8 \<le> length p" and "20 \<le> header_len p"
    and "length p \<le> 65535" and "IPv4_Payload p = Some (drop (header_len p) p)"
proof -
  show v: "IPv4_Valid p = Some True" "header_len p + 8 \<le> length p"
    using assms by (auto simp: udp_valid_iff)
  show "20 \<le> header_len p" "length p \<le> 65535"
    using ip_valid_length [OF v(1)] by auto
  show "IPv4_Payload p = Some (drop (header_len p) p)"
    using ip_valid_length [OF v(1)] by (intro IPv4_Payload_eq) auto
qed

lemma UDP4_Header_eq:
  "UDP4_Valid p = Some True \<Longrightarrow> UDP4_Header p = Some (take 8 (drop (header_len p) p))"
  using udp_valid_length [of p] by (simp add: UDP4_Header_def)

lemma UDP4_Payload_eq:
  "UDP4_Valid p = Some True \<Longrightarrow> UDP4_Payload p = Some (drop (header_len p + 8) p)"
  using udp_valid_length [of p] by (simp add: UDP4_Payload_def add.commute)

lemma udp_len_bytes:
  "hi8 (of_nat n) = of_nat (drop_bit 8 n)" "lo8 (of_nat n) = of_nat n" if "n < 65536"
proof -
  show "hi8 (of_nat n) = of_nat (drop_bit 8 n)"
    using that by (simp add: word_unat_eq_iff unat_hi8 unat_of_nat_u16 unat_of_nat_byte drop_bit_eq_div)
  show "lo8 (of_nat n) = of_nat n"
    using that by (simp add: word_unat_eq_iff unat_lo8 unat_of_nat_u16 unat_of_nat_byte)
qed

lemma replicate_12_plus:
  "replicate (12 + n) x = [x,x,x,x,x,x,x,x,x,x,x,x] @ replicate n x"
  by (simp add: numeral_eq_Suc)

lemma UDP4_Checksum_eq:
  assumes "UDP4_Valid p = Some True"
  shows "UDP4_Checksum p = Some (transport_sum 17 p)"
proof -
  note len = udp_valid_length [OF assms]
  obtain s0 s1 s2 s3 where s: "take 4 (drop 12 p) = [s0, s1, s2, s3]"
    using len list4_eq [of "take 4 (drop 12 p)"] by force
  obtain d0 d1 d2 d3 where d: "take 4 (drop 16 p) = [d0, d1, d2, d3]"
    using len list4_eq [of "take 4 (drop 16 p)"] by force
  have n: "length p - header_len p < 65536" using len by simp
  have l20: "20 \<le> length p" using len by simp
  note fields = IPv4_fields_eq(1,2) [OF l20, unfolded s d]
  show ?thesis
    unfolding UDP4_Checksum_def len(5) fields
    by (simp add: replicate_12_plus copy_list_def To4_def transport_sum_def pseudo_header_def s d
        udp_len_bytes [OF n] Let_def)
qed

definition with_udp_checksum :: "bytes \<Rightarrow> bytes" where
  "with_udp_checksum p =
     (let c = transport_sum 17 (put16 p (header_len p + 6) 0)
      in put16 p (header_len p + 6) (if c = 0 then 0xffff else c))"

lemma udp_put16:
  assumes "UDP4_Valid p = Some True"
  shows "UDP4_Valid (put16 p (header_len p + 6) v) = Some True"
    and "header_len (put16 p (header_len p + 6) v) = header_len p"
proof -
  note len = udp_valid_length [OF assms]
  show hl: "header_len (put16 p (header_len p + 6) v) = header_len p" using len by simp
  show "UDP4_Valid (put16 p (header_len p + 6) v) = Some True"
    using assms valid_put16 [OF len(1), of "header_len p + 6" v] hl
    by (simp add: udp_valid_iff) (simp add: put16_def)
qed

lemma store_udp_put16:
  assumes "IPv4_Payload p = Some (drop h p)" and "h + 8 \<le> length p" and "Suc k < 8"
  shows "store_udp p (put16 (take 8 (drop h p)) k v) = Some (put16 p (h + k) v)"
proof -
  have "take h p @ put16 (take 8 (drop h p)) k v @ drop (h + 8) p = put16 p (h + k) v"
    by (rule nth_equalityI)
      (use assms(2,3) in \<open>auto simp: nth_append nth_put16 less_diff_conv2 algebra_simps\<close>)
  then show ?thesis using assms(1,2) by (simp add: store_udp_def min_absorb2)
qed

lemma UDP4_SetChecksum_eq:
  assumes "UDP4_Valid p = Some True"
  shows "UDP4_SetChecksum p = Some (with_udp_checksum p)"
proof -
  note len = udp_valid_length [OF assms]
  let ?q = "put16 p (header_len p + 6) 0"
  note q = udp_put16 [OF assms, of 0]
  note qlen = udp_valid_length [OF q(1)]
  have set: "UDP_SetChecksum (take 8 (drop h x)) v = Some (put16 (take 8 (drop h x)) 6 v)"
    if "h + 8 \<le> length x" for h v and x :: bytes
    using that by (simp add: UDP_SetChecksum_def UDP_setField_eq)
  have 1: "store_udp p (put16 (take 8 (drop (header_len p) p)) 6 0) = Some ?q"
    by (rule store_udp_put16) (use len in auto)
  have 2: "store_udp ?q (put16 (take 8 (drop (header_len p) ?q)) 6 v) = Some (put16 p (header_len p + 6) v)"
    for v
    using store_udp_put16 [OF qlen(5,2), of 6 v] unfolding q(2) by simp
  show ?thesis
    using len qlen
    by (simp add: UDP4_SetChecksum_def UDP4_Header_eq [OF assms] set 1 UDP4_Checksum_eq [OF q(1)]
        UDP4_Header_eq [OF q(1)] 2 with_udp_checksum_def Let_def)
qed

lemma UDP4_with_checksum:
  assumes "UDP4_Valid p = Some True"
  shows "transport_sum 17 (with_udp_checksum p) = 0"
  unfolding with_udp_checksum_def Let_def
  using udp_valid_length [OF assms] by (intro transport_sum_set) auto

lemma with_udp_checksum_facts:
  assumes "UDP4_Valid p = Some True"
  shows "UDP4_Valid (with_udp_checksum p) = Some True"
    and "header_len (with_udp_checksum p) = header_len p"
    and "length (with_udp_checksum p) = length p"
    and "with_udp_checksum (with_udp_checksum p) = with_udp_checksum p"
    and "UDP4_UseChecksum (with_udp_checksum p) = Some True"
proof -
  define c where "c = transport_sum 17 (put16 p (header_len p + 6) 0)"
  define v where "v = (if c = 0 then 0xffff else c)"
  have w: "with_udp_checksum p = put16 p (header_len p + 6) v"
    by (simp add: with_udp_checksum_def v_def c_def Let_def)
  show valid: "UDP4_Valid (with_udp_checksum p) = Some True"
    and hl: "header_len (with_udp_checksum p) = header_len p"
    using udp_put16 [OF assms] by (simp_all add: w)
  show "length (with_udp_checksum p) = length p" by (simp add: w)
  show "with_udp_checksum (with_udp_checksum p) = with_udp_checksum p"
    using hl by (simp add: with_udp_checksum_def [of "with_udp_checksum p"])
      (simp add: with_udp_checksum_def Let_def)
  have "be16 (with_udp_checksum p ! (header_len p + 6)) (with_udp_checksum p ! (header_len p + 7)) = v"
    using udp_valid_length [OF assms] by (simp add: w nth_put16)
  moreover have "v \<noteq> 0" by (simp add: v_def)
  moreover have "8 \<le> length (take 8 (drop (header_len p) (with_udp_checksum p)))"
    using udp_valid_length [OF assms] by (simp add: w)
  ultimately show "UDP4_UseChecksum (with_udp_checksum p) = Some True"
    using udp_valid_length [OF valid] hl
    by (simp add: UDP4_UseChecksum_def UDP4_Header_eq [OF valid] UDP_Checksum_def UDP_field_eq)
qed

interpretation udp: checksummed
  "\<lambda>p. UDP4_Valid p = Some True" UDP4_Checksum UDP4_SetChecksum
proof unfold_locales
  fix p assume v: "UDP4_Valid p = Some True"
  note w = with_udp_checksum_facts [OF v]
  show "\<exists>c. UDP4_Checksum p = Some c" by (simp add: UDP4_Checksum_eq [OF v])
  show "\<exists>q. UDP4_SetChecksum p = Some q \<and> UDP4_Valid q = Some True \<and> length q = length p"
    using w by (simp add: UDP4_SetChecksum_eq [OF v])
  fix q assume "UDP4_SetChecksum p = Some q"
  then have q: "q = with_udp_checksum p" by (simp add: UDP4_SetChecksum_eq [OF v])
  show "UDP4_Checksum q = Some 0" by (simp add: q UDP4_Checksum_eq [OF w(1)] UDP4_with_checksum [OF v])
  show "UDP4_SetChecksum q = Some q" by (simp add: q UDP4_SetChecksum_eq [OF w(1)] w(4))
qed

lemma NewUDP4Net_filter_eq:
  assumes "UDP4_Valid p = Some True" and "UDP4_UseChecksum p = Some True"
  shows "NewUDP4Net_filter p = checksum_filter UDP4_Checksum p"
  using assms by (simp add: NewUDP4Net_filter_def checksum_filter_def)

section \<open>Building a packet\<close>

definition udp_header_bytes :: "u16 \<Rightarrow> u16 \<Rightarrow> u16 \<Rightarrow> bytes" where
  "udp_header_bytes sp dp len = [hi8 sp, lo8 sp, hi8 dp, lo8 dp, hi8 len, lo8 len, 0, 0]"

lemma replicate_8_plus: "replicate (8 + n) x = [x,x,x,x,x,x,x,x] @ replicate n x"
  by (simp add: numeral_eq_Suc)

lemma NewUDP4Packet_unfold:
  "NewUDP4Packet ttl source dest payload = do {
     res \<leftarrow> NewIPv4Packet ttl 17 (IP source) (IP dest)
       (udp_header_bytes (word_of_int (Port source)) (word_of_int (Port dest))
          (of_nat (8 + length payload)) @ payload);
     UDP4_SetChecksum res
   }"
  unfolding NewUDP4Packet_def replicate_8_plus
  by (simp add: UDP_SetSourcePort_def UDP_SetDestPort_def UDP_SetLength_def UDP_setField_eq put16_def
      udp_header_bytes_def copy_list_def Let_def)

lemma NewUDP4Packet_around:
  assumes addr: "To4 (IP source) = Some src" "To4 (IP dest) = Some dst"
    and len: "length payload \<le> 65507"
  obtains r where "NewUDP4Packet ttl source dest payload = Some (with_udp_checksum r)"
    and "UDP4_Valid r = Some True" and "header_len r = 20" and "28 \<le> length r"
    and "drop 20 r = udp_header_bytes (word_of_int (Port source)) (word_of_int (Port dest))
      (of_nat (8 + length payload)) @ payload"
    and "IPv4_SourceAddr r = Some src" and "IPv4_DestAddr r = Some dst" and "IPv4_Proto r = Some 17"
    and "IPv4_FragmentInfo r = Some (False, False, 0)"
proof -
  define xs where "xs = udp_header_bytes (word_of_int (Port source)) (word_of_int (Port dest))
      (of_nat (8 + length payload)) @ payload"
  have xs: "length xs = 8 + length payload" by (simp add: xs_def udp_header_bytes_def)
  then have "length xs \<le> 65515" using len by simp
  from NewIPv4Packet_around [OF addr this, of 17 ttl] obtain r where
    r: "NewIPv4Packet ttl 17 (IP source) (IP dest) xs = Some r" "IPv4_Valid r = Some True"
      "length r = 20 + length xs" "header_len r = 20" "drop 20 r = xs" "\<And>i. r ! (20 + i) = xs ! i"
      "IPv4_SourceAddr r = Some src" "IPv4_DestAddr r = Some dst" "IPv4_Proto r = Some 17"
      "IPv4_FragmentInfo r = Some (False, False, 0)" by auto
  have "be16 (xs ! 4) (xs ! 5) = of_nat (8 + length payload)"
    by (simp add: xs_def udp_header_bytes_def)
  moreover have "8 + length payload < 65536" using len by simp
  ultimately have "unat (be16 (xs ! 4) (xs ! 5)) = 8 + length payload"
    by (simp only: unat_of_nat_u16 mod_less)
  then have v: "UDP4_Valid r = Some True"
    using r(2-4) xs r(6) [of 4] r(6) [of 5] by (simp add: udp_valid_iff)
  show ?thesis
  proof (rule that [OF _ v r(4) _ r(5) [unfolded xs_def] r(7-10)])
    show "NewUDP4Packet ttl source dest payload = Some (with_udp_checksum r)"
      using r(1) UDP4_SetChecksum_eq [OF v] by (simp add: NewUDP4Packet_unfold xs_def)
  qed (use r(3) xs in simp)
qed

text \<open>Everything that the receiver of a packet reads from it.\<close>

lemma NewUDP4Packet_fields:
  assumes addr: "To4 (IP source) = Some src" "To4 (IP dest) = Some dst"
    and len: "length payload \<le> 65507"
  obtains p where "NewUDP4Packet ttl source dest payload = Some p"
    and "UDP4_Valid p = Some True" and "UDP4_Checksum p = Some 0" and "UDP4_UseChecksum p = Some True"
    and "UDP4_Payload p = Some payload"
    and "UDP4_SourceAddr p = Some \<lparr>IP = src, Port = Port source mod 65536\<rparr>"
    and "UDP4_DestAddr p = Some \<lparr>IP = dst, Port = Port dest mod 65536\<rparr>"
    and "IPv4_Proto p = Some 17" and "IPv4_DestAddr p = Some dst"
    and "IPv4_FragmentInfo p = Some (False, False, 0)" and "header_len p = 20"
proof -
  define xs where "xs = udp_header_bytes (word_of_int (Port source)) (word_of_int (Port dest))
      (of_nat (8 + length payload)) @ payload"
  have xs: "length xs = 8 + length payload" "drop 8 xs = payload"
    by (simp_all add: xs_def udp_header_bytes_def)
  obtain r where r: "NewUDP4Packet ttl source dest payload = Some (with_udp_checksum r)"
    "UDP4_Valid r = Some True" "header_len r = 20" "28 \<le> length r" "drop 20 r = xs"
    "IPv4_SourceAddr r = Some src" "IPv4_DestAddr r = Some dst" "IPv4_Proto r = Some 17"
    "IPv4_FragmentInfo r = Some (False, False, 0)"
    unfolding xs_def by (rule NewUDP4Packet_around [OF assms])
  define p where "p = with_udp_checksum r"
  note w = with_udp_checksum_facts [OF r(2), folded p_def]
  obtain c where c: "p = put16 r 26 c" by (simp add: p_def with_udp_checksum_def r(3) Let_def)
  have dp: "drop 20 p = put16 xs 6 c" using drop_put16_at [of 20 r 6 c] r(5) by (simp add: c)
  have "20 \<le> length r" "(20 :: nat) \<le> 26" using r(4) by simp_all
  note ip = ip_fields_put16 [OF this, of c, folded c, unfolded r]
  have h: "UDP4_Header p = Some (take 8 (put16 xs 6 c))"
    using UDP4_Header_eq [OF w(1)] w(2) r(3) dp by simp
  have "UDP_SourcePort (take 8 (put16 xs 6 c)) = Some (word_of_int (Port source))"
    "UDP_DestPort (take 8 (put16 xs 6 c)) = Some (word_of_int (Port dest))"
    using xs(1) by (simp_all add: UDP_SourcePort_def UDP_DestPort_def UDP_field_eq put16_def)
      (simp_all add: xs_def udp_header_bytes_def)
  then have ports: "UDP4_SourceAddr p = Some \<lparr>IP = src, Port = Port source mod 65536\<rparr>"
    "UDP4_DestAddr p = Some \<lparr>IP = dst, Port = Port dest mod 65536\<rparr>"
    using ip h by (simp_all add: UDP4_SourceAddr_def UDP4_DestAddr_def uint_word_of_int)
  have ck: "UDP4_Checksum p = Some 0"
    by (simp add: UDP4_Checksum_eq [OF w(1)]) (simp add: p_def UDP4_with_checksum [OF r(2)])
  have "drop 28 p = drop 8 (drop 20 p)" by simp
  also have "\<dots> = payload" unfolding dp using xs(2) by simp
  finally have "UDP4_Payload p = Some payload" using UDP4_Payload_eq [OF w(1)] w(2) r(3) by simp
  then show ?thesis by (rule that [OF r(1) [folded p_def] w(1) ck w(5) _ ports ip(3,2,4,5)])
qed

section \<open>Properties\<close>

text \<open>For IPv4 addresses and at most 65507 bytes of data \<open>NewUDP4Packet\<close> does not panic, and
  the packet passes the filter of \<open>NewUDP4Net\<close> and, with ports in range, that of the
  connection which \<open>DialUDP\<close> opened from its destination to its source; payload and
  addresses are read back as given.\<close>

theorem new_udp4_packet_roundtrip:
  assumes "To4 (IP source) = Some src" and "To4 (IP dest) = Some dst"
    and "length payload \<le> 65507" and "0 \<le> Port source" and "Port source < 65536"
    and "0 \<le> Port dest" and "Port dest < 65536"
  shows "\<exists>p. NewUDP4Packet ttl source dest payload = Some p \<and>
    NewUDP4Net_filter p = Some (Some p) \<and>
    DialUDP_filter dest \<lparr>IP = src, Port = Port source\<rparr> p = Some (Some p) \<and>
    UDP4_Payload p = Some payload \<and> UDP4_SourceAddr p = Some \<lparr>IP = src, Port = Port source\<rparr> \<and>
    UDP4_DestAddr p = Some \<lparr>IP = dst, Port = Port dest\<rparr>"
proof -
  obtain p where p: "NewUDP4Packet ttl source dest payload = Some p"
    "UDP4_Valid p = Some True" "UDP4_Checksum p = Some 0" "UDP4_UseChecksum p = Some True"
    "UDP4_Payload p = Some payload" "UDP4_SourceAddr p = Some \<lparr>IP = src, Port = Port source mod 65536\<rparr>"
    "UDP4_DestAddr p = Some \<lparr>IP = dst, Port = Port dest mod 65536\<rparr>"
    using NewUDP4Packet_fields [OF assms(1-3)] by metis
  have "NewUDP4Net_filter p = Some (Some p)" using p(2-4) by (simp add: NewUDP4Net_filter_def)
  with p assms(4-7) show ?thesis by (simp add: DialUDP_filter_def)
qed

theorem new_udp4_packet_roundtrip_witness:
  "\<exists>p. NewUDP4Packet 64 \<lparr>IP = [10, 0, 0, 1], Port = 53\<rparr> \<lparr>IP = [10, 0, 0, 2], Port = 4000\<rparr> [1, 2, 3] = Some p \<and>
     NewUDP4Net_filter p = Some (Some p) \<and> UDP4_Payload p = Some [1, 2, 3] \<and>
     UDP4_SourceAddr p = Some \<lparr>IP = [10, 0, 0, 1], Port = 53\<rparr>"
  using new_udp4_packet_roundtrip [of "\<lparr>IP = [10, 0, 0, 1], Port = 53\<rparr>" "[10, 0, 0, 1]"
      "\<lparr>IP = [10, 0, 0, 2], Port = 4000\<rparr>" "[10, 0, 0, 2]" "[1, 2, 3]" 64] by auto

text \<open>The UDP checksum protects the datagram: \<open>SetChecksum\<close> never stores the value 0, which
  would mean that there is no checksum; the filter of \<open>NewUDP4Net\<close> passes the result and
  drops it after a change of any one byte behind the IP header outside the checksum field;
  and the filter panics on no packet at all.\<close>

theorem udp_checksum_protects:
  assumes "UDP4_Valid p = Some True"
  shows "\<exists>q. UDP4_SetChecksum p = Some q \<and> UDP4_UseChecksum q = Some True \<and>
    NewUDP4Net_filter q = Some (Some q) \<and>
    (\<forall>i b. header_len p \<le> i \<longrightarrow> i < length p \<longrightarrow> i \<notin> {header_len p + 6, header_len p + 7} \<longrightarrow> b \<noteq> q ! i \<longrightarrow>
       NewUDP4Net_filter (q[i := b]) = Some None) \<and>
    (\<forall>x. NewUDP4Net_filter x \<noteq> None)"
proof -
  define q where "q = with_udp_checksum p"
  note w = with_udp_checksum_facts [OF assms, folded q_def]
  have sum: "transport_sum 17 q = 0" by (simp add: q_def UDP4_with_checksum [OF assms])
  note qlen = udp_valid_length [OF w(1)]
  have use_eq: "UDP4_UseChecksum x = Some (be16 (x ! (header_len x + 6)) (x ! (header_len x + 7)) \<noteq> 0)"
    if "UDP4_Valid x = Some True" for x
    using udp_valid_length [OF that]
    by (simp add: UDP4_UseChecksum_def UDP4_Header_eq [OF that] UDP_Checksum_def UDP_field_eq)
  have total: "NewUDP4Net_filter x \<noteq> None" for x
    using UDP4_Valid_total [of x] UDP4_Checksum_eq [of x] use_eq [of x]
    by (cases "UDP4_Valid x = Some True") (auto simp: NewUDP4Net_filter_def)
  have "NewUDP4Net_filter (q[i := b]) = Some None"
    if i: "header_len p \<le> i" "i < length p" "i \<notin> {header_len p + 6, header_len p + 7}" "b \<noteq> q ! i" for i b
  proof (cases "UDP4_Valid (q[i := b]) = Some True")
    case True
    have "transport_sum 17 (q[i := b]) \<noteq> 0"
      using transport_sum_detects [OF qlen(1) sum, of i b] i w(2,3) by simp
    moreover have "header_len (q[i := b]) = header_len q" using i qlen(3) w(2) by simp
    then have "UDP4_UseChecksum (q[i := b]) = Some True"
      using use_eq [OF True] use_eq [OF w(1)] w(2,5) i(3) by simp
    ultimately show ?thesis using True by (simp add: NewUDP4Net_filter_def UDP4_Checksum_eq [OF True])
  next
    case False
    then have "UDP4_Valid (q[i := b]) = Some False" using UDP4_Valid_total [of "q[i := b]"] by auto
    then show ?thesis by (simp add: NewUDP4Net_filter_def)
  qed
  moreover have "NewUDP4Net_filter q = Some (Some q)"
    using w sum by (simp add: NewUDP4Net_filter_def UDP4_Checksum_eq [OF w(1)])
  ultimately show ?thesis using UDP4_SetChecksum_eq [OF assms] w(5) total by (auto simp: q_def)
qed

text \<open>A valid datagram of one byte.\<close>

definition example_datagram :: bytes where
  "example_datagram =
     [0x45, 0, 0, 29, 0, 0, 0, 0, 64, 17, 0, 0, 10, 0, 0, 1, 10, 0, 0, 2, 0, 53, 15, 160, 0, 9, 0, 0, 7]"

theorem udp_checksum_protects_witness:
  "\<exists>q. UDP4_SetChecksum example_datagram = Some q \<and> NewUDP4Net_filter q = Some (Some q) \<and>
     (\<forall>b. b \<noteq> q ! 28 \<longrightarrow> NewUDP4Net_filter (q[28 := b]) = Some None)"
proof -
  have v: "UDP4_Valid example_datagram = Some True" and h: "header_len example_datagram = 20"
    "length example_datagram = 29"
    by (simp_all add: udp_valid_iff ip_valid_iff be_int_eq unat_be16 header_len_def example_datagram_def)
  show ?thesis using udp_checksum_protects [OF v] by (auto simp: h)
qed

end
