(* ===== verification/Ports.thy ===== *)
theory Ports
  imports Go_Prelude
begin

text \<open>
  \<open>ipstack/ports.go\<close>: the interface \<open>PortAllocator\<close> as a locale, and its implementation
  \<open>basicPortAllocator\<close>, an array of 65536 flags under a lock.  The state of the model is the
  array; every operation returns it and either a result or an error.
\<close>

datatype port_error = NoFreePorts | PortOutOfRange | PortInUse | PortNotInUse

type_synonym basicPortAllocator = "bool list"

definition BasicPortAllocator :: basicPortAllocator where
  "BasicPortAllocator = replicate 0x10000 False"

text \<open>The loop of \<open>AllocAny\<close>, from index \<open>i - 1\<close> down.\<close>

fun alloc_loop :: "nat \<Rightarrow> basicPortAllocator \<Rightarrow> (basicPortAllocator \<times> (port_error + int)) go" where
  "alloc_loop 0 used = Some (used, Inl NoFreePorts)"
| "alloc_loop (Suc i) used = do {
     u \<leftarrow> idx used i;
     if \<not> u then do {
       used \<leftarrow> upd used i True;
       Some (used, Inr (int i))
     }
     else alloc_loop i used
   }"

definition AllocAny :: "basicPortAllocator \<Rightarrow> (basicPortAllocator \<times> (port_error + int)) go" where
  "AllocAny b = alloc_loop 0x10000 b"

definition Alloc :: "basicPortAllocator \<Rightarrow> int \<Rightarrow> (basicPortAllocator \<times> (port_error + unit)) go" where
  "Alloc b port =
     (if port < 0 \<or> port \<ge> 0x10000 then Some (b, Inl PortOutOfRange)
      else do {
        u \<leftarrow> idx b (nat port);
        if \<not> u then do { b \<leftarrow> upd b (nat port) True; Some (b, Inr ()) }
        else Some (b, Inl PortInUse)
      })"

definition Free :: "basicPortAllocator \<Rightarrow> int \<Rightarrow> (basicPortAllocator \<times> (port_error + unit)) go" where
  "Free b port =
     (if port < 0 \<or> port \<ge> 0x10000 then Some (b, Inl PortOutOfRange)
      else do {
        u \<leftarrow> idx b (nat port);
        if u then do { b \<leftarrow> upd b (nat port) False; Some (b, Inr ()) }
        else Some (b, Inl PortNotInUse)
      })"

definition AllocRemote ::
  "basicPortAllocator \<Rightarrow> 'addr \<Rightarrow> (basicPortAllocator \<times> (port_error + int)) go" where
  "AllocRemote b remote = AllocAny b"

definition FreeRemote ::
  "basicPortAllocator \<Rightarrow> 'addr \<Rightarrow> int \<Rightarrow> (basicPortAllocator \<times> (port_error + unit)) go" where
  "FreeRemote b remote port = Free b port"

section \<open>The interface\<close>

text \<open>\<open>PortAllocator\<close>: what \<open>in_use\<close> says of each operation, on every branch.\<close>

locale port_allocator =
  fixes ok :: "'s \<Rightarrow> bool"
    and in_use :: "'s \<Rightarrow> int set"
    and range :: "int set"
    and alloc_any :: "'s \<Rightarrow> ('s \<times> (port_error + int)) go"
    and alloc :: "'s \<Rightarrow> int \<Rightarrow> ('s \<times> (port_error + unit)) go"
    and free :: "'s \<Rightarrow> int \<Rightarrow> ('s \<times> (port_error + unit)) go"
  assumes finite_range: "finite range"
    and in_range: "ok s \<Longrightarrow> in_use s \<subseteq> range"
    and alloc_any_free: "ok s \<Longrightarrow> in_use s \<noteq> range \<Longrightarrow>
      \<exists>s' p. alloc_any s = Some (s', Inr p) \<and> ok s' \<and> p \<in> range - in_use s \<and> in_use s' = insert p (in_use s)"
    and alloc_any_full: "ok s \<Longrightarrow> in_use s = range \<Longrightarrow> \<exists>e. alloc_any s = Some (s, Inl e)"
    and alloc_free: "ok s \<Longrightarrow> p \<in> range - in_use s \<Longrightarrow>
      \<exists>s'. alloc s p = Some (s', Inr ()) \<and> ok s' \<and> in_use s' = insert p (in_use s)"
    and alloc_taken: "ok s \<Longrightarrow> p \<notin> range - in_use s \<Longrightarrow> \<exists>e. alloc s p = Some (s, Inl e)"
    and free_taken: "ok s \<Longrightarrow> p \<in> in_use s \<Longrightarrow>
      \<exists>s'. free s p = Some (s', Inr ()) \<and> ok s' \<and> in_use s' = in_use s - {p}"
    and free_unused: "ok s \<Longrightarrow> p \<notin> in_use s \<Longrightarrow> \<exists>e. free s p = Some (s, Inl e)"
begin

lemma alloc_succeeds_iff:
  "ok s \<Longrightarrow> (\<exists>s'. alloc s p = Some (s', Inr ())) \<longleftrightarrow> p \<in> range - in_use s"
  using alloc_free [of s p] alloc_taken [of s p] by fastforce

lemma alloc_exclusive:
  "ok s \<Longrightarrow> alloc s p = Some (s', Inr ()) \<Longrightarrow> \<exists>e. alloc s' p = Some (s', Inl e)"
  using alloc_free [of s p] alloc_taken [of s p] alloc_taken [of s' p] by fastforce

lemma alloc_any_exclusive:
  assumes "ok s" and "alloc_any s = Some (s', Inr p)"
  shows "p \<in> range - in_use s \<and> ok s' \<and> in_use s' = insert p (in_use s) \<and> (\<exists>e. alloc s' p = Some (s', Inl e))"
proof -
  have "in_use s \<noteq> range" using assms alloc_any_full [of s] by auto
  then have a: "p \<in> range - in_use s" "ok s'" "in_use s' = insert p (in_use s)"
    using alloc_any_free [OF assms(1)] assms(2) by auto
  then show ?thesis using alloc_taken [of s' p] by auto
qed

lemma alloc_any_fails_iff:
  "ok s \<Longrightarrow> (\<exists>s' e. alloc_any s = Some (s', Inl e)) \<longleftrightarrow> in_use s = range"
  using alloc_any_free [of s] alloc_any_full [of s] by fastforce

lemma free_then_alloc:
  assumes "ok s" and "free s p = Some (s', Inr ())"
  shows "\<exists>s''. alloc s' p = Some (s'', Inr ()) \<and> in_use s'' = in_use s"
proof -
  have p: "p \<in> in_use s" using assms free_unused [of s p] by auto
  then have s': "ok s'" "in_use s' = in_use s - {p}" using free_taken [OF assms(1) p] assms(2) by auto
  then have "p \<in> range - in_use s'" using p in_range [OF assms(1)] by auto
  with s' p show ?thesis using alloc_free [of s' p] by (metis insert_Diff)
qed

end

section \<open>The implementation\<close>

definition ports_in_use :: "basicPortAllocator \<Rightarrow> int set" where
  "ports_in_use b = {int i | i. i < length b \<and> b ! i}"

definition ports_ok :: "basicPortAllocator \<Rightarrow> bool" where
  "ports_ok b \<longleftrightarrow> length b = 0x10000"

lemma mem_ports_in_use: "p \<in> ports_in_use b \<longleftrightarrow> 0 \<le> p \<and> nat p < length b \<and> b ! nat p"
  by (auto simp: ports_in_use_def intro: exI [of _ "nat p"])

lemma ports_in_use_upd:
  "0 \<le> p \<Longrightarrow> nat p < length b \<Longrightarrow>
     ports_in_use (b[nat p := v]) = (if v then insert p (ports_in_use b) else ports_in_use b - {p})"
  by (auto simp: mem_ports_in_use nth_list_update eq_nat_nat_iff split: if_splits)

lemma alloc_loop_spec:
  assumes "i \<le> length b"
  shows "(\<exists>k < i. \<not> b ! k \<and> (\<forall>j < i. k < j \<longrightarrow> b ! j) \<and> alloc_loop i b = Some (b[k := True], Inr (int k))) \<or>
    (\<forall>k < i. b ! k) \<and> alloc_loop i b = Some (b, Inl NoFreePorts)"
  using assms
proof (induction i)
  case (Suc i)
  then show ?case by (cases "b ! i") (auto simp: less_Suc_eq)
qed simp

lemma AllocAny_spec:
  assumes "ports_ok b"
  shows "(\<exists>k < 0x10000. \<not> b ! k \<and> (\<forall>j < 0x10000. k < j \<longrightarrow> b ! j) \<and>
      AllocAny b = Some (b[k := True], Inr (int k))) \<or>
    (\<forall>k < 0x10000. b ! k) \<and> AllocAny b = Some (b, Inl NoFreePorts)"
  unfolding AllocAny_def using assms by (intro alloc_loop_spec) (simp add: ports_ok_def)

interpretation ports: port_allocator ports_ok ports_in_use "{0..0xffff}" AllocAny Alloc Free
proof unfold_locales
  show "finite {0..0xffff :: int}" by simp
  fix s p assume ok: "ports_ok s"
  then have len: "length s = 0x10000" by (simp add: ports_ok_def)
  have mem: "q \<in> ports_in_use s \<longleftrightarrow> 0 \<le> q \<and> q < 0x10000 \<and> s ! nat q" for q
    using len by (auto simp: mem_ports_in_use)
  show "ports_in_use s \<subseteq> {0..0xffff}" by (simp add: subset_iff mem)
  have full: "ports_in_use s = {0..0xffff} \<longleftrightarrow> (\<forall>k < 0x10000. s ! k)"
  proof
    assume eq: "ports_in_use s = {0..0xffff}"
    show "\<forall>k < 0x10000. s ! k"
    proof (intro allI impI)
      fix k :: nat assume "k < 0x10000"
      then have "int k \<in> ports_in_use s" unfolding eq by simp
      then show "s ! k" using mem [of "int k"] by simp
    qed
  next
    assume all: "\<forall>k < 0x10000. s ! k"
    have "s ! nat q" if "0 \<le> q" "q < 0x10000" for q
      using all [rule_format, of "nat q"] that by simp
    then have "q \<in> ports_in_use s \<longleftrightarrow> q \<in> {0..0xffff}" for q using mem [of q] by auto
    then show "ports_in_use s = {0..0xffff}" by blast
  qed
  show "\<exists>s' p. AllocAny s = Some (s', Inr p) \<and> ports_ok s' \<and> p \<in> {0..0xffff} - ports_in_use s \<and>
      ports_in_use s' = insert p (ports_in_use s)" if ne: "ports_in_use s \<noteq> {0..0xffff}"
  proof -
    obtain k where k: "k < 0x10000" "\<not> s ! k" "AllocAny s = Some (s[k := True], Inr (int k))"
      using AllocAny_spec [OF ok] ne full by auto
    then show ?thesis
      using ports_in_use_upd [of "int k" s True] len mem [of "int k"] ok
      by (auto simp: ports_ok_def)
  qed
  show "\<exists>e. AllocAny s = Some (s, Inl e)" if "ports_in_use s = {0..0xffff}"
    using AllocAny_spec [OF ok] that full by auto
  show "\<exists>s'. Alloc s p = Some (s', Inr ()) \<and> ports_ok s' \<and> ports_in_use s' = insert p (ports_in_use s)"
    if "p \<in> {0..0xffff} - ports_in_use s"
    using that len ports_in_use_upd [of p s True] mem [of p] ok by (auto simp: Alloc_def ports_ok_def)
  show "\<exists>e. Alloc s p = Some (s, Inl e)" if "p \<notin> {0..0xffff} - ports_in_use s"
    using that len mem [of p] by (auto simp: Alloc_def)
  show "\<exists>s'. Free s p = Some (s', Inr ()) \<and> ports_ok s' \<and> ports_in_use s' = ports_in_use s - {p}"
    if "p \<in> ports_in_use s"
    using that len ports_in_use_upd [of p s False] mem [of p] ok by (auto simp: Free_def ports_ok_def)
  show "\<exists>e. Free s p = Some (s, Inl e)" if "p \<notin> ports_in_use s"
    using that len mem [of p] by (auto simp: Free_def)
qed

section \<open>A run of the allocator\<close>

datatype port_call = CallAllocAny | CallAlloc int | CallFree int

text \<open>The ports that a sequence of calls has handed out and not yet been given back, by what
  the callers see of the results; and the allocator after it.\<close>

fun port_run :: "basicPortAllocator \<Rightarrow> int set \<Rightarrow> port_call list \<Rightarrow> (basicPortAllocator \<times> int set \<times> bool) go" where
  "port_run b held [] = Some (b, held, True)"
| "port_run b held (CallAllocAny # cs) = do {
     (b, r) \<leftarrow> AllocAny b;
     case r of Inl e \<Rightarrow> port_run b held cs
     | Inr p \<Rightarrow> if p \<in> held then Some (b, held, False) else port_run b (insert p held) cs
   }"
| "port_run b held (CallAlloc p # cs) = do {
     (b, r) \<leftarrow> Alloc b p;
     case r of Inl e \<Rightarrow> port_run b held cs
     | Inr u \<Rightarrow> if p \<in> held then Some (b, held, False) else port_run b (insert p held) cs
   }"
| "port_run b held (CallFree p # cs) = do {
     (b, r) \<leftarrow> Free b p;
     case r of Inl e \<Rightarrow> port_run b held cs | Inr u \<Rightarrow> port_run b (held - {p}) cs
   }"

lemma port_run_exclusive:
  "ports_ok b \<Longrightarrow> held = ports_in_use b \<Longrightarrow>
     \<exists>b' held'. port_run b held cs = Some (b', held', True) \<and> ports_ok b' \<and> held' = ports_in_use b'"
proof (induction cs arbitrary: b held)
  case (Cons c cs)
  note ok = Cons.prems(1)
  show ?case
  proof (cases c)
    case CallAllocAny
    show ?thesis
    proof (cases "ports_in_use b = {0..0xffff}")
      case True
      then show ?thesis using ports.alloc_any_full [OF ok True] Cons.IH [OF Cons.prems] CallAllocAny
        by auto
    next
      case False
      then obtain b' p where "AllocAny b = Some (b', Inr p)" "ports_ok b'" "p \<notin> ports_in_use b"
        "ports_in_use b' = insert p (ports_in_use b)"
        using ports.alloc_any_free [OF ok False] by auto
      then show ?thesis using Cons.IH [of b' "insert p held"] Cons.prems CallAllocAny by simp
    qed
  next
    case (CallAlloc p)
    show ?thesis
    proof (cases "p \<in> {0..0xffff} - ports_in_use b")
      case True
      then obtain b' where "Alloc b p = Some (b', Inr ())" "ports_ok b'"
        "ports_in_use b' = insert p (ports_in_use b)"
        using ports.alloc_free [OF ok True] by auto
      then show ?thesis using Cons.IH [of b' "insert p held"] Cons.prems CallAlloc True by simp
    next
      case False
      then show ?thesis using ports.alloc_taken [OF ok False] Cons.IH [OF Cons.prems] CallAlloc by auto
    qed
  next
    case (CallFree p)
    show ?thesis
    proof (cases "p \<in> ports_in_use b")
      case True
      then obtain b' where "Free b p = Some (b', Inr ())" "ports_ok b'"
        "ports_in_use b' = ports_in_use b - {p}"
        using ports.free_taken [OF ok True] by auto
      then show ?thesis using Cons.IH [of b' "held - {p}"] Cons.prems CallFree by simp
    next
      case False
      then show ?thesis using ports.free_unused [OF ok False] Cons.IH [OF Cons.prems] CallFree by auto
    qed
  qed
qed simp

section \<open>Properties\<close>

text \<open>Ports are exclusive: in any sequence of allocations and releases that starts with a fresh
  allocator, no port is handed out while someone holds it, nothing panics, and at the end the
  allocator's flags are exactly the ports still held.\<close>

theorem ports_exclusive:
  "\<exists>b held. port_run BasicPortAllocator {} cs = Some (b, held, True) \<and> held = ports_in_use b"
proof -
  have "ports_ok BasicPortAllocator" "ports_in_use BasicPortAllocator = {}"
    by (auto simp: ports_ok_def ports_in_use_def BasicPortAllocator_def)
  then show ?thesis using port_run_exclusive [of BasicPortAllocator "{}" cs] by auto
qed

text \<open>\<open>AllocAny\<close> returns the largest free port and fails only when all 65536 ports are in use;
  a port that is freed can be allocated again.\<close>

theorem alloc_any_largest:
  assumes "ports_ok b"
  shows "(case AllocAny b of
      Some (b', Inr p) \<Rightarrow> p \<notin> ports_in_use b \<and> 0 \<le> p \<and> p \<le> 0xffff \<and>
        (\<forall>q. p < q \<and> q \<le> 0xffff \<longrightarrow> q \<in> ports_in_use b) \<and> ports_in_use b' = insert p (ports_in_use b) \<and>
        (\<exists>c. Free b' p = Some (c, Inr ()) \<and> ports_in_use c = ports_in_use b)
    | Some (b', Inl e) \<Rightarrow> b' = b \<and> ports_in_use b = {0..0xffff}
    | None \<Rightarrow> False)"
proof -
  have len: "length b = 0x10000" using assms by (simp add: ports_ok_def)
  consider (found) k where "k < 0x10000" "\<not> b ! k" "\<forall>j < 0x10000. k < j \<longrightarrow> b ! j"
      "AllocAny b = Some (b[k := True], Inr (int k))"
    | (full) "AllocAny b = Some (b, Inl NoFreePorts)" "\<forall>k < 0x10000. b ! k"
    using AllocAny_spec [OF assms] by blast
  then show ?thesis
  proof cases
    case found
    have u: "ports_in_use (b[k := True]) = insert (int k) (ports_in_use b)" "int k \<notin> ports_in_use b"
      using ports_in_use_upd [of "int k" b True] found(1,2) len by (simp_all add: mem_ports_in_use)
    have "ports_ok (b[k := True])" using len by (simp add: ports_ok_def)
    then have "\<exists>c. Free (b[k := True]) (int k) = Some (c, Inr ()) \<and> ports_in_use c = ports_in_use b"
      using ports.free_taken [of "b[k := True]" "int k"] u by auto
    then show ?thesis using found u len by (auto simp: mem_ports_in_use)
  next
    case full
    then show ?thesis using ports.alloc_any_free [OF assms] by auto
  qed
qed

theorem alloc_any_largest_witness:
  "\<exists>b'. AllocAny BasicPortAllocator = Some (b', Inr 0xffff) \<and> ports_in_use b' = {0xffff}"
proof -
  have ok: "ports_ok BasicPortAllocator" and none: "ports_in_use BasicPortAllocator = {}"
    by (auto simp: ports_ok_def ports_in_use_def BasicPortAllocator_def)
  obtain b' p where r: "AllocAny BasicPortAllocator = Some (b', Inr p)"
    using ports.alloc_any_free [OF ok] none by auto
  then have p: "p \<le> 0xffff" "\<forall>q. p < q \<and> q \<le> 0xffff \<longrightarrow> q \<in> {}" "ports_in_use b' = {p}"
    using alloc_any_largest [OF ok] none by auto
  from p(2) have "\<not> p < 0xffff" by auto
  with p(1) have "p = 0xffff" by simp
  with r p(3) show ?thesis by simp
qed

end
