(* ===== verification/Mux_Client.thy ===== *)
theory Mux_Client
  imports Stream_Mux
begin

text \<open>
  The interface that the networks use of the multiplexer (\<open>MultiStream\<close> and the \<open>Close\<close> of its children
  in \<open>ipstack/stream.go\<close>), as a locale, with the multiplexer of \<open>Stream_Mux\<close> as its interpretation.
\<close>

section \<open>The interface\<close>

text \<open>\<open>live\<close> are the children that were forked and not closed on their own.  The last law is the one that
  a client has to heed: such a child must not be closed after the whole.\<close>

locale multi_stream =
  fixes ok :: "'m \<Rightarrow> bool"
    and live :: "'m \<Rightarrow> nat set"
    and is_closed :: "'m \<Rightarrow> bool"
    and fork :: "'m \<Rightarrow> nat \<Rightarrow> 'm \<times> (stream_error + nat)"
    and child_close :: "'m \<Rightarrow> nat \<Rightarrow> ('m \<times> (stream_error + unit)) go"
    and close_all_streams :: "'m \<Rightarrow> ('m \<times> (stream_error + unit)) go"
  assumes fork_open: "ok m \<Longrightarrow> \<not> is_closed m \<Longrightarrow> \<exists>m' i. fork m n = (m', Inr i) \<and> ok m' \<and> \<not> is_closed m' \<and>
      i \<notin> live m \<and> live m' = insert i (live m)"
    and fork_closed: "ok m \<Longrightarrow> is_closed m \<Longrightarrow> fork m n = (m, Inl ForkClosedErr)"
    and close_open: "ok m \<Longrightarrow> \<not> is_closed m \<Longrightarrow>
      \<exists>m'. close_all_streams m = Some (m', Inr ()) \<and> ok m' \<and> is_closed m' \<and> live m' = live m"
    and close_closed: "ok m \<Longrightarrow> is_closed m \<Longrightarrow> close_all_streams m = Some (m, Inl AlreadyClosedErr)"
    and child_close_live: "ok m \<Longrightarrow> \<not> is_closed m \<Longrightarrow> i \<in> live m \<Longrightarrow>
      \<exists>m'. child_close m i = Some (m', Inr ()) \<and> ok m' \<and> \<not> is_closed m' \<and> live m' = live m - {i}"
    and child_close_dead: "ok m \<Longrightarrow> i \<notin> live m \<Longrightarrow> child_close m i = Some (m, Inl AlreadyClosedErr)"
    and child_close_late: "ok m \<Longrightarrow> is_closed m \<Longrightarrow> i \<in> live m \<Longrightarrow> child_close m i = None"
begin

lemma fork_and_close:
  assumes "ok m" and "\<not> is_closed m" and "fork m n = (m', Inr i)"
  shows "\<exists>m''. child_close m' i = Some (m'', Inr ()) \<and> ok m'' \<and> \<not> is_closed m'' \<and> live m'' = live m"
proof -
  have m': "ok m'" "\<not> is_closed m'" "i \<notin> live m" "live m' = insert i (live m)"
    using fork_open [OF assms(1,2), of n] assms(3) by auto
  then show ?thesis using child_close_live [OF m'(1,2), of i] by auto
qed

lemma child_close_twice:
  assumes "ok m" and "child_close m i = Some (m', r)"
  shows "child_close m' i = Some (m', Inl AlreadyClosedErr)"
proof (cases "i \<in> live m")
  case True
  then have "\<not> is_closed m" using child_close_late [OF assms(1)] assms(2) by auto
  then have "ok m'" "live m' = live m - {i}" using child_close_live [OF assms(1) _ True] assms(2) by auto
  then show ?thesis by (simp add: child_close_dead)
next
  case False
  then show ?thesis using child_close_dead [OF assms(1)] assms(2) by auto
qed

lemma close_then_child_panics:
  assumes "ok m" and "\<not> is_closed m" and "i \<in> live m" and "close_all_streams m = Some (m', r)"
  shows "child_close m' i = None"
proof -
  have "ok m'" "is_closed m'" "live m' = live m" using close_open [OF assms(1,2)] assms(4) by auto
  then show ?thesis using child_close_late assms(3) by simp
qed

lemma close_total: "ok m \<Longrightarrow> \<exists>m' r. close_all_streams m = Some (m', r) \<and> ok m' \<and> live m' = live m"
  by (cases "is_closed m") (use close_open close_closed in blast)+

end

section \<open>The multiplexer as a client sees it\<close>

text \<open>The filter of a connection takes the next packet of its child.\<close>

definition take_packet :: "multiplexer \<Rightarrow> nat \<Rightarrow> multiplexer \<times> bytes option" where
  "take_packet m i =
     (if i < length (mx_heap m) then
        let c = mx_heap m ! i
        in (case c_buf (ch_incoming c) of
              [] \<Rightarrow> (m, None)
            | p # ps \<Rightarrow> (m\<lparr>mx_heap := (mx_heap m)[i := c\<lparr>ch_incoming := (ch_incoming c)\<lparr>c_buf := ps\<rparr>\<rparr>]\<rparr>, Some p))
      else (m, None))"


definition mux_ok :: "(nat list \<Rightarrow> nat \<Rightarrow> nat list) \<Rightarrow> multiplexer \<Rightarrow> bool" where
  "mux_ok del m \<longleftrightarrow> (\<exists>s. mux_reach del s \<and> x_reading s \<and> x_mux s = m)"

lemma mux_ok_step:
  assumes "mux_ok del m" and "\<And>s. x_reading s \<Longrightarrow> x_mux s = m \<Longrightarrow> \<exists>op t. mux_step del s op = Some t \<and> x_reading t \<and> x_mux t = m'"
  shows "mux_ok del m'"
  using assms mux_reach_step unfolding mux_ok_def by blast

lemma mux_ok_Multiplex: "mux_ok del Multiplex"
  using mux_reach_start [of del] by (auto simp: mux_ok_def mux_start_def)

lemma mux_ok_Fork: "mux_ok del m \<Longrightarrow> mux_ok del (fst (Fork m n))"
  by (erule mux_ok_step, rule exI [of _ "OpFork n"]) (auto simp: mux_step_def split: prod.split)

lemma mux_ok_childClose: "mux_ok del m \<Longrightarrow> childClose del m i = Some (m', r) \<Longrightarrow> mux_ok del m'"
  by (erule mux_ok_step, rule exI [of _ "OpChildClose i"]) (auto simp: mux_step_def)

lemma mux_ok_Close: "mux_ok del m \<Longrightarrow> mux_Close m = Some (m', r) \<Longrightarrow> mux_ok del m'"
  by (erule mux_ok_step, rule exI [of _ OpClose]) (auto simp: mux_step_def)

lemma mux_ok_take: "mux_ok del m \<Longrightarrow> mux_ok del (fst (take_packet m i))"
  by (erule mux_ok_step, rule exI [of _ "OpRecv i"])
    (auto simp: mux_step_def take_packet_def Let_def split: list.splits)

lemma mux_ok_handle:
  assumes "mux_ok del m" and "handleIncoming m p = Some (m', c)"
  shows "mux_ok del m'"
proof (cases c)
  case True
  then show ?thesis
    using assms(2)
    by (intro mux_ok_step [OF assms(1)] exI [of _ "OpSelect (GotPacket p)"])
      (simp add: mux_step_def readLoop_body_def)
next
  case False
  then have "m' = m" using assms(2) by (auto simp: handleIncoming_def bind_eq_Some_conv split: if_splits)
  with assms(1) show ?thesis by simp
qed

text \<open>What the network needs to know of it.\<close>

lemma mux_ok_facts:
  assumes "mux_ok del m" and "unordered_delete_spec del"
  shows "distinct (mx_children m)" and "i \<in> set (mx_children m) \<Longrightarrow> i < length (mx_heap m)"
    and "i < length (mx_heap m) \<Longrightarrow> i \<in> set (mx_children m) \<Longrightarrow> \<not> mx_closed m \<Longrightarrow> open_child (mx_heap m ! i)"
    and "i < length (mx_heap m) \<Longrightarrow> i \<notin> set (mx_children m) \<or> mx_closed m \<Longrightarrow> closed_child (mx_heap m ! i)"
proof -
  obtain s where "mux_inv s" "x_mux s = m" using assms mux_reach_inv unfolding mux_ok_def by blast
  then show "distinct (mx_children m)" and "i \<in> set (mx_children m) \<Longrightarrow> i < length (mx_heap m)"
    and "i < length (mx_heap m) \<Longrightarrow> i \<in> set (mx_children m) \<Longrightarrow> \<not> mx_closed m \<Longrightarrow> open_child (mx_heap m ! i)"
    and "i < length (mx_heap m) \<Longrightarrow> i \<notin> set (mx_children m) \<or> mx_closed m \<Longrightarrow> closed_child (mx_heap m ! i)"
    by (auto simp: mux_inv_def Let_def split: if_splits)
qed

lemma Fork_open:
  "\<not> mx_closed m \<Longrightarrow> Fork m n =
     (m\<lparr>mx_heap := mx_heap m @ [\<lparr>ch_incoming = make_chan n, ch_done = False\<rparr>],
        mx_children := mx_children m @ [length (mx_heap m)]\<rparr>, Inr (length (mx_heap m)))"
  by (simp add: Fork_def Let_def)

text \<open>A fork that is closed again leaves the other children alone.\<close>

lemma fork_then_close:
  assumes ok: "mux_ok del m" and del: "unordered_delete_spec del" and op: "\<not> mx_closed m"
  shows "\<exists>m'. childClose del (fst (Fork m n)) (length (mx_heap m)) = Some (m', Inr ()) \<and> mux_ok del m' \<and>
    set (mx_children m') = set (mx_children m) \<and> \<not> mx_closed m' \<and>
    (\<exists>c. mx_heap m' = mx_heap m @ [c] \<and> closed_child c)"
proof -
  let ?f = "fst (Fork m n)" and ?k = "length (mx_heap m)"
  have okf: "mux_ok del ?f" by (rule mux_ok_Fork [OF ok])
  obtain s where s: "mux_inv s" "x_mux s = ?f" using okf del mux_reach_inv unfolding mux_ok_def by blast
  obtain js where js: "set js = set (mx_children ?f) - {?k}" "childClose del ?f ?k =
      Some (?f\<lparr>mx_children := js, mx_heap := (mx_heap ?f)[?k := closed_copy (mx_heap ?f ! ?k)]\<rparr>, Inr ())"
    using childClose_eq [OF s(1) del, of ?k] op by (auto simp: s(2) Fork_open)
  have "?k \<notin> set (mx_children m)" using mux_ok_facts(2) [OF ok del] by blast
  then show ?thesis using js mux_ok_childClose [OF okf js(2)] op
    by (auto simp: Fork_open)
qed


interpretation mux: multi_stream "\<lambda>m. mux_ok del m \<and> unordered_delete_spec del" "\<lambda>m. set (mx_children m)"
  mx_closed Fork "childClose del" mux_Close for del
proof unfold_locales
  fix m n i
  assume ok: "mux_ok del m \<and> unordered_delete_spec del"
  then obtain s where s: "mux_inv s" "x_mux s = m" using mux_reach_inv unfolding mux_ok_def by blast
  note facts = mux_ok_facts [OF conjunct1 [OF ok] conjunct2 [OF ok]]
  note cc = childClose_eq [OF s(1) conjunct2 [OF ok], of i, unfolded s(2)]
  show "\<exists>m' j. Fork m n = (m', Inr j) \<and> (mux_ok del m' \<and> unordered_delete_spec del) \<and> \<not> mx_closed m' \<and>
      j \<notin> set (mx_children m) \<and> set (mx_children m') = insert j (set (mx_children m))" if "\<not> mx_closed m"
    using that ok mux_ok_Fork [of del m n] facts(2) [of "length (mx_heap m)"] by (auto simp: Fork_open)
  show "Fork m n = (m, Inl ForkClosedErr)" if "mx_closed m" using that by (simp add: Fork_def)
  show "\<exists>m'. mux_Close m = Some (m', Inr ()) \<and> (mux_ok del m' \<and> unordered_delete_spec del) \<and> mx_closed m' \<and>
      set (mx_children m') = set (mx_children m)" if "\<not> mx_closed m"
    using that ok mux_Close_eq [OF s(1)] mux_ok_Close [of del m] by (auto simp: s(2) Let_def)
  show "mux_Close m = Some (m, Inl AlreadyClosedErr)" if "mx_closed m" using that by (simp add: mux_Close_def)
  show "\<exists>m'. childClose del m i = Some (m', Inr ()) \<and> (mux_ok del m' \<and> unordered_delete_spec del) \<and>
      \<not> mx_closed m' \<and> set (mx_children m') = set (mx_children m) - {i}"
    if "\<not> mx_closed m" "i \<in> set (mx_children m)"
    using that ok cc mux_ok_childClose [of del m i] by (auto simp: Let_def)
  show "childClose del m i = Some (m, Inl AlreadyClosedErr)" if "i \<notin> set (mx_children m)"
    using that cc by (auto simp: Let_def)
  show "childClose del m i = None" if "mx_closed m" "i \<in> set (mx_children m)"
    using that cc by (auto simp: Let_def)
qed

end
