(* ===== verification/Net_Helpers.thy ===== *)
theory Net_Helpers
  imports Go_Prelude
begin

text \<open>
  Deadlines and packet connections (\<open>ipstack/net_helpers.go\<close>).  Time is an integer; the clock is
  an argument of what a timer does.
\<close>

section \<open>The deadline manager\<close>

text \<open>\<open>dm_timer\<close> is the time of the timer that runs, if one does.  When it goes off it starts a
  goroutine, which then waits for the lock; \<open>dm_fired\<close> counts those that still wait, and \<open>Stop\<close>
  does not reach them.  \<open>dm_chan\<close> numbers the channels that were made and \<open>dm_closed\<close> tells
  whether the current one is closed.\<close>

record deadlineManager =
  dm_timer :: "int option"
  dm_chan :: nat
  dm_closed :: bool
  dm_fired :: nat

definition newDeadlineManager :: deadlineManager where
  "newDeadlineManager = \<lparr>dm_timer = None, dm_chan = 0, dm_closed = False, dm_fired = 0\<rparr>"

definition dm_Chan :: "deadlineManager \<Rightarrow> nat" where
  "dm_Chan d = dm_chan d"

text \<open>The argument is \<open>None\<close> for the zero time.\<close>

definition SetDeadline :: "deadlineManager \<Rightarrow> int option \<Rightarrow> deadlineManager" where
  "SetDeadline d deadline = (
     let d = (if dm_timer d \<noteq> None then d\<lparr>dm_timer := None\<rparr> else d);
         d = (if dm_closed d then d\<lparr>dm_chan := dm_chan d + 1, dm_closed := False\<rparr> else d)
     in case deadline of None \<Rightarrow> d | Some t \<Rightarrow> d\<lparr>dm_timer := Some t\<rparr>)"

text \<open>The timer goes off at the time \<open>now\<close>, and its goroutine gets the lock.\<close>

definition timer_fires :: "deadlineManager \<Rightarrow> int \<Rightarrow> deadlineManager" where
  "timer_fires d now =
     (case dm_timer d of
        None \<Rightarrow> d
      | Some t \<Rightarrow> if t \<le> now then d\<lparr>dm_timer := None, dm_fired := dm_fired d + 1\<rparr> else d)"

definition callback_runs :: "deadlineManager \<Rightarrow> deadlineManager go" where
  "callback_runs d =
     (if dm_fired d = 0 then Some d
      else
        let d = d\<lparr>dm_fired := dm_fired d - 1\<rparr>
        in if dm_closed d then Some d
           else if dm_closed d then None else Some (d\<lparr>dm_closed := True\<rparr>))"

datatype deadline_event = Set "int option" | Fires | Runs

fun deadline_run :: "deadlineManager \<Rightarrow> (int \<times> deadline_event) list \<Rightarrow> deadlineManager go" where
  "deadline_run d [] = Some d"
| "deadline_run d ((now, e) # es) =
     (case e of
        Set t \<Rightarrow> deadline_run (SetDeadline d t) es
      | Fires \<Rightarrow> deadline_run (timer_fires d now) es
      | Runs \<Rightarrow> do { d \<leftarrow> callback_runs d; deadline_run d es })"

section \<open>Connections over a stream\<close>

datatype conn_error = ReadTimeoutErr | WriteTimeoutErr | StreamClosedErr

text \<open>What happens first while a call waits: a packet arrives or is taken, the stream closes, or the
  deadline passes.  A call that is still waiting when the events are used up has the result
  \<open>None\<close>.  \<open>expired\<close>: the deadline had passed when the call began.\<close>

datatype conn_event = PacketIn bytes | PacketTaken | StreamCloses | DeadlinePasses

fun await_read :: "conn_event list \<Rightarrow> (conn_error + bytes) option" where
  "await_read [] = None"
| "await_read (e # es) =
     (case e of
        DeadlinePasses \<Rightarrow> Some (Inl ReadTimeoutErr)
      | PacketIn packet \<Rightarrow> Some (Inr packet)
      | StreamCloses \<Rightarrow> Some (Inl StreamClosedErr)
      | PacketTaken \<Rightarrow> await_read es)"

definition ReadPacket :: "bool \<Rightarrow> conn_event list \<Rightarrow> (conn_error + bytes) option" where
  "ReadPacket expired es = (if expired then Some (Inl ReadTimeoutErr) else await_read es)"

fun await_write :: "conn_event list \<Rightarrow> (conn_error + unit) option" where
  "await_write [] = None"
| "await_write (e # es) =
     (case e of
        DeadlinePasses \<Rightarrow> Some (Inl WriteTimeoutErr)
      | PacketTaken \<Rightarrow> Some (Inr ())
      | StreamCloses \<Rightarrow> Some (Inl StreamClosedErr)
      | PacketIn packet \<Rightarrow> await_write es)"

text \<open>The packet that the stream takes, and the result.\<close>

definition WritePacket ::
  "bool \<Rightarrow> bytes \<Rightarrow> conn_event list \<Rightarrow> bytes option \<times> (conn_error + unit) option" where
  "WritePacket expired b es = (
     let r = (if expired then Some (Inl WriteTimeoutErr) else await_write es)
     in (if r = Some (Inr ()) then Some b else None, r))"

section \<open>Deadlines that are kept\<close>

text \<open>From a \<open>SetDeadline\<close> on, as long as it is not called again.\<close>

definition only_timers :: "(int \<times> deadline_event) list \<Rightarrow> bool" where
  "only_timers es \<longleftrightarrow> (\<forall>(now, e) \<in> set es. \<forall>t. e \<noteq> Set t)"

definition kept_inv :: "int option \<Rightarrow> int \<Rightarrow> deadlineManager \<Rightarrow> bool" where
  "kept_inv deadline latest d \<longleftrightarrow>
     (case deadline of
        None \<Rightarrow> dm_timer d = None \<and> dm_fired d = 0 \<and> \<not> dm_closed d
      | Some t \<Rightarrow>
          (dm_timer d = Some t \<and> dm_fired d = 0 \<and> \<not> dm_closed d) \<or>
          (dm_timer d = None \<and> t \<le> latest \<and> (dm_fired d = 1 \<and> \<not> dm_closed d \<or> dm_fired d = 0 \<and> dm_closed d)))"

definition latest_time :: "int \<Rightarrow> (int \<times> deadline_event) list \<Rightarrow> int" where
  "latest_time now0 es = fold (\<lambda>e t. max t (fst e)) es now0"

lemma latest_time_Cons [simp]: "latest_time now0 (e # es) = latest_time (max now0 (fst e)) es"
  by (simp add: latest_time_def)

lemma latest_time_le: "t \<le> latest_time t es"
proof (induction es arbitrary: t)
  case (Cons e es)
  from Cons.IH [of "max t (fst e)"] show ?case by simp
qed (simp add: latest_time_def)

lemma callback_runs_total: "\<exists>d'. callback_runs d = Some d'"
  by (simp add: callback_runs_def Let_def)

lemma deadline_run_total: "\<exists>d'. deadline_run d es = Some d'"
proof (induction d es rule: deadline_run.induct)
  case (2 d now e es)
  obtain d' where "callback_runs d = Some d'" using callback_runs_total by blast
  with 2 show ?case by (cases e) auto
qed simp

lemma SetDeadline_kept: "dm_fired d = 0 \<Longrightarrow> kept_inv deadline now (SetDeadline d deadline)"
  by (auto simp: kept_inv_def SetDeadline_def Let_def split: option.splits)

lemma kept_inv_run:
  assumes "kept_inv deadline now0 d" and "only_timers es" and "deadline_run d es = Some d'"
  shows "kept_inv deadline (latest_time now0 es) d' \<and> dm_chan d' = dm_chan d"
  using assms
proof (induction es arbitrary: now0 d)
  case (Cons ev es)
  obtain now e where ev: "ev = (now, e)" by (cases ev)
  have more: "kept_inv deadline (max now0 now) d1 \<Longrightarrow> dm_chan d1 = dm_chan d \<Longrightarrow> deadline_run d1 es = Some d' \<Longrightarrow> ?case" for d1
    using Cons.IH [of "max now0 now" d1] Cons.prems(2) by (simp add: ev only_timers_def)
  show ?case
  proof (cases e)
    case Fires
    have "kept_inv deadline (max now0 now) (timer_fires d now)"
      using Cons.prems(1) by (auto simp: kept_inv_def timer_fires_def split: option.splits)
    moreover have "dm_chan (timer_fires d now) = dm_chan d"
      by (simp add: timer_fires_def split: option.split)
    ultimately show ?thesis using more Cons.prems(3) by (simp add: ev Fires)
  next
    case Runs
    obtain d1 where d1: "callback_runs d = Some d1" "deadline_run d1 es = Some d'"
      using Cons.prems(3) by (auto simp: ev Runs bind_eq_Some_conv)
    have "kept_inv deadline (max now0 now) d1" "dm_chan d1 = dm_chan d"
      using Cons.prems(1) d1(1)
      by (auto simp: kept_inv_def callback_runs_def Let_def split: option.splits if_splits)
    then show ?thesis using more d1(2) by blast
  qed (use Cons.prems(2) in \<open>auto simp: ev only_timers_def\<close>)
qed (simp add: latest_time_def)

section \<open>The properties\<close>

text \<open>A deadline is neither early nor lost, if no callback of an older timer is under way when it
  is set: whatever the timers do, the channel that readers wait on is closed only when the
  deadline has passed, and it is closed once the timer has gone off behind it and its callback
  has run; and nothing ever panics.\<close>

theorem deadline_kept:
  assumes "dm_fired d = 0" and "only_timers es"
  shows "\<exists>d'. deadline_run (SetDeadline d deadline) es = Some d' \<and>
    dm_Chan d' = dm_Chan (SetDeadline d deadline) \<and>
    (dm_closed d' \<longrightarrow> (\<exists>t. deadline = Some t \<and> t \<le> latest_time now0 es)) \<and>
    (\<forall>t now. deadline = Some t \<longrightarrow> t \<le> now \<longrightarrow>
       (\<exists>d''. deadline_run d' [(now, Fires), (now, Runs)] = Some d'' \<and> dm_closed d''))"
proof -
  obtain d' where run: "deadline_run (SetDeadline d deadline) es = Some d'" using deadline_run_total by blast
  have kept: "kept_inv deadline (latest_time now0 es) d'" "dm_chan d' = dm_chan (SetDeadline d deadline)"
    using kept_inv_run [OF SetDeadline_kept [OF assms(1)] assms(2) run] by simp_all
  have "\<exists>d''. deadline_run d' [(now, Fires), (now, Runs)] = Some d'' \<and> dm_closed d''"
    if "deadline = Some t" "t \<le> now" for t now
    using kept(1) that by (auto simp: kept_inv_def timer_fires_def callback_runs_def Let_def)
  then show ?thesis
    using run kept by (auto simp: dm_Chan_def kept_inv_def split: option.splits)
qed

theorem deadline_kept_witness:
  "\<exists>d'. deadline_run (SetDeadline newDeadlineManager (Some 5)) [(3, Fires), (4, Runs)] = Some d' \<and> \<not> dm_closed d'"
  using deadline_kept [of newDeadlineManager "[(3, Fires), (4, Runs)]" "Some 5" 0]
  by (auto simp: newDeadlineManager_def only_timers_def latest_time_def)

text \<open>A deadline that is set while the callback of an older timer waits for the lock is lost: the
  callback closes the channel that the new deadline uses, so that reads time out at once, even
  when the deadline was just removed or moved to a later time.\<close>

theorem deadline_reset_race:
  assumes "dm_fired d = 0" and "t \<le> now" and "\<not> dm_closed d"
  shows "\<exists>d'. deadline_run d [(now, Set (Some t)), (now, Fires), (now, Set later), (now, Runs)] = Some d' \<and>
    dm_closed d' \<and> dm_Chan d' = dm_Chan d"
  using assms
  by (simp add: SetDeadline_def timer_fires_def callback_runs_def Let_def dm_Chan_def split: option.split)

theorem deadline_reset_race_witness:
  "\<exists>d'. deadline_run newDeadlineManager [(5, Set (Some 5)), (5, Fires), (5, Set None), (5, Runs)] = Some d' \<and>
    dm_closed d'"
  using deadline_reset_race [of newDeadlineManager 5 5 None] by (auto simp: newDeadlineManager_def)

end
