(* ===== verification/UDP_Net.thy ===== *)
theory UDP_Net
  imports UDP Ports Mux_Client Net_Helpers
begin

text \<open>
  The UDP network (\<open>ipstack/net_udp.go\<close>): dialing, listening, and the connections, over the
  multiplexer of \<open>Stream_Mux\<close>, the port allocator of \<open>Ports\<close>, the packets and filters of \<open>UDP\<close> and
  the waiting calls of \<open>Net_Helpers\<close>.  An operation of the network runs here without another one
  in between.
\<close>

section \<open>The network\<close>

text \<open>\<open>un_release\<close> are the goroutines that wait for the end of a child stream to free its port:
  the child and the port.\<close>

record udp4Net =
  un_multi :: multiplexer
  un_laddr :: bytes
  un_ports :: basicPortAllocator
  un_ttl :: int
  un_readBuffer :: nat
  un_release :: "(nat \<times> int) list"

text \<open>The filter is a function of the two addresses; \<open>uc_remote\<close> is \<open>None\<close> for a nil pointer.\<close>

record udp4Conn =
  uc_child :: nat
  uc_remote :: "net_addr option"
  uc_local :: net_addr
  uc_ttl :: int

datatype udp_error =
  UStream stream_error | UPort port_error | UConn conn_error
  | CannotListen net_addr | NoRemote | InvalidDestination

definition NewUDP4Net :: "bytes \<Rightarrow> basicPortAllocator option \<Rightarrow> int \<Rightarrow> nat \<Rightarrow> udp4Net" where
  "NewUDP4Net laddr ports ttl readBuf = (
     let ports = (case ports of None \<Rightarrow> BasicPortAllocator | Some b \<Rightarrow> b);
         ttl = (if ttl = 0 then 64 else ttl);
         readBuf = (if readBuf = 0 then 16 else readBuf)
     in \<lparr>un_multi = Multiplex, un_laddr = laddr, un_ports = ports, un_ttl = ttl,
         un_readBuffer = readBuf, un_release = []\<rparr>)"

text \<open>\<open>net.IP.IsUnspecified\<close>: equal to \<open>0.0.0.0\<close> or \<open>::\<close>; a nil address has no bytes.\<close>

definition IsUnspecified :: "bytes \<Rightarrow> bool" where
  "IsUnspecified ip \<longleftrightarrow> IP_Equal ip (v4_in_v6_prefix @ replicate 4 0) \<or> IP_Equal ip (replicate 16 0)"

text \<open>The deferred \<open>stream.Close()\<close>, whose result is dropped.\<close>

definition fail_close ::
  "(nat list \<Rightarrow> nat \<Rightarrow> nat list) \<Rightarrow> udp4Net \<Rightarrow> nat \<Rightarrow> udp_error \<Rightarrow> (udp4Net \<times> (udp_error + 'a)) go" where
  "fail_close unorderedDelete u stream err = do {
     (m, r) \<leftarrow> childClose unorderedDelete (un_multi u) stream;
     Some (u\<lparr>un_multi := m\<rparr>, Inl err)
   }"

text \<open>Both functions write to the address that is passed by pointer, which is the connection's from
  then on; the model has the changed address in the connection.\<close>

definition DialUDP ::
  "(nat list \<Rightarrow> nat \<Rightarrow> nat list) \<Rightarrow> udp4Net \<Rightarrow> net_addr option \<Rightarrow> net_addr \<Rightarrow>
     (udp4Net \<times> (udp_error + udp4Conn)) go" where
  "DialUDP unorderedDelete u laddr raddr =
     (case Fork (un_multi u) (un_readBuffer u) of
        (m, Inl err) \<Rightarrow> Some (u\<lparr>un_multi := m\<rparr>, Inl (UStream err))
      | (m, Inr stream) \<Rightarrow> do {
          let u = u\<lparr>un_multi := m\<rparr>;
          let raddr = (if IP raddr = [] \<or> IsUnspecified (IP raddr) then raddr\<lparr>IP := un_laddr u\<rparr> else raddr);
          (u, l) \<leftarrow> (case laddr of
              None \<Rightarrow> do {
                (b, r) \<leftarrow> AllocRemote (un_ports u) raddr;
                let u = u\<lparr>un_ports := b\<rparr>;
                Some (case r of
                    Inl err \<Rightarrow> (u, Inl (UPort err))
                  | Inr port \<Rightarrow>
                      (u\<lparr>un_release := un_release u @ [(stream, port)]\<rparr>,
                       Inr \<lparr>IP = un_laddr u, Port = port\<rparr>))
              }
            | Some laddr \<Rightarrow> Some (u, Inr laddr));
          case l of
            Inl err \<Rightarrow> fail_close unorderedDelete u stream err
          | Inr laddr \<Rightarrow>
              if \<not> IP_Equal (IP laddr) (un_laddr u) then fail_close unorderedDelete u stream (CannotListen laddr)
              else Some (u, Inr \<lparr>uc_child = stream, uc_remote = Some raddr, uc_local = laddr, uc_ttl = un_ttl u\<rparr>)
        })"

definition ListenUDP ::
  "(nat list \<Rightarrow> nat \<Rightarrow> nat list) \<Rightarrow> udp4Net \<Rightarrow> net_addr option \<Rightarrow>
     (udp4Net \<times> (udp_error + udp4Conn)) go" where
  "ListenUDP unorderedDelete u laddr =
     (case Fork (un_multi u) (un_readBuffer u) of
        (m, Inl err) \<Rightarrow> Some (u\<lparr>un_multi := m\<rparr>, Inl (UStream err))
      | (m, Inr stream) \<Rightarrow> do {
          let u = u\<lparr>un_multi := m\<rparr>;
          (u, l) \<leftarrow> (case laddr of
              None \<Rightarrow> do {
                (b, r) \<leftarrow> AllocAny (un_ports u);
                let u = u\<lparr>un_ports := b\<rparr>;
                Some (case r of
                    Inl err \<Rightarrow> (u, Inl (UPort err))
                  | Inr port \<Rightarrow>
                      (u\<lparr>un_release := un_release u @ [(stream, port)]\<rparr>,
                       Inr \<lparr>IP = un_laddr u, Port = port\<rparr>))
              }
            | Some laddr \<Rightarrow> Some (u, Inr laddr));
          case l of
            Inl err \<Rightarrow> fail_close unorderedDelete u stream err
          | Inr laddr \<Rightarrow>
              let laddr = (if IP laddr = [] \<or> IsUnspecified (IP laddr) then laddr\<lparr>IP := un_laddr u\<rparr> else laddr)
              in if \<not> IP_Equal (IP laddr) (un_laddr u) then fail_close unorderedDelete u stream (CannotListen laddr)
                 else Some (u, Inr \<lparr>uc_child = stream, uc_remote = None, uc_local = laddr, uc_ttl = un_ttl u\<rparr>)
        })"

definition udp_Close :: "udp4Net \<Rightarrow> (udp4Net \<times> (stream_error + unit)) go" where
  "udp_Close u = do { (m, r) \<leftarrow> mux_Close (un_multi u); Some (u\<lparr>un_multi := m\<rparr>, r) }"

text \<open>The goroutine \<open>k\<close> of \<open>un_release\<close>; it does nothing until its stream is done.\<close>

definition release_port :: "udp4Net \<Rightarrow> nat \<Rightarrow> udp4Net go" where
  "release_port u k = do {
     (stream, port) \<leftarrow> idx (un_release u) k;
     c \<leftarrow> idx (mx_heap (un_multi u)) stream;
     if \<not> ch_done c then Some u
     else do {
       (b, r) \<leftarrow> Free (un_ports u) port;
       Some (u\<lparr>un_ports := b, un_release := take k (un_release u) @ drop (Suc k) (un_release u)\<rparr>)
     }
   }"

text \<open>A packet of the stream below, through the three filters of \<open>NewUDP4Net\<close> to the multiplexer.\<close>

definition udp_incoming :: "udp4Net \<Rightarrow> bytes \<Rightarrow> udp4Net go" where
  "udp_incoming u packet = do {
     p \<leftarrow> FilterIPv4Proto 17 packet;
     case p of None \<Rightarrow> Some u
     | Some packet \<Rightarrow> do {
         p \<leftarrow> FilterIPv4Dest (un_laddr u) packet;
         case p of None \<Rightarrow> Some u
         | Some packet \<Rightarrow> do {
             p \<leftarrow> NewUDP4Net_filter packet;
             case p of None \<Rightarrow> Some u
             | Some packet \<Rightarrow> do {
                 (m, continue) \<leftarrow> handleIncoming (un_multi u) packet;
                 Some (u\<lparr>un_multi := m\<rparr>)
               }
           }
       }
   }"

section \<open>Connections\<close>

definition conn_filter :: "udp4Conn \<Rightarrow> bytes \<Rightarrow> bytes option go" where
  "conn_filter c d =
     (case uc_remote c of
        None \<Rightarrow> ListenUDP_filter (uc_local c) d
      | Some raddr \<Rightarrow> DialUDP_filter (uc_local c) raddr d)"

text \<open>The result is the number of bytes, the changed buffer and the sender.\<close>

definition ReadFrom ::
  "bool \<Rightarrow> conn_event list \<Rightarrow> bytes \<Rightarrow> (udp_error + nat \<times> bytes \<times> net_addr) option go" where
  "ReadFrom expired es b =
     (case ReadPacket expired es of
        None \<Rightarrow> Some None
      | Some (Inl err) \<Rightarrow> Some (Some (Inl (UConn err)))
      | Some (Inr packet) \<Rightarrow> do {
          payload \<leftarrow> UDP4_Payload packet;
          source \<leftarrow> UDP4_SourceAddr packet;
          Some (Some (Inr (min (length b) (length payload), copy_list b payload, source)))
        })"

definition udp_Read :: "bool \<Rightarrow> conn_event list \<Rightarrow> bytes \<Rightarrow> (udp_error + nat \<times> bytes) option go" where
  "udp_Read expired es b = do {
     r \<leftarrow> ReadFrom expired es b;
     Some (case r of
         None \<Rightarrow> None
       | Some (Inl err) \<Rightarrow> Some (Inl err)
       | Some (Inr (n, b, addr)) \<Rightarrow> Some (Inr (n, b)))
   }"

text \<open>The \<open>net.Addr\<close> that \<open>WriteTo\<close> is given.\<close>

datatype net_Addr = NotUDPAddr | NilUDPAddr | UDPAddr net_addr

text \<open>What the stream takes, and the result.\<close>

definition WriteTo ::
  "udp4Conn \<Rightarrow> bool \<Rightarrow> conn_event list \<Rightarrow> bytes \<Rightarrow> net_Addr \<Rightarrow> (bytes option \<times> (udp_error + nat) option) go" where
  "WriteTo u expired es b addr =
     (case addr of
        NotUDPAddr \<Rightarrow> Some (None, Some (Inl InvalidDestination))
      | NilUDPAddr \<Rightarrow> None
      | UDPAddr uAddr \<Rightarrow>
          if To4 (IP uAddr) = None then Some (None, Some (Inl InvalidDestination))
          else do {
            pack \<leftarrow> NewUDP4Packet (uc_ttl u) (uc_local u) uAddr b;
            let (sent, r) = WritePacket expired pack es;
            Some (sent, case r of
                None \<Rightarrow> None
              | Some (Inl err) \<Rightarrow> Some (Inl (UConn err))
              | Some (Inr _) \<Rightarrow> Some (Inr (length b)))
          })"

definition udp_Write ::
  "udp4Conn \<Rightarrow> bool \<Rightarrow> conn_event list \<Rightarrow> bytes \<Rightarrow> (bytes option \<times> (udp_error + nat) option) go" where
  "udp_Write u expired es b =
     (case uc_remote u of
        None \<Rightarrow> Some (None, Some (Inl NoRemote))
      | Some remote \<Rightarrow> WriteTo u expired es b (UDPAddr remote))"

section \<open>The network at work\<close>

text \<open>The calls of the application, the end of a connection's stream, the goroutines that free
  ports, packets that come in, and the connections' filters, which take them from the channels.\<close>

datatype udp_op =
  UDial "net_addr option" net_addr | UListen "net_addr option" | UConnClose nat | UNetClose
  | URelease nat | UPacket bytes | UTake nat

definition udp_step :: "(nat list \<Rightarrow> nat \<Rightarrow> nat list) \<Rightarrow> udp4Net \<Rightarrow> udp_op \<Rightarrow> udp4Net go" where
  "udp_step del u op =
     (case op of
        UDial laddr raddr \<Rightarrow> map_option fst (DialUDP del u laddr raddr)
      | UListen laddr \<Rightarrow> map_option fst (ListenUDP del u laddr)
      | UConnClose i \<Rightarrow> do { (m, r) \<leftarrow> childClose del (un_multi u) i; Some (u\<lparr>un_multi := m\<rparr>) }
      | UNetClose \<Rightarrow> map_option fst (udp_Close u)
      | URelease k \<Rightarrow> if k < length (un_release u) then release_port u k else Some u
      | UPacket p \<Rightarrow> udp_incoming u p
      | UTake i \<Rightarrow> Some (u\<lparr>un_multi := fst (take_packet (un_multi u) i)\<rparr>))"

inductive udp_reach :: "(nat list \<Rightarrow> nat \<Rightarrow> nat list) \<Rightarrow> udp4Net \<Rightarrow> udp4Net \<Rightarrow> bool" for del u0 where
  udp_reach_start: "udp_reach del u0 u0"
| udp_reach_step: "udp_reach del u0 u \<Longrightarrow> udp_step del u op = Some v \<Longrightarrow> udp_reach del u0 v"

section \<open>Opening a connection\<close>

definition udp_inv :: "(nat list \<Rightarrow> nat \<Rightarrow> nat list) \<Rightarrow> udp4Net \<Rightarrow> bool" where
  "udp_inv del u \<longleftrightarrow>
     mux_ok del (un_multi u) \<and> ports_ok (un_ports u) \<and> distinct (map fst (un_release u)) \<and>
     distinct (map snd (un_release u)) \<and> (\<forall>(i, p) \<in> set (un_release u). i < length (mx_heap (un_multi u))) \<and>
     ports_in_use (un_ports u) = snd ` set (un_release u)"

text \<open>The network after a refused call: one more child in the heap, which is closed.\<close>

definition refused :: "udp4Net \<Rightarrow> udp4Net \<Rightarrow> bool" where
  "refused u v \<longleftrightarrow>
     v = u\<lparr>un_multi := un_multi v\<rparr> \<and> mx_closed (un_multi v) = mx_closed (un_multi u) \<and>
     set (mx_children (un_multi v)) = set (mx_children (un_multi u)) \<and>
     (\<exists>c. mx_heap (un_multi v) = mx_heap (un_multi u) @ [c] \<and> closed_child c)"

text \<open>The network after a successful call; \<open>auto\<close>: the port was chosen by the network.\<close>

definition opened :: "udp4Net \<Rightarrow> bool \<Rightarrow> udp4Net \<Rightarrow> udp4Conn \<Rightarrow> bool" where
  "opened u auto v c \<longleftrightarrow> (
     let i = length (mx_heap (un_multi u))
     in un_multi v = fst (Fork (un_multi u) (un_readBuffer u)) \<and> un_laddr v = un_laddr u \<and>
        un_ttl v = un_ttl u \<and> un_readBuffer v = un_readBuffer u \<and> uc_child c = i \<and> uc_ttl c = un_ttl u \<and>
        IP_Equal (IP (uc_local c)) (un_laddr u) \<and> ports_ok (un_ports v) \<and>
        (if auto then
           Port (uc_local c) \<in> {0..0xffff} - ports_in_use (un_ports u) \<and>
           ports_in_use (un_ports v) = insert (Port (uc_local c)) (ports_in_use (un_ports u)) \<and>
           un_release v = un_release u @ [(i, Port (uc_local c))]
         else un_ports v = un_ports u \<and> un_release v = un_release u))"

lemma fail_close_refused:
  assumes "udp_inv del u" and "unordered_delete_spec del" and "\<not> mx_closed (un_multi u)"
  shows "\<exists>v. fail_close del (u\<lparr>un_multi := fst (Fork (un_multi u) (un_readBuffer u))\<rparr>)
      (length (mx_heap (un_multi u))) err = Some (v, Inl err) \<and> refused u v \<and> mux_ok del (un_multi v)"
proof -
  have "mux_ok del (un_multi u)" using assms(1) by (simp add: udp_inv_def)
  from fork_then_close [OF this assms(2,3), of "un_readBuffer u"] show ?thesis
    using assms(3) by (auto simp: fail_close_def refused_def)
qed

lemma DialUDP_outcome:
  assumes inv: "udp_inv del u" and del: "unordered_delete_spec del"
    and r: "r = (if IP raddr = [] \<or> IsUnspecified (IP raddr) then raddr\<lparr>IP := un_laddr u\<rparr> else raddr)"
  shows "if mx_closed (un_multi u) then DialUDP del u laddr raddr = Some (u, Inl (UStream ForkClosedErr))
    else if (case laddr of None \<Rightarrow> ports_in_use (un_ports u) = {0..0xffff}
        | Some a \<Rightarrow> \<not> IP_Equal (IP a) (un_laddr u))
    then \<exists>v e. DialUDP del u laddr raddr = Some (v, Inl e) \<and> refused u v \<and> mux_ok del (un_multi v)
    else \<exists>v c. DialUDP del u laddr raddr = Some (v, Inr c) \<and> opened u (laddr = None) v c \<and>
      uc_remote c = Some r \<and> (\<forall>a. laddr = Some a \<longrightarrow> uc_local c = a)"
proof (cases "mx_closed (un_multi u)")
  case True
  then show ?thesis by (simp add: DialUDP_def Fork_def)
next
  case False
  note fork = Fork_open [OF False, of "un_readBuffer u"]
  note refuse = fail_close_refused [OF inv del False]
  have ok: "ports_ok (un_ports u)" using inv by (simp add: udp_inv_def)
  show ?thesis
  proof (cases laddr)
    case (Some a)
    then show ?thesis
      using False refuse [of "CannotListen a", where 'a = udp4Conn] ok
      by (auto simp: DialUDP_def fork Let_def opened_def r)
  next
    case None
    show ?thesis
    proof (cases "ports_in_use (un_ports u) = {0..0xffff}")
      case True
      then obtain e where "AllocAny (un_ports u) = Some (un_ports u, Inl e)"
        using ports.alloc_any_full [OF ok] by blast
      then show ?thesis
        using False None True refuse [of "UPort e", where 'a = udp4Conn]
        by (auto simp: DialUDP_def AllocRemote_def fork Let_def)
    next
      case free: False
      then obtain b p where b: "AllocAny (un_ports u) = Some (b, Inr p)" "ports_ok b"
        "p \<in> {0..0xffff} - ports_in_use (un_ports u)" "ports_in_use b = insert p (ports_in_use (un_ports u))"
        using ports.alloc_any_free [OF ok] by blast
      then show ?thesis
        using False None free by (auto simp: DialUDP_def AllocRemote_def fork Let_def opened_def r)
    qed
  qed
qed

lemma ListenUDP_outcome:
  assumes inv: "udp_inv del u" and del: "unordered_delete_spec del"
    and l: "\<And>a. l a = (if IP a = [] \<or> IsUnspecified (IP a) then a\<lparr>IP := un_laddr u\<rparr> else a)"
  shows "if mx_closed (un_multi u) then ListenUDP del u laddr = Some (u, Inl (UStream ForkClosedErr))
    else if (case laddr of None \<Rightarrow> ports_in_use (un_ports u) = {0..0xffff}
        | Some a \<Rightarrow> \<not> IP_Equal (IP (l a)) (un_laddr u))
    then \<exists>v e. ListenUDP del u laddr = Some (v, Inl e) \<and> refused u v \<and> mux_ok del (un_multi v)
    else \<exists>v c. ListenUDP del u laddr = Some (v, Inr c) \<and> opened u (laddr = None) v c \<and>
      uc_remote c = None \<and> (\<forall>a. laddr = Some a \<longrightarrow> uc_local c = l a)"
proof (cases "mx_closed (un_multi u)")
  case True
  then show ?thesis by (simp add: ListenUDP_def Fork_def)
next
  case False
  note fork = Fork_open [OF False, of "un_readBuffer u"]
  note refuse = fail_close_refused [OF inv del False]
  have ok: "ports_ok (un_ports u)" using inv by (simp add: udp_inv_def)
  show ?thesis
  proof (cases laddr)
    case (Some a)
    then show ?thesis
      using False refuse [of "CannotListen (l a)", where 'a = udp4Conn] ok
      by (auto simp: ListenUDP_def fork Let_def opened_def l)
  next
    case None
    show ?thesis
    proof (cases "ports_in_use (un_ports u) = {0..0xffff}")
      case True
      then obtain e where "AllocAny (un_ports u) = Some (un_ports u, Inl e)"
        using ports.alloc_any_full [OF ok] by blast
      then show ?thesis
        using False None True refuse [of "UPort e", where 'a = udp4Conn]
        by (auto simp: ListenUDP_def fork Let_def)
    next
      case free: False
      then obtain b p where b: "AllocAny (un_ports u) = Some (b, Inr p)" "ports_ok b"
        "p \<in> {0..0xffff} - ports_in_use (un_ports u)" "ports_in_use b = insert p (ports_in_use (un_ports u))"
        using ports.alloc_any_free [OF ok] by blast
      then show ?thesis
        using False None free by (auto simp: ListenUDP_def fork Let_def opened_def)
    qed
  qed
qed

section \<open>The invariant\<close>

lemma udp_inv_New: "udp_inv del (NewUDP4Net laddr None ttl readBuf)"
  by (auto simp: udp_inv_def NewUDP4Net_def mux_ok_Multiplex ports_ok_def ports_in_use_def BasicPortAllocator_def)

lemma udp_inv_multi:
  "udp_inv del u \<Longrightarrow> mux_ok del m \<Longrightarrow> length (mx_heap (un_multi u)) \<le> length (mx_heap m) \<Longrightarrow>
     udp_inv del (u\<lparr>un_multi := m\<rparr>)"
  by (auto simp: udp_inv_def)

lemma udp_inv_refused:
  assumes "udp_inv del u" and "refused u v" and "mux_ok del (un_multi v)"
  shows "udp_inv del v"
proof -
  have "v = u\<lparr>un_multi := un_multi v\<rparr>" and "length (mx_heap (un_multi u)) \<le> length (mx_heap (un_multi v))"
    using assms(2) by (auto simp: refused_def)
  then show ?thesis using udp_inv_multi [OF assms(1,3)] by simp
qed

lemma udp_inv_opened:
  assumes "udp_inv del u" and "opened u auto v c" and "\<not> mx_closed (un_multi u)"
  shows "udp_inv del v"
proof -
  have "mux_ok del (un_multi u)" using assms(1) by (simp add: udp_inv_def)
  from mux_ok_Fork [OF this] have "mux_ok del (un_multi v)" using assms(2) by (simp add: opened_def Let_def)
  then show ?thesis
    using assms by (cases auto) (auto simp: udp_inv_def opened_def Let_def Fork_open image_iff)
qed

lemma mux_heap_lengths:
  "childClose del m i = Some (m', r) \<Longrightarrow> length (mx_heap m') = length (mx_heap m)"
  "length (mx_heap (fst (take_packet m i))) = length (mx_heap m)"
  by (auto simp: childClose_def close_child_def bind_eq_Some_conv take_packet_def Let_def
      split: option.splits if_splits list.splits)

lemma close_all_length: "close_all is heap = Some heap' \<Longrightarrow> length heap' = length heap"
  by (induction "is" heap rule: close_all.induct) (auto simp: bind_eq_Some_conv close_child_def split: if_splits)

lemma offer_all_length: "offer_all p is heap = Some heap' \<Longrightarrow> length heap' = length heap"
  by (induction p "is" heap rule: offer_all.induct) (auto simp: bind_eq_Some_conv)

lemma mux_Close_length: "mux_Close m = Some (m', r) \<Longrightarrow> length (mx_heap m') = length (mx_heap m)"
  by (auto simp: mux_Close_def bind_eq_Some_conv Let_def dest: close_all_length split: if_splits)

lemma handleIncoming_length:
  "handleIncoming m p = Some (m', c) \<Longrightarrow> length (mx_heap m') = length (mx_heap m)"
  by (auto simp: handleIncoming_def bind_eq_Some_conv dest: offer_all_length split: if_splits)

lemma remove_one_facts:
  "xs = ys @ (i, port) # zs \<Longrightarrow> distinct (map fst xs) \<Longrightarrow> distinct (map snd xs) \<Longrightarrow>
     distinct (map fst (ys @ zs)) \<and> distinct (map snd (ys @ zs)) \<and> port \<notin> snd ` set (ys @ zs) \<and>
     set xs = insert (i, port) (set (ys @ zs))"
  by auto

text \<open>What the goroutine \<open>k\<close> does.\<close>

lemma release_port_spec:
  assumes inv: "udp_inv del u" and k: "k < length (un_release u)" "un_release u ! k = (i, port)"
  shows "if ch_done (mx_heap (un_multi u) ! i)
    then \<exists>v. release_port u k = Some v \<and> udp_inv del v \<and> un_multi v = un_multi u \<and>
      ports_in_use (un_ports v) = ports_in_use (un_ports u) - {port} \<and>
      set (un_release v) = set (un_release u) - {(i, port)}
    else release_port u k = Some u"
proof -
  let ?rel = "un_release u"
  define rest where "rest = take k ?rel @ drop (Suc k) ?rel"
  have split: "?rel = take k ?rel @ (i, port) # drop (Suc k) ?rel"
    using id_take_nth_drop [OF k(1)] k(2) by simp
  have mem: "(i, port) \<in> set ?rel" using k by (metis nth_mem)
  have i: "i < length (mx_heap (un_multi u))" using inv mem by (auto simp: udp_inv_def)
  have facts: "ports_ok (un_ports u)" "port \<in> ports_in_use (un_ports u)"
    using inv mem by (auto simp: udp_inv_def intro: rev_image_eqI)
  then obtain b where b: "Free (un_ports u) port = Some (b, Inr ())" "ports_ok b"
    "ports_in_use b = ports_in_use (un_ports u) - {port}"
    using ports.free_taken by blast
  have d: "distinct (map fst ?rel)" "distinct (map snd ?rel)" using inv by (simp_all add: udp_inv_def)
  have "distinct (map fst rest) \<and> distinct (map snd rest) \<and> port \<notin> snd ` set rest \<and>
      set ?rel = insert (i, port) (set rest)"
    unfolding rest_def by (rule remove_one_facts [OF split d])
  then have rest: "distinct (map fst rest)" "distinct (map snd rest)" "port \<notin> snd ` set rest"
    and "set ?rel = insert (i, port) (set rest)" by blast+
  moreover have "(i, port) \<notin> set rest" using rest(3) by force
  ultimately have set: "set rest = set ?rel - {(i, port)}" "snd ` set rest = snd ` set ?rel - {port}"
    using rest(3) by auto
  have "udp_inv del (u\<lparr>un_ports := b, un_release := rest\<rparr>)"
    using inv b rest set by (auto simp: udp_inv_def)
  then show ?thesis using k i b set by (simp add: release_port_def rest_def)
qed

lemma udp_step_inv:
  assumes inv: "udp_inv del u" and del: "unordered_delete_spec del" and step: "udp_step del u op = Some v"
  shows "udp_inv del v"
proof (cases op)
  have m: "mux_ok del (un_multi u)" using inv by (simp add: udp_inv_def)
  {
    case (UDial laddr raddr)
    show ?thesis
      using DialUDP_outcome [OF inv del refl, of laddr raddr] step UDial inv
        udp_inv_refused [OF inv] udp_inv_opened [OF inv]
      by (auto simp: udp_step_def split: if_splits)
  next
    case (UListen laddr)
    show ?thesis
      using ListenUDP_outcome [OF inv del refl, of laddr] step UListen inv
        udp_inv_refused [OF inv] udp_inv_opened [OF inv]
      by (auto simp: udp_step_def split: if_splits)
  next
    case (UConnClose i)
    then show ?thesis using step mux_ok_childClose [OF m] mux_heap_lengths(1) udp_inv_multi [OF inv]
      by (fastforce simp: udp_step_def bind_eq_Some_conv)
  next
    case UNetClose
    then show ?thesis using step mux_ok_Close [OF m] mux_Close_length udp_inv_multi [OF inv]
      by (fastforce simp: udp_step_def udp_Close_def bind_eq_Some_conv)
  next
    case (URelease k)
    show ?thesis
    proof (cases "k < length (un_release u)")
      case True
      obtain i port where "un_release u ! k = (i, port)" by (cases "un_release u ! k")
      from release_port_spec [OF inv True this] True URelease step inv show ?thesis
        by (auto simp: udp_step_def split: if_splits)
    qed (use URelease step inv in \<open>simp add: udp_step_def\<close>)
  next
    case (UPacket p)
    have "v = u \<or> (\<exists>q m' c. handleIncoming (un_multi u) q = Some (m', c) \<and> v = u\<lparr>un_multi := m'\<rparr>)"
      using step UPacket
      by (simp add: udp_step_def udp_incoming_def bind_eq_Some_conv split: option.splits prod.splits)
        blast
    then show ?thesis
      using inv mux_ok_handle [OF m] handleIncoming_length udp_inv_multi [OF inv] by fastforce
  next
    case (UTake i)
    then show ?thesis using step mux_ok_take [OF m] udp_inv_multi [OF inv] mux_heap_lengths(2)
      by (auto simp: udp_step_def)
  }
qed

lemma udp_reach_inv:
  assumes "udp_reach del (NewUDP4Net laddr None ttl readBuf) u" and "unordered_delete_spec del"
  shows "udp_inv del u"
  using assms by (induction rule: udp_reach.induct) (auto intro: udp_inv_New udp_step_inv)

section \<open>Datagrams between two networks\<close>

lemma To4_IP_Equal: "To4 a = Some x \<Longrightarrow> IP_Equal x a"
  by (auto simp: To4_def IP_Equal_def split: if_splits)

text \<open>What \<open>WriteTo\<close> hands to the stream.\<close>

lemma WriteTo_packet:
  assumes "To4 (IP (uc_local c)) = Some src" and "To4 (IP a) = Some dst" and "length b \<le> 65507"
    and "Port (uc_local c) \<in> {0..0xffff}" and "Port a \<in> {0..0xffff}"
  obtains p where "WriteTo c False [PacketTaken] b (UDPAddr a) = Some (Some p, Some (Inr (length b)))"
    and "FilterIPv4Proto 17 p = Some (Some p)" and "NewUDP4Net_filter p = Some (Some p)"
    and "\<And>l. To4 l = Some dst \<Longrightarrow> FilterIPv4Dest l p = Some (Some p)"
    and "UDP4_Payload p = Some b" and "UDP4_SourceAddr p = Some \<lparr>IP = src, Port = Port (uc_local c)\<rparr>"
    and "UDP4_DestAddr p = Some \<lparr>IP = dst, Port = Port a\<rparr>"
    and "UDP4_Valid p = Some True" and "IPv4_FragmentInfo p = Some (False, False, 0)" and "header_len p = 20"
proof -
  obtain p where p: "NewUDP4Packet (uc_ttl c) (uc_local c) a b = Some p"
    "UDP4_Valid p = Some True" "UDP4_Checksum p = Some 0" "UDP4_UseChecksum p = Some True"
    "UDP4_Payload p = Some b" "UDP4_SourceAddr p = Some \<lparr>IP = src, Port = Port (uc_local c) mod 65536\<rparr>"
    "UDP4_DestAddr p = Some \<lparr>IP = dst, Port = Port a mod 65536\<rparr>"
    "IPv4_Proto p = Some 17" "IPv4_DestAddr p = Some dst" "IPv4_FragmentInfo p = Some (False, False, 0)"
    "header_len p = 20"
    by (rule NewUDP4Packet_fields [OF assms(1-3), of "uc_ttl c"])
  show ?thesis
  proof (rule that)
    show "WriteTo c False [PacketTaken] b (UDPAddr a) = Some (Some p, Some (Inr (length b)))"
      using p(1) assms(2) by (simp add: WriteTo_def WritePacket_def Let_def)
  qed (use p assms(4,5) in \<open>simp_all add: FilterIPv4Proto_def FilterIPv4Dest_def NewUDP4Net_filter_def\<close>)
qed

lemma conn_filter_packet:
  assumes "UDP4_SourceAddr p = Some s" and "UDP4_DestAddr p = Some d"
  shows "conn_filter c p = Some (if Port d = Port (uc_local c) \<and>
    (\<forall>r. uc_remote c = Some r \<longrightarrow> IP_Equal (IP s) (IP r) \<and> Port s = Port r) then Some p else None)"
  using assms by (simp add: conn_filter_def ListenUDP_filter_def DialUDP_filter_def split: option.split)

text \<open>The buffer of a child behind a packet that has passed the network's filters.\<close>

lemma udp_incoming_deliver:
  assumes inv: "udp_inv del u" and del: "unordered_delete_spec del"
    and op: "\<not> mx_closed (un_multi u)" and i: "i \<in> set (mx_children (un_multi u))"
    and room: "ch = ch_incoming (mx_heap (un_multi u) ! i)" "length (c_buf ch) < c_cap ch"
    and p: "FilterIPv4Proto 17 p = Some (Some p)" "FilterIPv4Dest (un_laddr u) p = Some (Some p)"
      "NewUDP4Net_filter p = Some (Some p)"
  shows "\<exists>v. udp_incoming u p = Some v \<and> v = u\<lparr>un_multi := un_multi v\<rparr> \<and>
    c_buf (ch_incoming (mx_heap (un_multi v) ! i)) = c_buf ch @ [p]"
proof -
  have ok: "mux_ok del (un_multi u)" using inv by (simp add: udp_inv_def)
  then obtain s where s: "mux_inv s" "x_mux s = un_multi u" using del mux_reach_inv unfolding mux_ok_def by blast
  have "i < length (mx_heap (un_multi u))" using mux_ok_facts(2) [OF ok del i] .
  then show ?thesis
    using p op i room handleIncoming_eq [OF s(1), of p]
    by (simp add: udp_incoming_def s(2) Let_def offered_copy_def)
qed

section \<open>The properties\<close>

text \<open>C21: Ports that the network chooses are exclusive and are given back: in every state that calls,
  packets and goroutines lead to, the ports in use are those of the goroutines that wait to free
  them, no two the same; such a goroutine keeps its port while its stream is open and frees just
  that port when the stream is done.\<close>

theorem udp_ports_released:
  assumes "udp_reach del (NewUDP4Net laddr None ttl readBuf) u" and "unordered_delete_spec del"
  shows "distinct (map snd (un_release u)) \<and> ports_in_use (un_ports u) = snd ` set (un_release u) \<and>
    (\<forall>k < length (un_release u).
       let (stream, port) = un_release u ! k
       in \<exists>v. release_port u k = Some v \<and>
         ports_in_use (un_ports v) = (if ch_done (mx_heap (un_multi u) ! stream)
           then ports_in_use (un_ports u) - {port} else ports_in_use (un_ports u)))"
proof -
  have inv: "udp_inv del u" by (rule udp_reach_inv [OF assms])
  have "\<exists>v. release_port u k = Some v \<and>
      ports_in_use (un_ports v) = (if ch_done (mx_heap (un_multi u) ! stream)
        then ports_in_use (un_ports u) - {port} else ports_in_use (un_ports u))"
    if "k < length (un_release u)" "un_release u ! k = (stream, port)" for k stream port
    using release_port_spec [OF inv that] by (auto split: if_splits)
  then have "\<forall>k < length (un_release u).
       let (stream, port) = un_release u ! k
       in \<exists>v. release_port u k = Some v \<and>
         ports_in_use (un_ports v) = (if ch_done (mx_heap (un_multi u) ! stream)
           then ports_in_use (un_ports u) - {port} else ports_in_use (un_ports u))"
    by (simp only: Let_def split: prod.split) blast
  with inv show ?thesis unfolding udp_inv_def by blast
qed

text \<open>A network with a listener on a port of its choice, before and after the listener is closed.\<close>

definition loopback_net :: udp4Net where
  "loopback_net = NewUDP4Net [10, 0, 0, 1] None 0 0"

definition listening_net :: udp4Net where
  "listening_net = fst (the (ListenUDP swap_delete loopback_net None))"

lemma loopback_net_inv: "udp_inv swap_delete loopback_net"
  by (simp add: loopback_net_def udp_inv_New)

lemma loopback_net_simps: "\<not> mx_closed (un_multi loopback_net)" "ports_in_use (un_ports loopback_net) = {}"
  "un_multi loopback_net = Multiplex" "un_laddr loopback_net = [10, 0, 0, 1]" "un_readBuffer loopback_net = 16"
  "un_release loopback_net = []" "length (mx_heap Multiplex) = 0" "\<not> mx_closed Multiplex"
  by (auto simp: loopback_net_def NewUDP4Net_def Multiplex_def ports_in_use_def BasicPortAllocator_def)

lemma listening_net_facts:
  "\<exists>c. ListenUDP swap_delete loopback_net None = Some (listening_net, Inr c) \<and>
     opened loopback_net True listening_net c"
  using ListenUDP_outcome [OF loopback_net_inv swap_delete_spec refl, of None]
  by (auto simp: loopback_net_simps listening_net_def)

lemma listening_net_reach: "udp_reach swap_delete (NewUDP4Net [10, 0, 0, 1] None 0 0) listening_net"
  using listening_net_facts
    udp_reach_step [OF udp_reach_start, of swap_delete loopback_net "UListen None" listening_net]
  by (auto simp: udp_step_def loopback_net_def)

lemma listening_net_simps:
  "mx_children (un_multi listening_net) = [0]" "\<not> mx_closed (un_multi listening_net)"
  "mx_heap (un_multi listening_net) = [\<lparr>ch_incoming = make_chan 16, ch_done = False\<rparr>]"
  "un_laddr listening_net = [10, 0, 0, 1]"
  using listening_net_facts
  by (auto simp: opened_def Let_def loopback_net_simps Fork_open) (simp_all add: Fork_def Multiplex_def)

theorem udp_ports_released_witness:
  "\<exists>port. ports_in_use (un_ports listening_net) = {port}"
  using udp_ports_released [OF listening_net_reach swap_delete_spec] listening_net_facts
  by (auto simp: opened_def Let_def loopback_net_simps)

definition own_addr :: "udp4Net \<Rightarrow> net_addr \<Rightarrow> net_addr" where
  "own_addr u a = (if IP a = [] \<or> IsUnspecified (IP a) then a\<lparr>IP := un_laddr u\<rparr> else a)"

text \<open>\<open>DialUDP\<close> and \<open>ListenUDP\<close> never panic.  They fail exactly when the network is closed, when
  the given address is not the network's, or when no address is given and all ports are in use;
  and a failed call leaves ports, goroutines and open streams as they were.  A successful one has
  a new child stream and an address of the network, on a port that was free if the network
  chose it.\<close>

theorem udp_open_outcomes:
  assumes reach: "udp_reach del (NewUDP4Net addr None ttl readBuf) u" and del: "unordered_delete_spec del"
    and call: "(call, remote, l) = (DialUDP del u laddr raddr, Some (own_addr u raddr), laddr) \<or>
      (call, remote, l) = (ListenUDP del u laddr, None, map_option (own_addr u) laddr)"
  shows "if mx_closed (un_multi u) then call = Some (u, Inl (UStream ForkClosedErr))
    else if (case l of None \<Rightarrow> ports_in_use (un_ports u) = {0..0xffff} | Some a \<Rightarrow> \<not> IP_Equal (IP a) (un_laddr u))
    then \<exists>v e. call = Some (v, Inl e) \<and> refused u v
    else \<exists>v c. call = Some (v, Inr c) \<and> opened u (l = None) v c \<and> uc_remote c = remote \<and>
      (\<forall>a. l = Some a \<longrightarrow> uc_local c = a)"
proof -
  have inv: "udp_inv del u" by (rule udp_reach_inv [OF reach del])
  from call show ?thesis
  proof
    assume c: "(call, remote, l) = (DialUDP del u laddr raddr, Some (own_addr u raddr), laddr)"
    show ?thesis using DialUDP_outcome [OF inv del own_addr_def, of laddr raddr] c
      by (simp split: if_splits; metis)
  next
    assume c: "(call, remote, l) = (ListenUDP del u laddr, None, map_option (own_addr u) laddr)"
    show ?thesis using ListenUDP_outcome [OF inv del own_addr_def, of laddr] c
      by (cases laddr) (auto split: if_splits)
  qed
qed

theorem udp_open_outcomes_witness:
  "\<exists>v e. ListenUDP swap_delete loopback_net (Some \<lparr>IP = [10, 0, 0, 2], Port = 7\<rparr>) = Some (v, Inl e) \<and>
     refused loopback_net v"
proof -
  have "own_addr loopback_net \<lparr>IP = [10, 0, 0, 2], Port = 7\<rparr> = \<lparr>IP = [10, 0, 0, 2], Port = 7\<rparr>"
    by (simp add: own_addr_def IsUnspecified_def IP_Equal_def v4_in_v6_prefix_def numeral_eq_Suc)
  then show ?thesis
    using udp_open_outcomes [OF udp_reach_start swap_delete_spec disjI2 [OF refl],
        of "[10, 0, 0, 1]" 0 0 "Some \<lparr>IP = [10, 0, 0, 2], Port = 7\<rparr>", folded loopback_net_def]
    by (simp add: loopback_net_simps IP_Equal_def)
qed

text \<open>A datagram gets through, and so does the answer: what a dialed connection writes passes the
  filters of the network it is for, lands in the buffer of the listener on its port, passes the
  listener's filter and is read with the data (as far as the buffer reaches) and the address of
  the sender; and what the listener writes to that address passes the filters of the sender's
  network and of its connection.\<close>

theorem udp_end_to_end:
  assumes "udp_reach del (NewUDP4Net laddr None ttl readBuf) u" and "unordered_delete_spec del"
    and "\<not> mx_closed (un_multi u)" and "uc_child d \<in> set (mx_children (un_multi u))"
    and "ch = ch_incoming (mx_heap (un_multi u) ! uc_child d)" and "length (c_buf ch) < c_cap ch"
    and "uc_remote d = None" and "uc_remote c = Some a" and "Port a = Port (uc_local d)"
    and "To4 (IP (uc_local c)) = Some src" and "To4 (IP a) = Some dst" and "To4 (un_laddr u) = Some dst"
    and "To4 (IP (uc_local d)) = Some dst"
    and "Port (uc_local c) \<in> {0..0xffff}" and "Port a \<in> {0..0xffff}"
    and "length b \<le> 65507" and "length answer \<le> 65507"
  shows "\<exists>p v q. udp_Write c False [PacketTaken] b = Some (Some p, Some (Inr (length b))) \<and>
    udp_incoming u p = Some v \<and>
    c_buf (ch_incoming (mx_heap (un_multi v) ! uc_child d)) = c_buf ch @ [p] \<and>
    conn_filter d p = Some (Some p) \<and>
    ReadFrom False [PacketIn p] buf =
      Some (Some (Inr (min (length buf) (length b), copy_list buf b, \<lparr>IP = src, Port = Port (uc_local c)\<rparr>))) \<and>
    WriteTo d False [PacketTaken] answer (UDPAddr \<lparr>IP = src, Port = Port (uc_local c)\<rparr>) =
      Some (Some q, Some (Inr (length answer))) \<and>
    FilterIPv4Proto 17 q = Some (Some q) \<and> FilterIPv4Dest (IP (uc_local c)) q = Some (Some q) \<and>
    NewUDP4Net_filter q = Some (Some q) \<and> conn_filter c q = Some (Some q)"
proof -
  obtain p where p: "WriteTo c False [PacketTaken] b (UDPAddr a) = Some (Some p, Some (Inr (length b)))"
    "FilterIPv4Proto 17 p = Some (Some p)" "NewUDP4Net_filter p = Some (Some p)"
    "\<And>l. To4 l = Some dst \<Longrightarrow> FilterIPv4Dest l p = Some (Some p)"
    "UDP4_Payload p = Some b" "UDP4_SourceAddr p = Some \<lparr>IP = src, Port = Port (uc_local c)\<rparr>"
    "UDP4_DestAddr p = Some \<lparr>IP = dst, Port = Port a\<rparr>"
    using WriteTo_packet [OF assms(10,11,16,14,15)] by metis
  have ans: "To4 (IP \<lparr>IP = src, Port = Port (uc_local c)\<rparr>) = Some src"
    "Port \<lparr>IP = src, Port = Port (uc_local c)\<rparr> \<in> {0..0xffff}" "Port (uc_local d) \<in> {0..0xffff}"
    using To4_length [OF assms(10)] assms(9,14,15) by simp_all
  obtain q where q: "WriteTo d False [PacketTaken] answer (UDPAddr \<lparr>IP = src, Port = Port (uc_local c)\<rparr>) =
      Some (Some q, Some (Inr (length answer)))"
    "FilterIPv4Proto 17 q = Some (Some q)" "NewUDP4Net_filter q = Some (Some q)"
    "\<And>l. To4 l = Some src \<Longrightarrow> FilterIPv4Dest l q = Some (Some q)"
    "UDP4_SourceAddr q = Some \<lparr>IP = dst, Port = Port (uc_local d)\<rparr>"
    "UDP4_DestAddr q = Some \<lparr>IP = src, Port = Port (uc_local c)\<rparr>"
    using WriteTo_packet [OF assms(13) ans(1) assms(17) ans(3,2)] by (metis net_addr.select_convs(2))
  obtain v where v: "udp_incoming u p = Some v"
    "c_buf (ch_incoming (mx_heap (un_multi v) ! uc_child d)) = c_buf ch @ [p]"
    using udp_incoming_deliver [OF udp_reach_inv [OF assms(1,2)] assms(2-6) p(2) p(4) [OF assms(12)] p(3)] by blast
  have "conn_filter d p = Some (Some p)" "conn_filter c q = Some (Some q)"
    using assms(7-9) To4_IP_Equal [OF assms(11)]
    by (simp_all add: conn_filter_packet [OF p(6,7)] conn_filter_packet [OF q(5,6)])
  then show ?thesis using p(1,5,6) q(1-3) q(4) [OF assms(10)] v assms(8)
    by (simp add: udp_Write_def ReadFrom_def ReadPacket_def)
qed

theorem udp_end_to_end_witness:
  "\<exists>p v. udp_Write \<lparr>uc_child = 5, uc_remote = Some \<lparr>IP = [10, 0, 0, 1], Port = 53\<rparr>,
       uc_local = \<lparr>IP = [10, 0, 0, 2], Port = 4000\<rparr>, uc_ttl = 64\<rparr> False [PacketTaken] [7] = Some (Some p, Some (Inr 1)) \<and>
     udp_incoming listening_net p = Some v \<and> c_buf (ch_incoming (mx_heap (un_multi v) ! 0)) = [p] \<and>
     ReadFrom False [PacketIn p] [0, 0] = Some (Some (Inr (1, [7, 0], \<lparr>IP = [10, 0, 0, 2], Port = 4000\<rparr>)))"
proof -
  let ?src = "[10, 0, 0, 2] :: bytes" and ?dst = "[10, 0, 0, 1] :: bytes"
  let ?d = "\<lparr>uc_child = 0, uc_remote = None, uc_local = \<lparr>IP = ?dst, Port = 53\<rparr>, uc_ttl = 64\<rparr>"
  let ?c = "\<lparr>uc_child = 5, uc_remote = Some \<lparr>IP = ?dst, Port = 53\<rparr>,
    uc_local = \<lparr>IP = ?src, Port = 4000\<rparr>, uc_ttl = 64\<rparr>"
  have "To4 ?src = Some ?src" "To4 ?dst = Some ?dst" by simp_all
  then show ?thesis
    using udp_end_to_end [OF listening_net_reach swap_delete_spec _ _ refl, where c = ?c and d = ?d and
        a = "\<lparr>IP = ?dst, Port = 53\<rparr>" and src = ?src and dst = ?dst and
        b = "[7]" and answer = "[]" and buf = "[0, 0]"]
    by (simp add: listening_net_simps make_chan_def copy_list_def) blast
qed

text \<open>When the stream below ends, the goroutine that reads it may see its closed channel before the
  others: it then hands an empty packet to every connection whose buffer has room, and the
  connection's filter panics on it.\<close>

theorem udp_stream_end_panics:
  assumes "udp_reach del (NewUDP4Net laddr None ttl readBuf) u" and "unordered_delete_spec del"
    and "\<not> mx_closed (un_multi u)" and "i \<in> set (mx_children (un_multi u))"
    and "ch = ch_incoming (mx_heap (un_multi u) ! i)" and "length (c_buf ch) < c_cap ch"
  shows "\<exists>m. readLoop_body (un_multi u) GotClosed = Some (m, True) \<and>
    c_buf (ch_incoming (mx_heap m ! i)) = c_buf ch @ [[]] \<and> (\<forall>c. conn_filter c [] = None)"
proof -
  have ok: "mux_ok del (un_multi u)" using udp_reach_inv [OF assms(1,2)] by (simp add: udp_inv_def)
  then obtain s where s: "mux_inv s" "x_mux s = un_multi u" using assms(2) mux_reach_inv unfolding mux_ok_def by blast
  have "i < length (mx_heap (un_multi u))" using mux_ok_facts(2) [OF ok assms(2,4)] .
  moreover have "conn_filter c [] = None" for c
    by (simp add: conn_filter_def ListenUDP_filter_def DialUDP_filter_def UDP4_SourceAddr_def UDP4_DestAddr_def
        IPv4_SourceAddr_def IPv4_DestAddr_def slice_def split: option.split)
  ultimately show ?thesis
    using assms(3-6) handleIncoming_eq [OF s(1), of "[]"]
    by (simp add: readLoop_body_def s(2) Let_def offered_copy_def)
qed

theorem udp_stream_end_panics_witness:
  "\<exists>m. readLoop_body (un_multi listening_net) GotClosed = Some (m, True) \<and>
     c_buf (ch_incoming (mx_heap m ! 0)) = [[]] \<and>
     conn_filter \<lparr>uc_child = 0, uc_remote = None, uc_local = \<lparr>IP = [10, 0, 0, 1], Port = 53\<rparr>, uc_ttl = 64\<rparr> [] = None"
  using udp_stream_end_panics [OF listening_net_reach swap_delete_spec _ _ refl, of 0]
  by (auto simp: listening_net_simps make_chan_def)

end
