(* ===== verification/Demo_UDP.thy ===== *)
theory Demo_UDP
  imports Demo_Stack UDP_Net
begin

text \<open>
  The UDP server of the demos (\<open>examples/udp_server/main.go\<close>) on the stack of \<open>Demo_Stack\<close>: it answers every
  datagram to its port with the datagram's data behind a prefix.
\<close>

section \<open>The server\<close>

text \<open>\<open>main\<close> up to its loop.\<close>

definition udp_demo ::
  "(nat list \<Rightarrow> nat \<Rightarrow> nat list) \<Rightarrow> (udp4Net \<times> (udp_error + udp4Conn)) go" where
  "udp_demo unorderedDelete =
     ListenUDP unorderedDelete (NewUDP4Net Gateway None 0 0) (Some \<lparr>IP = [], Port = 1337\<rparr>)"

text \<open>A round of the loop: what the stream takes, and whether a call waits, an error ends the program, or the
  loop goes on.  \<open>got_prefix\<close> is the text \<open>got: \<close>.\<close>

datatype echo_round = EchoWaits | EchoExits udp_error | Echoed

definition got_prefix :: bytes where
  "got_prefix = [0x67, 0x6f, 0x74, 0x3a, 0x20]"

definition udp_echo :: "udp4Conn \<Rightarrow> conn_event list \<Rightarrow> conn_event list \<Rightarrow> (bytes option \<times> echo_round) go" where
  "udp_echo listener reads writes = do {
     let packet = replicate 0x10000 0;
     r \<leftarrow> ReadFrom False reads packet;
     case r of
       None \<Rightarrow> Some (None, EchoWaits)
     | Some (Inl err) \<Rightarrow> Some (None, EchoExits err)
     | Some (Inr (n, packet, addr)) \<Rightarrow> do {
         data \<leftarrow> slice packet 0 n;
         (sent, r) \<leftarrow> WriteTo listener False writes (got_prefix @ data) (UDPAddr addr);
         Some (sent, case r of
             None \<Rightarrow> EchoWaits
           | Some (Inl err) \<Rightarrow> EchoExits err
           | Some (Inr n) \<Rightarrow> Echoed)
       }
   }"

section \<open>UDP in a packet that another stack has delivered\<close>

lemma same_datagram_udp:
  assumes "same_datagram p g"
  shows "UDP4_Payload g = UDP4_Payload p" and "UDP4_SourceAddr g = UDP4_SourceAddr p"
    and "UDP4_DestAddr g = UDP4_DestAddr p" and "FilterIPv4Proto k p = Some (Some p) \<Longrightarrow> FilterIPv4Proto k g = Some (Some g)"
    and "FilterIPv4Dest l p = Some (Some p) \<Longrightarrow> FilterIPv4Dest l g = Some (Some g)"
    and "UDP4_Valid p = Some True \<Longrightarrow> NewUDP4Net_filter p = Some (Some p) \<Longrightarrow> NewUDP4Net_filter g = Some (Some g)"
proof -
  have h: "UDP4_Header g = UDP4_Header p" using assms by (simp add: UDP4_Header_def same_datagram_def)
  show payload: "UDP4_Payload g = UDP4_Payload p" using assms by (simp add: UDP4_Payload_def same_datagram_def)
  show "UDP4_SourceAddr g = UDP4_SourceAddr p" "UDP4_DestAddr g = UDP4_DestAddr p"
    using assms h by (simp_all add: UDP4_SourceAddr_def UDP4_DestAddr_def same_datagram_def)
  show "FilterIPv4Proto k p = Some (Some p) \<Longrightarrow> FilterIPv4Proto k g = Some (Some g)"
    using assms by (auto simp: FilterIPv4Proto_def same_datagram_def bind_eq_Some_conv split: if_splits)
  show "FilterIPv4Dest l p = Some (Some p) \<Longrightarrow> FilterIPv4Dest l g = Some (Some g)"
    using assms by (auto simp: FilterIPv4Dest_def same_datagram_def bind_eq_Some_conv split: if_splits)
  assume v: "UDP4_Valid p = Some True" and f: "NewUDP4Net_filter p = Some (Some p)"
  have "UDP4_Valid g = UDP4_Valid p"
    using assms v h payload udp_valid_length(1) [OF v] by (simp add: UDP4_Valid_def same_datagram_def cong: if_cong)
  then have gv: "UDP4_Valid g = Some True" using v by simp
  have same: "UDP4_UseChecksum g = UDP4_UseChecksum p" "UDP4_Checksum g = UDP4_Checksum p"
    using h assms by (simp_all add: UDP4_UseChecksum_def UDP4_Checksum_def same_datagram_def)
  obtain use where use: "UDP4_UseChecksum p = Some use"
    using f v by (cases "UDP4_UseChecksum p") (simp_all add: NewUDP4Net_filter_def)
  show "NewUDP4Net_filter g = Some (Some g)"
  proof (cases use)
    case True
    then obtain c where c: "UDP4_Checksum p = Some c"
      using f v use by (cases "UDP4_Checksum p") (simp_all add: NewUDP4Net_filter_def)
    with True have "c = 0" using f v use by (simp add: NewUDP4Net_filter_def split: if_splits)
    then show ?thesis using True c gv use same by (simp add: NewUDP4Net_filter_def)
  qed (use gv use same in \<open>simp add: NewUDP4Net_filter_def\<close>)
qed

lemma refused_laddr: "refused u v \<Longrightarrow> un_laddr v = un_laddr u"
  unfolding refused_def by (metis udp4Net.select_convs(2) udp4Net.surjective udp4Net.update_convs(1))

lemma opened_laddr: "opened u auto v c \<Longrightarrow> un_laddr v = un_laddr u"
  by (simp add: opened_def Let_def)

lemma udp_step_laddr:
  assumes inv: "udp_inv del u" and del: "unordered_delete_spec del" and step: "udp_step del u op = Some v"
  shows "un_laddr v = un_laddr u"
proof (cases op)
  case (UDial l a)
  then show ?thesis
    using step DialUDP_outcome [OF inv del refl, of l a] by (auto simp: udp_step_def opened_laddr refused_laddr split: if_splits)
next
  case (UListen l)
  then show ?thesis
    using step ListenUDP_outcome [OF inv del refl, of l] by (auto simp: udp_step_def opened_laddr refused_laddr split: if_splits)
next
  case (UPacket p)
  then show ?thesis using step
    by (auto simp: udp_step_def udp_incoming_def bind_eq_Some_conv split: option.splits)
qed (use step in \<open>auto simp: udp_step_def udp_Close_def release_port_def bind_eq_Some_conv
    split: if_splits prod.splits\<close>)

lemma udp_reach_laddr:
  "udp_reach del (NewUDP4Net laddr None ttl readBuf) u \<Longrightarrow> unordered_delete_spec del \<Longrightarrow> un_laddr u = laddr"
  by (induction rule: udp_reach.induct) (simp_all add: NewUDP4Net_def udp_step_laddr [OF udp_reach_inv])

section \<open>The server at work\<close>

lemma udp_demo_listens:
  "\<exists>u. udp_demo del = Some (u, Inr \<lparr>uc_child = 0, uc_remote = None,
     uc_local = \<lparr>IP = Gateway, Port = 1337\<rparr>, uc_ttl = 64\<rparr>) \<and> \<not> mx_closed (un_multi u) \<and>
     mx_children (un_multi u) = [0] \<and> mx_heap (un_multi u) = [\<lparr>ch_incoming = make_chan 16, ch_done = False\<rparr>]"
  by (simp add: udp_demo_def ListenUDP_def NewUDP4Net_def Multiplex_def Fork_def Let_def IP_Equal_def)

lemma udp_reach_trans: "udp_reach del v w \<Longrightarrow> udp_reach del u v \<Longrightarrow> udp_reach del u w"
  by (induction rule: udp_reach.induct) (auto intro: udp_reach_step)

lemma udp_demo_reach: "udp_demo del = Some (u, r) \<Longrightarrow> udp_reach del (NewUDP4Net Gateway None 0 0) u"
  by (rule udp_reach_step [OF udp_reach_start, where op = "UListen (Some \<lparr>IP = [], Port = 1337\<rparr>)"])
    (simp add: udp_step_def udp_demo_def)

lemma To4_Gateway [simp]: "To4 Gateway = Some [10, 13, 37, 1]"
  by code_simp

text \<open>One round for a datagram, and its answer.\<close>

lemma udp_echo_answers:
  assumes "UDP4_Payload g = Some b" and "UDP4_SourceAddr g = Some \<lparr>IP = src, Port = n\<rparr>"
    and "To4 src = Some src" and "n \<in> {0..0xffff}" and "length b \<le> 65502"
    and "To4 (IP (uc_local l)) = Some dst" and "Port (uc_local l) \<in> {0..0xffff}"
  obtains q where "udp_echo l [PacketIn g] [PacketTaken] = Some (Some q, Echoed)"
    and "FilterIPv4Proto 17 q = Some (Some q)" and "NewUDP4Net_filter q = Some (Some q)"
    and "\<And>a. To4 a = Some src \<Longrightarrow> FilterIPv4Dest a q = Some (Some q)"
    and "UDP4_Payload q = Some (got_prefix @ b)"
    and "UDP4_SourceAddr q = Some \<lparr>IP = dst, Port = Port (uc_local l)\<rparr>"
    and "UDP4_DestAddr q = Some \<lparr>IP = src, Port = n\<rparr>"
    and "UDP4_Valid q = Some True" and "IPv4_FragmentInfo q = Some (False, False, 0)" and "header_len q = 20"
proof -
  have len: "length (got_prefix @ b) \<le> 65507" using assms(5) by (simp add: got_prefix_def)
  have "To4 (IP \<lparr>IP = src, Port = n\<rparr>) = Some src" "Port \<lparr>IP = src, Port = n\<rparr> \<in> {0..0xffff}"
    using assms(3,4) by simp_all
  from WriteTo_packet [OF assms(6) this(1) len assms(7) this(2)]
  obtain q where q: "WriteTo l False [PacketTaken] (got_prefix @ b) (UDPAddr \<lparr>IP = src, Port = n\<rparr>) =
      Some (Some q, Some (Inr (length (got_prefix @ b))))"
    "FilterIPv4Proto 17 q = Some (Some q)" "NewUDP4Net_filter q = Some (Some q)"
    "\<And>a. To4 a = Some src \<Longrightarrow> FilterIPv4Dest a q = Some (Some q)" "UDP4_Payload q = Some (got_prefix @ b)"
    "UDP4_SourceAddr q = Some \<lparr>IP = dst, Port = Port (uc_local l)\<rparr>"
    "UDP4_DestAddr q = Some \<lparr>IP = src, Port = n\<rparr>"
    "UDP4_Valid q = Some True" "IPv4_FragmentInfo q = Some (False, False, 0)" "header_len q = 20"
    by auto
  have "udp_echo l [PacketIn g] [PacketTaken] = Some (Some q, Echoed)"
    using assms(1,2,5) q(1)
    by (simp add: udp_echo_def ReadFrom_def ReadPacket_def slice_def copy_list_def Let_def min_absorb2)
  then show ?thesis using that q(2-10) by blast
qed

lemma deliverable_udp:
  assumes "UDP4_Valid q = Some True" and "IPv4_FragmentInfo q = Some (False, False, 0)" and "header_len q = 20"
  shows "deliverable mtu q \<longleftrightarrow> 28 \<le> mtu"
  using assms udp_valid_length(1) [OF assms(1)] by (auto simp: deliverable_def)

section \<open>Properties\<close>

text \<open>C20: The UDP demo answers, through both stacks.  A datagram of at most 65502 bytes that a client writes to the
  gateway's port 1337, and that its stack sends among other packets through a network as above, comes to the
  listener if the multiplexer and its buffer have room; the server answers at once with one packet, which its
  own stack can send; and as that packet comes out of the client's stack, it passes the filters there up to
  the client's connection, with the prefix and the data of the client.\<close>

theorem udp_demo_echoes:
  assumes "ordered_delete_spec orderedDelete" and "min_int_spec minInt"
    and "\<forall>p \<in> set packets. deliverable mtu p" and "length packets \<le> 65536"
    and "stack_send minInt mtu curId packets = Some (curId', sent)"
    and "mset (map (snd \<circ> snd) arrivals) = mset sent + mset junk" and "\<forall>f \<in> set junk. \<not> undamaged f"
    and "\<forall>(now1, now2, f) \<in> set arrivals. t \<le> now2 \<and> now1 < t + timeout (new_defragmenter T)"
    and "p \<in> set packets" and "udp_Write c False [PacketTaken] b = Some (Some p, r)" and "length b \<le> 65502"
    and "uc_remote c = Some a" and "To4 (IP a) = Some [10, 13, 37, 1]" and "Port a = 1337"
    and "To4 (IP (uc_local c)) = Some src" and "Port (uc_local c) \<in> {0..0xffff}"
    and "unordered_delete_spec del" and "udp_demo del = Some (u0, Inr l)" and "udp_reach del u0 u"
    and "\<not> mx_closed (un_multi u)" and "uc_child l \<in> set (mx_children (un_multi u))"
    and "ch = ch_incoming (mx_heap (un_multi u) ! uc_child l)" and "length (c_buf ch) < c_cap ch"
  shows "\<exists>d outs g v q. stack_receive orderedDelete (new_defragmenter T) arrivals = Some (d, outs) \<and>
    Some g \<in> set outs \<and> udp_incoming u g = Some v \<and>
    c_buf (ch_incoming (mx_heap (un_multi v) ! uc_child l)) = c_buf ch @ [g] \<and> conn_filter l g = Some (Some g) \<and>
    udp_echo l [PacketIn g] [PacketTaken] = Some (Some q, Echoed) \<and> deliverable mtu q \<and>
    (\<forall>h. same_datagram q h \<longrightarrow> FilterIPv4Proto 17 h = Some (Some h) \<and>
       FilterIPv4Dest (IP (uc_local c)) h = Some (Some h) \<and> NewUDP4Net_filter h = Some (Some h) \<and>
       conn_filter c h = Some (Some h) \<and> UDP4_Payload h = Some (got_prefix @ b))"
proof -
  obtain d outs g where run: "stack_receive orderedDelete (new_defragmenter T) arrivals = Some (d, outs)"
    and g: "Some g \<in> set outs" "same_datagram p g"
    by (rule stack_delivers_one [OF assms(1-9)])
  have "length b \<le> 65507" "Port a \<in> {0..0xffff}" using assms(11,14) by simp_all
  from WriteTo_packet [OF assms(15,13) this(1) assms(16) this(2)]
  obtain p' where p': "WriteTo c False [PacketTaken] b (UDPAddr a) = Some (Some p', Some (Inr (length b)))"
    "FilterIPv4Proto 17 p' = Some (Some p')" "NewUDP4Net_filter p' = Some (Some p')"
    "\<And>l. To4 l = Some [10, 13, 37, 1] \<Longrightarrow> FilterIPv4Dest l p' = Some (Some p')" "UDP4_Payload p' = Some b"
    "UDP4_SourceAddr p' = Some \<lparr>IP = src, Port = Port (uc_local c)\<rparr>"
    "UDP4_DestAddr p' = Some \<lparr>IP = [10, 13, 37, 1], Port = 1337\<rparr>" "UDP4_Valid p' = Some True"
    "IPv4_FragmentInfo p' = Some (False, False, 0)" "header_len p' = 20"
    using assms(14) by auto
  have "p' = p" using p'(1) assms(10,12) by (simp add: udp_Write_def)
  note p = p' [unfolded this]
  note same = same_datagram_udp [OF g(2)]
  have l: "l = \<lparr>uc_child = 0, uc_remote = None, uc_local = \<lparr>IP = Gateway, Port = 1337\<rparr>, uc_ttl = 64\<rparr>"
    using udp_demo_listens [of del] assms(18) by auto
  have reach: "udp_reach del (NewUDP4Net Gateway None 0 0) u"
    using udp_reach_trans [OF assms(19) udp_demo_reach [OF assms(18)]] .
  have "FilterIPv4Dest (un_laddr u) p = Some (Some p)"
    using p(4) by (simp add: udp_reach_laddr [OF reach assms(17)])
  then obtain v where v: "udp_incoming u g = Some v"
    "c_buf (ch_incoming (mx_heap (un_multi v) ! uc_child l)) = c_buf ch @ [g]"
    using udp_incoming_deliver [OF udp_reach_inv [OF reach assms(17)] assms(17,20-23)] same(4-6) p(2,3,8) by blast
  have "UDP4_Payload g = Some b" "UDP4_SourceAddr g = Some \<lparr>IP = src, Port = Port (uc_local c)\<rparr>"
    "To4 src = Some src" "To4 (IP (uc_local l)) = Some [10, 13, 37, 1]" "Port (uc_local l) \<in> {0..0xffff}"
    using same p(5,6) To4_length [OF assms(15)] by (simp_all add: l)
  from udp_echo_answers [OF this(1-3) assms(16,11) this(4,5)]
  obtain q where q: "udp_echo l [PacketIn g] [PacketTaken] = Some (Some q, Echoed)"
    "FilterIPv4Proto 17 q = Some (Some q)" "NewUDP4Net_filter q = Some (Some q)"
    "\<And>a. To4 a = Some src \<Longrightarrow> FilterIPv4Dest a q = Some (Some q)" "UDP4_Payload q = Some (got_prefix @ b)"
    "UDP4_SourceAddr q = Some \<lparr>IP = [10, 13, 37, 1], Port = 1337\<rparr>"
    "UDP4_DestAddr q = Some \<lparr>IP = src, Port = Port (uc_local c)\<rparr>" "UDP4_Valid q = Some True"
    "IPv4_FragmentInfo q = Some (False, False, 0)" "header_len q = 20"
    by (auto simp: l)
  have "deliverable mtu q"
    using deliverable_udp [OF p(8-10), of mtu] deliverable_udp [OF q(8-10)] assms(3,9) by simp
  moreover have "conn_filter l g = Some (Some g)"
    using same p(6,7) by (simp add: conn_filter_packet l)
  moreover have "conn_filter c h = Some (Some h)" if "same_datagram q h" for h
    using same_datagram_udp [OF that] q(6,7) assms(12,14) To4_IP_Equal [OF assms(13)] by (simp add: conn_filter_packet)
  ultimately show ?thesis
    using run g(1) v q(1) same_datagram_udp [of q] q(2,3,5,8) q(4) [OF assms(15)]
    by (intro exI [of _ d] exI [of _ outs] exI [of _ g] exI [of _ v] exI [of _ q]) simp
qed

theorem udp_demo_echoes_witness:
  "\<exists>p sent d outs g q u0 l. udp_Write \<lparr>uc_child = 5, uc_remote = Some \<lparr>IP = Gateway, Port = 1337\<rparr>,
       uc_local = \<lparr>IP = [10, 13, 37, 9], Port = 4000\<rparr>, uc_ttl = 64\<rparr> False [PacketTaken] [7] = Some (Some p, Some (Inr 1)) \<and>
     stack_send min 1500 0 [p] = Some (1, sent) \<and>
     stack_receive (\<lambda>xs i. take i xs @ drop (Suc i) xs) (new_defragmenter 0) (map (\<lambda>f. (0, 0, f)) sent) = Some (d, outs) \<and>
     Some g \<in> set outs \<and> udp_demo swap_delete = Some (u0, Inr l) \<and>
     udp_echo l [PacketIn g] [PacketTaken] = Some (Some q, Echoed) \<and> deliverable 1500 q"
proof -
  let ?c = "\<lparr>uc_child = 5, uc_remote = Some \<lparr>IP = Gateway, Port = 1337\<rparr>,
       uc_local = \<lparr>IP = [10, 13, 37, 9], Port = 4000\<rparr>, uc_ttl = 64\<rparr>"
  have src: "To4 (IP (uc_local ?c)) = Some [10, 13, 37, 9]" by simp
  have dst: "To4 (IP \<lparr>IP = Gateway, Port = 1337\<rparr>) = Some [10, 13, 37, 1]" by simp
  obtain p where p: "WriteTo ?c False [PacketTaken] [7] (UDPAddr \<lparr>IP = Gateway, Port = 1337\<rparr>) = Some (Some p, Some (Inr (length [7 :: byte])))"
    "UDP4_Valid p = Some True" "IPv4_FragmentInfo p = Some (False, False, 0)" "header_len p = 20"
    by (rule WriteTo_packet [OF src dst, of "[7]"]) auto
  have wrote: "udp_Write ?c False [PacketTaken] [7] = Some (Some p, Some (Inr 1))"
    using p(1) by (simp add: udp_Write_def)
  have del: "\<forall>q \<in> set [p]. deliverable 1500 q" using deliverable_udp [OF p(2-4)] by simp
  obtain qs where send: "stack_send min 1500 0 [p] = Some (0 + of_nat (length [p]), concat (map (wire 1500) qs))"
    by (rule stack_send_eq [OF min_int_spec_min del])
  define sent where "sent = concat (map (wire 1500) qs)"
  have run: "stack_send min 1500 0 [p] = Some (1, sent)" using send by (simp add: sent_def)
  obtain u0 l where u0: "udp_demo swap_delete = Some (u0, Inr l)" "uc_child l = 0" "\<not> mx_closed (un_multi u0)"
     "mx_children (un_multi u0) = [0]" "mx_heap (un_multi u0) = [\<lparr>ch_incoming = make_chan 16, ch_done = False\<rparr>]"
    using udp_demo_listens [of swap_delete] by auto
  have "\<exists>d outs g v q. stack_receive (\<lambda>xs i. take i xs @ drop (Suc i) xs) (new_defragmenter 0)
       (map (\<lambda>f. (0, 0, f)) sent) = Some (d, outs) \<and>
    Some g \<in> set outs \<and> udp_incoming u0 g = Some v \<and>
    c_buf (ch_incoming (mx_heap (un_multi v) ! uc_child l)) = c_buf (ch_incoming (mx_heap (un_multi u0) ! uc_child l)) @ [g] \<and>
    conn_filter l g = Some (Some g) \<and>
    udp_echo l [PacketIn g] [PacketTaken] = Some (Some q, Echoed) \<and> deliverable 1500 q \<and>
    (\<forall>h. same_datagram q h \<longrightarrow> FilterIPv4Proto 17 h = Some (Some h) \<and>
       FilterIPv4Dest (IP (uc_local ?c)) h = Some (Some h) \<and> NewUDP4Net_filter h = Some (Some h) \<and>
       conn_filter ?c h = Some (Some h) \<and> UDP4_Payload h = Some (got_prefix @ [7]))"
    by (rule udp_demo_echoes [OF ordered_delete_spec_take_drop min_int_spec_min del _ run, where junk = "[]" and t = 0
          and p = p and c = ?c and b = "[7]" and a = "\<lparr>IP = Gateway, Port = 1337\<rparr>" and src = "[10, 13, 37, 9]",
          OF _ _ _ _ _ wrote _ _ _ _ _ _ swap_delete_spec u0(1) udp_reach_start u0(3) _ refl])
      (simp_all add: new_defragmenter_def comp_def u0 make_chan_def)
  then show ?thesis using wrote run u0(1) by blast
qed

end
