(* ===== verification/TCP_Segment.thy ===== *)
theory TCP_Segment
  imports Go_Prelude
begin

text \<open>
  The \<open>tcpSegment\<close> of \<open>ipstack/tcp.go\<close>, the memory that its data lies in, the errors that the TCP endpoints
  return, and the arithmetic of 32-bit sequence numbers that the receiver (\<open>TCP_Recv\<close>) and the sender
  (\<open>TCP_Send\<close>) share.  A sequence number is the initial number plus a position in the byte
  stream, modulo \<open>2 ^ 32\<close>.
\<close>

text \<open>The memory of a program: what is in each cell.  A slice is the list of its cells, as far as its contents may
  change while somebody holds it.  The sender's segments hold slices of the memory of those who call \<open>Write\<close>;
  those that arrive have bytes of their own.\<close>

type_synonym cell = nat
type_synonym memory = "cell \<Rightarrow> byte"

record 'a tcpSegment =
  Start :: u32
  Data :: "'a list"
  Fin :: bool

text \<open>The segment with the bytes that are in its cells now, and the memory after bytes are stored in cells.\<close>

definition seg_load :: "memory \<Rightarrow> cell tcpSegment \<Rightarrow> byte tcpSegment" where
  "seg_load mem seg = \<lparr>Start = Start seg, Data = map mem (Data seg), Fin = Fin seg\<rparr>"

lemma seg_load_simps [simp]:
  "Start (seg_load mem seg) = Start seg" "Data (seg_load mem seg) = map mem (Data seg)"
  "Fin (seg_load mem seg) = Fin seg"
  by (simp_all add: seg_load_def)

fun store_cells :: "memory \<Rightarrow> cell list \<Rightarrow> bytes \<Rightarrow> memory" where
  "store_cells mem (c # cs) (b # bs) = store_cells (mem(c := b)) cs bs"
| "store_cells mem cs bs = mem"

lemma store_cells_other: "a \<notin> set cs \<Longrightarrow> store_cells mem cs bs a = mem a"
  by (induction mem cs bs rule: store_cells.induct) auto

lemma store_cells_load: "distinct cs \<Longrightarrow> length bs = length cs \<Longrightarrow> map (store_cells mem cs bs) cs = bs"
  by (induction mem cs bs rule: store_cells.induct) (auto simp: store_cells_other)

text \<open>\<open>io.EOF\<close>, \<open>io.ErrUnexpectedEOF\<close>, \<open>io.ErrClosedPipe\<close>, the two \<open>timeoutError\<close>s of \<open>net_helpers.go\<close>, and what a caller
  passes to \<open>Fail\<close>.\<close>

datatype tcp_error = EOF | UnexpectedEOF | ErrClosedPipe | ReadTimeout | WriteTimeout | ConnError string

section \<open>Sequence numbers\<close>

lemma unat_of_nat_u32: "unat (of_nat n :: u32) = n mod 2 ^ 32"
  by (simp add: unsigned_of_nat take_bit_eq_mod)

lemma unat_of_nat_u32_less: "n < 2 ^ 32 \<Longrightarrow> unat (of_nat n :: u32) = n"
  by (simp add: unat_of_nat_u32)

text \<open>The difference of two sequence numbers of the same stream, read as an offset.\<close>

lemma seq_offset:
  assumes "n \<le> k" and "k < n + 2 ^ 32"
  shows "unat (of_nat k + isn - (isn + of_nat n) :: u32) = k - n"
proof -
  have "(of_nat k + isn - (isn + of_nat n) :: u32) = of_nat (k - n)"
    using assms(1) by (simp add: of_nat_diff)
  moreover have "k - n < 2 ^ 32" using assms by simp
  ultimately show ?thesis by (simp only: unat_of_nat_u32_less)
qed

lemma seq_offset_behind:
  assumes "k < n" and "n - k \<le> 2 ^ 32"
  shows "unat (of_nat k + isn - (isn + of_nat n) :: u32) = 2 ^ 32 - (n - k)"
proof -
  have "(of_nat (2 ^ 32 - (n - k)) :: u32) = of_nat (2 ^ 32) - of_nat (n - k)"
    using assms(2) by (rule of_nat_diff)
  also have "(of_nat (2 ^ 32) :: u32) = 0"
    by (simp only: word_unat_eq_iff unat_of_nat_u32) simp
  also have "(0 - of_nat (n - k) :: u32) = of_nat k + isn - (isn + of_nat n)"
    using assms(1) by (simp add: of_nat_diff)
  finally have "(of_nat k + isn - (isn + of_nat n) :: u32) = of_nat (2 ^ 32 - (n - k))" ..
  then show ?thesis using assms by (simp only: unat_of_nat_u32) simp
qed

text \<open>A segment of the stream \<open>S\<close> that starts at position \<open>k\<close>; it carries the end of the stream
  only behind the last byte.\<close>

definition segment_of :: "u32 \<Rightarrow> 'a list \<Rightarrow> nat \<Rightarrow> 'a tcpSegment \<Rightarrow> bool" where
  "segment_of isn S k seg \<longleftrightarrow>
     Start seg = isn + of_nat k \<and> k + length (Data seg) \<le> length S \<and>
     Data seg = take (length (Data seg)) (drop k S) \<and>
     (Fin seg \<longrightarrow> k + length (Data seg) = length S)"

text \<open>The segment lies within \<open>2 ^ 31\<close> positions of \<open>n\<close>, so that the difference of the 32-bit
  numbers determines the difference of the positions.\<close>

definition near :: "nat \<Rightarrow> nat \<Rightarrow> 'a tcpSegment \<Rightarrow> bool" where
  "near n k seg \<longleftrightarrow> n < k + 2 ^ 31 \<and> k + length (Data seg) < n + 2 ^ 31"

lemma segment_of_nth:
  "segment_of isn S k seg \<Longrightarrow> i < length (Data seg) \<Longrightarrow> Data seg ! i = S ! (k + i)"
proof -
  assume a: "segment_of isn S k seg" "i < length (Data seg)"
  then have "Data seg = take (length (Data seg)) (drop k S)" "k + length (Data seg) \<le> length S"
    by (simp_all add: segment_of_def)
  then have "Data seg ! i = take (length (Data seg)) (drop k S) ! i"
    by simp
  with a(2) \<open>k + length (Data seg) \<le> length S\<close> show ?thesis by simp
qed

text \<open>A segment that a receiver at position \<open>n\<close> can take for one of the stream: what it has already may be
  something else.\<close>

definition segment_from :: "u32 \<Rightarrow> 'a list \<Rightarrow> nat \<Rightarrow> nat \<Rightarrow> 'a tcpSegment \<Rightarrow> bool" where
  "segment_from isn S n k seg \<longleftrightarrow>
     Start seg = isn + of_nat k \<and> k + length (Data seg) \<le> length S \<and>
     (\<forall>i < length (Data seg). n \<le> k + i \<longrightarrow> Data seg ! i = S ! (k + i)) \<and>
     (Fin seg \<longrightarrow> k + length (Data seg) = length S)"

lemma segment_from_of: "segment_of isn S k seg \<Longrightarrow> segment_from isn S n k seg"
  using segment_of_nth [of isn S k seg] by (auto simp: segment_from_def segment_of_def)

lemma segment_from_mono: "segment_from isn S n k seg \<Longrightarrow> n \<le> n' \<Longrightarrow> segment_from isn S n' k seg"
  by (simp add: segment_from_def)

lemma segment_from_all: "segment_from isn S 0 k seg \<Longrightarrow> segment_of isn S k seg"
  by (auto simp: segment_from_def segment_of_def intro!: nth_equalityI)

lemma near_offset:
  assumes "Start seg = isn + of_nat k" and "near n k seg" and "i \<le> length (Data seg)"
  shows "unat (of_nat i + Start seg - (isn + of_nat n)) =
    (if n \<le> k + i then k + i - n else 2 ^ 32 - (n - (k + i)))"
proof -
  have "of_nat i + Start seg - (isn + of_nat n) = of_nat (k + i) + isn - (isn + of_nat n)"
    using assms(1) by (simp add: algebra_simps)
  moreover have "k + i < n + 2 ^ 32" "n - (k + i) \<le> 2 ^ 32"
    using assms(2,3) by (auto simp: near_def)
  then have "unat (of_nat (k + i) + isn - (isn + of_nat n) :: u32) =
    (if n \<le> k + i then k + i - n else 2 ^ 32 - (n - (k + i)))"
    by (metis seq_offset seq_offset_behind not_le)
  ultimately show ?thesis by (simp only:)
qed

end
