(* ===== verification/TCP_Header.thy ===== *)
theory TCP_Header
  imports Transport TCP_Segment
begin

text \<open>
  \<open>ipstack/tcp.go\<close>: TCP packets inside IPv4 packets.  \<open>TCP4Packet\<close> is the byte slice of the
  whole packet.  A \<open>TCPHeader\<close> is a slice into it, and the code reslices it beyond its
  length (\<open>t[16:18]\<close> is fine on a header of length 0, \<open>t[13]\<close> is not), so it is modelled as
  its length together with the bytes up to the end of the packet, which its capacity
  covers.  A setter returns the header with the changed bytes; \<open>store_header\<close> is the packet
  that shares them.
\<close>

section \<open>The header\<close>

type_synonym tcp_header = "nat \<times> bytes"

definition hslice :: "tcp_header \<Rightarrow> nat \<Rightarrow> nat \<Rightarrow> bytes go" where
  "hslice t a b = slice (snd t) a b"

definition hidx :: "tcp_header \<Rightarrow> nat \<Rightarrow> byte go" where
  "hidx t i = (if i < fst t then idx (snd t) i else None)"

definition hupd :: "tcp_header \<Rightarrow> nat \<Rightarrow> byte \<Rightarrow> tcp_header go" where
  "hupd t i v = (if i < fst t then do { xs \<leftarrow> upd (snd t) i v; Some (fst t, xs) } else None)"

text \<open>\<open>binary.BigEndian\<close> on such slices.\<close>

definition get_u16 :: "tcp_header \<Rightarrow> nat \<Rightarrow> u16 go" where
  "get_u16 t a = do { s \<leftarrow> hslice t a (a + 2); Some (be16 (s ! 0) (s ! 1)) }"

definition put_u16 :: "tcp_header \<Rightarrow> nat \<Rightarrow> u16 \<Rightarrow> tcp_header go" where
  "put_u16 t a v = do { s \<leftarrow> hslice t a (a + 2); Some (fst t, put16 (snd t) a v) }"

definition get_u32 :: "tcp_header \<Rightarrow> nat \<Rightarrow> u32 go" where
  "get_u32 t a = do {
     s \<leftarrow> hslice t a (a + 4);
     Some (join16 (be16 (s ! 0) (s ! 1)) (be16 (s ! 2) (s ! 3)))
   }"

definition put_u32 :: "tcp_header \<Rightarrow> nat \<Rightarrow> u32 \<Rightarrow> tcp_header go" where
  "put_u32 t a v = do {
     s \<leftarrow> hslice t a (a + 4);
     Some (fst t, put16 (put16 (snd t) a (hi16 v)) (a + 2) (lo16 v))
   }"

definition TCP_SourcePort :: "tcp_header \<Rightarrow> u16 go" where "TCP_SourcePort t = get_u16 t 0"
definition TCP_SetSourcePort :: "tcp_header \<Rightarrow> u16 \<Rightarrow> tcp_header go" where
  "TCP_SetSourcePort t p = put_u16 t 0 p"
definition TCP_DestPort :: "tcp_header \<Rightarrow> u16 go" where "TCP_DestPort t = get_u16 t 2"
definition TCP_SetDestPort :: "tcp_header \<Rightarrow> u16 \<Rightarrow> tcp_header go" where
  "TCP_SetDestPort t p = put_u16 t 2 p"
definition TCP_SeqNum :: "tcp_header \<Rightarrow> u32 go" where "TCP_SeqNum t = get_u32 t 4"
definition TCP_SetSeqNum :: "tcp_header \<Rightarrow> u32 \<Rightarrow> tcp_header go" where
  "TCP_SetSeqNum t n = put_u32 t 4 n"
definition TCP_AckNum :: "tcp_header \<Rightarrow> u32 go" where "TCP_AckNum t = get_u32 t 8"
definition TCP_SetAckNum :: "tcp_header \<Rightarrow> u32 \<Rightarrow> tcp_header go" where
  "TCP_SetAckNum t n = put_u32 t 8 n"

definition TCP_DataOffset :: "tcp_header \<Rightarrow> byte go" where
  "TCP_DataOffset t = do { b \<leftarrow> hidx t 12; Some (drop_bit 4 b) }"

definition TCP_SetDataOffset :: "tcp_header \<Rightarrow> byte \<Rightarrow> tcp_header go" where
  "TCP_SetDataOffset t off = do {
     b \<leftarrow> hidx t 12;
     t \<leftarrow> hupd t 12 (b AND 0xf);
     b \<leftarrow> hidx t 12;
     hupd t 12 (b OR push_bit 4 off)
   }"

text \<open>A flag is its position, counted from NS.\<close>

definition NS :: byte where "NS = 0"
definition CWR :: byte where "CWR = 1"
definition ECE :: byte where "ECE = 2"
definition URG :: byte where "URG = 3"
definition ACK :: byte where "ACK = 4"
definition PSH :: byte where "PSH = 5"
definition RST :: byte where "RST = 6"
definition SYN :: byte where "SYN = 7"
definition FIN :: byte where "FIN = 8"

definition TCP_Flag :: "tcp_header \<Rightarrow> byte \<Rightarrow> bool go" where
  "TCP_Flag t f =
     (if f = NS then do { b \<leftarrow> hidx t 12; Some (b AND 1 = 1) }
      else do { b \<leftarrow> hidx t 13; Some (b AND push_bit (unat (8 - f)) 1 \<noteq> 0) })"

definition TCP_SetFlag :: "tcp_header \<Rightarrow> byte \<Rightarrow> bool \<Rightarrow> tcp_header go" where
  "TCP_SetFlag t f b =
     (if f = NS
      then if b then do { x \<leftarrow> hidx t 12; hupd t 12 (x OR 1) }
           else do { x \<leftarrow> hidx t 12; hupd t 12 (x AND 0xfe) }
      else if b then do { x \<leftarrow> hidx t 13; hupd t 13 (x OR push_bit (unat (8 - f)) 1) }
           else do { x \<leftarrow> hidx t 13; hupd t 13 (x AND NOT (push_bit (unat (8 - f)) 1)) })"

definition TCP_WindowSize :: "tcp_header \<Rightarrow> u16 go" where "TCP_WindowSize t = get_u16 t 14"
definition TCP_SetWindowSize :: "tcp_header \<Rightarrow> u16 \<Rightarrow> tcp_header go" where
  "TCP_SetWindowSize t sz = put_u16 t 14 sz"
definition TCP_Checksum :: "tcp_header \<Rightarrow> u16 go" where "TCP_Checksum t = get_u16 t 16"
definition TCP_SetChecksum :: "tcp_header \<Rightarrow> u16 \<Rightarrow> tcp_header go" where
  "TCP_SetChecksum t checksum = put_u16 t 16 checksum"
definition TCP_UrgPointer :: "tcp_header \<Rightarrow> u16 go" where "TCP_UrgPointer t = get_u16 t 18"
definition TCP_SetUrgPointer :: "tcp_header \<Rightarrow> u16 \<Rightarrow> tcp_header go" where
  "TCP_SetUrgPointer t urg = put_u16 t 18 urg"

section \<open>Options\<close>

record TCPOption =
  Kind :: byte
  OptData :: bytes

text \<open>\<open>ReadTCPOption\<close> on the bytes that the reader has left.  \<open>Read\<close> of a \<open>bytes.Reader\<close> fails
  at the end (even for no bytes) and otherwise fills as much as it has, leaving zeros.\<close>

definition ReadTCPOption :: "bytes \<Rightarrow> tcp_error + TCPOption \<times> bytes" where
  "ReadTCPOption r =
     (case r of
        [] \<Rightarrow> Inl EOF
      | kind # r \<Rightarrow>
          if kind < 2 then Inr (\<lparr>Kind = kind, OptData = []\<rparr>, r)
          else case r of
            [] \<Rightarrow> Inl UnexpectedEOF
          | sz # r \<Rightarrow>
              if r = [] then Inl UnexpectedEOF
              else Inr (\<lparr>Kind = kind, OptData = copy_list (replicate (unat sz) 0) r\<rparr>,
                        drop (unat sz) r))"

lemma ReadTCPOption_shorter: "ReadTCPOption r = Inr (opt, r') \<Longrightarrow> length r' < length r"
  by (auto simp: ReadTCPOption_def split: list.splits if_splits)

function options_loop :: "bytes \<Rightarrow> TCPOption list \<Rightarrow> tcp_error + TCPOption list" where
  "options_loop r res =
     (if r = [] then Inr res
      else case ReadTCPOption r of
        Inl e \<Rightarrow> Inl e
      | Inr (opt, r') \<Rightarrow> options_loop r' (res @ [opt]))"
  by pat_completeness auto
termination
  by (relation "measure (\<lambda>(r, res). length r)") (auto dest: ReadTCPOption_shorter)

declare options_loop.simps [simp del]

definition TCPOptions :: "tcp_header \<Rightarrow> (tcp_error + TCPOption list) go" where
  "TCPOptions t = do {
     r \<leftarrow> slice_from (take (fst t) (snd t)) 20;
     Some (options_loop r [])
   }"

definition TCPOption_Encode :: "TCPOption \<Rightarrow> bytes" where
  "TCPOption_Encode t =
     (if Kind t < 2 then [Kind t] else [Kind t, of_nat (length (OptData t))] @ OptData t)"

section \<open>Packets\<close>

definition TCP4_Header :: "bytes \<Rightarrow> tcp_header go" where
  "TCP4_Header t = do {
     h \<leftarrow> IPv4_Payload t;
     off \<leftarrow> TCP_DataOffset (length h, h);
     let hSize = unat (off * 4);
     s \<leftarrow> slice h 0 hSize;
     Some (hSize, h)
   }"

definition store_header :: "bytes \<Rightarrow> tcp_header \<Rightarrow> bytes" where
  "store_header t h = take (length t - length (snd h)) t @ snd h"

definition TCP4_Payload :: "bytes \<Rightarrow> bytes go" where
  "TCP4_Payload t = do {
     h \<leftarrow> TCP4_Header t;
     p \<leftarrow> IPv4_Payload t;
     slice_from p (fst h)
   }"

definition TCP4_Checksum :: "bytes \<Rightarrow> u16 go" where
  "TCP4_Checksum t = do {
     header \<leftarrow> TCP4_Header t;
     source \<leftarrow> IPv4_SourceAddr t;
     dest \<leftarrow> IPv4_DestAddr t;
     payload \<leftarrow> TCP4_Payload t;
     let sz = (of_nat (fst header + length payload) :: u16);
     ipPayload \<leftarrow> IPv4_Payload t;
     Some (InternetChecksum (source @ dest @ [0] @ [6] @ [hi8 sz, lo8 sz] @ ipPayload))
   }"

definition TCP4_SetChecksum :: "bytes \<Rightarrow> bytes go" where
  "TCP4_SetChecksum t = do {
     h \<leftarrow> TCP4_Header t;
     h \<leftarrow> TCP_SetChecksum h 0;
     let t = store_header t h;
     h \<leftarrow> TCP4_Header t;
     c \<leftarrow> TCP4_Checksum t;
     h \<leftarrow> TCP_SetChecksum h c;
     Some (store_header t h)
   }"

definition TCP4_Valid :: "bytes \<Rightarrow> bool go" where
  "TCP4_Valid t = do {
     v \<leftarrow> IPv4_Valid t;
     if \<not> v then Some False
     else do {
       p \<leftarrow> IPv4_Payload t;
       if length p < 20 then Some False
       else do {
         off \<leftarrow> TCP_DataOffset (length p, p);
         Some (unat (off * 4) \<le> length p)
       }
     }
   }"

definition TCP4_SourceAddr :: "bytes \<Rightarrow> net_addr go" where
  "TCP4_SourceAddr t = do {
     ip \<leftarrow> IPv4_SourceAddr t;
     h \<leftarrow> TCP4_Header t;
     port \<leftarrow> TCP_SourcePort h;
     Some \<lparr>IP = ip, Port = uint port\<rparr>
   }"

definition TCP4_DestAddr :: "bytes \<Rightarrow> net_addr go" where
  "TCP4_DestAddr t = do {
     ip \<leftarrow> IPv4_DestAddr t;
     h \<leftarrow> TCP4_Header t;
     port \<leftarrow> TCP_DestPort h;
     Some \<lparr>IP = ip, Port = uint port\<rparr>
   }"

fun set_flags :: "tcp_header \<Rightarrow> byte list \<Rightarrow> tcp_header go" where
  "set_flags t [] = Some t"
| "set_flags t (flag # flags) = do { t \<leftarrow> TCP_SetFlag t flag True; set_flags t flags }"

definition NewTCP4Packet ::
  "int \<Rightarrow> net_addr \<Rightarrow> net_addr \<Rightarrow> u32 \<Rightarrow> u32 \<Rightarrow> u16 \<Rightarrow> bytes \<Rightarrow> byte list \<Rightarrow> bytes go" where
  "NewTCP4Packet ttl source dest seqNum ackNum windowSize payload flags = do {
     let tcpPacket = replicate 20 0 @ payload;
     let header = (20, tcpPacket);
     header \<leftarrow> TCP_SetSourcePort header (word_of_int (Port source));
     header \<leftarrow> TCP_SetDestPort header (word_of_int (Port dest));
     header \<leftarrow> TCP_SetSeqNum header seqNum;
     header \<leftarrow> TCP_SetAckNum header ackNum;
     header \<leftarrow> TCP_SetWindowSize header windowSize;
     header \<leftarrow> TCP_SetDataOffset header 5;
     header \<leftarrow> set_flags header flags;
     res \<leftarrow> NewIPv4Packet ttl 6 (IP source) (IP dest) (snd header);
     TCP4_SetChecksum res
   }"

section \<open>Filters\<close>

text \<open>The \<open>FilterFunc\<close>s of \<open>ipstack/net_tcp.go\<close>: the one of \<open>NewTCP4Net\<close> and those of the
  listener.\<close>

definition NewTCP4Net_filter :: "bytes \<Rightarrow> bytes option go" where
  "NewTCP4Net_filter packet = do {
     v \<leftarrow> TCP4_Valid packet;
     if v then do {
       c \<leftarrow> TCP4_Checksum packet;
       Some (if c = 0 then Some packet else None)
     }
     else Some None
   }"

definition filterTCP4Dest :: "net_addr \<Rightarrow> bytes \<Rightarrow> bytes option go" where
  "filterTCP4Dest addr packet = do {
     d \<leftarrow> TCP4_DestAddr packet;
     Some (if \<not> IP_Equal (IP d) (IP addr) \<or> Port d \<noteq> Port addr then None else Some packet)
   }"

definition filterTCP4Source :: "net_addr \<Rightarrow> bytes \<Rightarrow> bytes option go" where
  "filterTCP4Source addr packet = do {
     d \<leftarrow> TCP4_SourceAddr packet;
     Some (if \<not> IP_Equal (IP d) (IP addr) \<or> Port d \<noteq> Port addr then None else Some packet)
   }"

definition filterTCP4Syn :: "bytes \<Rightarrow> bytes option go" where
  "filterTCP4Syn packet = do {
     h \<leftarrow> TCP4_Header packet;
     s \<leftarrow> TCP_Flag h SYN;
     Some (if s then Some packet else None)
   }"

section \<open>The operations on valid packets\<close>

definition tcp_len :: "bytes \<Rightarrow> nat" where
  "tcp_len p = unat (drop_bit 4 (p ! (header_len p + 12)) * 4 :: byte)"

lemma tcp_valid_iff:
  "TCP4_Valid p = Some True \<longleftrightarrow>
     IPv4_Valid p = Some True \<and> header_len p + 20 \<le> length p \<and> header_len p + tcp_len p \<le> length p"
proof (cases "IPv4_Valid p = Some True")
  case True
  note len = ip_valid_length [OF True]
  have "IPv4_Payload p = Some (drop (header_len p) p)" using len by (intro IPv4_Payload_eq) auto
  then show ?thesis using True len
    by (auto simp: TCP4_Valid_def TCP_DataOffset_def hidx_def tcp_len_def)
qed (auto simp: TCP4_Valid_def IPv4_Valid_eq)

lemma tcp_valid_length:
  assumes "TCP4_Valid p = Some True"
  shows "IPv4_Valid p = Some True" and "header_len p + 20 \<le> length p"
    and "header_len p + tcp_len p \<le> length p" and "length p \<le> 65535" and "20 \<le> header_len p"
  using assms ip_valid_length [of p] by (auto simp: tcp_valid_iff)

lemma tcp_payload_eq:
  "TCP4_Valid p = Some True \<Longrightarrow> IPv4_Payload p = Some (drop (header_len p) p)"
  using tcp_valid_length [of p] ip_valid_length [of p] by (intro IPv4_Payload_eq) auto

lemma TCP4_Header_eq:
  assumes "TCP4_Valid p = Some True"
  shows "TCP4_Header p = Some (tcp_len p, drop (header_len p) p)"
  using tcp_valid_length [OF assms]
  by (simp add: TCP4_Header_def tcp_payload_eq [OF assms] TCP_DataOffset_def hidx_def
      tcp_len_def [symmetric] le_diff_conv2)

lemma TCP4_Payload_eq:
  assumes "TCP4_Valid p = Some True"
  shows "TCP4_Payload p = Some (drop (header_len p + tcp_len p) p)"
  using tcp_valid_length [OF assms]
  by (simp add: TCP4_Payload_def TCP4_Header_eq [OF assms] tcp_payload_eq [OF assms] add.commute
      le_diff_conv2)

lemma TCP4_Checksum_eq:
  assumes "TCP4_Valid p = Some True"
  shows "TCP4_Checksum p = Some (transport_sum 6 p)"
proof -
  note len = tcp_valid_length [OF assms]
  have "tcp_len p + (length p - (header_len p + tcp_len p)) = length p - header_len p"
    using len by simp
  then show ?thesis
    using len ip_valid_length [OF len(1)]
    by (simp add: TCP4_Checksum_def TCP4_Header_eq [OF assms] TCP4_Payload_eq [OF assms]
        tcp_payload_eq [OF assms] IPv4_fields_eq transport_sum_def pseudo_header_def Let_def
        algebra_simps)
qed

definition with_tcp_checksum :: "bytes \<Rightarrow> bytes" where
  "with_tcp_checksum p =
     put16 p (header_len p + 16) (transport_sum 6 (put16 p (header_len p + 16) 0))"

lemma store_header_put16:
  "h \<le> length p \<Longrightarrow> store_header p (n, put16 (drop h p) k v) = put16 p (h + k) v"
  by (simp add: store_header_def) (metis append_take_drop_id length_take min_absorb2 put16_append
      diff_add_inverse le_add1)

lemma tcp_put16:
  assumes "TCP4_Valid p = Some True"
  shows "TCP4_Valid (put16 p (header_len p + 16) v) = Some True"
    and "header_len (put16 p (header_len p + 16) v) = header_len p"
    and "tcp_len (put16 p (header_len p + 16) v) = tcp_len p"
proof -
  note len = tcp_valid_length [OF assms]
  show hl: "header_len (put16 p (header_len p + 16) v) = header_len p" using len by simp
  then show tl: "tcp_len (put16 p (header_len p + 16) v) = tcp_len p"
    by (simp add: tcp_len_def put16_def)
  show "TCP4_Valid (put16 p (header_len p + 16) v) = Some True"
    using len valid_put16 [OF len(1), of "header_len p + 16" v] hl tl by (simp add: tcp_valid_iff)
qed

lemma TCP4_SetChecksum_eq:
  assumes "TCP4_Valid p = Some True"
  shows "TCP4_SetChecksum p = Some (with_tcp_checksum p)"
proof -
  note len = tcp_valid_length [OF assms]
  let ?q = "put16 p (header_len p + 16) 0"
  note q = tcp_put16 [OF assms, of 0]
  have 1: "TCP_SetChecksum (tcp_len p, drop (header_len p) p) 0 =
      Some (tcp_len p, put16 (drop (header_len p) p) 16 0)"
    using len by (simp add: TCP_SetChecksum_def put_u16_def hslice_def le_diff_conv2)
  have 2: "TCP_SetChecksum (tcp_len p, drop (header_len p) ?q) v =
      Some (tcp_len p, put16 (drop (header_len p) ?q) 16 v)" for v
    using len by (simp add: TCP_SetChecksum_def put_u16_def hslice_def le_diff_conv2)
  show ?thesis
    using len q
    by (simp add: TCP4_SetChecksum_def TCP4_Header_eq [OF assms] 1 store_header_put16
        TCP4_Header_eq [OF q(1)] TCP4_Checksum_eq [OF q(1)] 2 Let_def with_tcp_checksum_def)
qed

lemma TCP4_with_checksum:
  assumes "TCP4_Valid p = Some True"
  shows "transport_sum 6 (with_tcp_checksum p) = 0"
  unfolding with_tcp_checksum_def
  using tcp_valid_length [OF assms] by (intro transport_sum_set) auto

interpretation tcp: checksummed
  "\<lambda>p. TCP4_Valid p = Some True" TCP4_Checksum TCP4_SetChecksum
proof unfold_locales
  fix p assume v: "TCP4_Valid p = Some True"
  show "\<exists>c. TCP4_Checksum p = Some c" by (simp add: TCP4_Checksum_eq [OF v])
  note q = tcp_put16 [OF v, of "transport_sum 6 (put16 p (header_len p + 16) 0)",
      folded with_tcp_checksum_def]
  show "\<exists>q. TCP4_SetChecksum p = Some q \<and> TCP4_Valid q = Some True \<and> length q = length p"
    using q(1) by (simp add: TCP4_SetChecksum_eq [OF v]) (simp add: with_tcp_checksum_def)
  fix q' assume "TCP4_SetChecksum p = Some q'"
  then have q': "q' = with_tcp_checksum p" by (simp add: TCP4_SetChecksum_eq [OF v])
  show "TCP4_Checksum q' = Some 0"
    using q(1) by (simp add: q' TCP4_Checksum_eq TCP4_with_checksum [OF v])
  show "TCP4_SetChecksum q' = Some q'"
    unfolding q' TCP4_SetChecksum_eq [OF q(1)] with_tcp_checksum_def [of "with_tcp_checksum p"] q(2)
    by (simp add: with_tcp_checksum_def)
qed

lemma NewTCP4Net_filter_eq:
  assumes "TCP4_Valid p = Some True"
  shows "NewTCP4Net_filter p = checksum_filter TCP4_Checksum p"
  by (simp add: NewTCP4Net_filter_def checksum_filter_def assms)

lemma TCP4_Valid_total: "\<exists>v. TCP4_Valid p = Some v"
proof (cases "IPv4_Valid p = Some True")
  case True
  note len = ip_valid_length [OF True]
  have "IPv4_Payload p = Some (drop (header_len p) p)" using len by (intro IPv4_Payload_eq) auto
  then show ?thesis using True by (auto simp: TCP4_Valid_def TCP_DataOffset_def hidx_def)
qed (auto simp: TCP4_Valid_def IPv4_Valid_eq)

section \<open>Flags\<close>

text \<open>The bit of a flag: NS is in byte 12, the others are in byte 13, CWR first.\<close>

definition flag_bit :: "bytes \<Rightarrow> nat \<Rightarrow> bool" where
  "flag_bit xs f = (if f = 0 then bit (xs ! 12) 0 else bit (xs ! 13) (8 - f))"

lemma byte_flag_cases:
  assumes "f \<le> (8 :: byte)"
  shows "unat f \<le> 8" and "unat (8 - f) = 8 - unat f"
proof -
  show "unat f \<le> 8" using assms by (simp add: word_le_nat_alt)
  show "unat (8 - f) = 8 - unat f" using unat_sub [OF assms] by simp
qed

lemma and_1_iff: "(x AND 1 = 1) \<longleftrightarrow> bit (x :: byte) 0"
  by (simp add: and_one_eq bit_0 odd_iff_mod_2_eq_one)

lemma TCP_Flag_eq:
  assumes "14 \<le> n" and "n \<le> length xs" and "f \<le> 8"
  shows "TCP_Flag (n, xs) f = Some (flag_bit xs (unat f))"
proof (cases "f = 0")
  case True
  then show ?thesis using assms by (simp add: TCP_Flag_def NS_def hidx_def and_1_iff flag_bit_def)
next
  case False
  then show ?thesis using assms byte_flag_cases [OF assms(3)]
    by (simp add: TCP_Flag_def NS_def hidx_def and_exp_eq_0_iff_not_bit flag_bit_def unat_eq_0)
qed

text \<open>Setting a flag changes its bit and nothing else.\<close>

definition only_flags :: "bytes \<Rightarrow> bytes \<Rightarrow> bool" where
  "only_flags xs ys \<longleftrightarrow> length ys = length xs \<and> (\<forall>i. i \<notin> {12, 13} \<longrightarrow> ys ! i = xs ! i) \<and>
     drop_bit 4 (ys ! 12) = drop_bit 4 (xs ! 12)"

lemma only_flags_refl: "only_flags xs xs"
  by (simp add: only_flags_def)

lemma only_flags_trans: "only_flags xs ys \<Longrightarrow> only_flags ys zs \<Longrightarrow> only_flags xs zs"
  by (simp add: only_flags_def)

lemma drop_bit_4_and_15: "drop_bit 4 x AND 15 = drop_bit 4 (x :: byte)"
proof -
  have "w AND 15 = take_bit 4 w" for w :: byte
    by (simp add: take_bit_eq_mask mask_eq_exp_minus_1)
  then show ?thesis
    by (simp only:) (rule bit_word_eqI, auto simp: bit_simps dest: bit_imp_le_length)
qed

lemma ns_bits:
  "drop_bit 4 (x OR 1) = drop_bit 4 (x :: byte)" "drop_bit 4 (x AND 0xfe) = drop_bit 4 (x :: byte)"
  "bit (x OR 1 :: byte) 0" "\<not> bit (x AND 0xfe :: byte) 0"
proof -
  show "drop_bit 4 (x OR 1) = drop_bit 4 (x :: byte)"
    by (rule bit_word_eqI) (auto simp: bit_simps)
  show "drop_bit 4 (x AND 0xfe) = drop_bit 4 (x :: byte)"
    by (simp add: drop_bit_4_and_15)
  show "bit (x OR 1 :: byte) 0" by (auto simp: bit_simps)
  have "\<not> bit (0xfe :: byte) 0" by simp
  then show "\<not> bit (x AND 0xfe :: byte) 0" by (simp only: bit_and_iff simp_thms)
qed

lemma flag_bits:
  assumes "g \<noteq> 0" and "g \<le> 8" and "f \<le> 8"
  shows "bit (x OR 2 ^ (8 - f) :: byte) (8 - g) \<longleftrightarrow> bit x (8 - g) \<or> g = f"
    and "bit (x AND NOT (2 ^ (8 - f)) :: byte) (8 - g) \<longleftrightarrow> bit x (8 - g) \<and> g \<noteq> f"
proof -
  have "8 - g < 8" "8 - f = 8 - g \<longleftrightarrow> g = f" using assms by auto
  then show "bit (x OR 2 ^ (8 - f) :: byte) (8 - g) \<longleftrightarrow> bit x (8 - g) \<or> g = f"
    "bit (x AND NOT (2 ^ (8 - f)) :: byte) (8 - g) \<longleftrightarrow> bit x (8 - g) \<and> g \<noteq> f"
    by (auto simp: bit_simps)
qed

lemma TCP_SetFlag_spec:
  assumes "14 \<le> n" and "n \<le> length xs" and "f \<le> 8"
  obtains ys where "TCP_SetFlag (n, xs) f b = Some (n, ys)" and "only_flags xs ys"
    and "\<And>g. g \<le> 8 \<Longrightarrow> flag_bit ys g = (if g = unat f then b else flag_bit xs g)"
proof (cases "f = 0")
  case True
  let ?ys = "xs[12 := (if b then xs ! 12 OR 1 else xs ! 12 AND 0xfe)]"
  show ?thesis
  proof (rule that [of ?ys])
    show "TCP_SetFlag (n, xs) f b = Some (n, ?ys)"
      using assms True by (simp add: TCP_SetFlag_def NS_def hidx_def hupd_def)
    show "only_flags xs ?ys" using assms by (simp add: only_flags_def ns_bits drop_bit_4_and_15)
    show "flag_bit ?ys g = (if g = unat f then b else flag_bit xs g)" if "g \<le> 8" for g
      using assms True by (simp add: flag_bit_def ns_bits)
  qed
next
  case False
  note f = byte_flag_cases [OF assms(3)]
  let ?ys = "xs[13 := (if b then xs ! 13 OR 2 ^ (8 - unat f) else xs ! 13 AND NOT (2 ^ (8 - unat f)))]"
  show ?thesis
  proof (rule that [of ?ys])
    show "TCP_SetFlag (n, xs) f b = Some (n, ?ys)"
      using assms False f by (simp add: TCP_SetFlag_def NS_def hidx_def hupd_def)
    show "only_flags xs ?ys" using assms by (simp add: only_flags_def)
    show "flag_bit ?ys g = (if g = unat f then b else flag_bit xs g)" if "g \<le> 8" for g
      using assms False f flag_bits [OF _ that f(1)] by (auto simp: flag_bit_def unat_eq_0)
  qed
qed

lemma set_flags_spec:
  assumes "14 \<le> n" and "n \<le> length xs" and "\<forall>f \<in> set flags. f \<le> 8"
  shows "\<exists>ys. set_flags (n, xs) flags = Some (n, ys) \<and> only_flags xs ys \<and>
    (\<forall>g \<le> 8. flag_bit ys g \<longleftrightarrow> flag_bit xs g \<or> g \<in> unat ` set flags)"
  using assms(2,3)
proof (induction flags arbitrary: xs)
  case Nil
  then show ?case using only_flags_refl by auto
next
  case (Cons f flags)
  obtain ys where ys: "TCP_SetFlag (n, xs) f True = Some (n, ys)" "only_flags xs ys"
    "\<And>g. g \<le> 8 \<Longrightarrow> flag_bit ys g = (if g = unat f then True else flag_bit xs g)"
    using TCP_SetFlag_spec [OF assms(1) Cons.prems(1), of f True] Cons.prems(2) by auto
  have "n \<le> length ys" using ys(2) Cons.prems(1) by (simp add: only_flags_def)
  then obtain zs where zs: "set_flags (n, ys) flags = Some (n, zs)" "only_flags ys zs"
    "\<forall>g \<le> 8. flag_bit zs g \<longleftrightarrow> flag_bit ys g \<or> g \<in> unat ` set flags"
    using Cons.IH [of ys] Cons.prems(2) by auto
  show ?case
    using ys zs only_flags_trans [OF ys(2) zs(2)] by (intro exI [of _ zs]) auto
qed

section \<open>Building a packet\<close>

definition tcp_header_bytes :: "u16 \<Rightarrow> u16 \<Rightarrow> u32 \<Rightarrow> u32 \<Rightarrow> u16 \<Rightarrow> bytes" where
  "tcp_header_bytes sp dp seq ack win =
     [hi8 sp, lo8 sp, hi8 dp, lo8 dp,
      hi8 (hi16 seq), lo8 (hi16 seq), hi8 (lo16 seq), lo8 (lo16 seq),
      hi8 (hi16 ack), lo8 (hi16 ack), hi8 (lo16 ack), lo8 (lo16 ack),
      0x50, 0, hi8 win, lo8 win, 0, 0, 0, 0]"

lemma replicate_20: "replicate 20 x = [x,x,x,x,x,x,x,x,x,x,x,x,x,x,x,x,x,x,x,x]"
  by (simp add: numeral_eq_Suc)

lemma NewTCP4Packet_unfold:
  "NewTCP4Packet ttl source dest seqNum ackNum windowSize payload flags = do {
     header \<leftarrow> set_flags (20, tcp_header_bytes (word_of_int (Port source)) (word_of_int (Port dest))
                 seqNum ackNum windowSize @ payload) flags;
     res \<leftarrow> NewIPv4Packet ttl 6 (IP source) (IP dest) (snd header);
     TCP4_SetChecksum res
   }"
  unfolding NewTCP4Packet_def replicate_20
  by (simp add: TCP_SetSourcePort_def TCP_SetDestPort_def TCP_SetSeqNum_def TCP_SetAckNum_def
      TCP_SetWindowSize_def TCP_SetDataOffset_def put_u16_def put_u32_def hslice_def hidx_def hupd_def
      put16_def tcp_header_bytes_def)

lemma header_getters:
  assumes "20 \<le> length xs"
  shows "TCP_SourcePort (n, xs) = Some (be16 (xs ! 0) (xs ! 1))"
    and "TCP_DestPort (n, xs) = Some (be16 (xs ! 2) (xs ! 3))"
    and "TCP_SeqNum (n, xs) = Some (join16 (be16 (xs ! 4) (xs ! 5)) (be16 (xs ! 6) (xs ! 7)))"
    and "TCP_AckNum (n, xs) = Some (join16 (be16 (xs ! 8) (xs ! 9)) (be16 (xs ! 10) (xs ! 11)))"
    and "TCP_WindowSize (n, xs) = Some (be16 (xs ! 14) (xs ! 15))"
  using assms
  by (simp_all add: TCP_SourcePort_def TCP_DestPort_def TCP_SeqNum_def TCP_AckNum_def
      TCP_WindowSize_def get_u16_def get_u32_def hslice_def)

text \<open>The header with its flags set and any checksum, before the data.\<close>

lemma tcp_header_built:
  assumes flags: "\<forall>f \<in> set flags. f \<le> 8"
  obtains ys where "set_flags (20, tcp_header_bytes sp dp seq ack win @ payload) flags = Some (20, ys)"
    and "length ys = 20 + length payload" and "drop 20 ys = payload" and "drop_bit 4 (ys ! 12) = 5"
    and "\<And>c. TCP_SourcePort (20, put16 ys 16 c) = Some sp" and "\<And>c. TCP_DestPort (20, put16 ys 16 c) = Some dp"
    and "\<And>c. TCP_SeqNum (20, put16 ys 16 c) = Some seq" and "\<And>c. TCP_AckNum (20, put16 ys 16 c) = Some ack"
    and "\<And>c. TCP_WindowSize (20, put16 ys 16 c) = Some win"
    and "\<And>c f. f \<le> 8 \<Longrightarrow> TCP_Flag (20, put16 ys 16 c) f = Some (f \<in> set flags)"
proof -
  define xs where "xs = tcp_header_bytes sp dp seq ack win @ payload"
  have xs: "length xs = 20 + length payload" "drop 20 xs = payload"
    by (simp_all add: xs_def tcp_header_bytes_def)
  obtain ys where ys: "set_flags (20, xs) flags = Some (20, ys)" "only_flags xs ys"
    "\<forall>g \<le> 8. flag_bit ys g \<longleftrightarrow> flag_bit xs g \<or> g \<in> unat ` set flags"
    using set_flags_spec [of 20 xs flags] xs(1) flags by auto
  have len: "length ys = 20 + length payload" using ys(2) xs(1) by (simp add: only_flags_def)
  have y: "ys ! i = xs ! i" if "i \<noteq> 12" "i \<noteq> 13" for i using ys(2) that by (simp add: only_flags_def)
  have z: "put16 ys 16 c ! i = ys ! i" if "i < 16" for i c using that by (simp add: put16_def)
  have zlen: "20 \<le> length (put16 ys 16 c)" for c using len by simp
  show ?thesis
  proof (rule that [OF ys(1) [unfolded xs_def] len])
    have "drop 20 ys = drop 20 xs" using y len xs(1) by (intro nth_equalityI) auto
    then show "drop 20 ys = payload" using xs(2) by simp
    show "drop_bit 4 (ys ! 12) = 5" using ys(2) by (simp add: only_flags_def xs_def tcp_header_bytes_def)
    show "TCP_SourcePort (20, put16 ys 16 c) = Some sp" "TCP_DestPort (20, put16 ys 16 c) = Some dp"
      "TCP_SeqNum (20, put16 ys 16 c) = Some seq" "TCP_AckNum (20, put16 ys 16 c) = Some ack"
      "TCP_WindowSize (20, put16 ys 16 c) = Some win" for c
      by (simp_all add: header_getters [OF zlen] z y) (simp_all add: xs_def tcp_header_bytes_def)
    show "TCP_Flag (20, put16 ys 16 c) f = Some (f \<in> set flags)" if "f \<le> 8" for c f
    proof -
      have "flag_bit (put16 ys 16 c) (unat f) = flag_bit ys (unat f)" by (simp add: flag_bit_def z)
      moreover have "\<not> flag_bit xs (unat f)"
        by (simp add: flag_bit_def xs_def tcp_header_bytes_def bit_0)
      moreover have "unat f \<in> unat ` set flags \<longleftrightarrow> f \<in> set flags"
        by (rule inj_image_mem_iff) (simp add: inj_def word_unat_eq_iff)
      ultimately show ?thesis
        using that ys(3) zlen [of c] byte_flag_cases(1) [OF that] by (simp add: TCP_Flag_eq)
    qed
  qed
qed

text \<open>Everything that the receiver of a packet reads from it.\<close>

lemma NewTCP4Packet_fields:
  assumes addr: "To4 (IP source) = Some src" "To4 (IP dest) = Some dst"
    and len: "length payload \<le> 65495" and flags: "\<forall>f \<in> set flags. f \<le> 8"
  obtains p h where
    "NewTCP4Packet ttl source dest seqNum ackNum windowSize payload flags = Some p"
    and "TCP4_Valid p = Some True" and "TCP4_Checksum p = Some 0" and "TCP4_Header p = Some h"
    and "TCP4_Payload p = Some payload"
    and "TCP4_SourceAddr p = Some \<lparr>IP = src, Port = Port source mod 65536\<rparr>"
    and "TCP4_DestAddr p = Some \<lparr>IP = dst, Port = Port dest mod 65536\<rparr>"
    and "TCP_SeqNum h = Some seqNum" and "TCP_AckNum h = Some ackNum"
    and "TCP_WindowSize h = Some windowSize"
    and "\<And>f. f \<le> 8 \<Longrightarrow> TCP_Flag h f = Some (f \<in> set flags)"
    and "IPv4_Proto p = Some 6" and "IPv4_FragmentInfo p = Some (False, False, 0)"
    and "length p = 40 + length payload" and "tcp_len p = 20"
proof -
  obtain ys where ys: "set_flags (20, tcp_header_bytes (word_of_int (Port source)) (word_of_int (Port dest))
      seqNum ackNum windowSize @ payload) flags = Some (20, ys)"
    "length ys = 20 + length payload" "drop 20 ys = payload" "drop_bit 4 (ys ! 12) = 5"
    and get: "\<And>c. TCP_SourcePort (20, put16 ys 16 c) = Some (word_of_int (Port source))"
    "\<And>c. TCP_DestPort (20, put16 ys 16 c) = Some (word_of_int (Port dest))"
    "\<And>c. TCP_SeqNum (20, put16 ys 16 c) = Some seqNum" "\<And>c. TCP_AckNum (20, put16 ys 16 c) = Some ackNum"
    "\<And>c. TCP_WindowSize (20, put16 ys 16 c) = Some windowSize"
    and flag: "\<And>c f. f \<le> 8 \<Longrightarrow> TCP_Flag (20, put16 ys 16 c) f = Some (f \<in> set flags)"
    by (rule tcp_header_built [OF flags, of "word_of_int (Port source)" "word_of_int (Port dest)" seqNum ackNum
          windowSize payload]) (rule that; assumption)
  have "length ys \<le> 65515" using ys(2) len by simp
  from NewIPv4Packet_around [OF addr this, of 6 ttl] obtain r where
    r: "NewIPv4Packet ttl 6 (IP source) (IP dest) ys = Some r" "IPv4_Valid r = Some True"
      "length r = 20 + length ys" "header_len r = 20" "drop 20 r = ys" "\<And>i. r ! (20 + i) = ys ! i"
      "IPv4_SourceAddr r = Some src" "IPv4_DestAddr r = Some dst" "IPv4_Proto r = Some 6"
      "IPv4_FragmentInfo r = Some (False, False, 0)" by auto
  have tl: "tcp_len r = 20" using ys(4) r(6) [of 12] by (simp add: tcp_len_def r(4))
  have v: "TCP4_Valid r = Some True" using r(2-4) tl ys(2) by (simp add: tcp_valid_iff)
  define p where "p = with_tcp_checksum r"
  obtain c where c: "p = put16 r 36 c" by (simp add: p_def with_tcp_checksum_def r(4))
  have pv: "TCP4_Valid p = Some True" "header_len p = 20" "tcp_len p = 20"
    using tcp_put16 [OF v] r(4) tl by (simp_all add: p_def with_tcp_checksum_def)
  have dp: "drop 20 p = put16 ys 16 c" using drop_put16_at [of 20 r 16 c] r(5) by (simp add: c)
  have h: "TCP4_Header p = Some (20, put16 ys 16 c)" using TCP4_Header_eq [OF pv(1)] pv(2,3) dp by simp
  have "20 \<le> length r" "(20 :: nat) \<le> 36" using r(3) by simp_all
  note ip = ip_fields_put16 [OF this, of c, folded c, unfolded r]
  have set: "NewTCP4Packet ttl source dest seqNum ackNum windowSize payload flags = Some p"
    using ys(1) r(1) TCP4_SetChecksum_eq [OF v] by (simp add: NewTCP4Packet_unfold p_def)
  have ck: "TCP4_Checksum p = Some 0"
    by (simp add: TCP4_Checksum_eq [OF pv(1)]) (simp add: p_def TCP4_with_checksum [OF v])
  have "drop 40 p = drop 20 (drop 20 p)" by simp
  also have "\<dots> = payload" by (simp add: dp ys(3))
  finally have payload: "TCP4_Payload p = Some payload" using TCP4_Payload_eq [OF pv(1)] pv(2,3) by simp
  have "TCP4_SourceAddr p = Some \<lparr>IP = src, Port = Port source mod 65536\<rparr>"
    "TCP4_DestAddr p = Some \<lparr>IP = dst, Port = Port dest mod 65536\<rparr>"
    using ip h get(1,2) by (simp_all add: TCP4_SourceAddr_def TCP4_DestAddr_def uint_word_of_int)
  moreover have "length p = 40 + length payload" using r(3) ys(2) by (simp add: c)
  ultimately show ?thesis using that [OF set pv(1) ck h payload] get(3-5) flag ip(3,4) pv(3) by simp
qed

section \<open>Reading options back\<close>

definition option_ok :: "TCPOption \<Rightarrow> bool" where
  "option_ok opt \<longleftrightarrow> (Kind opt < 2 \<longrightarrow> OptData opt = []) \<and> length (OptData opt) < 256"

text \<open>The reader fails on an option without data at the very end.\<close>

definition options_ok :: "TCPOption list \<Rightarrow> bool" where
  "options_ok opts \<longleftrightarrow> (\<forall>opt \<in> set opts. option_ok opt) \<and>
     (opts = [] \<or> Kind (last opts) < 2 \<or> OptData (last opts) \<noteq> [])"

lemma Encode_nonempty [simp]: "TCPOption_Encode opt \<noteq> []"
  by (simp add: TCPOption_Encode_def)

lemma ReadTCPOption_Encode:
  assumes "option_ok opt" and "Kind opt < 2 \<or> OptData opt \<noteq> [] \<or> rest \<noteq> []"
  shows "ReadTCPOption (TCPOption_Encode opt @ rest) = Inr (opt, rest)"
proof -
  have "unat (of_nat (length (OptData opt)) :: byte) = length (OptData opt)"
    using assms(1) by (simp add: option_ok_def unat_of_nat_byte)
  then show ?thesis
    using assms
    by (cases opt) (auto simp: ReadTCPOption_def TCPOption_Encode_def option_ok_def copy_list_def)
qed

lemma options_loop_Encode:
  "options_ok opts \<Longrightarrow> options_loop (concat (map TCPOption_Encode opts)) res = Inr (res @ opts)"
proof (induction opts arbitrary: res)
  case Nil
  then show ?case by (simp add: options_loop.simps)
next
  case (Cons opt opts)
  have "ReadTCPOption (TCPOption_Encode opt @ concat (map TCPOption_Encode opts)) =
      Inr (opt, concat (map TCPOption_Encode opts))"
    using Cons.prems by (intro ReadTCPOption_Encode) (cases opts; auto simp: options_ok_def)+
  moreover have "options_ok opts" using Cons.prems by (auto simp: options_ok_def split: if_splits)
  ultimately show ?case using Cons.IH [of "res @ [opt]"]
    by (simp add: options_loop.simps [of "TCPOption_Encode opt @ concat (map TCPOption_Encode opts)"])
qed

section \<open>Properties\<close>

text \<open>C9: For IPv4 addresses and at most 65495 bytes of data \<open>NewTCP4Packet\<close> does not panic and
  builds a packet that the receiving side accepts (\<open>Valid\<close>, checksum 0) and reads back as it
  was built: addresses, ports modulo \<open>2 ^ 16\<close>, both sequence numbers, the window, exactly the
  given flags, and the data.\<close>

theorem new_tcp4_packet_roundtrip:
  assumes "To4 (IP source) = Some src" and "To4 (IP dest) = Some dst"
    and "length payload \<le> 65495" and "\<forall>f \<in> set flags. f \<le> FIN"
  shows "\<exists>p h. NewTCP4Packet ttl source dest seqNum ackNum windowSize payload flags = Some p \<and>
    NewTCP4Net_filter p = Some (Some p) \<and> TCP4_Header p = Some h \<and> TCP4_Payload p = Some payload \<and>
    TCP4_SourceAddr p = Some \<lparr>IP = src, Port = Port source mod 65536\<rparr> \<and>
    TCP4_DestAddr p = Some \<lparr>IP = dst, Port = Port dest mod 65536\<rparr> \<and>
    TCP_SeqNum h = Some seqNum \<and> TCP_AckNum h = Some ackNum \<and> TCP_WindowSize h = Some windowSize \<and>
    (\<forall>f \<le> FIN. TCP_Flag h f = Some (f \<in> set flags))"
proof -
  obtain p h where p: "NewTCP4Packet ttl source dest seqNum ackNum windowSize payload flags = Some p"
    "TCP4_Valid p = Some True" "TCP4_Checksum p = Some 0" "TCP4_Header p = Some h"
    "TCP4_Payload p = Some payload"
    "TCP4_SourceAddr p = Some \<lparr>IP = src, Port = Port source mod 65536\<rparr>"
    "TCP4_DestAddr p = Some \<lparr>IP = dst, Port = Port dest mod 65536\<rparr>"
    "TCP_SeqNum h = Some seqNum" "TCP_AckNum h = Some ackNum" "TCP_WindowSize h = Some windowSize"
    "\<And>f. f \<le> 8 \<Longrightarrow> TCP_Flag h f = Some (f \<in> set flags)"
    using NewTCP4Packet_fields [OF assms(1-3), of flags] assms(4) unfolding FIN_def by metis
  have "NewTCP4Net_filter p = Some (Some p)" using p(2,3) by (simp add: NewTCP4Net_filter_def)
  with p show ?thesis unfolding FIN_def by blast
qed

abbreviation example_source :: net_addr where "example_source \<equiv> \<lparr>IP = [10, 0, 0, 1], Port = 80\<rparr>"
abbreviation example_dest :: net_addr where "example_dest \<equiv> \<lparr>IP = [10, 0, 0, 2], Port = 12345\<rparr>"

theorem new_tcp4_packet_roundtrip_witness:
  "\<exists>p h. NewTCP4Packet 64 example_source example_dest 7 9 1000 [1, 2, 3] [SYN, ACK] = Some p \<and>
     TCP4_Header p = Some h \<and> TCP_SeqNum h = Some 7 \<and> TCP_Flag h SYN = Some True \<and>
     TCP_Flag h FIN = Some False \<and> TCP4_Payload p = Some [1, 2, 3]"
proof -
  obtain p h where "NewTCP4Packet 64 example_source example_dest 7 9 1000 [1, 2, 3] [SYN, ACK] = Some p"
    "TCP4_Header p = Some h" "TCP_SeqNum h = Some 7" "TCP4_Payload p = Some [1, 2, 3]"
    "\<forall>f \<le> FIN. TCP_Flag h f = Some (f \<in> set [SYN, ACK])"
    using new_tcp4_packet_roundtrip [of example_source "[10, 0, 0, 1]" example_dest "[10, 0, 0, 2]"
        "[1, 2, 3]" "[SYN, ACK]" 64 7 9 1000] by (auto simp: SYN_def ACK_def FIN_def)
  moreover from this have "TCP_Flag h SYN = Some True" "TCP_Flag h FIN = Some False"
    by (simp_all add: SYN_def ACK_def FIN_def)
  ultimately show ?thesis by blast
qed

text \<open>C38: The TCP checksum protects the segment: after \<open>SetChecksum\<close> on a valid packet the filter of
  \<open>NewTCP4Net\<close> passes it, and drops it after a change of any one byte behind the IP header;
  the filter itself panics on no packet at all.\<close>

theorem tcp_checksum_protects:
  assumes "TCP4_Valid p = Some True"
  shows "\<exists>q. TCP4_SetChecksum p = Some q \<and> NewTCP4Net_filter q = Some (Some q) \<and>
    (\<forall>i b. header_len p \<le> i \<longrightarrow> i < length p \<longrightarrow> b \<noteq> q ! i \<longrightarrow>
       NewTCP4Net_filter (q[i := b]) = Some None) \<and>
    (\<forall>x. NewTCP4Net_filter x \<noteq> None)"
proof -
  obtain q where q: "TCP4_SetChecksum p = Some q" "TCP4_Valid q = Some True"
    "checksum_filter TCP4_Checksum q = Some (Some q)"
    using tcp.filter_accepts_set [OF assms] by blast
  then have qc: "q = with_tcp_checksum p" by (simp add: TCP4_SetChecksum_eq [OF assms])
  have sum: "transport_sum 6 q = 0" by (simp add: qc TCP4_with_checksum [OF assms])
  note qv = tcp_valid_length [OF q(2)]
  have hl: "header_len q = header_len p" "length q = length p"
    using tcp_put16(2) [OF assms] by (simp_all add: qc with_tcp_checksum_def)
  have total: "NewTCP4Net_filter x \<noteq> None" for x
    using TCP4_Valid_total [of x] TCP4_Checksum_eq [of x]
    by (cases "TCP4_Valid x = Some True") (auto simp: NewTCP4Net_filter_def)
  have "NewTCP4Net_filter (q[i := b]) = Some None"
    if i: "header_len p \<le> i" "i < length p" "b \<noteq> q ! i" for i b
  proof (cases "TCP4_Valid (q[i := b]) = Some True")
    case True
    have "transport_sum 6 (q[i := b]) \<noteq> 0"
      using transport_sum_detects [OF qv(1) sum, of i b] i hl by simp
    then show ?thesis using True by (simp add: NewTCP4Net_filter_def TCP4_Checksum_eq [OF True])
  next
    case False
    then have "TCP4_Valid (q[i := b]) = Some False" using TCP4_Valid_total [of "q[i := b]"] by auto
    then show ?thesis by (simp add: NewTCP4Net_filter_def)
  qed
  then show ?thesis
    using q total NewTCP4Net_filter_eq [OF q(2)] by auto
qed

text \<open>A valid packet for the examples, with a data offset of \<open>off\<close>.\<close>

definition offset_packet :: "byte \<Rightarrow> bytes" where
  "offset_packet off =
     [0x45, 0, 0, 40, 0, 0, 0, 0, 64, 6, 0, 0, 10, 0, 0, 1, 10, 0, 0, 2,
      0, 80, 48, 57, 0, 0, 0, 0, 0, 0, 0, 0, push_bit 4 off, 2, 0, 0, 0, 0, 0, 0]"

lemma offset_packet_valid:
  "TCP4_Valid (offset_packet 0) = Some True" "TCP4_Valid (offset_packet 5) = Some True"
  "header_len (offset_packet off) = 20" "length (offset_packet off) = 40"
  by (simp_all add: tcp_valid_iff ip_valid_iff be_int_eq header_len_def tcp_len_def offset_packet_def)

theorem tcp_checksum_protects_witness:
  "\<exists>q. TCP4_SetChecksum (offset_packet 5) = Some q \<and> NewTCP4Net_filter q = Some (Some q) \<and>
     (\<forall>b. b \<noteq> q ! 39 \<longrightarrow> NewTCP4Net_filter (q[39 := b]) = Some None)"
  using tcp_checksum_protects [OF offset_packet_valid(2)] by (auto simp: offset_packet_valid)

text \<open>\<open>SetFlag\<close> sets or clears its flag, leaves all other flags as they are, and changes
  nothing outside the flag bits; so each flag has a bit of its own.\<close>

theorem set_flag_correct:
  assumes "14 \<le> n" and "n \<le> length xs" and "f \<le> FIN"
  shows "\<exists>ys. TCP_SetFlag (n, xs) f b = Some (n, ys) \<and>
    (\<forall>g \<le> FIN. TCP_Flag (n, ys) g = (if g = f then Some b else TCP_Flag (n, xs) g)) \<and>
    TCP_DataOffset (n, ys) = TCP_DataOffset (n, xs) \<and> (\<forall>i. i \<notin> {12, 13} \<longrightarrow> ys ! i = xs ! i)"
proof -
  obtain ys where ys: "TCP_SetFlag (n, xs) f b = Some (n, ys)" "only_flags xs ys"
    "\<And>g. g \<le> 8 \<Longrightarrow> flag_bit ys g = (if g = unat f then b else flag_bit xs g)"
    using TCP_SetFlag_spec [OF assms(1,2)] assms(3) unfolding FIN_def by metis
  have len: "n \<le> length ys" using ys(2) assms(2) by (simp add: only_flags_def)
  have "TCP_Flag (n, ys) g = (if g = f then Some b else TCP_Flag (n, xs) g)" if "g \<le> FIN" for g
    using that ys(3) [of "unat g"] byte_flag_cases(1) [of g] assms(1,2) len
    by (simp add: TCP_Flag_eq FIN_def word_unat_eq_iff)
  moreover have "TCP_DataOffset (n, ys) = TCP_DataOffset (n, xs)"
    using ys(2) assms(1,2) len by (simp add: TCP_DataOffset_def hidx_def only_flags_def)
  ultimately show ?thesis using ys(1,2) by (auto simp: only_flags_def)
qed

theorem set_flag_correct_witness:
  "\<exists>ys. TCP_SetFlag (20, replicate 20 0xff) SYN False = Some (20, ys) \<and>
     TCP_Flag (20, ys) SYN = Some False"
  using set_flag_correct [of 20 "replicate 20 0xff" SYN False] by (auto simp: SYN_def FIN_def)

text \<open>\<open>TCPOptions\<close> reads back what \<open>Encode\<close> wrote, for options of at most 255 bytes of data
  (none for the kinds 0 and 1) of which the last does not end in an empty data field.\<close>

theorem tcp_options_roundtrip:
  assumes "options_ok opts" and "length hdr = 20"
    and "n = 20 + length (concat (map TCPOption_Encode opts))"
  shows "TCPOptions (n, hdr @ concat (map TCPOption_Encode opts) @ rest) = Some (Inr opts)"
  using assms options_loop_Encode [OF assms(1), of "[]"] by (simp add: TCPOptions_def)

theorem tcp_options_roundtrip_witness:
  "TCPOptions (26, replicate 20 0 @ [1, 8, 2, 5, 6, 0] @ [9]) =
     Some (Inr [\<lparr>Kind = 1, OptData = []\<rparr>, \<lparr>Kind = 8, OptData = [5, 6]\<rparr>, \<lparr>Kind = 0, OptData = []\<rparr>])"
  using tcp_options_roundtrip [of "[\<lparr>Kind = 1, OptData = []\<rparr>, \<lparr>Kind = 8, OptData = [5, 6]\<rparr>,
      \<lparr>Kind = 0, OptData = []\<rparr>]" "replicate 20 0" 26 "[9]"]
  by (simp add: options_ok_def option_ok_def TCPOption_Encode_def)

text \<open>Options as RFC 793 encodes them are misread, since their length byte counts the kind and
  the length byte too: a maximum segment size of 1460 followed by the end of the options is
  read as an option with 4 data bytes, the last of them past the end, and the usual options of
  a SYN (segment size, no-operation, window scale) are an error.\<close>

theorem rfc_options_misread:
  "TCPOptions (25, replicate 20 0 @ [2, 4, 0x05, 0xb4, 0]) =
     Some (Inr [\<lparr>Kind = 2, OptData = [0x05, 0xb4, 0, 0]\<rparr>]) \<and>
   TCPOptions (28, replicate 20 0 @ [2, 4, 0x05, 0xb4, 1, 3, 3, 7]) = Some (Inl UnexpectedEOF)"
  by (simp add: TCPOptions_def options_loop.simps ReadTCPOption_def copy_list_def)

text \<open>A packet with a data offset below 4 that passes all the filters before it (it is valid
  and has a correct checksum) makes \<open>filterTCP4Syn\<close> panic, since the header slice is shorter
  than 14 bytes; \<open>Valid\<close> only checks that the data offset is not too large.\<close>

theorem short_data_offset_panics:
  assumes "TCP4_Valid p = Some True" and "p ! (header_len p + 12) < 0x40"
    and "TCP4_SetChecksum p = Some q"
  shows "NewTCP4Net_filter q = Some (Some q) \<and> filterTCP4Syn q = None"
proof -
  have qc: "q = with_tcp_checksum p" using assms(3) by (simp add: TCP4_SetChecksum_eq [OF assms(1)])
  obtain q' where q: "TCP4_SetChecksum p = Some q'" "TCP4_Valid q' = Some True"
    "checksum_filter TCP4_Checksum q' = Some (Some q')"
    using tcp.filter_accepts_set [OF assms(1)] by blast
  then have q: "TCP4_Valid q = Some True" "checksum_filter TCP4_Checksum q = Some (Some q)"
    using assms(3) by simp_all
  have "unat (drop_bit 4 (p ! (header_len p + 12))) = unat (p ! (header_len p + 12)) div 16"
    unfolding unat_drop_bit_eq by (simp add: drop_bit_eq_div)
  moreover have "unat (p ! (header_len p + 12)) < 64"
    using assms(2) by (simp add: word_less_nat_alt)
  ultimately have "unat (drop_bit 4 (p ! (header_len p + 12))) < 4" by linarith
  then have "tcp_len p \<le> 12" by (simp add: tcp_len_def unat_word_ariths)
  then have "tcp_len q \<le> 12" using tcp_put16(3) [OF assms(1)] by (simp add: qc with_tcp_checksum_def)
  then have "filterTCP4Syn q = None"
    by (simp add: filterTCP4Syn_def TCP4_Header_eq [OF q(1)] TCP_Flag_def SYN_def NS_def hidx_def)
  then show ?thesis using q(2) NewTCP4Net_filter_eq [OF q(1)] by simp
qed

theorem short_data_offset_panics_witness:
  "\<exists>q. TCP4_SetChecksum (offset_packet 0) = Some q \<and> NewTCP4Net_filter q = Some (Some q) \<and>
     filterTCP4Syn q = None"
proof -
  obtain q where q: "TCP4_SetChecksum (offset_packet 0) = Some q"
    using TCP4_SetChecksum_eq [OF offset_packet_valid(1)] by blast
  have "offset_packet 0 ! (header_len (offset_packet 0) + 12) < 0x40"
    unfolding offset_packet_valid by (simp add: offset_packet_def)
  then show ?thesis using short_data_offset_panics [OF offset_packet_valid(1) _ q] q by blast
qed

end
