(* ===== verification/TCP_Recv.thy ===== *)
theory TCP_Recv
  imports TCP_Segment
begin

text \<open>
  \<open>ipstack/tcp_recv.go\<close>: the receiving end of a TCP connection.  \<open>tcpAssembler\<close> puts segments
  in order, \<open>tcpRecvBuffer\<close> does the flow control, and \<open>simpleTcpRecv\<close> joins them.

  The lock of \<open>simpleTcpRecv\<close> makes each of its operations one step of the model.  The
  channel \<open>notify\<close>, which is closed and replaced to wake all waiting readers, is the number
  of times this has happened; \<open>windowOpen\<close> is a buffered channel of one slot.
\<close>

section \<open>The assembler\<close>

record tcpAssembler =
  a_sequence :: u32
  a_buffer :: bytes
  a_mask :: "bool list"
  a_fin :: int

definition newTCPAssembler :: "u32 \<Rightarrow> tcpAssembler" where
  "newTCPAssembler seq =
     \<lparr>a_sequence = seq, a_buffer = replicate 65536 0, a_mask = replicate 65536 False,
      a_fin = - 2\<rparr>"

text \<open>The loop of \<open>AddSegment\<close> over the bytes of the segment.\<close>

fun add_bytes :: "u32 \<Rightarrow> nat \<Rightarrow> bytes \<Rightarrow> tcpAssembler \<Rightarrow> tcpAssembler go" where
  "add_bytes start i [] t = Some t"
| "add_bytes start i (b # bs) t =
     (let offset = of_nat i + start - a_sequence t
      in if offset \<ge> of_nat (length (a_buffer t)) then add_bytes start (Suc i) bs t
         else do {
           buf \<leftarrow> upd (a_buffer t) (unat offset) b;
           msk \<leftarrow> upd (a_mask t) (unat offset) True;
           add_bytes start (Suc i) bs (t\<lparr>a_buffer := buf, a_mask := msk\<rparr>)
         })"

definition AddSegment :: "tcpAssembler \<Rightarrow> byte tcpSegment \<Rightarrow> tcpAssembler go" where
  "AddSegment t s =
     (if a_fin t = 0 \<or> a_fin t = - 1 then Some t
      else do {
        t \<leftarrow> add_bytes (Start s) 0 (Data s) t;
        if Fin s then do {
          let finOffset = Start s + of_nat (length (Data s)) - a_sequence t;
          if finOffset \<le> of_nat (length (a_buffer t))
            then Some (t\<lparr>a_fin := int (unat finOffset)\<rparr>)
            else Some t
        }
        else Some t
      })"

text \<open>The loop of \<open>Skim\<close> over the mask, from index \<open>i\<close> on; then \<open>Skim\<close>, whose last loop clears
  the mask behind the bytes that moved to the front.\<close>

fun skim_loop :: "bytes \<Rightarrow> int \<Rightarrow> int \<Rightarrow> nat \<Rightarrow> bool list \<Rightarrow> bytes \<Rightarrow> (bytes \<times> bool) go" where
  "skim_loop buf fin maxBytes i [] avail = Some (avail, False)"
| "skim_loop buf fin maxBytes i (f # fs) avail =
     (if int i = fin then Some (avail, True)
      else if int i = maxBytes \<or> \<not> f then Some (avail, False)
      else do {
        b \<leftarrow> idx buf i;
        skim_loop buf fin maxBytes (Suc i) fs (avail @ [b])
      })"

definition clear_from :: "bool list \<Rightarrow> nat \<Rightarrow> bool list" where
  "clear_from msk i = take i msk @ replicate (length msk - i) False"

definition Skim :: "tcpAssembler \<Rightarrow> int \<Rightarrow> (tcpAssembler \<times> bytes \<times> bool) go" where
  "Skim t maxBytes =
     (if a_fin t = - 1 then Some (t, [], True)
      else do {
        (avail, eof) \<leftarrow> skim_loop (a_buffer t) (a_fin t) maxBytes 0 (a_mask t) [];
        let readSize = length avail + (if eof then 1 else 0);
        bufTail \<leftarrow> slice_from (a_buffer t) readSize;
        maskTail \<leftarrow> slice_from (a_mask t) readSize;
        let msk = copy_list (a_mask t) maskTail;
        Some (\<lparr>a_sequence = a_sequence t + of_nat readSize,
               a_buffer = copy_list (a_buffer t) bufTail,
               a_mask = clear_from msk (length msk - readSize),
               a_fin = a_fin t - int readSize\<rparr>, avail, eof)
      })"

definition Seq :: "tcpAssembler \<Rightarrow> u32" where
  "Seq t = a_sequence t"

section \<open>The receive buffer\<close>

record tcpRecvBuffer =
  b_size :: nat
  b_buffer :: bytes
  b_hitEOF :: bool

definition newTCPRecvBuffer :: "nat \<Rightarrow> tcpRecvBuffer" where
  "newTCPRecvBuffer bufSize = \<lparr>b_size = 0, b_buffer = replicate bufSize 0, b_hitEOF = False\<rparr>"

definition buffer_Window :: "tcpRecvBuffer \<Rightarrow> int" where
  "buffer_Window t = int (length (b_buffer t)) - int (b_size t)"

definition Put :: "tcpRecvBuffer \<Rightarrow> bytes \<Rightarrow> tcpRecvBuffer go" where
  "Put t d =
     (if int (length d) > buffer_Window t then None
      else do {
        buf \<leftarrow> copy_slice (b_buffer t) (b_size t) (length (b_buffer t)) d;
        Some (t\<lparr>b_buffer := buf, b_size := b_size t + length d\<rparr>)
      })"

definition PutEOF :: "tcpRecvBuffer \<Rightarrow> tcpRecvBuffer" where
  "PutEOF t = t\<lparr>b_hitEOF := True\<rparr>"

text \<open>\<open>Get\<close> returns the buffer, the caller's slice, the count and the EOF flag.\<close>

definition Get :: "tcpRecvBuffer \<Rightarrow> bytes \<Rightarrow> (tcpRecvBuffer \<times> bytes \<times> nat \<times> bool) go" where
  "Get t b = do {
     let canRead = b_size t;
     let canRead = (if canRead > length b then length b else canRead);
     front \<leftarrow> slice (b_buffer t) 0 canRead;
     rest \<leftarrow> slice_from (b_buffer t) canRead;
     let t' = t\<lparr>b_buffer := copy_list (b_buffer t) rest, b_size := b_size t - canRead\<rparr>;
     Some (t', copy_list b front, canRead, b_size t' = 0 \<and> b_hitEOF t')
   }"

section \<open>The receiver\<close>

record simpleTcpRecv =
  r_failErr :: "tcp_error option"
  r_assembler :: tcpAssembler
  r_buffer :: tcpRecvBuffer
  r_notify :: nat
  r_windowOpen :: bool

definition newSimpleTcpRecv :: "u32 \<Rightarrow> nat \<Rightarrow> simpleTcpRecv" where
  "newSimpleTcpRecv startSeq bufSize =
     \<lparr>r_failErr = None, r_assembler = newTCPAssembler startSeq,
      r_buffer = newTCPRecvBuffer bufSize, r_notify = 0, r_windowOpen = False\<rparr>"

text \<open>One pass of \<open>Read\<close> up to the point where it returns or waits.  \<open>expired\<close> says whether the
  deadline has passed.  A waiting reader holds the current \<open>notify\<close> channel.\<close>

datatype read_result = Returned nat "tcp_error option" | Waiting nat

definition read_pass ::
  "simpleTcpRecv \<Rightarrow> bool \<Rightarrow> bytes \<Rightarrow> (simpleTcpRecv \<times> bytes \<times> read_result) go" where
  "read_pass s expired b =
     (if expired then Some (s, b, Returned 0 (Some ReadTimeout))
      else do {
        let oldWindow = buffer_Window (r_buffer s);
        (buf, b, numBytes, eof) \<leftarrow> Get (r_buffer s) b;
        let s = s\<lparr>r_buffer := buf\<rparr>;
        let s = (if buffer_Window buf \<noteq> 0 \<and> oldWindow = 0 then s\<lparr>r_windowOpen := True\<rparr> else s);
        if numBytes > 0 \<or> eof
          then Some (s, b, Returned numBytes (if eof then Some EOF else None))
        else if r_failErr s \<noteq> None then Some (s, b, Returned 0 (r_failErr s))
        else Some (s, b, Waiting (r_notify s))
      })"

definition recv_Handle :: "simpleTcpRecv \<Rightarrow> byte tcpSegment \<Rightarrow> simpleTcpRecv go" where
  "recv_Handle s segment = do {
     asm \<leftarrow> AddSegment (r_assembler s) segment;
     (asm, newData, eof) \<leftarrow> Skim asm (buffer_Window (r_buffer s));
     buf \<leftarrow> Put (r_buffer s) newData;
     let buf = (if eof then PutEOF buf else buf);
     Some (s\<lparr>r_assembler := asm, r_buffer := buf, r_notify := r_notify s + 1\<rparr>)
   }"

definition recv_Fail :: "simpleTcpRecv \<Rightarrow> tcp_error \<Rightarrow> simpleTcpRecv" where
  "recv_Fail s err = s\<lparr>r_failErr := Some err, r_notify := r_notify s + 1\<rparr>"

definition recv_Ack :: "simpleTcpRecv \<Rightarrow> u32" where
  "recv_Ack s = Seq (r_assembler s)"

definition recv_Window :: "simpleTcpRecv \<Rightarrow> u16" where
  "recv_Window s = of_int (buffer_Window (r_buffer s))"

definition recv_Done :: "simpleTcpRecv \<Rightarrow> bool" where
  "recv_Done s \<longleftrightarrow> b_hitEOF (r_buffer s) \<or> r_failErr s \<noteq> None"

text \<open>The whole call of \<open>Read\<close>, which waits for \<open>notify\<close> or the deadline and starts again.
  What the rest of the program does while it waits is the list of events; the outcome of a
  reader that is still waiting when they are used up is \<open>Waiting\<close>.\<close>

datatype recv_event = Arrive "byte tcpSegment" | Break tcp_error | Expire

fun Read :: "simpleTcpRecv \<Rightarrow> bytes \<Rightarrow> recv_event list \<Rightarrow> (simpleTcpRecv \<times> bytes \<times> read_result) go"
and wait_notify ::
  "simpleTcpRecv \<Rightarrow> bytes \<Rightarrow> recv_event list \<Rightarrow> (simpleTcpRecv \<times> bytes \<times> read_result) go" where
  "Read s b events = do {
     (s, b, r) \<leftarrow> read_pass s False b;
     case r of Returned n e \<Rightarrow> Some (s, b, r) | Waiting g \<Rightarrow> wait_notify s b events
   }"
| "wait_notify s b [] = Some (s, b, Waiting (r_notify s))"
| "wait_notify s b (e # events) =
     (case e of
        Arrive seg \<Rightarrow> do { s \<leftarrow> recv_Handle s seg; Read s b events }
      | Break err \<Rightarrow> Read (recv_Fail s err) b events
      | Expire \<Rightarrow> Some (s, b, Returned 0 (Some ReadTimeout)))"


declare Read.simps [simp del]

section \<open>No operation of the assembler panics\<close>

text \<open>The shape that every assembler keeps: both arrays have 65536 elements, and the end of
  the stream is at most one behind the last element.\<close>

definition asm_wf :: "tcpAssembler \<Rightarrow> bool" where
  "asm_wf t \<longleftrightarrow> length (a_buffer t) = 65536 \<and> length (a_mask t) = 65536 \<and> a_fin t \<le> 65536"

lemma asm_wf_new: "asm_wf (newTCPAssembler seq)"
  by (simp add: asm_wf_def newTCPAssembler_def)

text \<open>Byte \<open>j\<close> of a segment falls on position \<open>p\<close> of the arrays.\<close>

definition byte_at :: "u32 \<Rightarrow> nat \<Rightarrow> bytes \<Rightarrow> u32 \<Rightarrow> nat \<Rightarrow> nat \<Rightarrow> bool" where
  "byte_at start i d seq p j \<longleftrightarrow>
     j < length d \<and> unat (of_nat (i + j) + start - seq :: u32) = p"

text \<open>What the loop does to the arrays: a position is marked if it was or if a byte falls on
  it, and a marked position keeps its byte or has one of the segment's.\<close>

definition bytes_added ::
  "u32 \<Rightarrow> nat \<Rightarrow> bytes \<Rightarrow> tcpAssembler \<Rightarrow> bytes \<Rightarrow> bool list \<Rightarrow> bool" where
  "bytes_added start i d t buf msk \<longleftrightarrow> length buf = 65536 \<and> length msk = 65536 \<and>
     (\<forall>p < 65536. (msk ! p \<longrightarrow> a_mask t ! p \<and> buf ! p = a_buffer t ! p \<or>
          (\<exists>j. byte_at start i d (a_sequence t) p j \<and> buf ! p = d ! j)) \<and>
        (a_mask t ! p \<or> (\<exists>j. byte_at start i d (a_sequence t) p j) \<longrightarrow> msk ! p))"

lemma byte_at_Cons:
  "byte_at start i (b # bs) seq p j \<longleftrightarrow>
     j = 0 \<and> unat (of_nat i + start - seq) = p \<or>
     (\<exists>k. j = Suc k \<and> byte_at start (Suc i) bs seq p k)"
  by (cases j) (auto simp: byte_at_def)

lemma bytes_added_skip:
  assumes "bytes_added start (Suc i) bs t buf msk"
    and "65536 \<le> unat (of_nat i + start - a_sequence t)"
  shows "bytes_added start i (b # bs) t buf msk"
  unfolding bytes_added_def
proof (intro conjI allI impI)
  fix p :: nat assume p: "p < 65536"
  note a = assms(1) [unfolded bytes_added_def, THEN conjunct2, THEN conjunct2, rule_format, OF p]
  show "a_mask t ! p \<and> buf ! p = a_buffer t ! p \<or>
      (\<exists>j. byte_at start i (b # bs) (a_sequence t) p j \<and> buf ! p = (b # bs) ! j)" if "msk ! p"
    using conjunct1 [OF a, rule_format, OF that] byte_at_Cons nth_Cons_Suc by metis
  show "msk ! p" if "a_mask t ! p \<or> (\<exists>j. byte_at start i (b # bs) (a_sequence t) p j)"
    using conjunct2 [OF a, rule_format] that assms(2) p by (auto simp: byte_at_Cons)
qed (use assms in \<open>auto simp: bytes_added_def\<close>)

lemma bytes_added_store:
  assumes off_def: "off = unat (of_nat i + start - a_sequence t)"
    and "bytes_added start (Suc i) bs
      (t\<lparr>a_buffer := (a_buffer t)[off := b], a_mask := (a_mask t)[off := True]\<rparr>) buf msk"
    and "length (a_buffer t) = 65536" and "length (a_mask t) = 65536" and "off < 65536"
  shows "bytes_added start i (b # bs) t buf msk"
  unfolding bytes_added_def
proof (intro conjI allI impI)
  fix p :: nat assume p: "p < 65536"
  note a = assms(2) [unfolded bytes_added_def, THEN conjunct2, THEN conjunct2, rule_format, OF p,
      simplified]
  show "a_mask t ! p \<and> buf ! p = a_buffer t ! p \<or>
      (\<exists>j. byte_at start i (b # bs) (a_sequence t) p j \<and> buf ! p = (b # bs) ! j)" if "msk ! p"
  proof (cases "p = off")
    case True
    then have "byte_at start i (b # bs) (a_sequence t) p 0" by (simp add: byte_at_Cons off_def)
    with conjunct1 [OF a, rule_format, OF that] True assms(3) p show ?thesis
      by (metis byte_at_Cons nth_Cons_Suc nth_Cons_0 nth_list_update_eq)
  next
    case False
    with conjunct1 [OF a, rule_format, OF that] show ?thesis
      by (metis byte_at_Cons nth_Cons_Suc nth_list_update_neq)
  qed
  show "msk ! p" if "a_mask t ! p \<or> (\<exists>j. byte_at start i (b # bs) (a_sequence t) p j)"
    using conjunct2 [OF a, rule_format] that assms(4) p
    by (cases "p = off") (auto simp: byte_at_Cons off_def)
qed (use assms in \<open>auto simp: bytes_added_def\<close>)

lemma add_bytes_spec:
  assumes "length (a_buffer t) = 65536" and "length (a_mask t) = 65536"
  shows "\<exists>buf msk. add_bytes start i d t = Some (t\<lparr>a_buffer := buf, a_mask := msk\<rparr>) \<and>
    bytes_added start i d t buf msk"
  using assms
proof (induction start i d t rule: add_bytes.induct)
  case (1 start i t)
  then show ?case
    by (intro exI [of _ "a_buffer t"] exI [of _ "a_mask t"]) (simp add: bytes_added_def byte_at_def)
next
  case (2 start i b bs t)
  define off where "off = of_nat i + start - a_sequence t"
  show ?case
  proof (cases "off \<ge> of_nat (length (a_buffer t))")
    case True
    then have ge: "65536 \<le> unat off" using "2.prems"(1) by (simp add: word_le_nat_alt)
    then show ?thesis
      using "2.IH"(1) [OF off_def True] "2.prems" True bytes_added_skip [of start i bs t _ _ b]
      by (auto simp: off_def [symmetric])
  next
    case False
    then have lt: "unat off < 65536" using "2.prems"(1) by (simp add: word_le_nat_alt not_le)
    define t' where "t' = t\<lparr>a_buffer := (a_buffer t)[unat off := b], a_mask := (a_mask t)[unat off := True]\<rparr>"
    have "\<exists>buf msk. add_bytes start (Suc i) bs t' = Some (t'\<lparr>a_buffer := buf, a_mask := msk\<rparr>) \<and>
        bytes_added start (Suc i) bs t' buf msk"
      unfolding t'_def by (rule "2.IH"(2) [OF off_def False]) (use "2.prems" lt in simp_all)
    then obtain buf msk where r:
      "add_bytes start (Suc i) bs t' = Some (t'\<lparr>a_buffer := buf, a_mask := msk\<rparr>)"
      "bytes_added start (Suc i) bs t' buf msk"
      by blast
    have "add_bytes start i (b # bs) t = Some (t\<lparr>a_buffer := buf, a_mask := msk\<rparr>)"
      using False r(1) lt "2.prems" by (simp add: Let_def off_def [symmetric] t'_def)
    moreover have "bytes_added start i (b # bs) t buf msk"
      by (rule bytes_added_store [OF refl])
        (use r(2) "2.prems" lt in \<open>simp_all add: t'_def off_def\<close>)
    ultimately show ?thesis by blast
  qed
qed

lemma le_65536_iff: "(x :: u32) \<le> 65536 \<longleftrightarrow> unat x \<le> 65536"
  by (simp add: word_le_nat_alt)

lemma AddSegment_closed [simp, go]: "a_fin t = 0 \<or> a_fin t = - 1 \<Longrightarrow> AddSegment t s = Some t"
  by (simp add: AddSegment_def)

lemma AddSegment_spec:
  assumes "asm_wf t" and "a_fin t \<noteq> 0" and "a_fin t \<noteq> - 1"
  obtains buf msk where
    "AddSegment t s = Some (t\<lparr>a_buffer := buf, a_mask := msk,
       a_fin := (let off = unat (of_nat (length (Data s)) + Start s - a_sequence t)
                 in if Fin s \<and> off \<le> 65536 then int off else a_fin t)\<rparr>)"
    and "bytes_added (Start s) 0 (Data s) t buf msk"
proof -
  obtain buf msk where r: "add_bytes (Start s) 0 (Data s) t = Some (t\<lparr>a_buffer := buf, a_mask := msk\<rparr>)"
    "bytes_added (Start s) 0 (Data s) t buf msk"
    using add_bytes_spec [of t "Start s" 0 "Data s"] assms(1) unfolding asm_wf_def by blast
  have "length buf = 65536" using r(2) by (simp add: bytes_added_def)
  then show ?thesis
    using r(1) assms by (intro that [OF _ r(2)])
      (simp_all add: AddSegment_def le_65536_iff Let_def add.commute)
qed

lemma uint_le_65536: "unat (x :: u32) \<le> 65536 \<Longrightarrow> uint x \<le> 65536"
  using of_nat_mono [of "unat x" 65536, where ?'a = int] by simp

lemma AddSegment_wf:
  assumes "asm_wf t"
  obtains t' where "AddSegment t s = Some t'" and "asm_wf t'" and "a_sequence t' = a_sequence t"
proof (cases "a_fin t = 0 \<or> a_fin t = - 1")
  case True
  then show ?thesis using assms by (intro that [of t]) auto
next
  case False
  then obtain buf msk where r: "AddSegment t s = Some (t\<lparr>a_buffer := buf, a_mask := msk,
       a_fin := (let off = unat (of_nat (length (Data s)) + Start s - a_sequence t)
                 in if Fin s \<and> off \<le> 65536 then int off else a_fin t)\<rparr>)"
    "bytes_added (Start s) 0 (Data s) t buf msk"
    using AddSegment_spec [OF assms] by blast
  show ?thesis
    by (rule that [OF r(1)]) (use r(2) assms in \<open>auto simp: asm_wf_def bytes_added_def Let_def uint_le_65536\<close>)
qed

text \<open>Where the scan of \<open>Skim\<close> stops: \<open>m\<close> is the first index at which the stream ends, the
  limit is reached or a byte is missing.\<close>

definition skim_stop :: "tcpAssembler \<Rightarrow> int \<Rightarrow> nat \<Rightarrow> bool" where
  "skim_stop t maxBytes m \<longleftrightarrow> m \<le> length (a_mask t) \<and>
     (\<forall>j < m. a_mask t ! j \<and> int j \<noteq> a_fin t \<and> int j \<noteq> maxBytes) \<and>
     (m < length (a_mask t) \<longrightarrow> int m = a_fin t \<or> int m = maxBytes \<or> \<not> a_mask t ! m)"

lemma skim_loop_spec:
  assumes "length msk = length buf" and "i \<le> length msk"
  shows "\<exists>m. i \<le> m \<and> m \<le> length msk \<and>
    (\<forall>j. i \<le> j \<longrightarrow> j < m \<longrightarrow> msk ! j \<and> int j \<noteq> fin \<and> int j \<noteq> maxBytes) \<and>
    (m < length msk \<longrightarrow> int m = fin \<or> int m = maxBytes \<or> \<not> msk ! m) \<and>
    skim_loop buf fin maxBytes i (drop i msk) avail =
      Some (avail @ take (m - i) (drop i buf), m < length msk \<and> int m = fin)"
  using assms(2)
proof (induction "length msk - i" arbitrary: i avail)
  case 0
  then show ?case by (intro exI [of _ i]) simp
next
  case (Suc k)
  then have i: "i < length msk" by simp
  then have d: "drop i msk = msk ! i # drop (Suc i) msk" by (simp add: Cons_nth_drop_Suc)
  show ?case
  proof (cases "int i = fin \<or> int i = maxBytes \<or> \<not> msk ! i")
    case True
    then show ?thesis using i by (intro exI [of _ i]) (auto simp: d)
  next
    case False
    have k: "k = length msk - Suc i" using Suc.hyps(2) by simp
    obtain m where m: "Suc i \<le> m" "m \<le> length msk"
      "\<forall>j. Suc i \<le> j \<longrightarrow> j < m \<longrightarrow> msk ! j \<and> int j \<noteq> fin \<and> int j \<noteq> maxBytes"
      "m < length msk \<longrightarrow> int m = fin \<or> int m = maxBytes \<or> \<not> msk ! m"
      "skim_loop buf fin maxBytes (Suc i) (drop (Suc i) msk) (avail @ [buf ! i]) =
        Some ((avail @ [buf ! i]) @ take (m - Suc i) (drop (Suc i) buf), m < length msk \<and> int m = fin)"
      using Suc.hyps(1) [OF k Suc_leI [OF i], of "avail @ [buf ! i]"] by blast
    have "take (m - i) (drop i buf) = buf ! i # take (m - Suc i) (drop (Suc i) buf)"
      using m(1) i assms(1) by (simp add: Cons_nth_drop_Suc [symmetric] take_Cons' Suc_diff_le)
    then show ?thesis
      using m False i assms(1) by (intro exI [of _ m]) (auto simp: d le_Suc_eq Suc_le_eq nat_less_le)
  qed
qed

definition skimmed :: "tcpAssembler \<Rightarrow> nat \<Rightarrow> tcpAssembler" where
  "skimmed t r =
     \<lparr>a_sequence = a_sequence t + of_nat r,
      a_buffer = copy_list (a_buffer t) (drop r (a_buffer t)),
      a_mask = drop r (a_mask t) @ replicate r False,
      a_fin = a_fin t - int r\<rparr>"

lemma Skim_spec:
  assumes "asm_wf t" and "a_fin t \<noteq> - 1"
  obtains m where "skim_stop t maxBytes m"
    and "Skim t maxBytes = Some (skimmed t (m + (if int m = a_fin t \<and> m < 65536 then 1 else 0)),
           take m (a_buffer t), m < 65536 \<and> int m = a_fin t)"
proof -
  have len: "length (a_mask t) = length (a_buffer t)" "length (a_buffer t) = 65536"
    using assms(1) by (simp_all add: asm_wf_def)
  obtain m where m: "m \<le> length (a_mask t)"
    "\<forall>j. 0 \<le> j \<longrightarrow> j < m \<longrightarrow> a_mask t ! j \<and> int j \<noteq> a_fin t \<and> int j \<noteq> maxBytes"
    "m < length (a_mask t) \<longrightarrow> int m = a_fin t \<or> int m = maxBytes \<or> \<not> a_mask t ! m"
    "skim_loop (a_buffer t) (a_fin t) maxBytes 0 (drop 0 (a_mask t)) [] =
      Some ([] @ take (m - 0) (drop 0 (a_buffer t)), m < length (a_mask t) \<and> int m = a_fin t)"
    using skim_loop_spec [OF len(1), of 0 "a_fin t" maxBytes "[]"] by blast
  have clear: "clear_from (copy_list (a_mask t) (drop r (a_mask t))) (65536 - r) =
      drop r (a_mask t) @ replicate r False" if "r \<le> 65536" for r
    using that len by (simp add: clear_from_def copy_list_def)
  show ?thesis
  proof (rule that [of m])
    show "skim_stop t maxBytes m" using m by (simp add: skim_stop_def)
    show "Skim t maxBytes = Some (skimmed t (m + (if int m = a_fin t \<and> m < 65536 then 1 else 0)),
           take m (a_buffer t), m < 65536 \<and> int m = a_fin t)"
      using m(1,4) len assms(2) clear [of m] clear [of "Suc m"]
      by (auto simp: Skim_def skimmed_def Let_def)
  qed
qed

lemma skimmed_wf: "asm_wf t \<Longrightarrow> r \<le> 65536 \<Longrightarrow> asm_wf (skimmed t r)"
  by (simp add: asm_wf_def skimmed_def)

lemma skimmed_nth:
  assumes "asm_wf t" and "r + p < 65536"
  shows "a_mask (skimmed t r) ! p = a_mask t ! (r + p)"
    and "a_buffer (skimmed t r) ! p = a_buffer t ! (r + p)"
  using assms by (simp_all add: asm_wf_def skimmed_def copy_list_def nth_append less_diff_conv
      add.commute)

lemma skimmed_mask_end:
  "asm_wf t \<Longrightarrow> r \<le> 65536 \<Longrightarrow> p < 65536 \<Longrightarrow> 65536 \<le> r + p \<Longrightarrow> \<not> a_mask (skimmed t r) ! p"
  by (simp add: asm_wf_def skimmed_def nth_append less_diff_conv add.commute)

section \<open>The assembler follows a stream\<close>

text \<open>The assembler has passed on the first \<open>n\<close> bytes of the stream \<open>S\<close> with the initial
  sequence number \<open>isn\<close>: what its buffer marks as received are bytes of \<open>S\<close> behind them.  At
  the end, with \<open>a_fin = -1\<close>, the sequence number has advanced over the FIN as well.\<close>

definition asm_inv :: "u32 \<Rightarrow> bytes \<Rightarrow> nat \<Rightarrow> tcpAssembler \<Rightarrow> bool" where
  "asm_inv isn S n t \<longleftrightarrow> asm_wf t \<and> n \<le> length S \<and>
     (if a_fin t = - 1 then n = length S \<and> a_sequence t = isn + of_nat (n + 1)
      else a_sequence t = isn + of_nat n \<and>
        (a_fin t \<le> - 2 \<or> a_fin t = int (length S) - int n) \<and>
        (\<forall>p < 65536. a_mask t ! p \<longrightarrow> n + p < length S \<and> a_buffer t ! p = S ! (n + p)))"

lemma asm_inv_new: "asm_inv isn S 0 (newTCPAssembler isn)"
  by (simp add: asm_inv_def asm_wf_new) (simp add: newTCPAssembler_def)

lemma byte_at_position:
  assumes "Start seg = isn + of_nat k" and "near n k seg" and "p < 65536"
  shows "byte_at (Start seg) 0 (Data seg) (isn + of_nat n) p j \<longleftrightarrow>
    j < length (Data seg) \<and> k + j = n + p"
proof -
  have "2 ^ 32 - (n - (k + j)) \<noteq> p" if "\<not> n \<le> k + j" for j
    using assms(2,3) that by (auto simp: near_def)
  then have "(unat (of_nat j + Start seg - (isn + of_nat n)) = p) = (k + j = n + p)"
    if "j < length (Data seg)"
    using near_offset [OF assms(1,2), of j] that by (simp split: if_splits) auto
  then show ?thesis by (auto simp: byte_at_def)
qed

lemma AddSegment_inv:
  assumes inv: "asm_inv isn S n t" and seg: "segment_from isn S n k seg" "near n k seg"
  obtains t' where "AddSegment t seg = Some t'" and "asm_inv isn S n t'"
    and "a_fin t' = - 1 \<longleftrightarrow> a_fin t = - 1"
    and "\<And>p. a_fin t \<noteq> - 1 \<Longrightarrow> p < 65536 \<Longrightarrow> k \<le> n + p \<Longrightarrow> n + p < k + length (Data seg) \<Longrightarrow> a_mask t' ! p"
    and "a_fin t \<noteq> - 1 \<Longrightarrow> Fin seg \<Longrightarrow> length S - n \<le> 65536 \<Longrightarrow> a_fin t' = int (length S) - int n"
proof (cases "a_fin t = 0 \<or> a_fin t = - 1")
  case True
  have "n = length S" if "a_fin t = 0" using inv that by (auto simp: asm_inv_def)
  with True show ?thesis
    using inv seg(1) by (intro that [of t]) (auto simp: segment_from_def)
next
  case False
  have start: "Start seg = isn + of_nat k" using seg(1) by (simp add: segment_from_def)
  have wf: "asm_wf t" and len: "n \<le> length S" using inv by (simp_all add: asm_inv_def)
  have old: "a_sequence t = isn + of_nat n" "a_fin t \<le> - 2 \<or> a_fin t = int (length S) - int n"
    "\<And>p. p < 65536 \<Longrightarrow> a_mask t ! p \<Longrightarrow> n + p < length S \<and> a_buffer t ! p = S ! (n + p)"
    using inv False by (auto simp: asm_inv_def)
  define off where "off = unat (of_nat (length (Data seg)) + Start seg - a_sequence t)"
  obtain buf msk where r: "AddSegment t seg = Some (t\<lparr>a_buffer := buf, a_mask := msk,
       a_fin := (if Fin seg \<and> off \<le> 65536 then int off else a_fin t)\<rparr>)"
    "bytes_added (Start seg) 0 (Data seg) t buf msk"
    using AddSegment_spec [OF wf, of seg] False unfolding Let_def off_def [symmetric] by blast
  have off: "off = (if n \<le> k + length (Data seg) then k + length (Data seg) - n
      else 2 ^ 32 - (n - (k + length (Data seg))))"
    using near_offset [OF start seg(2), of "length (Data seg)"] by (simp add: off_def old(1))
  have off_end: "off = length S - n" if "Fin seg"
    using off seg(1) len that by (simp add: segment_from_def)
  have new: "n + p < length S \<and> buf ! p = S ! (n + p)" if p: "p < 65536" "msk ! p" for p
  proof -
    consider "a_mask t ! p" "buf ! p = a_buffer t ! p"
      | j where "byte_at (Start seg) 0 (Data seg) (a_sequence t) p j" "buf ! p = Data seg ! j"
      using r(2) p unfolding bytes_added_def by blast
    then show ?thesis
    proof cases
      case 2
      then have "j < length (Data seg)" "k + j = n + p"
        using byte_at_position [OF start seg(2) p(1)] by (simp_all add: old(1))
      then show ?thesis using seg(1) 2(2) by (auto simp: segment_from_def)
    qed (use old(3) p in auto)
  qed
  show ?thesis
  proof (rule that [OF r(1)])
    have "asm_wf (t\<lparr>a_buffer := buf, a_mask := msk,
       a_fin := (if Fin seg \<and> off \<le> 65536 then int off else a_fin t)\<rparr>)"
      using r(2) wf by (simp add: asm_wf_def bytes_added_def)
    then show "asm_inv isn S n (t\<lparr>a_buffer := buf, a_mask := msk,
       a_fin := (if Fin seg \<and> off \<le> 65536 then int off else a_fin t)\<rparr>)"
      using new old(1,2) len off_end False by (auto simp: asm_inv_def)
    show "a_mask (t\<lparr>a_buffer := buf, a_mask := msk,
       a_fin := (if Fin seg \<and> off \<le> 65536 then int off else a_fin t)\<rparr>) ! p"
      if "p < 65536" "k \<le> n + p" "n + p < k + length (Data seg)" for p
    proof -
      have "byte_at (Start seg) 0 (Data seg) (a_sequence t) p (n + p - k)"
        unfolding old(1) byte_at_position [OF start seg(2) that(1)] using that by auto
      then show ?thesis using r(2) that(1) by (auto simp: bytes_added_def)
    qed
  qed (use False off_end len in auto)
qed

lemma skim_stop_le:
  "skim_stop t maxBytes m \<Longrightarrow> 0 \<le> maxBytes \<Longrightarrow> int m \<le> maxBytes"
  unfolding skim_stop_def by (metis linorder_not_le nat_less_iff of_nat_0_le_iff zero_le_imp_eq_int
      of_nat_less_iff)

lemma skim_stop_ge:
  assumes "skim_stop t maxBytes m" and "r \<le> length (a_mask t)" and "int r \<le> maxBytes"
    and "a_fin t < 0 \<or> int r \<le> a_fin t" and "\<And>p. p < r \<Longrightarrow> a_mask t ! p"
  shows "r \<le> m"
proof (rule ccontr)
  assume "\<not> r \<le> m"
  then have "m < length (a_mask t)" "a_mask t ! m" "int m \<noteq> maxBytes" "int m \<noteq> a_fin t"
    using assms by auto
  with assms(1) show False by (simp add: skim_stop_def)
qed

lemma Skim_inv:
  assumes inv: "asm_inv isn S n t" and max: "0 \<le> maxBytes"
  obtains t' m eof where "Skim t maxBytes = Some (t', take m (drop n S), eof)"
    and "asm_inv isn S (n + m) t'" and "eof \<longleftrightarrow> a_fin t' = - 1" and "n + m \<le> length S"
    and "int m \<le> maxBytes" and "a_fin t = - 1 \<Longrightarrow> eof"
    and "a_fin t \<noteq> - 1 \<Longrightarrow> skim_stop t maxBytes m"
    and "eof \<longleftrightarrow> a_fin t = - 1 \<or> m < 65536 \<and> int m = a_fin t"
proof (cases "a_fin t = - 1")
  case True
  then have "n = length S" using inv by (simp add: asm_inv_def)
  with True show ?thesis
    using inv max by (intro that [of t 0 True]) (auto simp: Skim_def)
next
  case False
  have wf: "asm_wf t" and len: "n \<le> length S" using inv by (simp_all add: asm_inv_def)
  have old: "a_sequence t = isn + of_nat n" "a_fin t \<le> - 2 \<or> a_fin t = int (length S) - int n"
    "\<And>p. p < 65536 \<Longrightarrow> a_mask t ! p \<Longrightarrow> n + p < length S \<and> a_buffer t ! p = S ! (n + p)"
    using inv False by (auto simp: asm_inv_def)
  obtain m where m: "skim_stop t maxBytes m"
    "Skim t maxBytes = Some (skimmed t (m + (if int m = a_fin t \<and> m < 65536 then 1 else 0)),
       take m (a_buffer t), m < 65536 \<and> int m = a_fin t)"
    using Skim_spec [OF wf False] .
  have m_le: "m \<le> 65536" "int m \<le> maxBytes"
    using m(1) wf skim_stop_le [OF m(1) max] by (simp_all add: skim_stop_def asm_wf_def)
  have masked: "a_mask t ! p" if "p < m" for p using m(1) that by (simp add: skim_stop_def)
  have fits: "n + m \<le> length S"
    using old(3) [of "m - 1"] masked [of "m - 1"] m_le(1) len by (cases m) auto
  have "take m (a_buffer t) = take m (drop n S)"
    using wf m_le(1) fits old(3) masked by (intro nth_equalityI) (simp_all add: asm_wf_def)
  moreover have "asm_inv isn S (n + m) (skimmed t (m + (if int m = a_fin t \<and> m < 65536 then 1 else 0)))"
  proof (cases "int m = a_fin t \<and> m < 65536")
    case True
    then have "length S = n + m" using old(2) len by auto
    with True show ?thesis
      using skimmed_wf [OF wf, of "Suc m"] old(1)
      by (simp add: asm_inv_def skimmed_def [of t "Suc m"])
  next
    case False
    have bytes: "n + m + p < length S \<and> a_buffer (skimmed t m) ! p = S ! (n + m + p)"
      if "p < 65536" "a_mask (skimmed t m) ! p" for p
      using that skimmed_mask_end [OF wf m_le(1), of p] skimmed_nth [OF wf, of m p]
        old(3) [of "m + p"] by (cases "m + p < 65536") (auto simp: add.assoc)
    have fin: "a_fin (skimmed t m) = a_fin t - int m" "a_fin (skimmed t m) \<noteq> - 1"
      "a_fin (skimmed t m) \<le> - 2 \<or> a_fin (skimmed t m) = int (length S) - int (n + m)"
      using old(2) fits \<open>a_fin t \<noteq> - 1\<close> by (auto simp: skimmed_def)
    have "a_sequence (skimmed t m) = isn + of_nat (n + m)"
      using old(1) by (simp add: skimmed_def)
    then have "asm_inv isn S (n + m) (skimmed t m)"
      using fin skimmed_wf [OF wf m_le(1)] fits bytes by (simp add: asm_inv_def)
    then show ?thesis using False by auto
  qed
  ultimately show ?thesis
    using m m_le fits False old(2)
    by (intro that [of "skimmed t (m + (if int m = a_fin t \<and> m < 65536 then 1 else 0))" m
          "m < 65536 \<and> int m = a_fin t"]) (auto simp: skimmed_def)
qed

section \<open>The receive buffer is a bounded queue\<close>

text \<open>What the receiver relies on: \<open>put\<close> appends as long as there is room and panics
  otherwise, \<open>get\<close> moves a prefix of the contents to the caller's slice.\<close>

locale byte_queue =
  fixes ok :: "'q \<Rightarrow> bool"
    and contents :: "'q \<Rightarrow> bytes"
    and room :: "'q \<Rightarrow> int"
    and put :: "'q \<Rightarrow> bytes \<Rightarrow> 'q go"
    and get :: "'q \<Rightarrow> bytes \<Rightarrow> ('q \<times> bytes \<times> nat \<times> bool) go"
  assumes put_fits: "ok q \<Longrightarrow> int (length d) \<le> room q \<Longrightarrow>
      \<exists>q'. put q d = Some q' \<and> ok q' \<and> contents q' = contents q @ d \<and> room q' = room q - int (length d)"
    and put_overflow: "ok q \<Longrightarrow> room q < int (length d) \<Longrightarrow> put q d = None"
    and get_front: "ok q \<Longrightarrow> \<exists>q' eof.
      get q b = Some (q', take (length b) (contents q) @ drop (length (contents q)) b,
        min (length (contents q)) (length b), eof) \<and>
      ok q' \<and> contents q' = drop (length b) (contents q) \<and>
      room q' = room q + int (min (length (contents q)) (length b)) \<and> (eof \<longrightarrow> contents q' = [])"
begin

lemma put_extends:
  "ok q \<Longrightarrow> put q d = Some q' \<Longrightarrow>
     ok q' \<and> contents q' = contents q @ d \<and> room q' = room q - int (length d)"
  using put_fits [of q d] put_overflow [of q d] by (cases "int (length d) \<le> room q") auto

lemma put_total_iff: "ok q \<Longrightarrow> (\<exists>q'. put q d = Some q') \<longleftrightarrow> int (length d) \<le> room q"
  using put_fits [of q d] put_overflow [of q d] by (cases "int (length d) \<le> room q") auto

lemma get_total: "ok q \<Longrightarrow> \<exists>q' b' m eof. get q b = Some (q', b', m, eof)"
  using get_front [of q b] by blast

text \<open>What has been delivered, followed by what is queued, does not change.\<close>

lemma get_conserves:
  "ok q \<Longrightarrow> get q b = Some (q', b', m, eof) \<Longrightarrow>
     ok q' \<and> take m b' @ contents q' = contents q \<and> length b' = length b \<and>
     m = min (length (contents q)) (length b) \<and> room q' = room q + int m \<and>
     (eof \<longrightarrow> contents q' = [])"
  using get_front [of q b] by (auto simp: min_def split: if_splits)

lemma get_progress:
  "ok q \<Longrightarrow> get q b = Some (q', b', m, eof) \<Longrightarrow> contents q \<noteq> [] \<Longrightarrow> b \<noteq> [] \<Longrightarrow> 0 < m"
  using get_front [of q b] by auto

end

definition unread :: "tcpRecvBuffer \<Rightarrow> bytes" where
  "unread t = take (b_size t) (b_buffer t)"

definition buf_wf :: "tcpRecvBuffer \<Rightarrow> bool" where
  "buf_wf t \<longleftrightarrow> b_size t \<le> length (b_buffer t)"

lemma length_unread: "buf_wf t \<Longrightarrow> length (unread t) = b_size t"
  by (simp add: unread_def buf_wf_def)

lemma Put_eq:
  assumes "buf_wf t" and "int (length d) \<le> buffer_Window t"
  shows "Put t d = Some (t\<lparr>b_buffer := unread t @ d @ drop (b_size t + length d) (b_buffer t),
    b_size := b_size t + length d\<rparr>)"
  using assms by (simp add: Put_def buf_wf_def buffer_Window_def unread_def copy_list_def
      add.commute)

lemma Get_eq:
  assumes "buf_wf t"
  shows "Get t b = Some (t\<lparr>b_buffer := copy_list (b_buffer t) (drop (min (b_size t) (length b)) (b_buffer t)),
      b_size := b_size t - length b\<rparr>,
    take (length b) (unread t) @ drop (b_size t) b, min (b_size t) (length b),
    b_size t \<le> length b \<and> b_hitEOF t)"
  using assms
  by (auto simp: Get_def buf_wf_def unread_def copy_list_def min_def Let_def)

interpretation rb: byte_queue buf_wf unread buffer_Window Put Get
proof
  show "\<exists>q'. Put q d = Some q' \<and> buf_wf q' \<and> unread q' = unread q @ d \<and>
      buffer_Window q' = buffer_Window q - int (length d)"
    if "buf_wf q" "int (length d) \<le> buffer_Window q" for q d
    using that Put_eq [OF that]
    by (auto simp: buf_wf_def unread_def buffer_Window_def)
  show "Put q d = None" if "buffer_Window q < int (length d)" for q d
    using that by (simp add: Put_def)
  show "\<exists>q' eof. Get q b = Some (q', take (length b) (unread q) @ drop (length (unread q)) b,
        min (length (unread q)) (length b), eof) \<and>
      buf_wf q' \<and> unread q' = drop (length b) (unread q) \<and>
      buffer_Window q' = buffer_Window q + int (min (length (unread q)) (length b)) \<and>
      (eof \<longrightarrow> unread q' = [])" if "buf_wf q" for q b
    using that Get_eq [OF that]
    by (auto simp: buf_wf_def unread_def buffer_Window_def copy_list_def min_def drop_take)
qed

lemma Get_hitEOF:
  "buf_wf q \<Longrightarrow> Get q b = Some (q', b', m, eof) \<Longrightarrow>
     b_hitEOF q' = b_hitEOF q \<and> length (b_buffer q') = length (b_buffer q) \<and>
     (eof \<longleftrightarrow> unread q' = [] \<and> b_hitEOF q)"
  by (auto simp: Get_eq unread_def copy_list_def buf_wf_def)

lemma Put_hitEOF:
  "Put q d = Some q' \<Longrightarrow> buf_wf q \<Longrightarrow>
     b_hitEOF q' = b_hitEOF q \<and> length (b_buffer q') = length (b_buffer q)"
  using rb.put_total_iff [of q d] by (auto simp: Put_eq buf_wf_def unread_def buffer_Window_def)

lemma PutEOF_simps [simp]:
  "unread (PutEOF q) = unread q" "buf_wf (PutEOF q) = buf_wf q"
  "buffer_Window (PutEOF q) = buffer_Window q" "b_hitEOF (PutEOF q)"
  "length (b_buffer (PutEOF q)) = length (b_buffer q)"
  by (simp_all add: PutEOF_def unread_def buf_wf_def buffer_Window_def)

section \<open>The receiver\<close>

definition recv_wf :: "simpleTcpRecv \<Rightarrow> bool" where
  "recv_wf s \<longleftrightarrow> asm_wf (r_assembler s) \<and> buf_wf (r_buffer s)"

lemma buf_wf_window: "buf_wf q \<Longrightarrow> 0 \<le> buffer_Window q"
  by (simp add: buf_wf_def buffer_Window_def)

text \<open>No segment, however malformed, makes the receiver panic: the data that \<open>Skim\<close> returns
  fits into the window it was given.\<close>

lemma recv_Handle_total:
  assumes "recv_wf s"
  obtains s' where "recv_Handle s seg = Some s'" and "recv_wf s'"
proof -
  have wf: "asm_wf (r_assembler s)" "buf_wf (r_buffer s)" using assms by (simp_all add: recv_wf_def)
  obtain t where t: "AddSegment (r_assembler s) seg = Some t" "asm_wf t"
    using AddSegment_wf [OF wf(1)] by metis
  obtain t' d eof where sk: "Skim t (buffer_Window (r_buffer s)) = Some (t', d, eof)" "asm_wf t'"
    "int (length d) \<le> buffer_Window (r_buffer s)"
  proof (cases "a_fin t = - 1")
    case True
    then show ?thesis using that [of t "[]" True] t(2) buf_wf_window [OF wf(2)] by (simp add: Skim_def)
  next
    case False
    obtain m where m: "skim_stop t (buffer_Window (r_buffer s)) m"
      "Skim t (buffer_Window (r_buffer s)) =
         Some (skimmed t (m + (if int m = a_fin t \<and> m < 65536 then 1 else 0)),
           take m (a_buffer t), m < 65536 \<and> int m = a_fin t)"
      using Skim_spec [OF t(2) False] .
    have "m \<le> 65536" using m(1) t(2) by (simp add: skim_stop_def asm_wf_def)
    then show ?thesis
      using that [OF m(2)] skimmed_wf [OF t(2), of "m + (if int m = a_fin t \<and> m < 65536 then 1 else 0)"]
        skim_stop_le [OF m(1) buf_wf_window [OF wf(2)]] t(2)
      by (simp add: asm_wf_def)
  qed
  obtain q where q: "Put (r_buffer s) d = Some q" "buf_wf q"
    using rb.put_fits [OF wf(2) sk(3)] by blast
  show ?thesis
    by (rule that) (use t sk q in \<open>auto simp: recv_Handle_def recv_wf_def Let_def\<close>)
qed

lemma read_pass_total:
  "recv_wf s \<Longrightarrow> \<exists>s' b' r. read_pass s expired b = Some (s', b', r) \<and> recv_wf s'"
  using rb.get_total [of "r_buffer s" b] rb.get_conserves [of "r_buffer s" b]
  by (fastforce simp: read_pass_def recv_wf_def Let_def)

text \<open>The receiver after it has delivered \<open>out\<close>: the assembler is ahead of the reader by what
  the buffer holds.\<close>

definition recv_inv :: "u32 \<Rightarrow> bytes \<Rightarrow> nat \<Rightarrow> simpleTcpRecv \<Rightarrow> bytes \<Rightarrow> bool" where
  "recv_inv isn S N s out \<longleftrightarrow>
     asm_inv isn S (length out + b_size (r_buffer s)) (r_assembler s) \<and>
     buf_wf (r_buffer s) \<and> length (b_buffer (r_buffer s)) = N \<and>
     out @ unread (r_buffer s) = take (length out + b_size (r_buffer s)) S \<and>
     (b_hitEOF (r_buffer s) \<longleftrightarrow> a_fin (r_assembler s) = - 1)"

lemma recv_inv_wf: "recv_inv isn S N s out \<Longrightarrow> recv_wf s"
  by (simp add: recv_inv_def recv_wf_def asm_inv_def)

lemma recv_inv_new: "recv_inv isn S N (newSimpleTcpRecv isn N) []"
  using asm_inv_new [of isn S]
  by (simp add: recv_inv_def newSimpleTcpRecv_def newTCPRecvBuffer_def buf_wf_def unread_def)
    (simp add: newTCPAssembler_def)

lemma recv_Handle_parts:
  assumes inv: "recv_inv isn S N s out" and seg: "segment_from isn S n k seg"
    and n: "n = length out + b_size (r_buffer s)" and near: "near n k seg"
  obtains t t' m eof q where "recv_Handle s seg = Some (s\<lparr>r_assembler := t',
      r_buffer := (if eof then PutEOF q else q), r_notify := r_notify s + 1\<rparr>)"
    and "asm_inv isn S n t" and "a_fin t = - 1 \<longleftrightarrow> a_fin (r_assembler s) = - 1"
    and "a_fin (r_assembler s) \<noteq> - 1 \<longrightarrow> (\<forall>p < 65536. k \<le> n + p \<and> n + p < k + length (Data seg) \<longrightarrow> a_mask t ! p)"
    and "a_fin (r_assembler s) \<noteq> - 1 \<and> Fin seg \<and> length S - n \<le> 65536 \<longrightarrow> a_fin t = int (length S) - int n"
    and "asm_inv isn S (n + m) t'" and "eof \<longleftrightarrow> a_fin t' = - 1" and "n + m \<le> length S"
    and "a_fin t = - 1 \<longrightarrow> eof" and "a_fin t \<noteq> - 1 \<longrightarrow> skim_stop t (buffer_Window (r_buffer s)) m"
    and "eof \<longleftrightarrow> a_fin t = - 1 \<or> m < 65536 \<and> int m = a_fin t"
    and "buf_wf q" and "unread q = unread (r_buffer s) @ take m (drop n S)"
    and "b_size q = b_size (r_buffer s) + m" and "length (b_buffer q) = N" and "b_hitEOF q = b_hitEOF (r_buffer s)"
proof -
  have a: "asm_inv isn S n (r_assembler s)" and wf: "buf_wf (r_buffer s)" "length (b_buffer (r_buffer s)) = N"
    using inv n by (simp_all add: recv_inv_def)
  obtain t where t: "AddSegment (r_assembler s) seg = Some t" "asm_inv isn S n t"
    "a_fin t = - 1 \<longleftrightarrow> a_fin (r_assembler s) = - 1"
    "a_fin (r_assembler s) \<noteq> - 1 \<longrightarrow> (\<forall>p < 65536. k \<le> n + p \<and> n + p < k + length (Data seg) \<longrightarrow> a_mask t ! p)"
    "a_fin (r_assembler s) \<noteq> - 1 \<and> Fin seg \<and> length S - n \<le> 65536 \<longrightarrow> a_fin t = int (length S) - int n"
    using AddSegment_inv [OF a seg near] by metis
  obtain t' m eof where sk: "Skim t (buffer_Window (r_buffer s)) = Some (t', take m (drop n S), eof)"
    "asm_inv isn S (n + m) t'" "eof \<longleftrightarrow> a_fin t' = - 1" "n + m \<le> length S"
    "int m \<le> buffer_Window (r_buffer s)" "a_fin t = - 1 \<longrightarrow> eof"
    "a_fin t \<noteq> - 1 \<longrightarrow> skim_stop t (buffer_Window (r_buffer s)) m"
    "eof \<longleftrightarrow> a_fin t = - 1 \<or> m < 65536 \<and> int m = a_fin t"
    using Skim_inv [OF t(2) buf_wf_window [OF wf(1)]] by metis
  have len: "length (take m (drop n S)) = m" using sk(4) by simp
  obtain q where q: "Put (r_buffer s) (take m (drop n S)) = Some q" "buf_wf q"
    "unread q = unread (r_buffer s) @ take m (drop n S)"
    using rb.put_fits [OF wf(1), of "take m (drop n S)"] sk(5) len by auto
  have sizes: "b_size q = b_size (r_buffer s) + m" "length (b_buffer q) = N" "b_hitEOF q = b_hitEOF (r_buffer s)"
    using Put_hitEOF [OF q(1) wf(1)] wf(2) q(3) length_unread [OF q(2)] length_unread [OF wf(1)] len by simp_all
  show ?thesis
    by (rule that [OF _ t(2-5) sk(2-4,6-8) q(2,3) sizes])
      (use t(1) sk(1) q(1) in \<open>simp add: recv_Handle_def Let_def\<close>)
qed

lemma recv_inv_Handle:
  assumes inv: "recv_inv isn S N s out" and seg: "segment_from isn S n k seg"
    and n: "n = length out + b_size (r_buffer s)" and near: "near n k seg"
  obtains s' m where "recv_Handle s seg = Some s'" and "recv_inv isn S N s' out"
    and "b_size (r_buffer s') = b_size (r_buffer s) + m"
    and "unread (r_buffer s') = unread (r_buffer s) @ take m (drop n S)"
    and "r_failErr s' = r_failErr s"
    and "r_notify s' = r_notify s + 1"
    and "\<And>r. k \<le> n \<Longrightarrow> r \<le> k + length (Data seg) - n \<Longrightarrow> int r \<le> buffer_Window (r_buffer s) \<Longrightarrow>
      r \<le> 65536 \<Longrightarrow> r \<le> m"
    and "Fin seg \<Longrightarrow> k \<le> n \<Longrightarrow> int (length S - n) \<le> buffer_Window (r_buffer s) \<Longrightarrow>
      length S - n < 65536 \<Longrightarrow> b_hitEOF (r_buffer s')"
proof -
  have a: "asm_inv isn S n (r_assembler s)" and wf: "out @ unread (r_buffer s) = take n S"
    "b_hitEOF (r_buffer s) \<longleftrightarrow> a_fin (r_assembler s) = - 1"
    using inv n by (simp_all add: recv_inv_def)
  obtain t t' m eof q where run: "recv_Handle s seg = Some (s\<lparr>r_assembler := t',
      r_buffer := (if eof then PutEOF q else q), r_notify := r_notify s + 1\<rparr>)"
    and t: "asm_inv isn S n t" "a_fin t = - 1 \<longleftrightarrow> a_fin (r_assembler s) = - 1"
    "a_fin (r_assembler s) \<noteq> - 1 \<longrightarrow> (\<forall>p < 65536. k \<le> n + p \<and> n + p < k + length (Data seg) \<longrightarrow> a_mask t ! p)"
    "a_fin (r_assembler s) \<noteq> - 1 \<and> Fin seg \<and> length S - n \<le> 65536 \<longrightarrow> a_fin t = int (length S) - int n"
    and sk: "asm_inv isn S (n + m) t'" "eof \<longleftrightarrow> a_fin t' = - 1" "n + m \<le> length S" "a_fin t = - 1 \<longrightarrow> eof"
    "a_fin t \<noteq> - 1 \<longrightarrow> skim_stop t (buffer_Window (r_buffer s)) m"
    "eof \<longleftrightarrow> a_fin t = - 1 \<or> m < 65536 \<and> int m = a_fin t"
    and q: "buf_wf q" "unread q = unread (r_buffer s) @ take m (drop n S)" "b_size q = b_size (r_buffer s) + m"
    "length (b_buffer q) = N" "b_hitEOF q = b_hitEOF (r_buffer s)"
    by (rule recv_Handle_parts [OF assms])
  define s' where "s' = s\<lparr>r_assembler := t', r_buffer := (if eof then PutEOF q else q),
    r_notify := r_notify s + 1\<rparr>"
  have progress: "r \<le> m" if prem: "a_fin (r_assembler s) \<noteq> - 1" "k \<le> n" "r \<le> k + length (Data seg) - n"
    "int r \<le> buffer_Window (r_buffer s)" "r \<le> 65536" for r
  proof (rule skim_stop_ge [OF mp [OF sk(5)]])
    show "a_fin t \<noteq> - 1" using that(1) t(2) by simp
    show "r \<le> length (a_mask t)" using t(1) that(5) by (simp add: asm_inv_def asm_wf_def)
    show "a_fin t < 0 \<or> int r \<le> a_fin t"
      using t(1,2) that seg by (auto simp: asm_inv_def segment_from_def)
    show "a_mask t ! p" if "p < r" for p using t(3) prem that by simp
  qed (use that in simp)
  show ?thesis
  proof (rule that [of s' m])
    show "recv_Handle s seg = Some s'"
      using run by (simp add: s'_def)
    show "b_size (r_buffer s') = b_size (r_buffer s) + m"
      using q by (simp add: s'_def PutEOF_def)
    show "unread (r_buffer s') = unread (r_buffer s) @ take m (drop n S)"
      using q(2) by (simp add: s'_def)
    have "out @ unread (r_buffer s) @ take m (drop n S) = take (n + m) S"
      using wf(1) by (simp add: take_add flip: append_assoc)
    moreover have "b_hitEOF (r_buffer s) \<Longrightarrow> eof" using sk(4) t(2) wf(2) by blast
    ultimately show "recv_inv isn S N s' out"
      using sk(1,2) q n
      by (auto simp: recv_inv_def s'_def PutEOF_def buf_wf_def unread_def add.assoc)
    show "r \<le> m" if "k \<le> n" "r \<le> k + length (Data seg) - n"
      "int r \<le> buffer_Window (r_buffer s)" "r \<le> 65536" for r
    proof (cases "a_fin (r_assembler s) = - 1")
      case True
      then have "n = length S" using a by (simp add: asm_inv_def)
      with seg that(2) show ?thesis by (simp add: segment_from_def)
    qed (use progress that in blast)
    show "b_hitEOF (r_buffer s')" if "Fin seg" "k \<le> n"
      "int (length S - n) \<le> buffer_Window (r_buffer s)" "length S - n < 65536"
    proof (cases "a_fin (r_assembler s) = - 1")
      case True
      then have eof using sk(4) t(2) by blast
      then show ?thesis by (simp add: s'_def)
    next
      case False
      have "k + length (Data seg) = length S" using seg that(1) by (simp add: segment_from_def)
      then have "length S - n \<le> m" using progress [OF False that(2), of "length S - n"] that by simp
      then have "int m = a_fin t" "m < 65536" using sk(3) t(4) False that(1,4) by simp_all
      then have eof using sk(6) by blast
      then show ?thesis by (simp add: s'_def)
    qed
  qed (simp_all add: s'_def)
qed

lemma read_pass_expired [simp]: "read_pass s True b = Some (s, b, Returned 0 (Some ReadTimeout))"
  by (simp add: read_pass_def)

lemma read_pass_eq:
  assumes "Get (r_buffer s) b = Some (q, d, c, eof)"
  shows "read_pass s False b = Some
    (s\<lparr>r_buffer := q,
        r_windowOpen := r_windowOpen s \<or> buffer_Window q \<noteq> 0 \<and> buffer_Window (r_buffer s) = 0\<rparr>, d,
     if 0 < c \<or> eof then Returned c (if eof then Some EOF else None)
     else case r_failErr s of Some e \<Rightarrow> Returned 0 (Some e) | None \<Rightarrow> Waiting (r_notify s))"
  using assms by (cases s) (simp add: read_pass_def Let_def split: option.split)

lemma recv_inv_move:
  "recv_inv isn S N s out \<Longrightarrow> length out' + b_size q = length out + b_size (r_buffer s) \<Longrightarrow> buf_wf q \<Longrightarrow>
     length (b_buffer q) = length (b_buffer (r_buffer s)) \<Longrightarrow>
     out' @ unread q = out @ unread (r_buffer s) \<Longrightarrow> b_hitEOF q = b_hitEOF (r_buffer s) \<Longrightarrow>
     recv_inv isn S N (s\<lparr>r_buffer := q\<rparr>) out'"
  by (simp add: recv_inv_def)

lemma recv_inv_read:
  assumes inv: "recv_inv isn S N s out" and run: "read_pass s expired b = Some (s', b', r)"
  shows "length b' = length b"
    and "r = Returned m e \<Longrightarrow> recv_inv isn S N s' (out @ take m b')"
    and "r = Returned m (Some EOF) \<Longrightarrow> r_failErr s \<noteq> Some EOF \<Longrightarrow> out @ take m b' = S"
    and "r = Waiting g \<Longrightarrow> recv_inv isn S N s' out \<and> (b = [] \<or> unread (r_buffer s) = []) \<and> g = r_notify s'"
proof -
  have wf: "buf_wf (r_buffer s)" using inv by (simp add: recv_inv_def)
  obtain q d c eof where g: "Get (r_buffer s) b = Some (q, d, c, eof)"
    using rb.get_total [OF wf] by metis
  note c = rb.get_conserves [OF wf g] and h = Get_hitEOF [OF wf g]
  have size: "b_size q + c = b_size (r_buffer s)"
    using c length_unread [OF wf] length_unread [of q] by (auto simp: buffer_Window_def h)
  have "length (out @ take c d) + b_size q = length out + b_size (r_buffer s)"
    using size c by simp
  moreover have "buf_wf q" "(out @ take c d) @ unread q = out @ unread (r_buffer s)"
    "b_hitEOF q = b_hitEOF (r_buffer s)" "length (b_buffer q) = length (b_buffer (r_buffer s))"
    using c h by auto
  ultimately have moved: "recv_inv isn S N (s\<lparr>r_buffer := q\<rparr>) (out @ take c d)"
    by (intro recv_inv_move [OF inv])
  have moved': "recv_inv isn S N (s\<lparr>r_buffer := q, r_windowOpen := w\<rparr>) (out @ take c d)" for w
    using moved by (simp add: recv_inv_def)
  have ended: "out @ take c d = S" if eof
  proof -
    have "a_fin (r_assembler s) = - 1" "unread q = []" using that h inv by (auto simp: recv_inv_def)
    then show ?thesis using moved length_unread [of q] c by (auto simp: recv_inv_def asm_inv_def)
  qed
  show "length b' = length b"
    using run c read_pass_eq [OF g] by (cases expired) auto
  show "recv_inv isn S N s' (out @ take m b')" if "r = Returned m e"
  proof (cases expired)
    case False
    then have "take m b' = take c d" "s' = s\<lparr>r_buffer := q, r_windowOpen := r_windowOpen s'\<rparr>"
      using run read_pass_eq [OF g] that by (auto split: if_splits option.splits)
    then show ?thesis using moved' by metis
  qed (use run that inv in auto)
  show "out @ take m b' = S" if "r = Returned m (Some EOF)" "r_failErr s \<noteq> Some EOF"
    using run read_pass_eq [OF g] that ended
    by (cases expired) (auto split: if_splits option.splits)
  show "recv_inv isn S N s' out \<and> (b = [] \<or> unread (r_buffer s) = []) \<and> g = r_notify s'"
    if "r = Waiting g"
  proof -
    have "\<not> expired" using run that by (cases expired) auto
    then have "c = 0" "s' = s\<lparr>r_buffer := q, r_windowOpen := r_windowOpen s'\<rparr>" "g = r_notify s"
      using run read_pass_eq [OF g] that by (auto split: if_splits option.splits)
    moreover have "b = [] \<or> unread (r_buffer s) = []" using c \<open>c = 0\<close> by (auto simp: min_def split: if_splits)
    ultimately show ?thesis using moved' by (metis append_Nil2 simpleTcpRecv.select_convs(4)
          simpleTcpRecv.surjective simpleTcpRecv.update_convs(3,5) take0)
  qed
qed

section \<open>Reachable receivers\<close>

text \<open>The receiver of a connection whose peer sends the stream \<open>S\<close>: segments of \<open>S\<close> arrive in
  any order and any number of times, the application reads at any moment, the connection
  may fail.  \<open>out\<close> is what the application has read so far, \<open>eof\<close> whether it has seen EOF.\<close>

inductive recv_reach ::
  "u32 \<Rightarrow> bytes \<Rightarrow> nat \<Rightarrow> simpleTcpRecv \<Rightarrow> bytes \<Rightarrow> bool \<Rightarrow> bool" for isn S N where
  reach_new: "recv_reach isn S N (newSimpleTcpRecv isn N) [] False"
| reach_arrive: "recv_reach isn S N s out eof \<Longrightarrow> segment_of isn S k seg \<Longrightarrow>
    near (length out + b_size (r_buffer s)) k seg \<Longrightarrow> recv_Handle s seg = Some s' \<Longrightarrow>
    recv_reach isn S N s' out eof"
| reach_read: "recv_reach isn S N s out eof \<Longrightarrow> read_pass s expired b = Some (s', b', Returned m e) \<Longrightarrow>
    recv_reach isn S N s' (out @ take m b') (eof \<or> e = Some EOF)"
| reach_wait: "recv_reach isn S N s out eof \<Longrightarrow> read_pass s expired b = Some (s', b', Waiting g) \<Longrightarrow>
    recv_reach isn S N s' out eof"
| reach_fail: "recv_reach isn S N s out eof \<Longrightarrow> err \<noteq> EOF \<Longrightarrow> recv_reach isn S N (recv_Fail s err) out eof"
| reach_window: "recv_reach isn S N s out eof \<Longrightarrow> recv_reach isn S N (s\<lparr>r_windowOpen := False\<rparr>) out eof"

lemma read_pass_failErr: "read_pass s expired b = Some (s', b', r) \<Longrightarrow> r_failErr s' = r_failErr s"
  by (cases expired; cases "Get (r_buffer s) b")
    (auto simp: read_pass_def Let_def split: if_splits)

lemma recv_Handle_failErr: "recv_Handle s seg = Some s' \<Longrightarrow> r_failErr s' = r_failErr s"
  by (cases "AddSegment (r_assembler s) seg") (auto simp: recv_Handle_def Let_def bind_eq_Some_conv)

lemma recv_reach_inv:
  "recv_reach isn S N s out eof \<Longrightarrow>
     recv_inv isn S N s out \<and> (eof \<longrightarrow> out = S) \<and> r_failErr s \<noteq> Some EOF"
proof (induction rule: recv_reach.induct)
  case reach_new
  then show ?case using recv_inv_new by (simp add: newSimpleTcpRecv_def)
next
  case (reach_arrive s out eof k seg s')
  then show ?case
    using recv_inv_Handle [OF _ segment_from_of, of isn S N s out k seg] recv_Handle_failErr [of s seg s']
    by (metis option.inject)
next
  case (reach_read s out eof expired b s' b' m e)
  have inv: "recv_inv isn S N s' (out @ take m b')"
    using recv_inv_read(2) [OF _ reach_read.hyps(2)] reach_read.IH by blast
  have "out @ take m b' = S" if "e = Some EOF"
    using recv_inv_read(3) [OF _ reach_read.hyps(2)] reach_read.IH that by blast
  moreover have "out @ take m b' = S" if eof
    using inv reach_read.IH that by (auto simp: recv_inv_def asm_inv_def)
  ultimately show ?case
    using inv reach_read.IH read_pass_failErr [OF reach_read.hyps(2)] by auto
next
  case (reach_wait s out eof expired b s' b' g)
  then show ?case
    using recv_inv_read(4) [of isn S N s out expired b s' b' "Waiting g" g]
      read_pass_failErr [OF reach_wait.hyps(2)] by auto
qed (auto simp: recv_Fail_def recv_inv_def)

lemma recv_inv_Ack:
  "recv_inv isn S N s out \<Longrightarrow>
     recv_Ack s = isn + of_nat (length out + b_size (r_buffer s) + (if b_hitEOF (r_buffer s) then 1 else 0))"
  unfolding recv_inv_def asm_inv_def recv_Ack_def Seq_def
  by (cases "a_fin (r_assembler s) = - 1") (simp_all only: if_True if_False add_0_right simp_thms)

text \<open>A run of the receiver on arbitrary segments and reads.\<close>

fun recv_all :: "simpleTcpRecv \<Rightarrow> (byte tcpSegment + bytes) list \<Rightarrow> simpleTcpRecv go" where
  "recv_all s [] = Some s"
| "recv_all s (Inl seg # evs) = do { s \<leftarrow> recv_Handle s seg; recv_all s evs }"
| "recv_all s (Inr b # evs) = do { (s, b, r) \<leftarrow> read_pass s False b; recv_all s evs }"

lemma recv_wf_new: "recv_wf (newSimpleTcpRecv isn N)"
  by (rule recv_inv_wf, rule recv_inv_new)

definition recv_room :: "simpleTcpRecv \<Rightarrow> nat \<Rightarrow> bool" where
  "recv_room s N \<longleftrightarrow> recv_wf s \<and> length (b_buffer (r_buffer s)) = N"

lemma recv_Handle_buffer:
  "recv_Handle s seg = Some s' \<Longrightarrow>
     \<exists>d q. Put (r_buffer s) d = Some q \<and> (r_buffer s' = q \<or> r_buffer s' = PutEOF q)"
  by (fastforce simp: recv_Handle_def Let_def bind_eq_Some_conv)

lemma recv_room_Handle:
  assumes "recv_room s N" and "recv_Handle s seg = Some s'"
  shows "recv_room s' N"
proof -
  have wf: "recv_wf s" using assms(1) by (simp add: recv_room_def)
  have "recv_wf s'" using recv_Handle_total [OF wf, of seg] assms(2) by auto
  moreover obtain d q where "Put (r_buffer s) d = Some q" "r_buffer s' = q \<or> r_buffer s' = PutEOF q"
    using recv_Handle_buffer [OF assms(2)] by blast
  ultimately show ?thesis
    using assms(1) Put_hitEOF [of "r_buffer s" d q] by (auto simp: recv_room_def recv_wf_def)
qed

lemma recv_room_read: "recv_room s N \<Longrightarrow> read_pass s expired b = Some (s', b', r) \<Longrightarrow> recv_room s' N"
proof (cases expired)
  case False
  assume s: "recv_room s N" and run: "read_pass s expired b = Some (s', b', r)"
  have wf: "buf_wf (r_buffer s)" using s by (simp add: recv_room_def recv_wf_def)
  obtain q d c eof where g: "Get (r_buffer s) b = Some (q, d, c, eof)"
    using rb.get_total [OF wf] by metis
  show ?thesis
    using run False read_pass_eq [OF g] rb.get_conserves [OF wf g] Get_hitEOF [OF wf g] s
    by (auto simp: recv_room_def recv_wf_def)
qed simp

lemma recv_all_total: "recv_room s N \<Longrightarrow> \<exists>s'. recv_all s evs = Some s' \<and> recv_room s' N"
proof (induction s evs rule: recv_all.induct)
  case (2 s seg evs)
  obtain s' where "recv_Handle s seg = Some s'"
    using recv_Handle_total [of s seg] "2.prems" by (auto simp: recv_room_def)
  then show ?case using "2.IH" recv_room_Handle [OF "2.prems"] by simp
next
  case (3 s b evs)
  obtain s' b' r where "read_pass s False b = Some (s', b', r)"
    using read_pass_total [of s False b] "3.prems" by (auto simp: recv_room_def)
  then show ?case using "3.IH" recv_room_read [OF "3.prems"] by simp
qed simp

lemma read_available:
  assumes inv: "recv_inv isn S N s out" and some: "unread (r_buffer s) \<noteq> []" "b \<noteq> []"
  obtains s' b' m e where "Read s b events = Some (s', b', Returned m e)" and "0 < m"
    and "recv_inv isn S N s' (out @ take m b')" and "length b' = length b" and "m \<le> length b"
proof -
  have wf: "buf_wf (r_buffer s)" using inv by (simp add: recv_inv_def)
  obtain q d c eof where g: "Get (r_buffer s) b = Some (q, d, c, eof)"
    using rb.get_total [OF wf] by metis
  have c: "0 < c" using rb.get_progress [OF wf g some] .
  obtain s' where run: "read_pass s False b = Some (s', d, Returned c (if eof then Some EOF else None))"
    using read_pass_eq [OF g] c by simp
  show ?thesis
  proof (rule that [OF _ c])
    show "Read s b events = Some (s', d, Returned c (if eof then Some EOF else None))"
      using run by (simp add: Read.simps)
    show "recv_inv isn S N s' (out @ take c d)" using recv_inv_read(2) [OF inv run refl] .
    show "length d = length b" using recv_inv_read(1) [OF inv run] .
    show "c \<le> length b" using rb.get_conserves [OF wf g] by simp
  qed
qed

lemma recv_inv_prefix:
  assumes "recv_inv isn S N s out" and "recv_inv isn S N s' (out @ d)"
  shows "d = take (length d) (drop (length out) S)"
proof -
  obtain rest where "S = out @ d @ rest"
    using assms(2) unfolding recv_inv_def by (metis append.assoc append_take_drop_id)
  then show ?thesis by simp
qed

text \<open>A segment that starts at or before the next byte moves the receiver forward, by all that
  it brings or all that there is room for; a FIN that fits closes the stream.\<close>

lemma recv_reach_progress:
  assumes reach: "recv_reach isn S N s out eof" and seg: "segment_of isn S k seg" "near n k seg"
    and n: "n = length (out @ unread (r_buffer s))" and k: "k \<le> n"
  shows "\<exists>s'. recv_Handle s seg = Some s' \<and> recv_reach isn S N s' out eof \<and>
    length (unread (r_buffer s)) + Min {k + length (Data seg) - n, N - length (unread (r_buffer s)), 65536}
      \<le> length (unread (r_buffer s')) \<and>
    (Fin seg \<longrightarrow> length S - n \<le> N - length (unread (r_buffer s)) \<longrightarrow> length S - n < 65536 \<longrightarrow>
       b_hitEOF (r_buffer s')) \<and> r_failErr s' = r_failErr s"
proof -
  have inv: "recv_inv isn S N s out" using recv_reach_inv [OF reach] by blast
  then have wf: "buf_wf (r_buffer s)" "length (b_buffer (r_buffer s)) = N"
    by (simp_all add: recv_inv_def)
  have n': "n = length out + b_size (r_buffer s)" using n length_unread [OF wf(1)] by simp
  have room: "buffer_Window (r_buffer s) = int (N - length (unread (r_buffer s)))"
    using wf length_unread [OF wf(1)] by (simp add: buffer_Window_def buf_wf_def)
  obtain s' m where s': "recv_Handle s seg = Some s'" "recv_inv isn S N s' out"
    "b_size (r_buffer s') = b_size (r_buffer s) + m"
    "\<And>r. k \<le> n \<Longrightarrow> r \<le> k + length (Data seg) - n \<Longrightarrow> int r \<le> buffer_Window (r_buffer s) \<Longrightarrow>
      r \<le> 65536 \<Longrightarrow> r \<le> m"
    "Fin seg \<Longrightarrow> k \<le> n \<Longrightarrow> int (length S - n) \<le> buffer_Window (r_buffer s) \<Longrightarrow>
      length S - n < 65536 \<Longrightarrow> b_hitEOF (r_buffer s')" "r_failErr s' = r_failErr s"
    using recv_inv_Handle [OF inv segment_from_of [OF seg(1)] n' seg(2)] by metis
  have "Min {k + length (Data seg) - n, N - length (unread (r_buffer s)), 65536} \<le> m"
    using s'(4) [OF k, of "Min {k + length (Data seg) - n, N - length (unread (r_buffer s)), 65536}"]
    by (simp add: room min_le_iff_disj)
  moreover have "length (unread (r_buffer s')) = length (unread (r_buffer s)) + m"
    using s'(2,3) length_unread [OF wf(1)] length_unread [of "r_buffer s'"]
    by (simp add: recv_inv_def)
  moreover have "recv_reach isn S N s' out eof"
    using seg n' by (intro reach_arrive [OF reach _ _ s'(1)]) auto
  ultimately show ?thesis using s'(1,5,6) k by (auto simp: room)
qed

section \<open>Properties\<close>

text \<open>C3: The byte stream is delivered in order, without loss or duplication, whatever the
  order and the number of times the segments of the stream arrive: what the application has
  read is a prefix of the stream, followed by what the buffer holds; EOF is reported only after
  the whole stream; and \<open>Ack\<close> is the sequence number behind the bytes that were taken over,
  and behind the FIN once it has been.\<close>

theorem recv_stream_correct:
  assumes "recv_reach isn S N s out eof"
  shows "(\<exists>rest. S = out @ unread (r_buffer s) @ rest) \<and> (eof \<longrightarrow> out = S) \<and>
    (b_hitEOF (r_buffer s) \<longrightarrow> out @ unread (r_buffer s) = S) \<and>
    recv_Ack s = isn + of_nat (length (out @ unread (r_buffer s)) + (if b_hitEOF (r_buffer s) then 1 else 0))"
proof -
  have inv: "recv_inv isn S N s out" and eof: "eof \<longrightarrow> out = S"
    using recv_reach_inv [OF assms] by simp_all
  then have pre: "out @ unread (r_buffer s) = take (length out + b_size (r_buffer s)) S"
    and wf: "buf_wf (r_buffer s)" by (simp_all add: recv_inv_def)
  from pre have "\<exists>rest. S = out @ unread (r_buffer s) @ rest"
    by (metis append.assoc append_take_drop_id)
  moreover have "b_hitEOF (r_buffer s) \<longrightarrow> out @ unread (r_buffer s) = S"
    using inv pre by (auto simp: recv_inv_def asm_inv_def)
  moreover have "length (out @ unread (r_buffer s)) = length out + b_size (r_buffer s)"
    using length_unread [OF wf] by simp
  ultimately show ?thesis using eof recv_inv_Ack [OF inv] by simp
qed

text \<open>Two segments that arrive in order, across the point where the numbers wrap around, and
  one that is repeated; the example of the properties.\<close>

abbreviation example_stream :: bytes where "example_stream \<equiv> [1, 2, 3, 4]"
abbreviation example_seg1 :: "byte tcpSegment" where
  "example_seg1 \<equiv> \<lparr>Start = 0xfffffffe, Data = [1, 2], Fin = False\<rparr>"
abbreviation example_seg2 :: "byte tcpSegment" where
  "example_seg2 \<equiv> \<lparr>Start = 0, Data = [3, 4], Fin = True\<rparr>"

lemma example_segments:
  "segment_of 0xfffffffe example_stream 0 example_seg1" "n \<le> 4 \<Longrightarrow> near n 0 example_seg1"
  "segment_of 0xfffffffe example_stream 2 example_seg2" "n \<le> 4 \<Longrightarrow> near n 2 example_seg2"
  by (simp_all add: segment_of_def near_def)

lemma new_recv_unread: "unread (r_buffer (newSimpleTcpRecv isn N)) = []"
  "r_failErr (newSimpleTcpRecv isn N) = None"
  by (simp_all add: newSimpleTcpRecv_def newTCPRecvBuffer_def unread_def)

lemma example_run:
  obtains s1 s2 where "recv_Handle (newSimpleTcpRecv 0xfffffffe 4096) example_seg1 = Some s1"
    and "recv_Handle s1 example_seg2 = Some s2"
    and "recv_reach 0xfffffffe example_stream 4096 s2 [] False"
    and "unread (r_buffer s2) = example_stream" and "b_hitEOF (r_buffer s2)"
proof -
  have r0: "recv_reach 0xfffffffe example_stream 4096 (newSimpleTcpRecv 0xfffffffe 4096) [] False"
    by (rule reach_new)
  obtain s1 where s1: "recv_Handle (newSimpleTcpRecv 0xfffffffe 4096) example_seg1 = Some s1"
    "recv_reach 0xfffffffe example_stream 4096 s1 [] False" "2 \<le> length (unread (r_buffer s1))"
    using recv_reach_progress [OF r0 example_segments(1,2) refl] by (auto simp: new_recv_unread)
  have n: "length (unread (r_buffer s1)) \<le> 4"
    using recv_reach_inv [OF s1(2)] length_unread by (auto simp: recv_inv_def asm_inv_def)
  obtain s2 where s2: "recv_Handle s1 example_seg2 = Some s2"
    "recv_reach 0xfffffffe example_stream 4096 s2 [] False" "b_hitEOF (r_buffer s2)"
    using recv_reach_progress [OF s1(2) example_segments(3) example_segments(4) refl] s1(3) n
    by auto
  have "unread (r_buffer s2) = example_stream"
    using recv_reach_inv [OF s2(2)] s2(3) by (auto simp: recv_inv_def asm_inv_def)
  with s1(1) s2 show ?thesis by (intro that)
qed

theorem recv_stream_correct_witness:
  "\<exists>s out. recv_reach 0xfffffffe example_stream 4096 s out True \<and> out = example_stream \<and> recv_Ack s = 3"
proof -
  obtain s1 s2 where s2: "recv_reach 0xfffffffe example_stream 4096 s2 [] False"
    "unread (r_buffer s2) = example_stream" "b_hitEOF (r_buffer s2)"
    using example_run by metis
  have inv: "recv_inv 0xfffffffe example_stream 4096 s2 []" using recv_reach_inv [OF s2(1)] by blast
  then have wf: "buf_wf (r_buffer s2)" by (simp add: recv_inv_def)
  have four: "b_size (r_buffer s2) = 4" using length_unread [OF wf] s2(2) by simp
  obtain s3 b3 m where run: "read_pass s2 False [0, 0, 0, 0, 0] = Some (s3, b3, Returned m (Some EOF))"
    using read_pass_eq [OF Get_eq [OF wf], of "[0, 0, 0, 0, 0]"] s2(3) four by auto
  have r3: "recv_reach 0xfffffffe example_stream 4096 s3 ([] @ take m b3) True"
    using reach_read [OF s2(1) run] by simp
  note c = recv_stream_correct [OF r3]
  have "b_hitEOF (r_buffer s3)"
  proof -
    have "a_fin (r_assembler s3) = - 1"
      using run inv s2(3) by (auto simp: read_pass_def recv_inv_def Let_def bind_eq_Some_conv split: if_splits)
    then show ?thesis using recv_reach_inv [OF r3] by (simp add: recv_inv_def)
  qed
  moreover have out: "[] @ take m b3 = example_stream" using c by blast
  ultimately have "recv_Ack s3 = 3" using c [unfolded out] by auto
  with r3 show ?thesis unfolding out by blast
qed

text \<open>C10: The receiver makes progress: a segment of the stream that starts at or before the
  next byte (and is not stale by \<open>2 ^ 31\<close>) adds all of its new bytes to what can be read, or
  as many as the window has room for; one with a FIN that fits ends the stream.\<close>

theorem recv_progress:
  assumes "recv_reach isn S N s out eof" and "segment_of isn S k seg" and "near n k seg"
    and "n = length (out @ unread (r_buffer s))" and "k \<le> n"
  shows "\<exists>s'. recv_Handle s seg = Some s' \<and> recv_reach isn S N s' out eof \<and>
    length (unread (r_buffer s)) + Min {k + length (Data seg) - n, N - length (unread (r_buffer s)), 65536}
      \<le> length (unread (r_buffer s')) \<and>
    (Fin seg \<longrightarrow> length S - n \<le> N - length (unread (r_buffer s)) \<longrightarrow> length S - n < 65536 \<longrightarrow>
       b_hitEOF (r_buffer s'))"
  using recv_reach_progress [OF assms] by blast

theorem recv_progress_witness:
  "\<exists>s'. recv_Handle (newSimpleTcpRecv 0xfffffffe 4096) example_seg1 = Some s' \<and>
     2 \<le> length (unread (r_buffer s'))"
  using recv_progress [OF reach_new example_segments(1,2) refl, where N = 4096]
  by (auto simp: new_recv_unread)

text \<open>The receiver never panics, whatever segments arrive (with any sequence numbers, data
  and flags) and however they interleave with reads; the buffer never overflows, and \<open>Window\<close>
  is its free space modulo \<open>2 ^ 16\<close>.\<close>

theorem recv_never_panics:
  "\<exists>s. recv_all (newSimpleTcpRecv isn N) evs = Some s \<and> b_size (r_buffer s) \<le> N \<and>
     unat (recv_Window s) = (N - b_size (r_buffer s)) mod 65536"
proof -
  have "recv_room (newSimpleTcpRecv isn N) N"
    using recv_wf_new by (simp add: recv_room_def newSimpleTcpRecv_def newTCPRecvBuffer_def)
  then obtain s where s: "recv_all (newSimpleTcpRecv isn N) evs = Some s" "recv_room s N"
    using recv_all_total by blast
  then have "b_size (r_buffer s) \<le> N" by (simp add: recv_room_def recv_wf_def buf_wf_def)
  then have "recv_Window s = of_nat (N - b_size (r_buffer s))"
    using s(2) by (simp add: recv_Window_def buffer_Window_def recv_room_def of_nat_diff)
  then have "unat (recv_Window s) = (N - b_size (r_buffer s)) mod 65536"
    by (simp only: unat_of_nat_u16)
  with s(1) \<open>b_size (r_buffer s) \<le> N\<close> show ?thesis by blast
qed

text \<open>A call of \<open>Read\<close> with room for at least a byte returns data as soon as there is some:
  at once when the buffer has bytes, and otherwise when the segment with the next byte arrives
  while it waits; what it returns are the next bytes of the stream.\<close>

theorem read_wakes_up:
  assumes "recv_reach isn S N s out eof" and "segment_of isn S k seg" and "near n k seg"
    and "n = length (out @ unread (r_buffer s))" and "k \<le> n" and "n < k + length (Data seg)"
    and "r_failErr s = None" and "0 < N" and "b \<noteq> []"
  shows "\<exists>s' b' m e. Read s b (Arrive seg # events) = Some (s', b', Returned m e) \<and> 0 < m \<and>
    m \<le> length b \<and> take m b' = take m (drop (length out) S)"
proof -
  have inv: "recv_inv isn S N s out" using recv_reach_inv [OF assms(1)] by blast
  have ready: "\<exists>s' b' m e. Read s1 c evs = Some (s', b', Returned m e) \<and> 0 < m \<and> m \<le> length c \<and>
      take m b' = take m (drop (length out) S)"
    if prem: "recv_inv isn S N s1 out" "unread (r_buffer s1) \<noteq> []" "c \<noteq> []" for s1 c evs
  proof -
    obtain s' b' m e where r: "Read s1 c evs = Some (s', b', Returned m e)" "0 < m"
      "recv_inv isn S N s' (out @ take m b')" "length b' = length c" "m \<le> length c"
      using read_available [OF prem] by metis
    show ?thesis using r recv_inv_prefix [OF prem(1) r(3)] by fastforce
  qed
  show ?thesis
  proof (cases "unread (r_buffer s) = []")
    case False
    then show ?thesis using ready [OF inv False assms(9)] by blast
  next
    case True
    have wf: "buf_wf (r_buffer s)" using inv by (simp add: recv_inv_def)
    obtain q d c e where g: "Get (r_buffer s) b = Some (q, d, c, e)"
      using rb.get_total [OF wf] by metis
    have "\<not> b_hitEOF (r_buffer s)"
      using inv assms(2,4,6) length_unread [OF wf] by (auto simp: recv_inv_def asm_inv_def segment_of_def)
    then have "c = 0" "\<not> e" using rb.get_conserves [OF wf g] Get_hitEOF [OF wf g] True by auto
    then obtain s1 where run: "read_pass s False b = Some (s1, d, Waiting (r_notify s))"
      using read_pass_eq [OF g] assms(7) by simp
    have r1: "recv_reach isn S N s1 out eof" by (rule reach_wait [OF assms(1) run])
    have d: "length d = length b" using recv_inv_read(1) [OF inv run] .
    have "unread (r_buffer s1) = []" using run read_pass_eq [OF g] rb.get_conserves [OF wf g] True
      \<open>c = 0\<close> \<open>\<not> e\<close> assms(7) by auto
    then obtain s2 where s2: "recv_Handle s1 seg = Some s2" "recv_reach isn S N s2 out eof"
      "0 < length (unread (r_buffer s2))"
      using recv_reach_progress [OF r1 assms(2,3)] True assms(4-6,8) by fastforce
    have "Read s b (Arrive seg # events) = Read s2 d events"
      using run s2(1) by (simp add: Read.simps [of s])
    moreover have "recv_inv isn S N s2 out" "unread (r_buffer s2) \<noteq> []" "d \<noteq> []"
      using recv_reach_inv [OF s2(2)] s2(3) d assms(9) by auto
    ultimately show ?thesis using ready [of s2 d events] unfolding d by simp
  qed
qed

theorem read_wakes_up_witness:
  "\<exists>s' b' m e. Read (newSimpleTcpRecv 0xfffffffe 4096) [0, 0, 0] [Arrive example_seg1] =
     Some (s', b', Returned m e) \<and> 0 < m \<and> take m b' = take m example_stream"
proof -
  have "\<exists>s' b' m e. Read (newSimpleTcpRecv 0xfffffffe 4096) [0, 0, 0] [Arrive example_seg1] =
     Some (s', b', Returned m e) \<and> 0 < m \<and> m \<le> length [0 :: byte, 0, 0] \<and>
     take m b' = take m (drop (length ([] :: bytes)) example_stream)"
    by (rule read_wakes_up [OF reach_new example_segments(1) example_segments(2) refl])
      (simp_all add: new_recv_unread)
  then show ?thesis by auto
qed

end
