(* ===== verification/TCP_Send.thy ===== *)
theory TCP_Send
  imports TCP_Segment
begin

text \<open>
  \<open>ipstack/tcp_send.go\<close>: the sending end of a TCP connection.  \<open>tcpWriteBuffer\<close> holds the
  slice that the current \<open>Write\<close> was called with (not a copy: its cells are the caller's memory, and
  the bytes of a segment are those that are there when its packet is built), \<open>tcpSendTimer\<close> hands segments to the connection and repeats
  them, and \<open>simpleTcpSend\<close> joins them.

  The lock of \<open>simpleTcpSend\<close> makes each operation one step; \<open>Write\<close> and \<open>Close\<close> are two, up
  to the wait on \<open>notify\<close> and from it on.  As in \<open>TCP_Recv\<close>, \<open>notify\<close> is the number of times
  the channel has been closed and replaced.
\<close>

section \<open>The write buffer\<close>

record tcpWriteBuffer =
  w_sequence :: u32
  w_sendEOF :: bool
  w_sentEOF :: bool
  w_buffer :: "cell list"

definition newTCPWriteBuffer :: "u32 \<Rightarrow> tcpWriteBuffer" where
  "newTCPWriteBuffer seq =
     \<lparr>w_sequence = seq, w_sendEOF = False, w_sentEOF = False, w_buffer = []\<rparr>"

definition SetData :: "tcpWriteBuffer \<Rightarrow> cell list \<Rightarrow> tcpWriteBuffer go" where
  "SetData t buf =
     (if length (w_buffer t) > 0 \<or> w_sendEOF t then None else Some (t\<lparr>w_buffer := buf\<rparr>))"

definition SetEOF :: "tcpWriteBuffer \<Rightarrow> tcpWriteBuffer go" where
  "SetEOF t = (if length (w_buffer t) > 0 then None else Some (t\<lparr>w_sendEOF := True\<rparr>))"

definition Remaining :: "tcpWriteBuffer \<Rightarrow> u32" where
  "Remaining t = (if w_sendEOF t \<and> \<not> w_sentEOF t then 1 else of_nat (length (w_buffer t)))"

definition write_Handle :: "tcpWriteBuffer \<Rightarrow> u32 \<Rightarrow> tcpWriteBuffer go" where
  "write_Handle t ack =
     (let offset = ack - w_sequence t
      in if offset > Remaining t then Some t
         else if offset = Remaining t
           then Some (t\<lparr>w_sequence := w_sequence t + Remaining t, w_sentEOF := w_sendEOF t,
                        w_buffer := []\<rparr>)
         else do {
           rest \<leftarrow> slice_from (w_buffer t) (unat offset);
           Some (t\<lparr>w_sequence := w_sequence t + offset, w_buffer := rest\<rparr>)
         })"

definition Segment :: "tcpWriteBuffer \<Rightarrow> u16 \<Rightarrow> cell tcpSegment go" where
  "Segment t maxSize =
     (if Remaining t = 0 then None
      else if w_sendEOF t then Some \<lparr>Start = w_sequence t, Data = [], Fin = True\<rparr>
      else do {
        buf \<leftarrow> (if int (length (w_buffer t)) > uint maxSize
               then slice (w_buffer t) 0 (unat maxSize) else Some (w_buffer t));
        Some \<lparr>Start = w_sequence t, Data = buf, Fin = False\<rparr>
      })"

section \<open>The timer\<close>

text \<open>\<open>t_next\<close> is the buffered channel of one segment.  \<open>t_timer\<close> is the segment of the timer
  that runs, if one does.  When it goes off, \<open>time.AfterFunc\<close> starts a goroutine that calls
  \<open>Send\<close>; \<open>t_fired\<close> are the segments of the goroutines that have started and do not hold the
  lock yet.  \<open>Stop\<close> does not reach those.\<close>

record tcpSendTimer =
  t_next :: "cell tcpSegment option"
  t_timer :: "cell tcpSegment option"
  t_fired :: "cell tcpSegment list"

definition newTcpSendTimer :: tcpSendTimer where
  "newTcpSendTimer = \<lparr>t_next = None, t_timer = None, t_fired = []\<rparr>"

definition timer_Cancel :: "tcpSendTimer \<Rightarrow> tcpSendTimer" where
  "timer_Cancel t = t\<lparr>t_timer := None\<rparr>"

definition timer_Schedule :: "cell tcpSegment \<Rightarrow> tcpSendTimer \<Rightarrow> tcpSendTimer" where
  "timer_Schedule seg t = t\<lparr>t_timer := Some seg\<rparr>"

definition timer_Send :: "cell tcpSegment \<Rightarrow> tcpSendTimer \<Rightarrow> tcpSendTimer" where
  "timer_Send seg t =
     timer_Schedule seg (case t_next t of None \<Rightarrow> t\<lparr>t_next := Some seg\<rparr> | Some x \<Rightarrow> t)"

text \<open>The timer goes off, and a started goroutine gets the lock.\<close>

definition timer_expire :: "tcpSendTimer \<Rightarrow> tcpSendTimer" where
  "timer_expire t =
     (case t_timer t of None \<Rightarrow> t | Some seg \<Rightarrow> t\<lparr>t_timer := None, t_fired := t_fired t @ [seg]\<rparr>)"

definition timer_run :: "nat \<Rightarrow> tcpSendTimer \<Rightarrow> tcpSendTimer" where
  "timer_run i t =
     (if i < length (t_fired t)
      then timer_Send (t_fired t ! i) (t\<lparr>t_fired := take i (t_fired t) @ drop (Suc i) (t_fired t)\<rparr>)
      else t)"

section \<open>The sender\<close>

record simpleTcpSend =
  s_maxSegmentSize :: u16
  s_notify :: nat
  s_writeBuf :: tcpWriteBuffer
  s_timer :: tcpSendTimer
  s_failErr :: "tcp_error option"
  s_window :: u16

definition newSimpleTcpSend :: "u32 \<Rightarrow> u16 \<Rightarrow> u16 \<Rightarrow> simpleTcpSend" where
  "newSimpleTcpSend startSeq window mss =
     \<lparr>s_maxSegmentSize = mss, s_notify = 0, s_writeBuf = newTCPWriteBuffer startSeq,
      s_timer = newTcpSendTimer, s_failErr = None, s_window = window\<rparr>"

definition sendNext :: "simpleTcpSend \<Rightarrow> simpleTcpSend go" where
  "sendNext s = (
     let s = s\<lparr>s_timer := timer_Cancel (s_timer s)\<rparr>
     in if Remaining (s_writeBuf s) = 0 then Some s
        else if s_window s = 0 then do {
          seg \<leftarrow> Segment (s_writeBuf s) 1;
          Some (s\<lparr>s_timer := timer_Schedule seg (s_timer s)\<rparr>)
        }
        else do {
          let maxSize = s_window s;
          let maxSize = (if maxSize > s_maxSegmentSize s then s_maxSegmentSize s else maxSize);
          seg \<leftarrow> Segment (s_writeBuf s) maxSize;
          Some (s\<lparr>s_timer := timer_Send seg (s_timer s)\<rparr>)
        })"

text \<open>\<open>writeOrClose\<close> up to the wait, and after it.  A writer that waits holds the current
  \<open>notify\<close> channel; \<open>expired\<close> says whether the deadline has passed.\<close>

datatype write_result = Wrote int "tcp_error option" | WaitNotify nat

definition writeOrClose ::
  "simpleTcpSend \<Rightarrow> bool \<Rightarrow> cell list \<Rightarrow> bool \<Rightarrow> (simpleTcpSend \<times> write_result) go" where
  "writeOrClose s expired d close =
     (if \<not> close \<and> expired then Some (s, Wrote 0 (Some WriteTimeout))
      else if w_sendEOF (s_writeBuf s) then Some (s, Wrote 0 (Some ErrClosedPipe))
      else if s_failErr s \<noteq> None then Some (s, Wrote 0 (s_failErr s))
      else do {
        buf \<leftarrow> (if close then SetEOF (s_writeBuf s) else SetData (s_writeBuf s) d);
        s \<leftarrow> sendNext (s\<lparr>s_writeBuf := buf\<rparr>);
        Some (s, WaitNotify (s_notify s))
      })"

definition write_woken :: "simpleTcpSend \<Rightarrow> cell list \<Rightarrow> write_result" where
  "write_woken s d =
     (case s_failErr s of
        Some e \<Rightarrow> Wrote (int (length d) - int (length (w_buffer (s_writeBuf s)))) (Some e)
      | None \<Rightarrow> Wrote (int (length d)) None)"

definition Write :: "simpleTcpSend \<Rightarrow> bool \<Rightarrow> cell list \<Rightarrow> (simpleTcpSend \<times> write_result) go" where
  "Write s expired b =
     (if length b = 0 then Some (s, Wrote 0 None) else writeOrClose s expired b False)"

definition send_Close :: "simpleTcpSend \<Rightarrow> bool \<Rightarrow> (simpleTcpSend \<times> write_result) go" where
  "send_Close s expired = writeOrClose s expired [] True"

definition send_Handle :: "simpleTcpSend \<Rightarrow> u32 \<Rightarrow> u16 \<Rightarrow> simpleTcpSend go" where
  "send_Handle s ack window = do {
     buf \<leftarrow> write_Handle (s_writeBuf s) ack;
     s \<leftarrow> sendNext (s\<lparr>s_writeBuf := buf, s_window := window\<rparr>);
     Some (if Remaining (s_writeBuf s) = 0 then s\<lparr>s_notify := s_notify s + 1\<rparr> else s)
   }"

definition send_Fail :: "simpleTcpSend \<Rightarrow> tcp_error \<Rightarrow> simpleTcpSend" where
  "send_Fail s err = s\<lparr>s_failErr := Some err, s_notify := s_notify s + 1\<rparr>"

definition send_Seq :: "simpleTcpSend \<Rightarrow> u32" where
  "send_Seq s = w_sequence (s_writeBuf s)"

definition send_Done :: "simpleTcpSend \<Rightarrow> bool" where
  "send_Done s \<longleftrightarrow> w_sentEOF (s_writeBuf s) \<or> s_failErr s \<noteq> None"

text \<open>A \<open>Write\<close> or \<open>Close\<close> with what happens while it waits.  \<open>writeLock\<close> keeps other writers
  out until it returns.\<close>

datatype send_event = Acked u32 u16 | SendBreak tcp_error | SendExpire | TimerExpire | TimerRun nat | Taken

fun await_notify ::
  "simpleTcpSend \<Rightarrow> cell list \<Rightarrow> nat \<Rightarrow> send_event list \<Rightarrow> (simpleTcpSend \<times> write_result) go" where
  "await_notify s d g events =
     (if s_notify s \<noteq> g then Some (s, write_woken s d)
      else case events of
        [] \<Rightarrow> Some (s, WaitNotify g)
      | Acked ack window # events \<Rightarrow> do { s \<leftarrow> send_Handle s ack window; await_notify s d g events }
      | SendBreak err # events \<Rightarrow> await_notify (send_Fail s err) d g events
      | SendExpire # events \<Rightarrow> Some (s, Wrote 0 (Some WriteTimeout))
      | TimerExpire # events \<Rightarrow> await_notify (s\<lparr>s_timer := timer_expire (s_timer s)\<rparr>) d g events
      | TimerRun i # events \<Rightarrow> await_notify (s\<lparr>s_timer := timer_run i (s_timer s)\<rparr>) d g events
      | Taken # events \<Rightarrow> await_notify (s\<lparr>s_timer := (s_timer s)\<lparr>t_next := None\<rparr>\<rparr>) d g events)"

declare await_notify.simps [simp del]

definition write_call ::
  "simpleTcpSend \<Rightarrow> cell list \<Rightarrow> bool \<Rightarrow> send_event list \<Rightarrow> (simpleTcpSend \<times> write_result) go" where
  "write_call s d close events = do {
     (s, r) \<leftarrow> (if close then send_Close s False else Write s False d);
     case r of Wrote n e \<Rightarrow> Some (s, r) | WaitNotify g \<Rightarrow> await_notify s d g events
   }"

section \<open>The position of the sender in its stream\<close>

text \<open>\<open>D\<close> is all the data that \<open>Write\<close> has accepted.  The write buffer is at position \<open>p\<close>: the
  bytes before it have been acknowledged, those behind it are in the buffer.\<close>

definition wbuf_inv :: "u32 \<Rightarrow> cell list \<Rightarrow> nat \<Rightarrow> tcpWriteBuffer \<Rightarrow> bool" where
  "wbuf_inv isn D p t \<longleftrightarrow> p \<le> length D \<and> w_buffer t = drop p D \<and> length (w_buffer t) < 2 ^ 32 \<and>
     (w_sendEOF t \<longrightarrow> p = length D) \<and> (w_sentEOF t \<longrightarrow> w_sendEOF t) \<and>
     w_sequence t = isn + of_nat (p + (if w_sentEOF t then 1 else 0))"

lemma wbuf_inv_new: "wbuf_inv isn [] 0 (newTCPWriteBuffer isn)"
  by (simp add: wbuf_inv_def newTCPWriteBuffer_def)

lemma unat_Remaining:
  assumes "wbuf_inv isn D p t"
  shows "unat (Remaining t) = (if w_sendEOF t \<and> \<not> w_sentEOF t then 1 else length D - p)"
  using assms unat_of_nat_u32_less [of "length D - p"]
  by (auto simp: Remaining_def wbuf_inv_def)

lemma Remaining_eq_0_iff:
  assumes "wbuf_inv isn D p t"
  shows "Remaining t = 0 \<longleftrightarrow> w_buffer t = [] \<and> (w_sendEOF t \<longrightarrow> w_sentEOF t)"
proof -
  have "Remaining t = 0 \<longleftrightarrow> unat (Remaining t) = 0" by (simp add: unat_eq_0)
  with unat_Remaining [OF assms] assms show ?thesis by (auto simp: wbuf_inv_def)
qed

text \<open>The comparison of \<open>write_Handle\<close> on sequence numbers is the comparison on positions: an
  acknowledgement of \<open>j\<close> moves the buffer there when \<open>j\<close> is between the position and the end,
  and is ignored otherwise.\<close>

lemma write_Handle_position:
  assumes inv: "wbuf_inv isn D p t" and "\<not> w_sendEOF t"
  shows "write_Handle t ack = Some (
    let j = p + unat (ack - (isn + of_nat p))
    in if j \<le> length D then t\<lparr>w_sequence := isn + of_nat j, w_buffer := drop j D\<rparr> else t)"
proof -
  define off where "off = ack - (isn + of_nat p)"
  have seq: "w_sequence t = isn + of_nat p" "w_buffer t = drop p D" "p \<le> length D"
    "\<not> w_sentEOF t" "length D - p < 2 ^ 32"
    using assms by (auto simp: wbuf_inv_def)
  have rem: "unat (Remaining t) = length D - p" using unat_Remaining [OF inv] assms(2) by simp
  have off: "of_nat (unat off) = off" by simp
  consider "off > Remaining t" | "off = Remaining t" | "off < Remaining t" by fastforce
  then show ?thesis
  proof cases
    case 1
    then have "\<not> p + unat off \<le> length D" using rem seq(3) by (simp add: word_less_nat_alt)
    with 1 show ?thesis by (simp add: write_Handle_def seq(1) off_def [symmetric] Let_def)
  next
    case 2
    then have j: "p + unat off = length D" using rem seq(3) by simp
    have "isn + of_nat p + Remaining t = isn + of_nat (p + unat off)"
      using 2 by (simp add: add.assoc)
    with 2 j show ?thesis using seq assms(2)
      by (simp add: write_Handle_def off_def [symmetric] Let_def)
  next
    case 3
    then have j: "p + unat off \<le> length D" "unat off \<le> length D - p"
      using rem seq(3) by (simp_all add: word_less_nat_alt)
    have "isn + of_nat p + off = isn + of_nat (p + unat off)" by (simp add: add.assoc)
    with 3 j show ?thesis using seq
      by (auto simp: write_Handle_def off_def [symmetric] Let_def add.commute)
  qed
qed

text \<open>While the FIN is sent, only the acknowledgement behind it counts.\<close>

lemma write_Handle_EOF:
  assumes inv: "wbuf_inv isn D p t" and eof: "w_sendEOF t"
  shows "write_Handle t ack = Some (
    if ack = isn + of_nat (length D + 1)
    then t\<lparr>w_sequence := isn + of_nat (length D + 1), w_sentEOF := True\<rparr> else t)"
proof -
  have b: "w_buffer t = []" using assms by (simp add: wbuf_inv_def)
  have seq: "w_sequence t = isn + of_nat (length D + (if w_sentEOF t then 1 else 0))"
    using assms by (simp add: wbuf_inv_def)
  show ?thesis
  proof (cases "w_sentEOF t")
    case True
    have "t\<lparr>w_sequence := isn + of_nat (length D + 1), w_sentEOF := True\<rparr> = t"
      "t\<lparr>w_sequence := w_sequence t + 0, w_sentEOF := w_sendEOF t, w_buffer := []\<rparr> = t"
      using True seq b eof by (cases t; simp)+
    then show ?thesis using b eof True seq
      by (auto simp: write_Handle_def Remaining_def Let_def word_greater_zero_iff)
  next
    case False
    define off where "off = ack - w_sequence t"
    have rem: "Remaining t = 1" using eof False by (simp add: Remaining_def)
    have "off = 1 \<longleftrightarrow> ack = isn + of_nat (length D + 1)"
      using seq False by (simp add: off_def diff_eq_eq algebra_simps)
    moreover have "off = 0" if "\<not> off > 1" "off \<noteq> 1"
      using that by (simp add: word_less_nat_alt word_unat_eq_iff)
    moreover have "t\<lparr>w_sequence := w_sequence t + 0, w_buffer := []\<rparr> = t" using b by (cases t) simp
    moreover have "t\<lparr>w_sequence := w_sequence t + 1, w_sentEOF := True, w_buffer := []\<rparr> =
        t\<lparr>w_sequence := isn + of_nat (length D + 1), w_sentEOF := True\<rparr>"
      using b seq False by (cases t) (simp add: algebra_simps)
    ultimately show ?thesis using b eof rem
      by (auto simp: write_Handle_def off_def [symmetric] Let_def)
  qed
qed

lemma write_Handle_inv:
  assumes "wbuf_inv isn D p t"
  obtains t' p' where "write_Handle t ack = Some t'" and "wbuf_inv isn D p' t'" and "p \<le> p'"
    and "w_sendEOF t' = w_sendEOF t" and "w_sentEOF t \<Longrightarrow> w_sentEOF t'"
proof (cases "w_sendEOF t")
  case True
  show ?thesis
    by (rule that [OF write_Handle_EOF [OF assms True], of p])
      (use assms True in \<open>auto simp: wbuf_inv_def\<close>)
next
  case False
  define j where "j = p + unat (ack - (isn + of_nat p))"
  show ?thesis
  proof (cases "j \<le> length D")
    case True
    show ?thesis
      by (rule that [OF write_Handle_position [OF assms False], of j])
        (use assms False True in \<open>auto simp: wbuf_inv_def j_def Let_def\<close>)
  next
    case False': False
    show ?thesis
      by (rule that [OF write_Handle_position [OF assms False], of p])
        (use assms False False' in \<open>auto simp: j_def Let_def\<close>)
  qed
qed

text \<open>\<open>Segment\<close> makes a segment of the stream that starts at the position; the FIN is only
  sent on its own behind all data.\<close>

definition seg_ok :: "u32 \<Rightarrow> cell list \<Rightarrow> bool \<Rightarrow> nat \<Rightarrow> cell tcpSegment \<Rightarrow> bool" where
  "seg_ok isn D closed maxSize seg \<longleftrightarrow>
     (\<exists>k. segment_of isn D k seg) \<and> (Fin seg \<longrightarrow> closed) \<and> length (Data seg) \<le> maxSize"

lemma Segment_ok:
  assumes inv: "wbuf_inv isn D p t" and rem: "Remaining t \<noteq> 0"
  obtains seg where "Segment t m = Some seg" and "segment_of isn D p seg" and "Fin seg = w_sendEOF t"
    and "length (Data seg) = (if w_sendEOF t then 0 else min (unat m) (length D - p))"
proof (cases "w_sendEOF t")
  case True
  then have "\<not> w_sentEOF t" using Remaining_eq_0_iff [OF inv] rem inv by (auto simp: wbuf_inv_def)
  then show ?thesis
    using inv rem True by (intro that [of "\<lparr>Start = w_sequence t, Data = [], Fin = True\<rparr>"])
      (simp_all add: Segment_def segment_of_def wbuf_inv_def)
next
  case False
  have s: "w_sequence t = isn + of_nat p" "w_buffer t = drop p D" "p \<le> length D"
    using inv False by (auto simp: wbuf_inv_def)
  have len: "int (length D - p) > uint m \<longleftrightarrow> unat m < length D - p"
  proof -
    have "uint m = int (unat m)" by simp
    then show ?thesis by (simp only: of_nat_less_iff)
  qed
  let ?d = "take (unat m) (drop p D)"
  have "Segment t m = Some \<lparr>Start = w_sequence t, Data = ?d, Fin = False\<rparr>"
    using rem False s len by (auto simp: Segment_def not_less)
  then show ?thesis
    using s False by (intro that [of "\<lparr>Start = w_sequence t, Data = ?d, Fin = False\<rparr>"])
      (auto simp: segment_of_def min_def)
qed

section \<open>Everything the sender keeps is a segment of its stream\<close>

definition timer_segs :: "tcpSendTimer \<Rightarrow> cell tcpSegment set" where
  "timer_segs t = set_option (t_next t) \<union> set_option (t_timer t) \<union> set (t_fired t)"

lemma timer_segs_sub:
  "timer_segs (timer_Cancel t) \<subseteq> timer_segs t"
  "timer_segs (timer_Schedule seg t) \<subseteq> insert seg (timer_segs t)"
  "timer_segs (timer_Send seg t) \<subseteq> insert seg (timer_segs t)"
  "timer_segs (timer_expire t) \<subseteq> timer_segs t"
  "timer_segs (t\<lparr>t_next := None\<rparr>) \<subseteq> timer_segs t"
  by (auto simp: timer_segs_def timer_Cancel_def timer_Schedule_def timer_Send_def timer_expire_def
      split: option.splits)

lemma timer_run_segs: "timer_segs (timer_run i t) \<subseteq> timer_segs t"
proof (cases "i < length (t_fired t)")
  case True
  let ?t = "t\<lparr>t_fired := take i (t_fired t) @ drop (Suc i) (t_fired t)\<rparr>"
  have "timer_segs ?t \<subseteq> timer_segs t"
    by (auto simp: timer_segs_def dest: in_set_takeD in_set_dropD)
  moreover have "t_fired t ! i \<in> timer_segs t" using True by (simp add: timer_segs_def)
  ultimately show ?thesis
    using True timer_segs_sub(3) [of "t_fired t ! i" ?t] by (auto simp: timer_run_def)
qed (simp add: timer_run_def)

definition send_inv :: "u32 \<Rightarrow> nat \<Rightarrow> cell list \<Rightarrow> nat \<Rightarrow> simpleTcpSend \<Rightarrow> bool" where
  "send_inv isn maxSize D p s \<longleftrightarrow> wbuf_inv isn D p (s_writeBuf s) \<and>
     max 1 (unat (s_maxSegmentSize s)) \<le> maxSize \<and>
     (\<forall>seg \<in> timer_segs (s_timer s). seg_ok isn D (w_sendEOF (s_writeBuf s)) maxSize seg)"

lemma send_inv_new: "send_inv isn (max 1 (unat mss)) [] 0 (newSimpleTcpSend isn w mss)"
  using wbuf_inv_new [of isn]
  by (simp add: send_inv_def newSimpleTcpSend_def newTcpSendTimer_def timer_segs_def)

lemma segment_of_append: "segment_of isn D k seg \<Longrightarrow> \<not> Fin seg \<Longrightarrow> segment_of isn (D @ d) k seg"
  by (auto simp: segment_of_def)

lemma seg_ok_append: "seg_ok isn D False m seg \<Longrightarrow> seg_ok isn (D @ d) c m seg"
  by (auto simp: seg_ok_def intro: segment_of_append)

lemma seg_ok_closed: "seg_ok isn D c m seg \<Longrightarrow> seg_ok isn D True m seg"
  by (simp add: seg_ok_def)

text \<open>What \<open>sendNext\<close> does: nothing when all is acknowledged, a probe of one byte after the
  timer's delay when the peer's window is closed, and otherwise a segment at once, repeated
  until it is acknowledged, within the window and the segment size.\<close>

lemma sendNext_cases:
  assumes inv: "wbuf_inv isn D p (s_writeBuf s)"
  obtains
    (idle) "Remaining (s_writeBuf s) = 0" and
      "sendNext s = Some (s\<lparr>s_timer := timer_Cancel (s_timer s)\<rparr>)"
  | (probe) seg where "Remaining (s_writeBuf s) \<noteq> 0" and "s_window s = 0"
      and "Segment (s_writeBuf s) 1 = Some seg"
      and "sendNext s = Some (s\<lparr>s_timer := timer_Schedule seg (timer_Cancel (s_timer s))\<rparr>)"
  | (transmit) seg where "Remaining (s_writeBuf s) \<noteq> 0" and "s_window s \<noteq> 0"
      and "Segment (s_writeBuf s) (min (s_window s) (s_maxSegmentSize s)) = Some seg"
      and "sendNext s = Some (s\<lparr>s_timer := timer_Send seg (timer_Cancel (s_timer s))\<rparr>)"
proof (cases "Remaining (s_writeBuf s) = 0")
  case True
  then show ?thesis by (intro idle) (simp_all add: sendNext_def)
next
  case False
  show ?thesis
  proof (cases "s_window s = 0")
    case True
    obtain seg where "Segment (s_writeBuf s) 1 = Some seg"
      using Segment_ok [OF inv False] by metis
    then show ?thesis using True False by (intro probe) (simp_all add: sendNext_def)
  next
    case w: False
    obtain seg where seg: "Segment (s_writeBuf s) (min (s_window s) (s_maxSegmentSize s)) = Some seg"
      using Segment_ok [OF inv False] by metis
    have "sendNext s = Some (s\<lparr>s_timer := timer_Send seg (timer_Cancel (s_timer s))\<rparr>)"
      using w False seg
      by (cases "s_window s > s_maxSegmentSize s")
        (simp_all add: sendNext_def Let_def min_absorb1 min_absorb2 not_less leD)
    then show ?thesis using w False seg by (intro transmit)
  qed
qed

lemma sendNext_inv:
  assumes inv: "send_inv isn m D p s"
  obtains s' where "sendNext s = Some s'" and "send_inv isn m D p s'"
    and "s' = s\<lparr>s_timer := s_timer s'\<rparr>"
proof -
  have w: "wbuf_inv isn D p (s_writeBuf s)" and m: "1 \<le> m" "unat (s_maxSegmentSize s) \<le> m"
    using inv by (simp_all add: send_inv_def)
  have old: "seg_ok isn D (w_sendEOF (s_writeBuf s)) m seg" if "seg \<in> timer_segs (s_timer s)" for seg
    using inv that by (simp add: send_inv_def)
  have keep: "send_inv isn m D p (s\<lparr>s_timer := t\<rparr>)"
    if "\<And>seg. seg \<in> timer_segs t \<Longrightarrow> seg_ok isn D (w_sendEOF (s_writeBuf s)) m seg" for t
    using inv that by (simp add: send_inv_def)
  have ok: "seg_ok isn D (w_sendEOF (s_writeBuf s)) m seg"
    if prem: "Remaining (s_writeBuf s) \<noteq> 0" "Segment (s_writeBuf s) k = Some seg" "unat k \<le> m" for k seg
  proof -
    obtain seg' where "Segment (s_writeBuf s) k = Some seg'" "segment_of isn D p seg'"
      "Fin seg' = w_sendEOF (s_writeBuf s)"
      "length (Data seg') = (if w_sendEOF (s_writeBuf s) then 0 else min (unat k) (length D - p))"
      using Segment_ok [OF w prem(1)] .
    with prem(2,3) show ?thesis by (auto simp: seg_ok_def)
  qed
  from w show ?thesis
  proof (cases rule: sendNext_cases)
    case idle
    show ?thesis
      by (rule that [OF idle(2) keep]) (use old timer_segs_sub(1) [of "s_timer s"] in auto)
  next
    case (probe seg)
    have "timer_segs (timer_Schedule seg (timer_Cancel (s_timer s))) \<subseteq> insert seg (timer_segs (s_timer s))"
      using timer_segs_sub(1) [of "s_timer s"] timer_segs_sub(2) [of seg "timer_Cancel (s_timer s)"]
      by blast
    then show ?thesis
      using old ok [OF probe(1,3)] m by (intro that [OF probe(4) keep]) auto
  next
    case (transmit seg)
    have "timer_segs (timer_Send seg (timer_Cancel (s_timer s))) \<subseteq> insert seg (timer_segs (s_timer s))"
      using timer_segs_sub(1) [of "s_timer s"] timer_segs_sub(3) [of seg "timer_Cancel (s_timer s)"]
      by blast
    moreover have "unat (min (s_window s) (s_maxSegmentSize s)) \<le> m"
      using m by (auto simp: min_def word_le_nat_alt)
    ultimately show ?thesis
      using old ok [OF transmit(1,3)] by (intro that [OF transmit(4) keep]) auto
  qed
qed

lemma send_Handle_inv:
  assumes inv: "send_inv isn m D p s"
  obtains s' p' where "send_Handle s ack window = Some s'" and "send_inv isn m D p' s'" and "p \<le> p'"
    and "write_Handle (s_writeBuf s) ack = Some (s_writeBuf s')"
    and "s_notify s' = s_notify s + (if Remaining (s_writeBuf s') = 0 then 1 else 0)"
    and "s_failErr s' = s_failErr s"
proof -
  obtain t p' where t: "write_Handle (s_writeBuf s) ack = Some t" "wbuf_inv isn D p' t" "p \<le> p'"
    "w_sendEOF t = w_sendEOF (s_writeBuf s)"
    using write_Handle_inv [of isn D p "s_writeBuf s" ack] inv unfolding send_inv_def by metis
  let ?s = "s\<lparr>s_writeBuf := t, s_window := window\<rparr>"
  have "send_inv isn m D p' ?s" using inv t by (simp add: send_inv_def)
  then obtain s1 where s1: "sendNext ?s = Some s1" "send_inv isn m D p' s1"
    "s1 = ?s\<lparr>s_timer := s_timer s1\<rparr>"
    using sendNext_inv by metis
  have f: "s_writeBuf s1 = t" "s_notify s1 = s_notify s" "s_failErr s1 = s_failErr s"
    by (subst s1(3), simp)+
  show ?thesis
    by (rule that [of "if Remaining (s_writeBuf s1) = 0 then s1\<lparr>s_notify := s_notify s1 + 1\<rparr> else s1" p'])
      (use t s1(1,2) f in \<open>simp_all add: send_Handle_def send_inv_def\<close>)
qed

lemma writeOrClose_inv:
  assumes inv: "send_inv isn m D p s" and len: "length d < 2 ^ 32"
    and run: "writeOrClose s expired d close = Some (s', r)"
  obtains (returned) n e where "r = Wrote n e" and "s' = s"
  | (waiting) "r = WaitNotify (s_notify s)" and "w_buffer (s_writeBuf s) = []" and "\<not> w_sendEOF (s_writeBuf s)"
      and "w_sendEOF (s_writeBuf s') = close" and "\<not> w_sentEOF (s_writeBuf s')"
      and "send_inv isn m (if close then D else D @ d) (length D) s'"
      and "s_notify s' = s_notify s" and "s_failErr s' = None"
proof (cases "\<not> close \<and> expired \<or> w_sendEOF (s_writeBuf s) \<or> s_failErr s \<noteq> None")
  case True
  then show ?thesis using run by (auto simp: writeOrClose_def intro: returned split: if_splits)
next
  case False
  have wb: "wbuf_inv isn D p (s_writeBuf s)" using inv by (simp add: send_inv_def)
  obtain t where t: "(if close then SetEOF (s_writeBuf s) else SetData (s_writeBuf s) d) = Some t"
    "sendNext (s\<lparr>s_writeBuf := t\<rparr>) \<bind> (\<lambda>s. Some (s, WaitNotify (s_notify s))) = Some (s', r)"
    using run False by (auto simp: writeOrClose_def bind_eq_Some_conv)
  have empty: "w_buffer (s_writeBuf s) = []" "\<not> w_sendEOF (s_writeBuf s)" "\<not> w_sentEOF (s_writeBuf s)"
    using t(1) False wb by (auto simp: SetEOF_def SetData_def wbuf_inv_def split: if_splits)
  have p: "p = length D" "w_sequence (s_writeBuf s) = isn + of_nat (length D)"
    using empty wb by (auto simp: wbuf_inv_def)
  have t_eq: "t = (if close then (s_writeBuf s)\<lparr>w_sendEOF := True\<rparr> else (s_writeBuf s)\<lparr>w_buffer := d\<rparr>)"
    using t(1) by (auto simp: SetEOF_def SetData_def split: if_splits)
  have "wbuf_inv isn (if close then D else D @ d) (length D) t"
    using empty p len by (auto simp: wbuf_inv_def t_eq)
  moreover have "seg_ok isn (if close then D else D @ d) (w_sendEOF t) m seg"
    if "seg \<in> timer_segs (s_timer s)" for seg
    using inv that empty seg_ok_append seg_ok_closed by (auto simp: send_inv_def t_eq)
  ultimately have "send_inv isn m (if close then D else D @ d) (length D) (s\<lparr>s_writeBuf := t\<rparr>)"
    using inv by (auto simp: send_inv_def)
  then obtain s1 where s1: "sendNext (s\<lparr>s_writeBuf := t\<rparr>) = Some s1"
    "send_inv isn m (if close then D else D @ d) (length D) s1"
    "s1 = s\<lparr>s_writeBuf := t, s_timer := s_timer s1\<rparr>"
    using sendNext_inv by (metis simpleTcpSend.update_convs(4))
  have f: "s_writeBuf s1 = t" "s_notify s1 = s_notify s" "s_failErr s1 = s_failErr s"
    by (subst s1(3), simp)+
  have "s' = s1" "r = WaitNotify (s_notify s)" using t(2) s1(1) f by auto
  then show ?thesis
    using empty s1(2) f False t_eq by (intro waiting) auto
qed

lemma writeOrClose_panics_iff:
  assumes inv: "send_inv isn m D p s" and len: "length d < 2 ^ 32"
  shows "writeOrClose s expired d close = None \<longleftrightarrow>
    (close \<or> \<not> expired) \<and> \<not> w_sendEOF (s_writeBuf s) \<and> s_failErr s = None \<and> w_buffer (s_writeBuf s) \<noteq> []"
proof (cases "(close \<or> \<not> expired) \<and> \<not> w_sendEOF (s_writeBuf s) \<and> s_failErr s = None")
  case True
  show ?thesis
  proof (cases "w_buffer (s_writeBuf s) = []")
    case False
    with True show ?thesis by (auto simp: writeOrClose_def SetEOF_def SetData_def)
  next
    case empty: True
    have wb: "wbuf_inv isn D p (s_writeBuf s)" using inv by (simp add: send_inv_def)
    then have p: "p = length D" "w_sequence (s_writeBuf s) = isn + of_nat (length D)" "\<not> w_sentEOF (s_writeBuf s)"
      using empty True by (auto simp: wbuf_inv_def)
    define t where "t = (if close then (s_writeBuf s)\<lparr>w_sendEOF := True\<rparr> else (s_writeBuf s)\<lparr>w_buffer := d\<rparr>)"
    have "wbuf_inv isn (if close then D else D @ d) (length D) (s_writeBuf (s\<lparr>s_writeBuf := t\<rparr>))"
      using empty p len True by (auto simp: wbuf_inv_def t_def)
    then have "\<exists>s1. sendNext (s\<lparr>s_writeBuf := t\<rparr>) = Some s1"
      by (rule sendNext_cases) auto
    then show ?thesis
      using empty True by (auto simp: writeOrClose_def SetEOF_def SetData_def t_def)
  qed
qed (auto simp: writeOrClose_def)

section \<open>Reachable senders\<close>

text \<open>The sender of a connection: writes, acknowledgements with arbitrary numbers and windows,
  timers, failures.  A step may accept cells, and the connection may take a segment from \<open>Next\<close>.
  A single write has less than \<open>2 ^ 32\<close> bytes.\<close>

definition accepted :: "write_result \<Rightarrow> bool" where
  "accepted r \<longleftrightarrow> (case r of WaitNotify g \<Rightarrow> True | Wrote n e \<Rightarrow> False)"

inductive send_step :: "simpleTcpSend \<Rightarrow> cell list \<Rightarrow> cell tcpSegment list \<Rightarrow> simpleTcpSend \<Rightarrow> bool" where
  step_write: "length d < 2 ^ 32 \<Longrightarrow> Write s expired d = Some (s', r) \<Longrightarrow>
    send_step s (if accepted r then d else []) [] s'"
| step_close: "send_Close s expired = Some (s', r) \<Longrightarrow> send_step s [] [] s'"
| step_ack: "send_Handle s ack window = Some s' \<Longrightarrow> send_step s [] [] s'"
| step_fail: "send_step s [] [] (send_Fail s err)"
| step_expire: "send_step s [] [] (s\<lparr>s_timer := timer_expire (s_timer s)\<rparr>)"
| step_run: "send_step s [] [] (s\<lparr>s_timer := timer_run i (s_timer s)\<rparr>)"
| step_take: "t_next (s_timer s) = Some seg \<Longrightarrow> send_step s [] [seg] (s\<lparr>s_timer := (s_timer s)\<lparr>t_next := None\<rparr>\<rparr>)"

text \<open>\<open>C\<close> is the cells that \<open>Write\<close> has accepted, \<open>taken\<close> the segments that were taken.\<close>

inductive send_reach ::
  "u32 \<Rightarrow> u16 \<Rightarrow> u16 \<Rightarrow> simpleTcpSend \<Rightarrow> cell list \<Rightarrow> cell tcpSegment list \<Rightarrow> bool" for isn w mss where
  send_new: "send_reach isn w mss (newSimpleTcpSend isn w mss) [] []"
| send_next: "send_reach isn w mss s C taken \<Longrightarrow> send_step s d out s' \<Longrightarrow>
    send_reach isn w mss s' (C @ d) (taken @ out)"

text \<open>The sender and the memory of those who call it, which they change as they like: \<open>D\<close> is what was in the cells
  when \<open>Write\<close> accepted them, and \<open>U\<close> the positions in the stream whose cells have been changed since.\<close>

inductive memory_reach ::
  "u32 \<Rightarrow> u16 \<Rightarrow> u16 \<Rightarrow> simpleTcpSend \<Rightarrow> cell list \<Rightarrow> cell tcpSegment list \<Rightarrow> memory \<Rightarrow> bytes \<Rightarrow> nat set \<Rightarrow> bool"
  for isn w mss where
  memory_new: "memory_reach isn w mss (newSimpleTcpSend isn w mss) [] [] mem [] {}"
| memory_next: "memory_reach isn w mss s C taken mem D U \<Longrightarrow> send_step s d out s' \<Longrightarrow>
    memory_reach isn w mss s' (C @ d) (taken @ out) mem (D @ map mem d) U"
| memory_change: "memory_reach isn w mss s C taken mem D U \<Longrightarrow>
    memory_reach isn w mss s C taken (mem(a := b)) D (U \<union> {i. i < length C \<and> C ! i = a})"

lemma memory_reach_send: "memory_reach isn w mss s C taken mem D U \<Longrightarrow> send_reach isn w mss s C taken"
  by (induction rule: memory_reach.induct) (auto intro: send_new send_next)

lemma memory_reach_bytes:
  "memory_reach isn w mss s C taken mem D U \<Longrightarrow>
     length D = length C \<and> (\<forall>i < length C. i \<notin> U \<longrightarrow> mem (C ! i) = D ! i)"
  by (induction rule: memory_reach.induct) (auto simp: nth_append)

lemma send_inv_timer:
  "send_inv isn m D p s \<Longrightarrow> timer_segs t \<subseteq> timer_segs (s_timer s) \<Longrightarrow> send_inv isn m D p (s\<lparr>s_timer := t\<rparr>)"
  by (auto simp: send_inv_def)

lemma Write_eq: "Write s expired d = (if d = [] then Some (s, Wrote 0 None) else writeOrClose s expired d False)"
  by (simp add: Write_def)

text \<open>The sender's invariant together with what the loop has taken from it.\<close>

definition send_taken :: "u32 \<Rightarrow> nat \<Rightarrow> cell list \<Rightarrow> simpleTcpSend \<Rightarrow> cell tcpSegment list \<Rightarrow> bool" where
  "send_taken isn m D s taken \<longleftrightarrow>
     (\<exists>p. send_inv isn m D p s) \<and> (\<forall>seg \<in> set taken. seg_ok isn D (w_sendEOF (s_writeBuf s)) m seg)"

lemma send_taken_timer:
  "send_taken isn m D s taken \<Longrightarrow> timer_segs t \<subseteq> timer_segs (s_timer s) \<Longrightarrow> send_taken isn m D (s\<lparr>s_timer := t\<rparr>) taken"
  unfolding send_taken_def by (auto intro: send_inv_timer)

lemma send_taken_writeOrClose:
  assumes taken: "send_taken isn m D s taken" and len: "length d < 2 ^ 32"
    and run: "writeOrClose s expired d close = Some (s', r)"
  shows "send_taken isn m (if accepted r \<and> \<not> close then D @ d else D) s' taken"
proof -
  obtain p where "send_inv isn m D p s" using taken by (auto simp: send_taken_def)
  from this len run show ?thesis
  proof (cases rule: writeOrClose_inv)
    case (returned n e)
    then show ?thesis using taken by (simp add: accepted_def)
  next
    case waiting
    then show ?thesis using taken seg_ok_append seg_ok_closed by (auto simp: send_taken_def accepted_def)
  qed
qed

lemma send_taken_Write:
  assumes "send_taken isn m D s taken" and "length d < 2 ^ 32" and "Write s expired d = Some (s', r)"
  shows "send_taken isn m (if accepted r then D @ d else D) s' taken"
  using send_taken_writeOrClose [OF assms(1,2), of expired False s' r] assms
  by (cases "d = []") (auto simp: Write_eq accepted_def)

lemma send_taken_Handle:
  assumes taken: "send_taken isn m D s taken" and run: "send_Handle s ack window = Some s'"
  shows "send_taken isn m D s' taken"
proof -
  obtain p where inv: "send_inv isn m D p s" using taken by (auto simp: send_taken_def)
  obtain p' where h: "send_inv isn m D p' s'" "write_Handle (s_writeBuf s) ack = Some (s_writeBuf s')"
    using send_Handle_inv [OF inv, of ack window] run by (metis option.inject)
  have "w_sendEOF (s_writeBuf s') = w_sendEOF (s_writeBuf s)"
    using write_Handle_inv [of isn D p "s_writeBuf s" ack] inv h(2) unfolding send_inv_def by (metis option.inject)
  with taken h(1) show ?thesis by (auto simp: send_taken_def)
qed

lemma send_taken_step:
  assumes taken: "send_taken isn m D s taken" and step: "send_step s d out s'"
  shows "send_taken isn m (D @ d) s' (taken @ out)"
  using step
proof cases
  case (step_write d' expired r)
  then show ?thesis using send_taken_Write [OF taken step_write(3,4)] by (cases "accepted r") simp_all
next
  case (step_close expired r)
  then show ?thesis using send_taken_writeOrClose [OF taken, of "[]" expired True s' r] by (simp add: send_Close_def)
next
  case (step_ack ack window)
  then show ?thesis using send_taken_Handle [OF taken] by simp
next
  case (step_take seg)
  then have "seg_ok isn D (w_sendEOF (s_writeBuf s)) m seg"
    using taken by (auto simp: send_taken_def send_inv_def timer_segs_def)
  then show ?thesis using step_take send_taken_timer [OF taken timer_segs_sub(5)] by (simp add: send_taken_def)
next
  case (step_fail err)
  then show ?thesis using taken by (auto simp: send_taken_def send_Fail_def send_inv_def)
qed (use send_taken_timer [OF taken timer_segs_sub(4)] send_taken_timer [OF taken timer_run_segs] in simp_all)

lemma send_reach_taken: "send_reach isn w mss s D taken \<Longrightarrow> send_taken isn (max 1 (unat mss)) D s taken"
proof (induction rule: send_reach.induct)
  case send_new
  then show ?case using send_inv_new by (auto simp: send_taken_def)
qed (blast intro: send_taken_step)

lemma send_reach_inv:
  assumes "send_reach isn w mss s D taken"
  obtains p where "send_inv isn (max 1 (unat mss)) D p s"
  using send_reach_taken [OF assms] by (auto simp: send_taken_def)

section \<open>Writes complete\<close>

text \<open>What may happen before the last acknowledgement: others, of less than \<open>n\<close> bytes, in any
  order, and anything with the timer.\<close>

definition before_ack :: "u32 \<Rightarrow> nat \<Rightarrow> send_event \<Rightarrow> bool" where
  "before_ack seq n e \<longleftrightarrow> (case e of
     Acked ack window \<Rightarrow> unat (ack - seq) < n | SendBreak err \<Rightarrow> False | SendExpire \<Rightarrow> False
   | TimerExpire \<Rightarrow> True | TimerRun i \<Rightarrow> True | Taken \<Rightarrow> True)"

lemma before_ack_partial:
  fixes n p base :: nat and ack isn :: u32
  assumes "unat (ack - (isn + of_nat base)) < n" and "base \<le> p" and "p < base + n" and "n < 2 ^ 32"
  shows "p + unat (ack - (isn + of_nat p)) \<noteq> base + n"
proof -
  define i where "i = unat (ack - (isn + of_nat base))"
  have "ack = of_nat (base + i) + isn" by (simp add: i_def)
  moreover have "unat (of_nat (base + i) + isn - (isn + of_nat p)) =
      (if p \<le> base + i then base + i - p else 2 ^ 32 - (p - (base + i)))"
    using seq_offset [of p "base + i" isn] seq_offset_behind [of "base + i" p isn] assms i_def
    by (cases "p \<le> base + i") (simp_all only: not_le if_True if_False, simp_all)
  ultimately have "unat (ack - (isn + of_nat p)) =
      (if p \<le> base + i then base + i - p else 2 ^ 32 - (p - (base + i)))" by (simp only:)
  moreover have "i < n" using assms(1) by (simp add: i_def)
  ultimately show ?thesis using assms(2-4) by (simp split: if_splits)
qed

text \<open>The sender in the middle of a \<open>Write\<close> of the last \<open>n\<close> bytes of \<open>D\<close>.\<close>

definition writing :: "u32 \<Rightarrow> nat \<Rightarrow> cell list \<Rightarrow> nat \<Rightarrow> nat \<Rightarrow> simpleTcpSend \<Rightarrow> bool" where
  "writing isn m D n g s \<longleftrightarrow> (\<exists>p. send_inv isn m D p s \<and> length D - n \<le> p \<and> p < length D) \<and>
     n \<le> length D \<and> n < 2 ^ 32 \<and> \<not> w_sendEOF (s_writeBuf s) \<and> s_failErr s = None \<and> s_notify s = g"

lemma writing_before:
  assumes "writing isn m D n g s" and "unat (ack - (isn + of_nat (length D - n))) < n"
  obtains s' where "send_Handle s ack window = Some s'" and "writing isn m D n g s'"
proof -
  obtain p where p: "send_inv isn m D p s" "length D - n \<le> p" "p < length D" "\<not> w_sendEOF (s_writeBuf s)"
    "n \<le> length D" "n < 2 ^ 32" "s_failErr s = None" "s_notify s = g"
    using assms(1) by (auto simp: writing_def)
  then have wb: "wbuf_inv isn D p (s_writeBuf s)" by (simp add: send_inv_def)
  define j where "j = p + unat (ack - (isn + of_nat p))"
  have j: "j \<noteq> length D"
    using before_ack_partial [OF assms(2) p(2)] p(3,5,6) by (simp add: j_def)
  obtain s' p' where s': "send_Handle s ack window = Some s'" "send_inv isn m D p' s'" "p \<le> p'"
    "write_Handle (s_writeBuf s) ack = Some (s_writeBuf s')"
    "s_notify s' = s_notify s + (if Remaining (s_writeBuf s') = 0 then 1 else 0)" "s_failErr s' = s_failErr s"
    using send_Handle_inv [OF p(1)] by metis
  have wb': "wbuf_inv isn D p' (s_writeBuf s')" using s'(2) by (simp add: send_inv_def)
  have "w_buffer (s_writeBuf s') \<noteq> [] \<and> \<not> w_sendEOF (s_writeBuf s')"
    using write_Handle_position [OF wb p(4), of ack] s'(4) j p(3,4) wb
    by (auto simp: j_def Let_def wbuf_inv_def split: if_splits)
  then have "p' < length D" "Remaining (s_writeBuf s') \<noteq> 0" "\<not> w_sendEOF (s_writeBuf s')"
    using wb' Remaining_eq_0_iff [OF wb'] by (auto simp: wbuf_inv_def)
  then show ?thesis
    using s' p by (intro that [OF s'(1)]) (auto simp: writing_def)
qed

lemma writing_last:
  assumes "writing isn m D n g s" and "ack = isn + of_nat (length D)"
  obtains s' where "send_Handle s ack window = Some s'" and "s_notify s' = g + 1"
    and "s_failErr s' = None" and "w_buffer (s_writeBuf s') = []" and "send_Seq s' = ack"
proof -
  obtain p where p: "send_inv isn m D p s" "length D - n \<le> p" "p < length D" "\<not> w_sendEOF (s_writeBuf s)"
    "n \<le> length D" "n < 2 ^ 32" "s_failErr s = None" "s_notify s = g"
    using assms(1) by (auto simp: writing_def)
  then have wb: "wbuf_inv isn D p (s_writeBuf s)" by (simp add: send_inv_def)
  have "unat (of_nat (length D) + isn - (isn + of_nat p)) = length D - p"
    using p(2,3,5,6) by (intro seq_offset) auto
  then have j: "p + unat (ack - (isn + of_nat p)) = length D"
    using p(3) by (simp add: assms(2) add.commute)
  obtain s' p' where s': "send_Handle s ack window = Some s'" "send_inv isn m D p' s'"
    "write_Handle (s_writeBuf s) ack = Some (s_writeBuf s')"
    "s_notify s' = s_notify s + (if Remaining (s_writeBuf s') = 0 then 1 else 0)" "s_failErr s' = s_failErr s"
    using send_Handle_inv [OF p(1)] by metis
  have t: "s_writeBuf s' = (s_writeBuf s)\<lparr>w_sequence := isn + of_nat (length D), w_buffer := []\<rparr>"
    using write_Handle_position [OF wb p(4), of ack] s'(3) unfolding j Let_def by simp
  have "Remaining (s_writeBuf s') = 0" using p(4) by (simp add: t Remaining_def)
  then show ?thesis using s' p by (intro that [OF s'(1)]) (simp_all add: t send_Seq_def assms(2))
qed

lemma writing_timer:
  assumes "writing isn m D n g s" and "timer_segs t \<subseteq> timer_segs (s_timer s)"
  shows "writing isn m D n g (s\<lparr>s_timer := t\<rparr>)"
  using assms send_inv_timer [OF _ assms(2), of isn m D] unfolding writing_def by auto

lemma await_completes:
  assumes "writing isn m D n g s" and "\<forall>e \<in> set before. before_ack (isn + of_nat (length D - n)) n e"
  shows "\<exists>s'. await_notify s d g (before @ Acked (isn + of_nat (length D)) window # rest) =
      Some (s', Wrote (int (length d)) None) \<and>
    send_Seq s' = isn + of_nat (length D) \<and> w_buffer (s_writeBuf s') = []"
  using assms
proof (induction before arbitrary: s)
  case Nil
  then have g: "s_notify s = g" by (simp add: writing_def)
  obtain s' where "send_Handle s (isn + of_nat (length D)) window = Some s'" "s_notify s' = g + 1"
    "s_failErr s' = None" "w_buffer (s_writeBuf s') = []" "send_Seq s' = isn + of_nat (length D)"
    using writing_last [OF Nil(1) refl] by metis
  then show ?case
    using g by (simp add: await_notify.simps [of s] await_notify.simps [of s'] write_woken_def)
next
  case (Cons e before)
  then have g: "s_notify s = g" by (simp add: writing_def)
  show ?case
  proof (cases e)
    case (Acked ack win)
    then obtain s' where "send_Handle s ack win = Some s'" "writing isn m D n g s'"
      using writing_before [OF Cons.prems(1)] Cons.prems(2) by (auto simp: before_ack_def)
    then show ?thesis using Cons.IH [of s'] Cons.prems(2) g Acked
      by (simp add: await_notify.simps [of s])
  next
    case TimerExpire
    then show ?thesis
      using Cons.IH [OF writing_timer [OF Cons.prems(1) timer_segs_sub(4)]] Cons.prems(2) g
      by (simp add: await_notify.simps [of s])
  next
    case (TimerRun i)
    then show ?thesis
      using Cons.IH [OF writing_timer [OF Cons.prems(1) timer_run_segs]] Cons.prems(2) g
      by (simp add: await_notify.simps [of s])
  next
    case Taken
    then show ?thesis
      using Cons.IH [OF writing_timer [OF Cons.prems(1) timer_segs_sub(5)]] Cons.prems(2) g
      by (simp add: await_notify.simps [of s])
  qed (use Cons.prems(2) in \<open>auto simp: before_ack_def\<close>)
qed

text \<open>A \<open>Write\<close> that starts on an empty buffer gets into that state.\<close>

lemma Write_starts:
  assumes inv: "send_inv isn m D p s" and "w_buffer (s_writeBuf s) = []" and "\<not> w_sendEOF (s_writeBuf s)"
    and "s_failErr s = None" and "d \<noteq> []" and "length d < 2 ^ 32"
  obtains s' where "Write s False d = Some (s', WaitNotify (s_notify s))"
    and "writing isn m (D @ d) (length d) (s_notify s) s'" and "w_buffer (s_writeBuf s') = d"
proof -
  have "Write s False d = writeOrClose s False d False" using assms(5) by (simp add: Write_eq)
  moreover have "writeOrClose s False d False \<noteq> None"
    using writeOrClose_panics_iff [OF inv assms(6)] assms(2) by simp
  ultimately obtain s' r where run: "Write s False d = Some (s', r)" "writeOrClose s False d False = Some (s', r)"
    by auto
  from inv assms(6) run(2) show ?thesis
  proof (cases rule: writeOrClose_inv)
    case (returned n e)
    have False using run(2) returned assms(3,4)
      by (auto simp: writeOrClose_def bind_eq_Some_conv)
    then show ?thesis ..
  next
    case waiting
    then have "send_inv isn m (D @ d) (length D) s'" by simp
    with waiting run(1) assms(5,6) show ?thesis
      by (intro that) (auto simp: writing_def send_inv_def wbuf_inv_def intro!: exI [of _ "length D"])
  qed
qed

section \<open>Properties\<close>

text \<open>C4: Whatever acknowledgements and windows arrive, and whatever the callers do with their memory: every
  segment that the sender hands to the connection, keeps for a repetition or is about to repeat is a slice of
  the cells that \<open>Write\<close> has accepted, at their place in the stream, with no more data than the segment size
  (or the single byte of a probe), and is a FIN only after \<open>Close\<close>.  Read through the memory, now or at any
  later time, it has the byte that was written at every position whose cell has been left alone since; so it
  is a segment of the bytes that were written if none was changed, and one for every receiver at position \<open>p\<close> if
  only cells before \<open>p\<close> were.\<close>

theorem sender_segments_correct:
  assumes "memory_reach isn w mss s C taken mem D U" and "seg \<in> set taken \<union> timer_segs (s_timer s)"
  shows "length D = length C \<and> length (Data seg) \<le> max 1 (unat mss) \<and> (Fin seg \<longrightarrow> w_sendEOF (s_writeBuf s)) \<and>
    (\<exists>k. segment_of isn C k seg \<and>
      (\<forall>i < length (Data seg). k + i \<notin> U \<longrightarrow> Data (seg_load mem seg) ! i = D ! (k + i)) \<and>
      (U = {} \<longrightarrow> segment_of isn D k (seg_load mem seg)) \<and>
      (\<forall>p. U \<subseteq> {..<p} \<longrightarrow> segment_from isn D p k (seg_load mem seg)))"
proof -
  note bytes = memory_reach_bytes [OF assms(1)]
  have ok: "seg_ok isn C (w_sendEOF (s_writeBuf s)) (max 1 (unat mss)) seg"
    using send_reach_taken [OF memory_reach_send [OF assms(1)]] assms(2) by (auto simp: send_taken_def send_inv_def)
  then obtain k where k: "segment_of isn C k seg" by (auto simp: seg_ok_def)
  have load: "mem (Data seg ! i) = D ! (k + i)" if "i < length (Data seg)" "k + i \<notin> U" for i
    using segment_of_nth [OF k that(1)] k bytes that by (simp add: segment_of_def)
  have part: "segment_from isn D p k (seg_load mem seg)" if "U \<subseteq> {..<p}" for p
  proof -
    have "k + i \<notin> U" if "p \<le> k + i" for i using \<open>U \<subseteq> {..<p}\<close> that by auto
    then show ?thesis using k bytes load by (simp add: segment_from_def segment_of_def)
  qed
  moreover have "segment_of isn D k (seg_load mem seg)" if "U = {}"
    using part [of 0] that segment_from_all by simp
  ultimately show ?thesis using ok k load bytes by (auto simp: seg_ok_def)
qed

text \<open>A sender after its first \<open>Write\<close>, for the examples.\<close>

definition fresh_sender :: simpleTcpSend where
  "fresh_sender = newSimpleTcpSend 0xfffffffe 1000 2"

lemma fresh_sender_facts:
  "w_buffer (s_writeBuf fresh_sender) = []" "\<not> w_sendEOF (s_writeBuf fresh_sender)"
  "s_failErr fresh_sender = None" "send_Seq fresh_sender = 0xfffffffe"
  "send_reach 0xfffffffe 1000 2 fresh_sender [] []"
  using send_new [of "0xfffffffe" 1000 2]
  by (simp_all add: fresh_sender_def newSimpleTcpSend_def newTCPWriteBuffer_def send_Seq_def)

lemma fresh_write:
  obtains s where "Write fresh_sender False [1, 2, 3] = Some (s, WaitNotify 0)"
    and "t_next (s_timer s) = Some \<lparr>Start = 0xfffffffe, Data = [1, 2], Fin = False\<rparr>"
    and "send_reach 0xfffffffe 1000 2 s [1, 2, 3] []" and "w_buffer (s_writeBuf s) = [1, 2, 3]"
    and "\<And>mem. memory_reach 0xfffffffe 1000 2 s [1, 2, 3] [] mem (map mem [1, 2, 3]) {}"
    and "w_sendEOF (s_writeBuf s) = False" and "send_Seq s = 0xfffffffe" and "s_failErr s = None"
proof -
  obtain s where s: "Write fresh_sender False [1, 2, 3] = Some (s, WaitNotify 0)"
    "t_next (s_timer s) = Some \<lparr>Start = 0xfffffffe, Data = [1, 2], Fin = False\<rparr>"
    "w_buffer (s_writeBuf s) = [1, 2, 3]" "w_sendEOF (s_writeBuf s) = False" "send_Seq s = 0xfffffffe"
    "s_failErr s = None"
    by (simp add: fresh_sender_def newSimpleTcpSend_def newTCPWriteBuffer_def newTcpSendTimer_def
        Write_def writeOrClose_def SetData_def sendNext_def timer_Cancel_def timer_Send_def
        timer_Schedule_def Segment_def Remaining_def send_Seq_def)
  have step: "send_step fresh_sender [1, 2, 3] [] s"
    using step_write [of "[1, 2, 3]" fresh_sender False s "WaitNotify 0"] s(1) by (simp add: accepted_def)
  have mem: "memory_reach 0xfffffffe 1000 2 s [1, 2, 3] [] mem (map mem [1, 2, 3]) {}" for mem
    using memory_next [OF memory_new [of "0xfffffffe" 1000 2 mem, folded fresh_sender_def] step] by simp
  show ?thesis using s mem memory_reach_send [OF mem] by (intro that) simp_all
qed

text \<open>The cells 1, 2 and 3 are written, the first two go into a segment; then cell 1 is changed.\<close>

theorem sender_segments_correct_witness:
  "\<exists>s seg mem. memory_reach 0xfffffffe 1000 2 s [1, 2, 3] [] mem [65, 66, 67] {} \<and> t_next (s_timer s) = Some seg \<and>
     (\<exists>k. segment_of 0xfffffffe [1, 2, 3] k seg) \<and> (\<exists>k. segment_of 0xfffffffe [65, 66, 67] k (seg_load mem seg)) \<and>
     memory_reach 0xfffffffe 1000 2 s [1, 2, 3] [] (mem(1 := 9)) [65, 66, 67] {0} \<and>
     (\<exists>k. segment_from 0xfffffffe [65, 66, 67] 1 k (seg_load (mem(1 := 9)) seg))"
proof -
  define mem :: memory where "mem = (\<lambda>c. 64 + of_nat c)"
  obtain s where s: "t_next (s_timer s) = Some \<lparr>Start = 0xfffffffe, Data = [1, 2], Fin = False\<rparr>"
    "memory_reach 0xfffffffe 1000 2 s [1, 2, 3] [] mem (map mem [1, 2, 3]) {}"
    using fresh_write by metis
  define seg :: "cell tcpSegment" where "seg = \<lparr>Start = 0xfffffffe, Data = [1, 2], Fin = False\<rparr>"
  have bytes: "map mem [1, 2, 3] = [65, 66, 67]" by (simp add: mem_def)
  have "{} \<union> {i. i < length [1 :: cell, 2, 3] \<and> [1, 2, 3] ! i = (1 :: cell)} = {0}"
    by (auto simp: less_Suc_eq)
  then have change: "memory_reach 0xfffffffe 1000 2 s [1, 2, 3] [] (mem(1 := 9)) [65, 66, 67] {0}"
    using memory_change [OF s(2), of 1 9] bytes by simp
  have seg: "seg \<in> set [] \<union> timer_segs (s_timer s)" by (simp add: s(1) seg_def timer_segs_def)
  note now = sender_segments_correct [OF s(2) [unfolded bytes] seg] and later = sender_segments_correct [OF change seg]
  have "(\<exists>k. segment_of 0xfffffffe [1, 2, 3] k seg) \<and> (\<exists>k. segment_of 0xfffffffe [65, 66, 67] k (seg_load mem seg))"
    using now by blast
  moreover have "\<exists>k. segment_from 0xfffffffe [65, 66, 67] 1 k (seg_load (mem(1 := 9)) seg)"
    using later by (metis lessThan_iff less_one subsetI singletonD)
  ultimately show ?thesis using s change bytes by (intro exI [of _ s] exI [of _ seg] exI [of _ mem]) (simp add: seg_def)
qed

text \<open>\<open>Write\<close> may return while slices of its argument are still about to be sent, against the contract of
  \<open>io.Writer\<close>: with full success, when the timer has put a repetition into \<open>next\<close> just before the
  acknowledgement (\<open>Cancel\<close> does not take it out again), and with everything behind a deadline.  What the
  caller then stores in its slice is sent in place of what it has written.\<close>

theorem slice_outlives_write:
  "\<exists>s1 s2 seg. seg = \<lparr>Start = 0xfffffffe, Data = [1, 2], Fin = False\<rparr> \<and>
     write_call fresh_sender [1, 2] False [Taken, TimerExpire, TimerRun 0, Acked 0 1000] = Some (s1, Wrote 2 None) \<and>
     t_next (s_timer s1) = Some seg \<and>
     write_call fresh_sender [1, 2] False [SendExpire] = Some (s2, Wrote 0 (Some WriteTimeout)) \<and>
     t_next (s_timer s2) = Some seg \<and>
     (\<forall>mem b k. b \<noteq> mem 1 \<longrightarrow> \<not> segment_of 0xfffffffe (map mem [1, 2]) k (seg_load (mem(1 := b)) seg))"
proof -
  define seg :: "cell tcpSegment" where "seg = \<lparr>Start = 0xfffffffe, Data = [1, 2], Fin = False\<rparr>"
  note defs = fresh_sender_def newSimpleTcpSend_def newTCPWriteBuffer_def newTcpSendTimer_def write_call_def Write_def
    writeOrClose_def SetData_def sendNext_def timer_Cancel_def timer_Send_def timer_Schedule_def Segment_def
    Remaining_def timer_expire_def timer_run_def send_Handle_def write_Handle_def write_woken_def Let_def
  obtain s1 where "write_call fresh_sender [1, 2] False [Taken, TimerExpire, TimerRun 0, Acked 0 1000] = Some (s1, Wrote 2 None)"
    "t_next (s_timer s1) = Some seg"
    by (simp add: defs await_notify.simps seg_def)
  moreover obtain s2 where "write_call fresh_sender [1, 2] False [SendExpire] = Some (s2, Wrote 0 (Some WriteTimeout))"
    "t_next (s_timer s2) = Some seg"
    by (simp add: defs await_notify.simps seg_def)
  moreover have "\<not> segment_of 0xfffffffe (map mem [1, 2]) k (seg_load (mem(1 := b)) seg)" if "b \<noteq> mem 1" for mem b k
    using that by (auto simp: segment_of_def seg_def)
  ultimately show ?thesis by (intro exI [of _ s1] exI [of _ s2] exI [of _ seg]) (simp add: seg_def)
qed

text \<open>C7: \<open>Write\<close> returns successfully with the full count once all its data is acknowledged,
  whatever partial, repeated or reordered acknowledgements and timer events come before; the
  sequence number has then advanced by the length and the next \<open>Write\<close> may start.\<close>

theorem write_completes:
  assumes "send_reach isn w mss s D taken" and "w_buffer (s_writeBuf s) = []"
    and "\<not> w_sendEOF (s_writeBuf s)" and "s_failErr s = None" and "d \<noteq> []" and "length d < 2 ^ 32"
    and "\<forall>e \<in> set before. before_ack (send_Seq s) (length d) e"
  shows "\<exists>s'. write_call s d False
      (before @ Acked (send_Seq s + of_nat (length d)) window # rest) = Some (s', Wrote (int (length d)) None) \<and>
    send_Seq s' = send_Seq s + of_nat (length d) \<and> w_buffer (s_writeBuf s') = []"
proof -
  obtain p where inv: "send_inv isn (max 1 (unat mss)) D p s"
    using send_reach_inv [OF assms(1)] by blast
  then have seq: "send_Seq s = isn + of_nat (length D)"
    using assms(2,3) by (auto simp: send_inv_def wbuf_inv_def send_Seq_def)
  obtain s1 where s1: "Write s False d = Some (s1, WaitNotify (s_notify s))"
    "writing isn (max 1 (unat mss)) (D @ d) (length d) (s_notify s) s1"
    using Write_starts [OF inv assms(2-6)] by metis
  have "\<exists>s'. await_notify s1 d (s_notify s) (before @ Acked (isn + of_nat (length (D @ d))) window # rest) =
      Some (s', Wrote (int (length d)) None) \<and>
    send_Seq s' = isn + of_nat (length (D @ d)) \<and> w_buffer (s_writeBuf s') = []"
    by (rule await_completes [OF s1(2)]) (use assms(7) seq in simp)
  then show ?thesis by (simp add: write_call_def s1(1) seq add.assoc)
qed

theorem write_completes_witness:
  "\<exists>s'. write_call fresh_sender [1, 2, 3] False
      [Taken, Acked 0 1000, Acked 0xffffffff 1000, TimerExpire, Acked 1 1000] = Some (s', Wrote 3 None) \<and>
    send_Seq s' = 1"
proof -
  have "\<exists>s'. write_call fresh_sender [1, 2, 3] False
      ([Taken, Acked 0 1000, Acked 0xffffffff 1000, TimerExpire] @
        Acked (send_Seq fresh_sender + of_nat (length [1::cell, 2, 3])) 1000 # []) =
      Some (s', Wrote (int (length [1::cell, 2, 3])) None) \<and>
    send_Seq s' = send_Seq fresh_sender + of_nat (length [1::cell, 2, 3]) \<and> w_buffer (s_writeBuf s') = []"
    by (rule write_completes [OF fresh_sender_facts(5,1,2,3)])
      (simp_all add: fresh_sender_facts(4) before_ack_def)
  moreover have eq: "send_Seq fresh_sender + of_nat (length [1::cell, 2, 3]) = 1"
    by (simp add: fresh_sender_facts(4) word_unat_eq_iff)
  ultimately show ?thesis unfolding eq by auto
qed

text \<open>The comparison of acknowledgements in 32-bit arithmetic is the comparison of positions
  in the stream: an acknowledgement of position \<open>j\<close> moves the buffer there when \<open>j\<close> is not
  behind it and not beyond the data, and changes nothing otherwise.  \<open>Handle\<close> never panics.\<close>

theorem ack_moves_buffer:
  assumes "send_reach isn w mss s D taken" and "\<not> w_sendEOF (s_writeBuf s)"
    and "p = length D - length (w_buffer (s_writeBuf s))"
    and "j < p + 2 ^ 32" and "length D < j + 2 ^ 32"
  shows "\<exists>s'. send_Handle s (isn + of_nat j) window = Some s' \<and>
    w_buffer (s_writeBuf s') = (if p \<le> j \<and> j \<le> length D then drop j D else w_buffer (s_writeBuf s)) \<and>
    send_Seq s' = isn + of_nat (if p \<le> j \<and> j \<le> length D then j else p)"
proof -
  obtain q where inv: "send_inv isn (max 1 (unat mss)) D q s"
    using send_reach_inv [OF assms(1)] by blast
  then have wb: "wbuf_inv isn D q (s_writeBuf s)" by (simp add: send_inv_def)
  then have q: "p = q" "q \<le> length D" "w_sequence (s_writeBuf s) = isn + of_nat q"
    using assms(2,3) by (auto simp: wbuf_inv_def)
  obtain s' where s': "send_Handle s (isn + of_nat j) window = Some s'"
    "write_Handle (s_writeBuf s) (isn + of_nat j) = Some (s_writeBuf s')"
    using send_Handle_inv [OF inv] by metis
  have off: "unat (isn + of_nat j - (isn + of_nat q)) = (if q \<le> j then j - q else 2 ^ 32 - (q - j))"
    using seq_offset [of q j isn] seq_offset_behind [of j q isn] assms(4,5) q(1,2)
    by (cases "q \<le> j") (simp_all add: add.commute)
  have "q + (2 ^ 32 - (q - j)) > length D" if "\<not> q \<le> j" using that assms(5) q(2) by simp
  then have t: "s_writeBuf s' = (if q \<le> j \<and> j \<le> length D
      then (s_writeBuf s)\<lparr>w_sequence := isn + of_nat j, w_buffer := drop j D\<rparr> else s_writeBuf s)"
    using write_Handle_position [OF wb assms(2), of "isn + of_nat j"] s'(2) unfolding off Let_def
    by (auto split: if_splits)
  then show ?thesis using s'(1) q by (auto simp: send_Seq_def)
qed

theorem ack_moves_buffer_witness:
  "\<exists>s s'. w_buffer (s_writeBuf s) = [1, 2, 3] \<and> send_Handle s 0 1000 = Some s' \<and>
     w_buffer (s_writeBuf s') = [3]"
proof -
  obtain s where s: "send_reach 0xfffffffe 1000 2 s [1, 2, 3] []" "w_buffer (s_writeBuf s) = [1, 2, 3]"
    "w_sendEOF (s_writeBuf s) = False"
    using fresh_write by metis
  have "\<exists>s'. send_Handle s (0xfffffffe + of_nat 2) 1000 = Some s' \<and>
    w_buffer (s_writeBuf s') = (if (0::nat) \<le> 2 \<and> 2 \<le> length [1::cell, 2, 3] then drop 2 [1, 2, 3]
      else w_buffer (s_writeBuf s)) \<and>
    send_Seq s' = 0xfffffffe + of_nat (if (0::nat) \<le> 2 \<and> 2 \<le> length [1::cell, 2, 3] then 2 else 0)"
    by (rule ack_moves_buffer [OF s(1)]) (use s in simp_all)
  moreover have eq: "0xfffffffe + of_nat 2 = (0 :: u32)" by (simp add: word_unat_eq_iff)
  ultimately show ?thesis using s(2) unfolding eq by auto
qed

text \<open>After a \<open>Write\<close> that ran into its deadline the sender is broken: the data of the timed
  out call is still in the buffer, so the next \<open>Write\<close> and \<open>Close\<close> panic with
  \<open>already sending something\<close>.\<close>

theorem write_after_timeout_panics:
  assumes "send_reach isn w mss s D taken" and "w_buffer (s_writeBuf s) = []"
    and "\<not> w_sendEOF (s_writeBuf s)" and "s_failErr s = None" and "d \<noteq> []" and "length d < 2 ^ 32"
    and "d' \<noteq> []"
  shows "\<exists>s'. write_call s d False [SendExpire] = Some (s', Wrote 0 (Some WriteTimeout)) \<and>
    Write s' False d' = None \<and> send_Close s' expired = None"
proof -
  obtain p where inv: "send_inv isn (max 1 (unat mss)) D p s"
    using send_reach_inv [OF assms(1)] by blast
  obtain s1 where s1: "Write s False d = Some (s1, WaitNotify (s_notify s))"
    "writing isn (max 1 (unat mss)) (D @ d) (length d) (s_notify s) s1" "w_buffer (s_writeBuf s1) = d"
    using Write_starts [OF inv assms(2-6)] by metis
  then have "write_call s d False [SendExpire] = Some (s1, Wrote 0 (Some WriteTimeout))"
    by (simp add: write_call_def await_notify.simps writing_def)
  moreover have "Write s1 False d' = None" "send_Close s1 expired = None"
    using s1(2,3) assms(5,7)
    by (auto simp: Write_eq send_Close_def writeOrClose_def SetData_def SetEOF_def writing_def)
  ultimately show ?thesis by blast
qed

theorem write_after_timeout_panics_witness:
  "\<exists>s'. write_call fresh_sender [1, 2, 3] False [SendExpire] = Some (s', Wrote 0 (Some WriteTimeout)) \<and>
     Write s' False [4] = None \<and> send_Close s' False = None"
  by (rule write_after_timeout_panics [OF fresh_sender_facts(5,1,2,3)]) simp_all

text \<open>When the peer closes its window, nothing is transmitted at once, and a probe with the
  next byte goes out after the timer's delay, again and again.\<close>

theorem zero_window_probe:
  assumes "send_reach isn w mss s D taken" and "\<not> w_sendEOF (s_writeBuf s)"
    and "w_buffer (s_writeBuf s) = b # bs"
  shows "\<exists>s' probe. send_Handle s (send_Seq s) 0 = Some s' \<and>
    probe = \<lparr>Start = send_Seq s, Data = [b], Fin = False\<rparr> \<and>
    t_next (s_timer s') = t_next (s_timer s) \<and> t_timer (s_timer s') = Some probe \<and>
    (t_next (s_timer s) = None \<longrightarrow> t_fired (s_timer s) = [] \<longrightarrow>
       (let t = timer_run 0 (timer_expire (s_timer s')) in t_next t = Some probe \<and> t_timer t = Some probe))"
proof -
  obtain p where inv: "send_inv isn (max 1 (unat mss)) D p s"
    using send_reach_inv [OF assms(1)] by blast
  then have wb: "wbuf_inv isn D p (s_writeBuf s)" by (simp add: send_inv_def)
  have seq: "w_sequence (s_writeBuf s) = isn + of_nat p" "drop p D = b # bs" "p \<le> length D"
    using wb assms(2,3) by (auto simp: wbuf_inv_def)
  have same: "write_Handle (s_writeBuf s) (send_Seq s) = Some (s_writeBuf s)"
    using write_Handle_position [OF wb assms(2), of "send_Seq s"] seq assms(3)
    by (cases "s_writeBuf s") (simp add: send_Seq_def)
  have rem: "Remaining (s_writeBuf s) \<noteq> 0" using Remaining_eq_0_iff [OF wb] assms(3) by simp
  have seg: "Segment (s_writeBuf s) 1 = Some \<lparr>Start = send_Seq s, Data = [b], Fin = False\<rparr>"
    using rem assms(2,3) by (simp add: Segment_def send_Seq_def)
  have h: "send_Handle s (send_Seq s) 0 = Some (s\<lparr>s_window := 0, s_timer :=
      timer_Schedule \<lparr>Start = send_Seq s, Data = [b], Fin = False\<rparr> (timer_Cancel (s_timer s))\<rparr>)"
    using same rem seg by (cases s) (simp add: send_Handle_def sendNext_def Let_def)
  show ?thesis
    unfolding h
    by (simp add: timer_Schedule_def timer_Cancel_def timer_expire_def timer_run_def timer_Send_def
        Let_def)
qed

theorem zero_window_probe_witness:
  "\<exists>s s'. send_Handle s 0xfffffffe 0 = Some s' \<and>
     t_timer (s_timer s') = Some \<lparr>Start = 0xfffffffe, Data = [1], Fin = False\<rparr>"
proof -
  obtain s where s: "send_reach 0xfffffffe 1000 2 s [1, 2, 3] []" "w_buffer (s_writeBuf s) = [1, 2, 3]"
    "\<not> w_sendEOF (s_writeBuf s)" "send_Seq s = 0xfffffffe"
    using fresh_write by metis
  show ?thesis using zero_window_probe [OF s(1,3,2)] s(4) by auto
qed

end
