(* ===== verification/TCP_Conn.thy ===== *)
theory TCP_Conn
  imports TCP_Header TCP_Recv TCP_Send "HOL-Library.Sublist"
begin

text \<open>
  A TCP connection (\<open>ipstack/net_tcp.go\<close>: \<open>tcp4Conn\<close>), which joins the receiver of \<open>TCP_Recv\<close>, the
  sender of \<open>TCP_Send\<close> and the packets of \<open>TCP_Header\<close>; and two connections that talk over a
  network which loses, repeats and reorders packets, with the memory of the programs that use them: the
  sender keeps slices of it, which a program may change as soon as their bytes are acknowledged, so that a
  segment which is repeated too late goes out with other bytes.  The receiver has those positions already.
\<close>

section \<open>The connection\<close>

record tcp4Conn =
  c_laddr :: net_addr
  c_raddr :: net_addr
  c_recv :: simpleTcpRecv
  c_send :: simpleTcpSend
  c_ttl :: int

definition conn_Read :: "tcp4Conn \<Rightarrow> bool \<Rightarrow> bytes \<Rightarrow> (tcp4Conn \<times> bytes \<times> read_result) go" where
  "conn_Read t expired b = do {
     (r, b, res) \<leftarrow> read_pass (c_recv t) expired b;
     Some (t\<lparr>c_recv := r\<rparr>, b, res)
   }"

definition conn_Write :: "tcp4Conn \<Rightarrow> bool \<Rightarrow> cell list \<Rightarrow> (tcp4Conn \<times> write_result) go" where
  "conn_Write t expired b = do {
     (s, res) \<leftarrow> Write (c_send t) expired b;
     Some (t\<lparr>c_send := s\<rparr>, res)
   }"

definition conn_Close :: "tcp4Conn \<Rightarrow> bool \<Rightarrow> (tcp4Conn \<times> write_result) go" where
  "conn_Close t expired = do {
     (s, res) \<leftarrow> send_Close (c_send t) expired;
     Some (t\<lparr>c_send := s\<rparr>, res)
   }"

text \<open>The packet that is offered to the stream, which takes it or not.\<close>

definition sendAck :: "tcp4Conn \<Rightarrow> bytes go" where
  "sendAck t = NewTCP4Packet (c_ttl t) (c_laddr t) (c_raddr t) (send_Seq (c_send t)) (recv_Ack (c_recv t))
     (recv_Window (c_recv t)) [] [ACK]"

definition sendSegment :: "tcp4Conn \<Rightarrow> byte tcpSegment \<Rightarrow> bytes go" where
  "sendSegment t seg = do {
     packet \<leftarrow> NewTCP4Packet (c_ttl t) (c_laddr t) (c_raddr t) (Start seg) (recv_Ack (c_recv t))
       (recv_Window (c_recv t)) (Data seg) [ACK];
     if Fin seg then do {
       h \<leftarrow> TCP4_Header packet;
       h \<leftarrow> TCP_SetFlag h FIN True;
       TCP4_SetChecksum (store_header packet h)
     }
     else Some packet
   }"

definition packet_segment :: "bytes \<Rightarrow> byte tcpSegment go" where
  "packet_segment tp = do {
     h \<leftarrow> TCP4_Header tp;
     start \<leftarrow> TCP_SeqNum h;
     payload \<leftarrow> TCP4_Payload tp;
     fin \<leftarrow> TCP_Flag h FIN;
     Some \<lparr>Start = start, Data = payload, Fin = fin\<rparr>
   }"

definition packet_ack :: "bytes \<Rightarrow> (u32 \<times> u16) go" where
  "packet_ack tp = do {
     h \<leftarrow> TCP4_Header tp;
     ack \<leftarrow> TCP_AckNum h;
     window \<leftarrow> TCP_WindowSize h;
     Some (ack, window)
   }"

text \<open>One round of the loop: the case that the \<open>select\<close> takes.  The result has the packets that were
  offered to the stream and whether the loop goes on, closes the stream behind its end, or returns.
  \<open>GotNil\<close> is the receive from a closed \<open>Incoming\<close>.  A segment of the sender gets its bytes when its packet
  is built: \<open>mem\<close> is the memory of the program.\<close>

datatype conn_select = GotNext | GotWindowOpen | GotTCP bytes | GotNil

datatype loop_end = GoesOn | ClosesStream | Returns

definition conn_loop :: "memory \<Rightarrow> tcp4Conn \<Rightarrow> conn_select \<Rightarrow> (tcp4Conn \<times> bytes list \<times> loop_end) go" where
  "conn_loop mem t e =
     (if send_Done (c_send t) \<and> recv_Done (c_recv t) then Some (t, [], ClosesStream)
      else case e of
        GotNext \<Rightarrow>
          (case t_next (s_timer (c_send t)) of
             None \<Rightarrow> Some (t, [], GoesOn)
           | Some outgoing \<Rightarrow> do {
               let t = t\<lparr>c_send := (c_send t)\<lparr>s_timer := (s_timer (c_send t))\<lparr>t_next := None\<rparr>\<rparr>\<rparr>;
               packet \<leftarrow> sendSegment t (seg_load mem outgoing);
               Some (t, [packet], GoesOn)
             })
      | GotWindowOpen \<Rightarrow>
          if \<not> r_windowOpen (c_recv t) then Some (t, [], GoesOn)
          else do {
            let t = t\<lparr>c_recv := (c_recv t)\<lparr>r_windowOpen := False\<rparr>\<rparr>;
            packet \<leftarrow> sendAck t;
            Some (t, [packet], GoesOn)
          }
      | GotTCP tp \<Rightarrow> do {
          segment \<leftarrow> packet_segment tp;
          r \<leftarrow> recv_Handle (c_recv t) segment;
          (ack, window) \<leftarrow> packet_ack tp;
          s \<leftarrow> send_Handle (c_send t) ack window;
          let t = t\<lparr>c_recv := r, c_send := s\<rparr>;
          if length (Data segment) > 0 then do {
            packet \<leftarrow> sendAck t;
            Some (t, [packet], GoesOn)
          }
          else Some (t, [], GoesOn)
        }
      | GotNil \<Rightarrow> Some (t, [], Returns))"

section \<open>Two connections\<close>

text \<open>The two sides are the two truth values.  \<open>y_net x\<close> are the packets that side \<open>x\<close> has put on
  its stream and \<open>y_written x\<close> the data that its \<open>Write\<close> has accepted; \<open>y_read x\<close> is what its
  application has read, and \<open>y_eof x\<close> whether it has seen the end.  \<open>y_running x\<close>: its loop has not
  returned.  \<open>y_mem x\<close> is the memory of the program at side \<open>x\<close>, and \<open>y_cells x\<close> the cells of the slices
  that its \<open>Write\<close> has accepted, which had \<open>y_written x\<close> in them.\<close>

record tcp_sys =
  y_conn :: "bool \<Rightarrow> tcp4Conn"
  y_running :: "bool \<Rightarrow> bool"
  y_net :: "bool \<Rightarrow> bytes list"
  y_mem :: "bool \<Rightarrow> memory"
  y_cells :: "bool \<Rightarrow> cell list"
  y_written :: "bool \<Rightarrow> bytes"
  y_read :: "bool \<Rightarrow> bytes"
  y_eof :: "bool \<Rightarrow> bool"

text \<open>The connections as the listener makes them: 4096 bytes of buffer and segments of 512 bytes; each
  side knows where the numbers of the other start.  Memory is zero.\<close>

definition tcp_start :: "(bool \<Rightarrow> net_addr) \<Rightarrow> (bool \<Rightarrow> u32) \<Rightarrow> (bool \<Rightarrow> u16) \<Rightarrow> int \<Rightarrow> tcp_sys" where
  "tcp_start addr isn win ttl =
     \<lparr>y_conn = (\<lambda>x. \<lparr>c_laddr = addr x, c_raddr = addr (\<not> x), c_recv = newSimpleTcpRecv (isn (\<not> x)) 4096,
        c_send = newSimpleTcpSend (isn x) (win x) 512, c_ttl = ttl\<rparr>),
      y_running = (\<lambda>x. True), y_net = (\<lambda>x. []), y_mem = (\<lambda>x c. 0), y_cells = (\<lambda>x. []), y_written = (\<lambda>x. []), y_read = (\<lambda>x. []), y_eof = (\<lambda>x. False)\<rparr>"

text \<open>A packet that side \<open>x\<close> receives is one that the other side has sent at some time.  A side writes
  less than \<open>2 ^ 31\<close> bytes in all, since the network may keep a packet for any time.  \<open>TWrite\<close> and \<open>TRead\<close>
  have the slice that the call gets, and \<open>TStore\<close> is any other store to memory.  Cells that \<open>Write\<close> has got and
  that are not acknowledged are left alone, as the callers of a \<open>Write\<close> do until it returns (behind a
  deadline or a failure it returns too early for that: \<open>slice_outlives_write\<close>); all others may change at
  any time, also those of acknowledged segments that are still about to be repeated.\<close>

datatype tcp_op =
  TLoop conn_select | TWrite bool "cell list" | TClose bool | TRead bool "cell list" | TStore cell byte | TExpire
  | TRun nat

definition set_conn :: "bool \<Rightarrow> tcp4Conn \<Rightarrow> tcp_sys \<Rightarrow> tcp_sys" where
  "set_conn x c y = y\<lparr>y_conn := (y_conn y)(x := c)\<rparr>"

definition set_timer :: "tcpSendTimer \<Rightarrow> tcp4Conn \<Rightarrow> tcp4Conn" where
  "set_timer t c = c\<lparr>c_send := (c_send c)\<lparr>s_timer := t\<rparr>\<rparr>"

definition tcp_enabled :: "tcp_sys \<Rightarrow> bool \<Rightarrow> tcp_op \<Rightarrow> bool" where
  "tcp_enabled y x op =
     (case op of
        TLoop (GotTCP p) \<Rightarrow> y_running y x \<and> p \<in> set (y_net y (\<not> x))
      | TLoop e \<Rightarrow> y_running y x
      | TWrite expired d \<Rightarrow> length (y_written y x) + length d < 2 ^ 31
      | TRead expired b \<Rightarrow> distinct b \<and> set b \<inter> set (w_buffer (s_writeBuf (c_send (y_conn y x)))) = {}
      | TStore a b \<Rightarrow> a \<notin> set (w_buffer (s_writeBuf (c_send (y_conn y x))))
      | _ \<Rightarrow> True)"

definition tcp_step :: "tcp_sys \<Rightarrow> bool \<Rightarrow> tcp_op \<Rightarrow> tcp_sys go" where
  "tcp_step y x op =
     (case op of
        TLoop e \<Rightarrow> do {
          (c, out, e) \<leftarrow> conn_loop (y_mem y x) (y_conn y x) e;
          Some ((set_conn x c y)\<lparr>y_net := (y_net y)(x := y_net y x @ out),
            y_running := (y_running y)(x := e = GoesOn)\<rparr>)
        }
      | TWrite expired d \<Rightarrow> do {
          (c, r) \<leftarrow> conn_Write (y_conn y x) expired d;
          Some (if accepted r
            then (set_conn x c y)\<lparr>y_cells := (y_cells y)(x := y_cells y x @ d),
              y_written := (y_written y)(x := y_written y x @ map (y_mem y x) d)\<rparr>
            else set_conn x c y)
        }
      | TClose expired \<Rightarrow> do {
          (c, r) \<leftarrow> conn_Close (y_conn y x) expired;
          Some (set_conn x c y)
        }
      | TRead expired b \<Rightarrow> do {
          (c, data, r) \<leftarrow> conn_Read (y_conn y x) expired (map (y_mem y x) b);
          let y = (set_conn x c y)\<lparr>y_mem := (y_mem y)(x := store_cells (y_mem y x) b data)\<rparr>;
          Some (case r of
              Waiting g \<Rightarrow> y
            | Returned m e \<Rightarrow> y\<lparr>y_read := (y_read y)(x := y_read y x @ take m data),
                y_eof := (y_eof y)(x := y_eof y x \<or> e = Some EOF)\<rparr>)
        }
      | TStore a b \<Rightarrow> Some (y\<lparr>y_mem := (y_mem y)(x := (y_mem y x)(a := b))\<rparr>)
      | TExpire \<Rightarrow> Some (set_conn x (set_timer (timer_expire (s_timer (c_send (y_conn y x)))) (y_conn y x)) y)
      | TRun i \<Rightarrow> Some (set_conn x (set_timer (timer_run i (s_timer (c_send (y_conn y x)))) (y_conn y x)) y))"

inductive tcp_reach :: "tcp_sys \<Rightarrow> tcp_sys \<Rightarrow> bool" for y0 where
  tcp_reach_start: "tcp_reach y0 y0"
| tcp_reach_step: "tcp_reach y0 y \<Longrightarrow> tcp_enabled y x op \<Longrightarrow> tcp_step y x op = Some z \<Longrightarrow> tcp_reach y0 z"

section \<open>The packets of a connection\<close>

text \<open>Setting FIN in a packet that is complete, with a new checksum.\<close>

lemma store_flags:
  assumes v: "TCP4_Valid p = Some True" and len: "tcp_len p = 20" and k: "k = header_len p"
    and ys: "only_flags (drop k p) ys" and r: "r = store_header p (20, ys)"
  shows "TCP4_Valid r = Some True" and "tcp_len r = 20" and "header_len r = k" and "length r = length p" and "drop k r = ys"
proof -
  note pl = tcp_valid_length [OF v]
  have kp: "k \<le> length p" "20 \<le> k" using pl by (simp_all add: k)
  have yl: "length ys = length p - k" using ys by (simp add: only_flags_def)
  have r: "r = take k p @ ys" using yl kp by (simp add: r store_header_def)
  show rl: "length r = length p" "drop k r = ys" using yl kp by (simp_all add: r)
  have ri: "r ! i = p ! i" if "i < k" for i using that kp by (simp add: r nth_append)
  show hl: "header_len r = k" using ri [of 0] kp by (simp add: header_len_def k)
  have rk: "r ! (k + i) = ys ! i" for i using rl kp by (metis nth_drop rl(1))
  show tl: "tcp_len r = 20" using ys rk [of 12] len kp by (simp add: tcp_len_def hl only_flags_def k)
  have "IPv4_Valid r = Some True"
    using pl(1) ri [of 0] ri [of 2] ri [of 3] kp hl rl by (simp add: ip_valid_iff k)
  then show "TCP4_Valid r = Some True" using pl hl tl rl len by (simp add: tcp_valid_iff k)
qed

lemma set_fin_packet:
  assumes v: "TCP4_Valid p = Some True" and len: "tcp_len p = 20"
    and h: "TCP4_Header p = Some h" "TCP_SeqNum h = Some seq" "TCP_AckNum h = Some ack"
      "TCP_WindowSize h = Some win" "TCP4_Payload p = Some payload"
  obtains q h' where "do { h \<leftarrow> TCP4_Header p; h \<leftarrow> TCP_SetFlag h FIN True; TCP4_SetChecksum (store_header p h) } = Some q"
    and "TCP4_Valid q = Some True" and "TCP4_Checksum q = Some 0"
    and "TCP4_Header q = Some h'" and "TCP_SeqNum h' = Some seq" and "TCP_AckNum h' = Some ack"
    and "TCP_WindowSize h' = Some win" and "TCP4_Payload q = Some payload" and "TCP_Flag h' FIN = Some True"
proof -
  note pl = tcp_valid_length [OF v]
  define k where "k = header_len p"
  have hp: "h = (20, drop k p)" using h(1) TCP4_Header_eq [OF v] len by (simp add: k_def)
  have xl: "20 \<le> length (drop k p)" using pl by (simp add: k_def)
  obtain ys where ys: "TCP_SetFlag (20, drop k p) FIN True = Some (20, ys)" "only_flags (drop k p) ys"
    "\<And>g. g \<le> 8 \<Longrightarrow> flag_bit ys g = (if g = unat FIN then True else flag_bit (drop k p) g)"
    using TCP_SetFlag_spec [of 20 "drop k p" FIN True] xl unfolding FIN_def by auto
  define r where "r = store_header p (20, ys)"
  note store = store_flags [OF v len k_def ys(2) r_def]
  note rv = store(1) and tl = store(2) and hl = store(3) and rl = store(4,5)
  have yl: "length ys = length p - k" and kp: "k \<le> length p" "20 \<le> k"
    using ys(2) pl by (simp_all add: only_flags_def k_def)
  define q where "q = with_tcp_checksum r"
  obtain c where c: "q = put16 r (k + 16) c" by (simp add: q_def with_tcp_checksum_def hl)
  note q = tcp_put16 [OF rv, of c, unfolded hl, folded c]
  have dq: "drop k q = put16 ys 16 c" using drop_put16_at [of k r 16 c] rl by (simp add: c)
  define zs where "zs = put16 ys 16 c"
  have zl: "20 \<le> length zs" using xl yl by (simp add: zs_def)
  have z: "zs ! i = p ! (k + i)" if "i < 16" "i \<noteq> 12" "i \<noteq> 13" for i
    using that ys(2) kp by (simp add: zs_def put16_def only_flags_def)
  have hq: "TCP4_Header q = Some (20, zs)" using TCP4_Header_eq [OF q(1)] q(2,3) tl dq by (simp add: zs_def)
  note get = header_getters [OF xl, of 20] header_getters [OF zl, of 20]
  show ?thesis
  proof (rule that [OF _ q(1) _ hq])
    show "do { h \<leftarrow> TCP4_Header p; h \<leftarrow> TCP_SetFlag h FIN True; TCP4_SetChecksum (store_header p h) } = Some q"
      using ys(1) TCP4_SetChecksum_eq [OF rv] by (simp add: h(1) hp q_def r_def)
    show "TCP4_Checksum q = Some 0"
      by (simp add: TCP4_Checksum_eq [OF q(1)]) (simp add: q_def TCP4_with_checksum [OF rv])
    show "TCP_SeqNum (20, zs) = Some seq" "TCP_AckNum (20, zs) = Some ack" "TCP_WindowSize (20, zs) = Some win"
      using h(2-4) get kp by (simp_all add: hp z)
    show "TCP4_Payload q = Some payload"
    proof -
      have "drop (k + 20) q = drop 20 (drop k q)" by (simp add: add.commute)
      also have "\<dots> = drop 20 (put16 ys 16 c)" by (simp only: dq)
      also have "\<dots> = drop 20 ys" by simp
      also have "\<dots> = drop 20 (drop k p)"
        using ys(2) by (intro nth_equalityI) (auto simp: only_flags_def ac_simps)
      also have "\<dots> = drop (k + 20) p" by (simp add: add.commute)
      finally have "drop (k + 20) q = drop (k + 20) p" .
      then show ?thesis using h(5) TCP4_Payload_eq [OF v] TCP4_Payload_eq [OF q(1)] q(2,3) tl len
        by (simp add: k_def)
    qed
    have "flag_bit zs 8" using ys(3) [of 8] by (simp add: zs_def flag_bit_def put16_def FIN_def)
    then show "TCP_Flag (20, zs) FIN = Some True" using TCP_Flag_eq [of 20 zs FIN] zl by (simp add: FIN_def)
  qed
qed

text \<open>What the other side reads from a packet of the connection.\<close>

definition addr_ok :: "tcp4Conn \<Rightarrow> bool" where
  "addr_ok c \<longleftrightarrow> To4 (IP (c_laddr c)) \<noteq> None \<and> To4 (IP (c_raddr c)) \<noteq> None"

lemma sendSegment_packet:
  assumes "addr_ok c" and "length (Data seg) \<le> 65495"
  obtains p where "sendSegment c seg = Some p" and "NewTCP4Net_filter p = Some (Some p)"
    and "packet_segment p = Some seg" and "packet_ack p = Some (recv_Ack (c_recv c), recv_Window (c_recv c))"
proof -
  obtain src dst where a: "To4 (IP (c_laddr c)) = Some src" "To4 (IP (c_raddr c)) = Some dst"
    using assms(1) by (auto simp: addr_ok_def)
  have f: "\<forall>f \<in> set [ACK]. f \<le> 8" by (simp add: ACK_def)
  obtain p h where p: "NewTCP4Packet (c_ttl c) (c_laddr c) (c_raddr c) (Start seg) (recv_Ack (c_recv c))
      (recv_Window (c_recv c)) (Data seg) [ACK] = Some p"
    "TCP4_Valid p = Some True" "TCP4_Checksum p = Some 0" "TCP4_Header p = Some h" "TCP4_Payload p = Some (Data seg)"
    "TCP_SeqNum h = Some (Start seg)" "TCP_AckNum h = Some (recv_Ack (c_recv c))"
    "TCP_WindowSize h = Some (recv_Window (c_recv c))"
    "\<And>f. f \<le> 8 \<Longrightarrow> TCP_Flag h f = Some (f \<in> set [ACK])" "tcp_len p = 20"
    by (rule NewTCP4Packet_fields [OF a assms(2) f, of "c_ttl c" "Start seg" "recv_Ack (c_recv c)" "recv_Window (c_recv c)"])
      (rule that; assumption)
  show ?thesis
  proof (cases "Fin seg")
    case False
    have "TCP_Flag h FIN = Some False" using p(9) [of FIN] by (simp add: ACK_def FIN_def)
    moreover have "\<lparr>Start = Start seg, Data = Data seg, Fin = False\<rparr> = seg" using False by (cases seg) simp
    ultimately have "packet_segment p = Some seg" using p(4-6) by (simp add: packet_segment_def)
    moreover have "sendSegment c seg = Some p" using p(1) False by (simp add: sendSegment_def)
    moreover have "NewTCP4Net_filter p = Some (Some p)" using p(2,3) by (simp add: NewTCP4Net_filter_def)
    moreover have "packet_ack p = Some (recv_Ack (c_recv c), recv_Window (c_recv c))"
      using p(4,7,8) by (simp add: packet_ack_def)
    ultimately show ?thesis using that by blast
  next
    case True
    obtain q h' where q:
      "do { h \<leftarrow> TCP4_Header p; h \<leftarrow> TCP_SetFlag h FIN True; TCP4_SetChecksum (store_header p h) } = Some q"
      "TCP4_Valid q = Some True" "TCP4_Checksum q = Some 0" "TCP4_Header q = Some h'"
      "TCP_SeqNum h' = Some (Start seg)" "TCP_AckNum h' = Some (recv_Ack (c_recv c))"
      "TCP_WindowSize h' = Some (recv_Window (c_recv c))" "TCP4_Payload q = Some (Data seg)"
      "TCP_Flag h' FIN = Some True"
      by (rule set_fin_packet [OF p(2,10,4,6,7,8,5)])
    have "\<lparr>Start = Start seg, Data = Data seg, Fin = True\<rparr> = seg" using True by (cases seg) simp
    then have "packet_segment q = Some seg" using q(4,5,8,9) by (simp add: packet_segment_def)
    moreover have "sendSegment c seg = Some q" using p(1) q(1) True by (simp add: sendSegment_def)
    moreover have "NewTCP4Net_filter q = Some (Some q)" using q(2,3) by (simp add: NewTCP4Net_filter_def)
    moreover have "packet_ack q = Some (recv_Ack (c_recv c), recv_Window (c_recv c))"
      using q(4,6,7) by (simp add: packet_ack_def)
    ultimately show ?thesis using that by blast
  qed
qed

lemma sendAck_segment: "sendAck c = sendSegment c \<lparr>Start = send_Seq (c_send c), Data = [], Fin = False\<rparr>"
  by (simp add: sendAck_def sendSegment_def)

section \<open>One direction of the connection\<close>

definition recv_pos :: "simpleTcpRecv \<Rightarrow> bytes \<Rightarrow> nat" where
  "recv_pos r out = length out + b_size (r_buffer r) + (if b_hitEOF (r_buffer r) then 1 else 0)"

text \<open>A packet of the sender has a segment that a receiver at position \<open>n\<close> can take, or nothing; one of the
  receiver acknowledges at most what the receiver has taken over.\<close>

definition load_ok :: "u32 \<Rightarrow> bytes \<Rightarrow> nat \<Rightarrow> bool \<Rightarrow> nat \<Rightarrow> byte tcpSegment \<Rightarrow> bool" where
  "load_ok isn D n closed m seg \<longleftrightarrow>
     (\<exists>k. segment_from isn D n k seg) \<and> (Fin seg \<longrightarrow> closed) \<and> length (Data seg) \<le> m"

definition fwd_ok :: "u32 \<Rightarrow> bytes \<Rightarrow> nat \<Rightarrow> bool \<Rightarrow> nat \<Rightarrow> bytes \<Rightarrow> bool" where
  "fwd_ok isn D n closed m p \<longleftrightarrow>
     (\<exists>seg. packet_segment p = Some seg \<and> (load_ok isn D n closed m seg \<or> Data seg = [] \<and> \<not> Fin seg))"

definition bwd_ok :: "u32 \<Rightarrow> nat \<Rightarrow> bytes \<Rightarrow> bool" where
  "bwd_ok isn n p \<longleftrightarrow> (\<exists>a w. packet_ack p = Some (isn + of_nat a, w) \<and> a \<le> n)"

text \<open>The memory \<open>mem\<close> still has the data \<open>D\<close> in its cells \<open>C\<close>, from position \<open>q\<close> on.\<close>

definition keeps_data :: "memory \<Rightarrow> cell list \<Rightarrow> bytes \<Rightarrow> nat \<Rightarrow> bool" where
  "keeps_data mem C D q \<longleftrightarrow> length C = length D \<and> (\<forall>i. q \<le> i \<longrightarrow> i < length D \<longrightarrow> mem (C ! i) = D ! i)"

text \<open>\<open>D\<close>: the data that was written, from the cells \<open>C\<close> of \<open>mem\<close>, \<open>fwd\<close> and \<open>bwd\<close>: the packets of both sides,
  \<open>out\<close>: what was read.  The sender is not ahead of the receiver: what is acknowledged has arrived; and
  what is not is still in memory.\<close>

definition dir_inv ::
  "u32 \<Rightarrow> nat \<Rightarrow> memory \<Rightarrow> cell list \<Rightarrow> bytes \<Rightarrow> simpleTcpSend \<Rightarrow> bytes list \<Rightarrow> simpleTcpRecv \<Rightarrow> bytes \<Rightarrow> bool \<Rightarrow>
     bytes list \<Rightarrow> bool" where
  "dir_inv isn m mem C D s fwd r out eof bwd \<longleftrightarrow>
     length D < 2 ^ 31 \<and> (\<exists>p. send_inv isn m C p s) \<and>
     keeps_data mem C D (length D - length (w_buffer (s_writeBuf s))) \<and>
     length D - length (w_buffer (s_writeBuf s)) \<le> length out + b_size (r_buffer r) \<and>
     (w_sentEOF (s_writeBuf s) \<longrightarrow> b_hitEOF (r_buffer r)) \<and>
     recv_inv isn D 4096 r out \<and> r_failErr r = None \<and>
     (a_fin (r_assembler r) \<ge> - 1 \<longrightarrow> w_sendEOF (s_writeBuf s)) \<and>
     (eof \<longrightarrow> out = D \<and> w_sendEOF (s_writeBuf s)) \<and>
     (\<forall>p \<in> set fwd. fwd_ok isn D (length out + b_size (r_buffer r)) (w_sendEOF (s_writeBuf s)) m p) \<and>
     (\<forall>p \<in> set bwd. bwd_ok isn (recv_pos r out) p)"

lemma segment_from_append: "segment_from isn D n k seg \<Longrightarrow> \<not> Fin seg \<Longrightarrow> segment_from isn (D @ d) n k seg"
  by (auto simp: segment_from_def nth_append)

lemma load_ok_append: "load_ok isn D n False m seg \<Longrightarrow> load_ok isn (D @ d) n c m seg"
  by (auto simp: load_ok_def intro: segment_from_append)

lemma load_ok_mono: "load_ok isn D n c m seg \<Longrightarrow> n \<le> n' \<Longrightarrow> load_ok isn D n' c m seg"
  by (auto simp: load_ok_def intro: segment_from_mono)

lemma load_ok_load:
  assumes "seg_ok isn C c m seg" and "keeps_data mem C D q" and "q \<le> n"
  shows "load_ok isn D n c m (seg_load mem seg)"
proof -
  obtain k where k: "segment_of isn C k seg" using assms(1) by (auto simp: seg_ok_def)
  have "Data (seg_load mem seg) ! i = D ! (k + i)" if "i < length (Data seg)" "n \<le> k + i" for i
    using segment_of_nth [OF k that(1)] k assms(2,3) that by (simp add: segment_of_def keeps_data_def)
  then have "segment_from isn D n k (seg_load mem seg)"
    using k assms(2) by (simp add: segment_from_def segment_of_def keeps_data_def)
  then show ?thesis using assms(1) by (auto simp: load_ok_def seg_ok_def)
qed

lemma fwd_ok_append: "fwd_ok isn D n False m p \<Longrightarrow> fwd_ok isn (D @ d) n c m p"
  by (auto simp: fwd_ok_def intro: load_ok_append)

lemma fwd_ok_closed: "fwd_ok isn D n c m p \<Longrightarrow> fwd_ok isn D n True m p"
  by (auto simp: fwd_ok_def load_ok_def)

lemma fwd_ok_mono: "fwd_ok isn D n c m p \<Longrightarrow> n \<le> n' \<Longrightarrow> fwd_ok isn D n' c m p"
  by (auto simp: fwd_ok_def intro: load_ok_mono)

lemma keeps_data_mono: "keeps_data mem C D q \<Longrightarrow> q \<le> q' \<Longrightarrow> keeps_data mem C D q'"
  by (simp add: keeps_data_def)

lemma keeps_data_append: "keeps_data mem C D (length D) \<Longrightarrow> keeps_data mem (C @ d) (D @ map mem d) (length D)"
  by (auto simp: keeps_data_def nth_append)

text \<open>What changes in memory outside of the sender's buffer.\<close>

lemma dir_inv_mem:
  assumes inv: "dir_inv isn m mem C D s fwd r out eof bwd"
    and same: "\<And>a. a \<in> set (w_buffer (s_writeBuf s)) \<Longrightarrow> mem' a = mem a"
  shows "dir_inv isn m mem' C D s fwd r out eof bwd"
proof -
  define q where "q = length D - length (w_buffer (s_writeBuf s))"
  obtain p where p: "send_inv isn m C p s" using inv by (auto simp: dir_inv_def)
  have k: "keeps_data mem C D q" using inv by (simp add: dir_inv_def q_def)
  have buf: "w_buffer (s_writeBuf s) = drop q C"
    using p k by (auto simp: send_inv_def wbuf_inv_def keeps_data_def q_def)
  have "C ! i \<in> set (drop q C)" if "q \<le> i" "i < length D" for i
    using that k nth_mem [of "i - q" "drop q C"] by (simp add: keeps_data_def)
  then have "keeps_data mem' C D q" using k same by (simp add: keeps_data_def buf)
  then show ?thesis using inv by (simp add: dir_inv_def q_def)
qed

lemma bwd_ok_mono: "bwd_ok isn n p \<Longrightarrow> n \<le> n' \<Longrightarrow> bwd_ok isn n' p"
  by (auto simp: bwd_ok_def intro: order_trans)

lemma recv_inv_append:
  assumes "recv_inv isn S N r out" and "a_fin (r_assembler r) < - 1"
  shows "recv_inv isn (S @ d) N r out"
proof -
  let ?n = "length out + b_size (r_buffer r)"
  have a: "asm_inv isn S ?n (r_assembler r)" using assms(1) by (simp add: recv_inv_def)
  then have n: "?n \<le> length S" by (simp add: asm_inv_def)
  have "asm_inv isn (S @ d) ?n (r_assembler r)"
    using a assms(2) by (auto simp: asm_inv_def nth_append)
  with assms n show ?thesis by (simp add: recv_inv_def)
qed

lemma dir_inv_write:
  assumes inv: "dir_inv isn m mem C D s fwd r out eof bwd" and run: "Write s expired d = Some (s', res)"
    and len: "length D + length d < 2 ^ 31"
  shows "dir_inv isn m mem (if accepted res then C @ d else C) (if accepted res then D @ map mem d else D)
    s' fwd r out eof bwd"
proof (cases "d = []")
  case True
  then show ?thesis using assms by (auto simp: Write_eq accepted_def)
next
  case False
  obtain p where p: "send_inv isn m C p s" using inv by (auto simp: dir_inv_def)
  have "length d < 2 ^ 32" "writeOrClose s expired d False = Some (s', res)"
    using run len False by (simp_all add: Write_eq)
  with p show ?thesis
  proof (cases rule: writeOrClose_inv)
    case (returned n e)
    then show ?thesis using inv by (simp add: accepted_def)
  next
    case waiting
    then have "a_fin (r_assembler r) < - 1" "\<not> eof" using inv by (auto simp: dir_inv_def)
    moreover have "recv_inv isn (D @ map mem d) 4096 r out"
      using recv_inv_append inv \<open>a_fin (r_assembler r) < - 1\<close> by (auto simp: dir_inv_def)
    moreover have C: "length C = length D" "keeps_data mem C D (length D)"
      using inv waiting(2) by (auto simp: dir_inv_def keeps_data_def)
    then have "length (w_buffer (s_writeBuf s')) = length d"
      using waiting(6) by (auto simp: send_inv_def wbuf_inv_def)
    moreover have "length D \<le> length out + b_size (r_buffer r)"
      using inv waiting(2) by (simp add: dir_inv_def)
    moreover have "fwd_ok isn (D @ map mem d) (length out + b_size (r_buffer r)) False m p" if "p \<in> set fwd" for p
      using that inv waiting(3) by (auto simp: dir_inv_def intro: fwd_ok_append)
    ultimately show ?thesis
      using inv len waiting keeps_data_append [OF C(2), of d] by (auto simp: dir_inv_def accepted_def)
  qed
qed

lemma dir_inv_close:
  assumes inv: "dir_inv isn m mem C D s fwd r out eof bwd" and run: "send_Close s expired = Some (s', res)"
  shows "dir_inv isn m mem C D s' fwd r out eof bwd"
proof -
  obtain p where p: "send_inv isn m C p s" using inv by (auto simp: dir_inv_def)
  have "length ([] :: cell list) < 2 ^ 32" "writeOrClose s expired [] True = Some (s', res)"
    using run by (simp_all add: send_Close_def)
  with p show ?thesis
  proof (cases rule: writeOrClose_inv)
    case (returned n e)
    then show ?thesis using inv by simp
  next
    case waiting
    then have "w_buffer (s_writeBuf s') = []" by (auto simp: send_inv_def wbuf_inv_def)
    moreover have "w_buffer (s_writeBuf s) = []" by (rule waiting(2))
    ultimately show ?thesis using waiting inv by (auto simp: dir_inv_def intro: fwd_ok_closed)
  qed
qed

lemma dir_inv_timer:
  "dir_inv isn m mem C D s fwd r out eof bwd \<Longrightarrow> timer_segs t \<subseteq> timer_segs (s_timer s) \<Longrightarrow>
     dir_inv isn m mem C D (s\<lparr>s_timer := t\<rparr>) fwd r out eof bwd"
  unfolding dir_inv_def by (simp del: split_paired_Ex) (blast intro: send_inv_timer)

lemma dir_inv_fwd:
  "dir_inv isn m mem C D s fwd r out eof bwd \<Longrightarrow> fwd_ok isn D (length out + b_size (r_buffer r)) (w_sendEOF (s_writeBuf s)) m p \<Longrightarrow>
     dir_inv isn m mem C D s (fwd @ [p]) r out eof bwd"
  by (auto simp: dir_inv_def)

lemma dir_inv_bwd:
  assumes "dir_inv isn m mem C D s fwd r out eof bwd" and "packet_ack p = Some (recv_Ack r, w)"
  shows "dir_inv isn m mem C D s fwd r out eof (bwd @ [p])"
proof -
  have "recv_Ack r = isn + of_nat (recv_pos r out)"
    using recv_inv_Ack assms(1) by (auto simp: dir_inv_def recv_pos_def)
  with assms show ?thesis by (auto simp: dir_inv_def bwd_ok_def)
qed

lemma send_Handle_sendEOF:
  assumes "send_inv isn m D p s" and "send_Handle s ack win = Some s'"
  shows "w_sendEOF (s_writeBuf s') = w_sendEOF (s_writeBuf s)"
proof -
  have "write_Handle (s_writeBuf s) ack = Some (s_writeBuf s')"
    using send_Handle_inv [OF assms(1), of ack win] assms(2) by (metis option.inject)
  moreover have "wbuf_inv isn D p (s_writeBuf s)" using assms(1) by (simp add: send_inv_def)
  ultimately show ?thesis using write_Handle_inv [of isn D p "s_writeBuf s" ack] by (metis option.inject)
qed

text \<open>An acknowledgement moves the sender, but not beyond what has arrived.\<close>

lemma wbuf_position: "wbuf_inv isn D p t \<Longrightarrow> p = length D - length (w_buffer t)"
  by (auto simp: wbuf_inv_def)

text \<open>An acknowledgement of position \<open>a\<close>, seen from the write buffer at \<open>q\<close>, is no further than what has arrived, or
  so far ahead that the buffer ignores it.\<close>

lemma ack_position:
  assumes "a \<le> n" and "q \<le> n" and "n \<le> len" and "len < 2 ^ 31"
    and "j = q + unat (isn + of_nat a - (isn + of_nat q) :: u32)"
  shows "j \<le> n \<or> len < j"
proof (cases "q \<le> a")
  case True
  then have "unat (of_nat a + isn - (isn + of_nat q)) = a - q"
    using assms by (intro seq_offset) auto
  then show ?thesis using True assms(1,5) by (simp add: add.commute)
next
  case False
  then have "unat (of_nat a + isn - (isn + of_nat q)) = 2 ^ 32 - (q - a)"
    using assms by (intro seq_offset_behind) auto
  then show ?thesis using False assms by (simp add: add.commute)
qed

lemma dir_inv_ack:
  assumes inv: "dir_inv isn m mem C D s fwd r out eof bwd" and p: "p \<in> set bwd" "packet_ack p = Some (ack, win)"
    and run: "send_Handle s ack win = Some s'"
  shows "dir_inv isn m mem C D s' fwd r out eof bwd"
proof -
  define n where "n = length out + b_size (r_buffer r)"
  obtain q where q: "send_inv isn m C q s" using inv by (auto simp: dir_inv_def)
  obtain q' where q': "send_inv isn m C q' s'" "write_Handle (s_writeBuf s) ack = Some (s_writeBuf s')"
    and qq: "q \<le> q'"
    using send_Handle_inv [OF q, of ack win] run by (metis option.inject)
  have C: "length C = length D" "keeps_data mem C D (length D - length (w_buffer (s_writeBuf s)))"
    using inv by (simp_all add: dir_inv_def keeps_data_def)
  have wb: "wbuf_inv isn C q (s_writeBuf s)" "wbuf_inv isn C q' (s_writeBuf s')"
    using q q' by (simp_all add: send_inv_def)
  note eof = send_Handle_sendEOF [OF q run]
  have bound: "length D < 2 ^ 31" "n \<le> length D" "q \<le> n"
    using inv wbuf_position [OF wb(1)] C(1) by (auto simp: dir_inv_def recv_inv_def asm_inv_def n_def)
  have bwd: "bwd_ok isn (recv_pos r out) p" using inv p(1) by (simp add: dir_inv_def)
  obtain a where a: "ack = isn + of_nat a" "a \<le> n + (if b_hitEOF (r_buffer r) then 1 else 0)"
    using bwd p(2) by (auto simp: bwd_ok_def recv_pos_def n_def)
  have closed: "w_sendEOF (s_writeBuf s)" if "b_hitEOF (r_buffer r)"
    using inv that by (auto simp: dir_inv_def recv_inv_def)
  have "q' \<le> n \<and> (w_sentEOF (s_writeBuf s') \<longrightarrow> b_hitEOF (r_buffer r))"
  proof (cases "w_sendEOF (s_writeBuf s)")
    case True
    then have "q = length D" "q' = length D" using wb eof C(1) by (auto simp: wbuf_inv_def)
    moreover have "b_hitEOF (r_buffer r)" if sent: "w_sentEOF (s_writeBuf s')"
    proof (cases "w_sentEOF (s_writeBuf s)")
      case True
      then show ?thesis using inv by (simp add: dir_inv_def)
    next
      case False
      then have "ack = isn + of_nat (length D + 1)"
        using write_Handle_EOF [OF wb(1) True, of ack] q'(2) sent C(1) by (auto split: if_splits)
      then have "(of_nat a :: u32) = of_nat (length D + 1)" using a(1) by simp
      moreover have "a < 2 ^ 32" "length D + 1 < 2 ^ 32" using a(2) bound by (auto split: if_splits)
      ultimately have "a = length D + 1" by (metis unat_of_nat_u32_less)
      then show ?thesis using a(2) bound by (auto split: if_splits)
    qed
    ultimately show ?thesis using bound(3) by simp
  next
    case False
    have an: "a \<le> n" using a(2) closed False by (auto split: if_splits)
    define j where "j = q + unat (ack - (isn + of_nat q))"
    have h: "s_writeBuf s' = (let j = j in if j \<le> length D
        then (s_writeBuf s)\<lparr>w_sequence := isn + of_nat j, w_buffer := drop j C\<rparr> else s_writeBuf s)"
      using write_Handle_position [OF wb(1) False, of ack] q'(2) C(1) by (simp add: j_def)
    have "j \<le> n \<or> length D < j"
      by (rule ack_position [OF an bound(3,2,1)]) (simp add: j_def a(1))
    then have "q' \<le> n"
      using wbuf_position [OF wb(1)] wbuf_position [OF wb(2)] bound h C(1) by (auto simp: Let_def split: if_splits)
    moreover have "\<not> w_sentEOF (s_writeBuf s')" using wb(2) eof False by (auto simp: wbuf_inv_def)
    ultimately show ?thesis by blast
  qed
  moreover have "keeps_data mem C D q'"
    using keeps_data_mono [OF C(2), of q'] qq wbuf_position [OF wb(1)] C(1) by simp
  ultimately show ?thesis
    using inv q'(1) eof wbuf_position [OF wb(2)] C(1) by (auto simp: dir_inv_def n_def)
qed

text \<open>A packet that arrives.\<close>

lemma add_bytes_fin: "add_bytes start i d t = Some t' \<Longrightarrow> a_fin t' = a_fin t"
proof (induction start i d t rule: add_bytes.induct)
  case (2 start i b bs t)
  then show ?case by (auto simp: Let_def bind_eq_Some_conv split: if_splits)
qed simp

lemma Skim_fin: "Skim t n = Some (t', d, e) \<Longrightarrow> a_fin t < - 1 \<Longrightarrow> a_fin t' < - 1"
  by (auto simp: Skim_def bind_eq_Some_conv Let_def)

lemma recv_Handle_open:
  assumes "recv_Handle r seg = Some r'" and "a_fin (r_assembler r) < - 1" and "\<not> Fin seg"
  shows "a_fin (r_assembler r') < - 1"
proof -
  obtain t d e where t: "AddSegment (r_assembler r) seg = Some t"
    "Skim t (buffer_Window (r_buffer r)) = Some (r_assembler r', d, e)"
    using assms(1) by (auto simp: recv_Handle_def bind_eq_Some_conv Let_def)
  have "a_fin t = a_fin (r_assembler r)"
    using t(1) assms(2,3) by (auto simp: AddSegment_def bind_eq_Some_conv dest: add_bytes_fin split: if_splits)
  then show ?thesis using assms(2) Skim_fin [OF t(2)] by simp
qed

lemma recv_Handle_hitEOF:
  assumes "recv_Handle r seg = Some r'" and "buf_wf (r_buffer r)" and "b_hitEOF (r_buffer r)"
  shows "b_hitEOF (r_buffer r')"
proof -
  obtain d q where "Put (r_buffer r) d = Some q" "r_buffer r' = q \<or> r_buffer r' = PutEOF q"
    using recv_Handle_buffer [OF assms(1)] by blast
  then show ?thesis using Put_hitEOF [of "r_buffer r" d q] assms(2,3) by auto
qed

lemma recv_Handle_empty:
  "recv_Handle r \<lparr>Start = i, Data = [], Fin = False\<rparr> = recv_Handle r \<lparr>Start = j, Data = [], Fin = False\<rparr>"
  by (simp add: recv_Handle_def AddSegment_def)

lemma dir_inv_arrive:
  assumes inv: "dir_inv isn m mem C D s fwd r out eof bwd" and p: "p \<in> set fwd"
  obtains seg r' where "packet_segment p = Some seg" and "recv_Handle r seg = Some r'"
    and "dir_inv isn m mem C D s fwd r' out eof bwd"
proof -
  let ?n = "length out + b_size (r_buffer r)"
  obtain seg where seg: "packet_segment p = Some seg"
    "load_ok isn D ?n (w_sendEOF (s_writeBuf s)) m seg \<or> Data seg = [] \<and> \<not> Fin seg"
    using inv p by (auto simp: dir_inv_def fwd_ok_def)
  define g where "g = (if Data seg = [] \<and> \<not> Fin seg then \<lparr>Start = isn, Data = [], Fin = False\<rparr> else seg)"
  have ri: "recv_inv isn D 4096 r out" and D: "length D < 2 ^ 31" using inv by (simp_all add: dir_inv_def)
  have n: "?n \<le> length D" using ri by (simp add: recv_inv_def asm_inv_def)
  have "\<exists>k. segment_from isn D ?n k g \<and> (Fin g \<longrightarrow> w_sendEOF (s_writeBuf s))"
  proof (cases "Data seg = [] \<and> \<not> Fin seg")
    case True
    then show ?thesis by (intro exI [of _ 0]) (simp add: g_def segment_from_def)
  next
    case False
    then have "load_ok isn D ?n (w_sendEOF (s_writeBuf s)) m seg" "g = seg" using seg(2) by (auto simp: g_def)
    then show ?thesis by (auto simp: load_ok_def)
  qed
  then obtain k where k: "segment_from isn D ?n k g" "Fin g \<longrightarrow> w_sendEOF (s_writeBuf s)" by blast
  then have near: "near ?n k g"
    using n D by (auto simp: near_def segment_from_def)
  obtain r' i where r': "recv_Handle r g = Some r'" "recv_inv isn D 4096 r' out"
    "b_size (r_buffer r') = b_size (r_buffer r) + i" "r_failErr r' = r_failErr r"
    using recv_inv_Handle [OF ri k(1) refl near] by metis
  have "recv_Handle r seg = Some r'"
    using r'(1) recv_Handle_empty [of r "Start seg" isn] by (cases seg) (simp add: g_def split: if_splits)
  moreover have "a_fin (r_assembler r') \<ge> - 1 \<longrightarrow> w_sendEOF (s_writeBuf s)"
    using recv_Handle_open [OF r'(1)] k(2) inv by (fastforce simp: dir_inv_def)
  moreover have hit: "b_hitEOF (r_buffer r) \<longrightarrow> b_hitEOF (r_buffer r')"
    using recv_Handle_hitEOF [OF r'(1)] ri by (auto simp: recv_inv_def)
  moreover have "recv_pos r out \<le> recv_pos r' out" using r'(3) hit by (simp add: recv_pos_def)
  moreover have "fwd_ok isn D (length out + b_size (r_buffer r')) (w_sendEOF (s_writeBuf s)) m q" if "q \<in> set fwd" for q
    using that inv r'(3) fwd_ok_mono [of isn D ?n _ m q] by (simp add: dir_inv_def)
  moreover have "bwd_ok isn (recv_pos r' out) q" if "q \<in> set bwd" for q
    using that inv calculation(4) bwd_ok_mono [of isn "recv_pos r out" q] by (simp add: dir_inv_def)
  ultimately show ?thesis
    using inv r' by (intro that [OF seg(1)]) (auto simp: dir_inv_def)
qed

text \<open>A read moves bytes from the buffer to the application.\<close>

lemma read_pass_pos:
  assumes "buf_wf (r_buffer r)" and "read_pass r expired b = Some (r', b', res)"
    and "x = (case res of Returned c e \<Rightarrow> take c b' | Waiting g \<Rightarrow> [])"
  shows "length x + b_size (r_buffer r') = b_size (r_buffer r)" and "r_assembler r' = r_assembler r"
    and "b_hitEOF (r_buffer r') = b_hitEOF (r_buffer r)" and "r_failErr r' = r_failErr r"
proof -
  obtain q d c e where g: "Get (r_buffer r) b = Some (q, d, c, e)"
    using rb.get_total [OF assms(1)] by metis
  note c = rb.get_conserves [OF assms(1) g] and h = Get_hitEOF [OF assms(1) g]
  have size: "b_size q + c = b_size (r_buffer r)" "c \<le> length d"
    using c length_unread [OF assms(1)] length_unread [of q] by (auto simp: buffer_Window_def h)
  show "length x + b_size (r_buffer r') = b_size (r_buffer r)" "r_assembler r' = r_assembler r"
    "b_hitEOF (r_buffer r') = b_hitEOF (r_buffer r)" "r_failErr r' = r_failErr r"
    using assms(2,3) read_pass_eq [OF g] size h by (cases expired; auto split: if_splits option.splits)+
qed

lemma dir_inv_read:
  assumes inv: "dir_inv isn m mem C D s fwd r out eof bwd" and run: "read_pass r expired b = Some (r', b', res)"
  shows "case res of Waiting g \<Rightarrow> dir_inv isn m mem C D s fwd r' out eof bwd
    | Returned c e \<Rightarrow> dir_inv isn m mem C D s fwd r' (out @ take c b') (eof \<or> e = Some EOF) bwd \<and>
        out @ take c b' = take (length (out @ take c b')) D"
proof -
  have ri: "recv_inv isn D 4096 r out" using inv by (simp add: dir_inv_def)
  then have wf: "buf_wf (r_buffer r)" by (simp add: recv_inv_def)
  note pos = read_pass_pos [OF wf run refl]
  note ends = recv_inv_read [OF ri run]
  show ?thesis
  proof (cases res)
    case (Waiting g)
    then show ?thesis using pos ends(4) [OF Waiting] inv by (auto simp: dir_inv_def recv_pos_def)
  next
    case (Returned c e)
    let ?o = "out @ take c b'"
    have len: "length ?o + b_size (r_buffer r') = length out + b_size (r_buffer r)" using pos(1) Returned by simp
    have ri': "recv_inv isn D 4096 r' ?o" using ends(2) [OF Returned] .
    have "\<exists>rest. D = ?o @ rest"
      using ri' unfolding recv_inv_def by (metis append.assoc append_take_drop_id)
    then have pre: "?o = take (length ?o) D" by (metis append_eq_conv_conj)
    have "?o = D \<and> w_sendEOF (s_writeBuf s)" if "e = Some EOF"
    proof -
      have o: "?o = D" using ends(3) [of c] Returned that inv by (simp add: dir_inv_def)
      have "b_hitEOF (r_buffer r)"
        using run Returned that inv by (cases expired) (auto simp: read_pass_def Get_def Let_def bind_eq_Some_conv dir_inv_def split: if_splits)
      then show ?thesis using o inv ri by (auto simp: dir_inv_def recv_inv_def)
    qed
    moreover have "?o = D" if eof
      using that inv len ri' by (auto simp: dir_inv_def recv_inv_def asm_inv_def)
    moreover have "recv_pos r' ?o = recv_pos r out" using len pos(3) by (simp add: recv_pos_def)
    ultimately have "dir_inv isn m mem C D s fwd r' ?o (eof \<or> e = Some EOF) bwd"
      using inv pos(2-4) ri' unfolding dir_inv_def len by auto
    then show ?thesis unfolding Returned read_result.case using pre by (rule conjI)
  qed
qed

text \<open>The same for both results: what the application gets, and whether it sees the end.\<close>

definition read_bytes :: "bytes \<Rightarrow> read_result \<Rightarrow> bytes" where
  "read_bytes data res = (case res of Waiting g \<Rightarrow> [] | Returned m e \<Rightarrow> take m data)"

definition read_eof :: "read_result \<Rightarrow> bool" where
  "read_eof res \<longleftrightarrow> (case res of Waiting g \<Rightarrow> False | Returned m e \<Rightarrow> e = Some EOF)"

lemma dir_inv_read_bytes:
  assumes inv: "dir_inv isn m mem C D s fwd r out eof bwd" and run: "read_pass r expired b = Some (r', b', res)"
  shows "dir_inv isn m mem C D s fwd r' (out @ read_bytes b' res) (eof \<or> read_eof res) bwd"
    and "prefix (out @ read_bytes b' res) D"
proof -
  have "recv_inv isn D 4096 r out" using inv by (simp add: dir_inv_def)
  then have "out @ unread (r_buffer r) = take (length out + b_size (r_buffer r)) D" by (simp add: recv_inv_def)
  then have "prefix (out @ unread (r_buffer r)) D" by (metis take_is_prefix)
  then have out: "prefix out D" by (rule append_prefixD)
  show "dir_inv isn m mem C D s fwd r' (out @ read_bytes b' res) (eof \<or> read_eof res) bwd"
    using dir_inv_read [OF inv run] by (cases res) (auto simp only: read_bytes_def read_eof_def read_result.case append_Nil2 simp_thms)
  show "prefix (out @ read_bytes b' res) D"
  proof (cases res)
    case (Returned c e)
    then have "out @ read_bytes b' res = take (length (out @ read_bytes b' res)) D"
      using dir_inv_read [OF inv run] by (simp only: read_bytes_def read_result.case)
    then show ?thesis by (metis take_is_prefix)
  qed (use out in \<open>simp add: read_bytes_def\<close>)
qed

lemma recv_inv_window [simp]: "recv_inv isn S N (r\<lparr>r_windowOpen := w\<rparr>) out = recv_inv isn S N r out"
  by (simp add: recv_inv_def)

lemma dir_inv_window:
  "dir_inv isn m mem C D s fwd r out eof bwd \<Longrightarrow> dir_inv isn m mem C D s fwd (r\<lparr>r_windowOpen := w\<rparr>) out eof bwd"
  by (simp add: dir_inv_def recv_pos_def)

section \<open>Both directions\<close>

text \<open>\<open>isn\<close> are the first numbers of the two streams.  Every packet passes the filter of the network.\<close>

definition tcp_inv :: "(bool \<Rightarrow> u32) \<Rightarrow> tcp_sys \<Rightarrow> bool" where
  "tcp_inv isn y \<longleftrightarrow> (\<forall>x. addr_ok (y_conn y x) \<and>
     (\<forall>p \<in> set (y_net y x). NewTCP4Net_filter p = Some (Some p)) \<and>
     dir_inv (isn x) 512 (y_mem y x) (y_cells y x) (y_written y x) (c_send (y_conn y x)) (y_net y x)
       (c_recv (y_conn y (\<not> x))) (y_read y (\<not> x)) (y_eof y (\<not> x)) (y_net y (\<not> x)))"

text \<open>The two directions that side \<open>x\<close> takes part in.\<close>

lemma tcp_inv_sides:
  "tcp_inv isn y \<longleftrightarrow>
     addr_ok (y_conn y x) \<and> addr_ok (y_conn y (\<not> x)) \<and>
     (\<forall>p \<in> set (y_net y x) \<union> set (y_net y (\<not> x)). NewTCP4Net_filter p = Some (Some p)) \<and>
     dir_inv (isn x) 512 (y_mem y x) (y_cells y x) (y_written y x) (c_send (y_conn y x)) (y_net y x)
       (c_recv (y_conn y (\<not> x))) (y_read y (\<not> x)) (y_eof y (\<not> x)) (y_net y (\<not> x)) \<and>
     dir_inv (isn (\<not> x)) 512 (y_mem y (\<not> x)) (y_cells y (\<not> x)) (y_written y (\<not> x)) (c_send (y_conn y (\<not> x))) (y_net y (\<not> x))
       (c_recv (y_conn y x)) (y_read y x) (y_eof y x) (y_net y x)"
  unfolding tcp_inv_def by (cases x) (auto simp: all_bool_eq)

lemma tcp_inv_start:
  assumes "\<And>x. To4 (IP (addr x)) \<noteq> None"
  shows "tcp_inv isn (tcp_start addr isn win ttl)"
proof -
  have "keeps_data mem [] [] n" for mem n by (simp add: keeps_data_def)
  moreover have "send_inv (isn x) 512 [] 0 (newSimpleTcpSend (isn x) (win x) 512)" for x
    using send_inv_new [of "isn x" 512 "win x"] by simp
  moreover have "r_failErr (newSimpleTcpRecv n k) = None" "b_size (r_buffer (newSimpleTcpRecv n k)) = 0"
    "a_fin (r_assembler (newSimpleTcpRecv n k)) = - 2" for n k
    by (simp_all add: newSimpleTcpRecv_def newTCPRecvBuffer_def newTCPAssembler_def)
  moreover have "w_sentEOF (s_writeBuf (newSimpleTcpSend n w k)) = False" for n w k
    by (simp add: newSimpleTcpSend_def newTCPWriteBuffer_def)
  ultimately show ?thesis
    using assms recv_inv_new by (auto simp: tcp_inv_def dir_inv_def tcp_start_def addr_ok_def)
qed

lemma load_ok_fwd: "packet_segment p = Some seg \<Longrightarrow> load_ok isn D n c m seg \<Longrightarrow> fwd_ok isn D n c m p"
  by (auto simp: fwd_ok_def)

lemma empty_fwd: "packet_segment p = Some \<lparr>Start = i, Data = [], Fin = False\<rparr> \<Longrightarrow> fwd_ok isn D n c m p"
  by (auto simp: fwd_ok_def)

text \<open>An acknowledgement on its own belongs to both directions.\<close>

lemma sendAck_inv:
  assumes ok: "addr_ok c" and snd: "dir_inv isn 512 mem C D (c_send c) fwd r' out' eof' bwd"
    and rcv: "dir_inv isn' m' mem' C' D' s' bwd (c_recv c) out eof fwd"
  obtains p where "sendAck c = Some p" and "NewTCP4Net_filter p = Some (Some p)"
    and "packet_segment p = Some \<lparr>Start = send_Seq (c_send c), Data = [], Fin = False\<rparr>"
    and "packet_ack p = Some (recv_Ack (c_recv c), recv_Window (c_recv c))"
    and "dir_inv isn 512 mem C D (c_send c) (fwd @ [p]) r' out' eof' bwd"
    and "dir_inv isn' m' mem' C' D' s' bwd (c_recv c) out eof (fwd @ [p])"
proof -
  obtain p where p: "sendAck c = Some p" "NewTCP4Net_filter p = Some (Some p)"
    "packet_segment p = Some \<lparr>Start = send_Seq (c_send c), Data = [], Fin = False\<rparr>"
    "packet_ack p = Some (recv_Ack (c_recv c), recv_Window (c_recv c))"
    using sendSegment_packet [OF ok, of "\<lparr>Start = send_Seq (c_send c), Data = [], Fin = False\<rparr>"]
    by (auto simp: sendAck_segment)
  with dir_inv_fwd [OF snd empty_fwd [OF p(3)]] dir_inv_bwd [OF rcv p(4)] show ?thesis using that by blast
qed

text \<open>The round that takes the next segment of the sender.\<close>

lemma conn_loop_next:
  assumes ok: "addr_ok c" and snd: "dir_inv isn 512 mem C D (c_send c) fwd r' out' eof' bwd"
    and rcv: "dir_inv isn' m' mem' C' D' s' bwd (c_recv c) out eof fwd"
    and run: "\<not> (send_Done (c_send c) \<and> recv_Done (c_recv c))" and seg: "t_next (s_timer (c_send c)) = Some seg"
    and c': "c' = set_timer ((s_timer (c_send c))\<lparr>t_next := None\<rparr>) c"
  obtains p where "conn_loop mem c GotNext = Some (c', [p], GoesOn)" and "NewTCP4Net_filter p = Some (Some p)"
    and "packet_segment p = Some (seg_load mem seg)" and "dir_inv isn 512 mem C D (c_send c') (fwd @ [p]) r' out' eof' bwd"
    and "dir_inv isn' m' mem' C' D' s' bwd (c_recv c') out eof (fwd @ [p])"
proof -
  have ok': "seg_ok isn C (w_sendEOF (s_writeBuf (c_send c))) 512 seg"
    using snd seg by (auto simp: dir_inv_def send_inv_def timer_segs_def)
  have "addr_ok c'" using ok by (simp add: addr_ok_def set_timer_def c')
  then obtain p where p: "sendSegment c' (seg_load mem seg) = Some p" "NewTCP4Net_filter p = Some (Some p)"
    "packet_segment p = Some (seg_load mem seg)" "packet_ack p = Some (recv_Ack (c_recv c'), recv_Window (c_recv c'))"
    using sendSegment_packet [of c' "seg_load mem seg"] ok' by (auto simp: seg_ok_def)
  have load: "load_ok isn D (length out' + b_size (r_buffer r')) (w_sendEOF (s_writeBuf (c_send c))) 512 (seg_load mem seg)"
    using snd load_ok_load [OF ok', of mem D "length D - length (w_buffer (s_writeBuf (c_send c)))"]
    by (simp add: dir_inv_def)
  have "conn_loop mem c GotNext = Some (c', [p], GoesOn)"
    using p(1) seg run by (simp add: conn_loop_def Let_def set_timer_def c')
  moreover have "dir_inv isn 512 mem C D (c_send c') fwd r' out' eof' bwd"
    using dir_inv_timer [OF snd timer_segs_sub(5)] by (simp add: set_timer_def c')
  then have "dir_inv isn 512 mem C D (c_send c') (fwd @ [p]) r' out' eof' bwd"
    using load by (intro dir_inv_fwd load_ok_fwd [OF p(3)]) (simp_all add: set_timer_def c')
  moreover have "dir_inv isn' m' mem' C' D' s' bwd (c_recv c') out eof (fwd @ [p])"
    using rcv p(4) by (intro dir_inv_bwd) (auto simp: set_timer_def c')
  ultimately show ?thesis using p(2,3) that by blast
qed

text \<open>The round that takes a packet: the receiver gets its segment, the sender its acknowledgement, and data is
  acknowledged.\<close>

lemma conn_loop_packet:
  assumes ok: "addr_ok c" and snd: "dir_inv isn 512 mem C D (c_send c) fwd r' out' eof' bwd"
    and rcv: "dir_inv isn' m' mem' C' D' s' bwd (c_recv c) out eof fwd"
    and run: "\<not> (send_Done (c_send c) \<and> recv_Done (c_recv c))" and p: "p \<in> set bwd"
  obtains seg a w r s ps where "conn_loop mem c (GotTCP p) = Some (c\<lparr>c_recv := r, c_send := s\<rparr>, ps, GoesOn)"
    and "packet_segment p = Some seg" and "packet_ack p = Some (a, w)"
    and "recv_Handle (c_recv c) seg = Some r" and "send_Handle (c_send c) a w = Some s"
    and "dir_inv isn 512 mem C D s (fwd @ ps) r' out' eof' bwd" and "dir_inv isn' m' mem' C' D' s' bwd r out eof (fwd @ ps)"
    and "\<forall>p \<in> set ps. NewTCP4Net_filter p = Some (Some p)"
    and "Data seg \<noteq> [] \<longrightarrow> (\<exists>q. ps = [q] \<and> packet_ack q = Some (recv_Ack r, recv_Window r) \<and>
      packet_segment q = Some \<lparr>Start = send_Seq s, Data = [], Fin = False\<rparr>)"
proof -
  obtain seg r where r: "packet_segment p = Some seg" "recv_Handle (c_recv c) seg = Some r"
    "dir_inv isn' m' mem' C' D' s' bwd r out eof fwd"
    using dir_inv_arrive [OF rcv p] .
  obtain a w where aw: "packet_ack p = Some (a, w)" using snd p by (auto simp: dir_inv_def bwd_ok_def)
  obtain k where k: "send_inv isn 512 C k (c_send c)" using snd by (auto simp: dir_inv_def)
  then obtain s where s: "send_Handle (c_send c) a w = Some s" using send_Handle_inv by metis
  have snd1: "dir_inv isn 512 mem C D s fwd r' out' eof' bwd" by (rule dir_inv_ack [OF snd p aw s])
  let ?c = "c\<lparr>c_recv := r, c_send := s\<rparr>"
  have eq: "conn_loop mem c (GotTCP p) = (if length (Data seg) > 0
      then sendAck ?c \<bind> (\<lambda>p. Some (?c, [p], GoesOn)) else Some (?c, [], GoesOn))"
    unfolding conn_loop_def if_not_P [OF run] using r aw s by (simp add: Let_def)
  show ?thesis
  proof (cases "Data seg = []")
    case True
    then show ?thesis using eq r aw s snd1 by (intro that [where ps = "[]" and seg = seg and a = a and w = w and r = r and s = s]) simp_all
  next
    case False
    have "addr_ok ?c" "dir_inv isn 512 mem C D (c_send ?c) fwd r' out' eof' bwd"
      "dir_inv isn' m' mem' C' D' s' bwd (c_recv ?c) out eof fwd"
      using ok snd1 r(3) by (simp_all add: addr_ok_def)
    from sendAck_inv [OF this] obtain q where "sendAck ?c = Some q" "NewTCP4Net_filter q = Some (Some q)"
      "packet_segment q = Some \<lparr>Start = send_Seq s, Data = [], Fin = False\<rparr>"
      "packet_ack q = Some (recv_Ack r, recv_Window r)"
      "dir_inv isn 512 mem C D s (fwd @ [q]) r' out' eof' bwd" "dir_inv isn' m' mem' C' D' s' bwd r out eof (fwd @ [q])"
      by auto
    then show ?thesis using eq False r aw s by (intro that [where ps = "[q]" and seg = seg and a = a and w = w and r = r and s = s]) simp_all
  qed
qed

text \<open>One round of the loop: it never panics, and its packets belong to both directions.\<close>

lemma conn_loop_window:
  assumes ok: "addr_ok c"
    and snd: "dir_inv isn 512 mem C D (c_send c) fwd r' out' eof' bwd"
    and rcv: "dir_inv isn' m' mem' C' D' s' bwd (c_recv c) out eof fwd"
    and run: "\<not> (send_Done (c_send c) \<and> recv_Done (c_recv c))" and w: "r_windowOpen (c_recv c)"
    and c': "c' = c\<lparr>c_recv := (c_recv c)\<lparr>r_windowOpen := False\<rparr>\<rparr>"
  obtains p where "conn_loop mem c GotWindowOpen = Some (c', [p], GoesOn)" and "NewTCP4Net_filter p = Some (Some p)"
    and "dir_inv isn 512 mem C D (c_send c') (fwd @ [p]) r' out' eof' bwd"
    and "dir_inv isn' m' mem' C' D' s' bwd (c_recv c') out eof (fwd @ [p])"
proof -
  have c: "addr_ok c'" "dir_inv isn 512 mem C D (c_send c') fwd r' out' eof' bwd"
    "dir_inv isn' m' mem' C' D' s' bwd (c_recv c') out eof fwd"
    using ok snd dir_inv_window [OF rcv] by (simp_all add: addr_ok_def c')
  obtain p where p: "sendAck c' = Some p" "NewTCP4Net_filter p = Some (Some p)"
    "dir_inv isn 512 mem C D (c_send c') (fwd @ [p]) r' out' eof' bwd"
    "dir_inv isn' m' mem' C' D' s' bwd (c_recv c') out eof (fwd @ [p])"
    by (rule sendAck_inv [OF c])
  have "conn_loop mem c GotWindowOpen = Some (c', [p], GoesOn)"
    using w run p(1) by (auto simp: conn_loop_def Let_def c')
  then show ?thesis using that p(2-4) by blast
qed

lemma conn_loop_inv:
  assumes ok: "addr_ok c"
    and snd: "dir_inv isn 512 mem C D (c_send c) fwd r' out' eof' bwd"
    and rcv: "dir_inv isn' m' mem' C' D' s' bwd (c_recv c) out eof fwd"
    and e: "\<And>p. e = GotTCP p \<Longrightarrow> p \<in> set bwd"
  obtains c' ps l where "conn_loop mem c e = Some (c', ps, l)" and "addr_ok c'"
    and "dir_inv isn 512 mem C D (c_send c') (fwd @ ps) r' out' eof' bwd"
    and "dir_inv isn' m' mem' C' D' s' bwd (c_recv c') out eof (fwd @ ps)"
    and "\<forall>p \<in> set ps. NewTCP4Net_filter p = Some (Some p)"
    and "w_sendEOF (s_writeBuf (c_send c')) = w_sendEOF (s_writeBuf (c_send c))"
proof -
  note found = that
  have stays: thesis if "conn_loop mem c e = Some (c, [], l)" for l
    using that assms by (intro found [of c "[]" l]) simp_all
  show ?thesis
  proof (cases "send_Done (c_send c) \<and> recv_Done (c_recv c)")
    case True
    then show ?thesis by (intro stays [of ClosesStream]) (simp add: conn_loop_def)
  next
    case run: False
    show ?thesis
    proof (cases e)
      case GotNil
      then show ?thesis using run by (intro stays [of Returns]) (auto simp: conn_loop_def)
    next
      case GotNext
      show ?thesis
      proof (cases "t_next (s_timer (c_send c))")
        case None
        then show ?thesis using GotNext run by (intro stays [of GoesOn]) (auto simp: conn_loop_def)
      next
        case (Some seg)
        let ?c = "set_timer ((s_timer (c_send c))\<lparr>t_next := None\<rparr>) c"
        obtain p where p: "conn_loop mem c GotNext = Some (?c, [p], GoesOn)" "NewTCP4Net_filter p = Some (Some p)"
          "dir_inv isn 512 mem C D (c_send ?c) (fwd @ [p]) r' out' eof' bwd"
          "dir_inv isn' m' mem' C' D' s' bwd (c_recv ?c) out eof (fwd @ [p])"
          by (rule conn_loop_next [OF ok snd rcv run Some refl])
        show ?thesis
          by (rule that [of ?c "[p]" GoesOn]) (use p GotNext ok in \<open>simp_all add: set_timer_def addr_ok_def\<close>)
      qed
    next
      case GotWindowOpen
      show ?thesis
      proof (cases "r_windowOpen (c_recv c)")
        case False
        then show ?thesis using GotWindowOpen run by (intro stays [of GoesOn]) (auto simp: conn_loop_def)
      next
        case True
        let ?c = "c\<lparr>c_recv := (c_recv c)\<lparr>r_windowOpen := False\<rparr>\<rparr>"
        obtain p where p: "conn_loop mem c GotWindowOpen = Some (?c, [p], GoesOn)" "NewTCP4Net_filter p = Some (Some p)"
          "dir_inv isn 512 mem C D (c_send ?c) (fwd @ [p]) r' out' eof' bwd"
          "dir_inv isn' m' mem' C' D' s' bwd (c_recv ?c) out eof (fwd @ [p])"
          by (rule conn_loop_window [OF ok snd rcv run True refl])
        show ?thesis
          by (rule that [of ?c "[p]" GoesOn]) (use p GotWindowOpen ok in \<open>simp_all add: addr_ok_def\<close>)
      qed
    next
      case (GotTCP p)
      then have p: "p \<in> set bwd" using e by simp
      obtain seg a w r s ps where g: "conn_loop mem c (GotTCP p) = Some (c\<lparr>c_recv := r, c_send := s\<rparr>, ps, GoesOn)"
        "send_Handle (c_send c) a w = Some s" "dir_inv isn 512 mem C D s (fwd @ ps) r' out' eof' bwd"
        "dir_inv isn' m' mem' C' D' s' bwd r out eof (fwd @ ps)" "\<forall>p \<in> set ps. NewTCP4Net_filter p = Some (Some p)"
        by (rule conn_loop_packet [OF ok snd rcv run p])
      obtain k where "send_inv isn 512 C k (c_send c)" using snd by (auto simp: dir_inv_def)
      from send_Handle_sendEOF [OF this g(2)] show ?thesis using g ok GotTCP
        by (intro that [of "c\<lparr>c_recv := r, c_send := s\<rparr>" ps GoesOn]) (simp_all add: addr_ok_def)
    qed
  qed
qed

lemma tcp_loop_inv:
  assumes inv: "tcp_inv isn y" and en: "tcp_enabled y x (TLoop e)"
  obtains z where "tcp_step y x (TLoop e) = Some z" and "tcp_inv isn z"
    and "y_written z = y_written y" and "y_read z = y_read y" and "y_eof z = y_eof y" and "y_mem z = y_mem y"
    and "\<And>d. w_sendEOF (s_writeBuf (c_send (y_conn z d))) = w_sendEOF (s_writeBuf (c_send (y_conn y d)))"
proof -
  note i = inv [unfolded tcp_inv_sides [of isn y x]]
  have e: "p \<in> set (y_net y (\<not> x))" if "e = GotTCP p" for p using en that by (simp add: tcp_enabled_def)
  obtain c' ps l where c': "conn_loop (y_mem y x) (y_conn y x) e = Some (c', ps, l)" "addr_ok c'"
    "dir_inv (isn x) 512 (y_mem y x) (y_cells y x) (y_written y x) (c_send c') (y_net y x @ ps)
       (c_recv (y_conn y (\<not> x))) (y_read y (\<not> x)) (y_eof y (\<not> x)) (y_net y (\<not> x))"
    "dir_inv (isn (\<not> x)) 512 (y_mem y (\<not> x)) (y_cells y (\<not> x)) (y_written y (\<not> x)) (c_send (y_conn y (\<not> x))) (y_net y (\<not> x))
       (c_recv c') (y_read y x) (y_eof y x) (y_net y x @ ps)"
    "\<forall>p \<in> set ps. NewTCP4Net_filter p = Some (Some p)"
    "w_sendEOF (s_writeBuf (c_send c')) = w_sendEOF (s_writeBuf (c_send (y_conn y x)))"
    using conn_loop_inv [of "y_conn y x" _ _ _ _ _ _ _ _ _ _ _ _ _ _ _ _ _ e, OF _ _ _ e] i by metis
  let ?z = "(set_conn x c' y)\<lparr>y_net := (y_net y)(x := y_net y x @ ps), y_running := (y_running y)(x := l = GoesOn)\<rparr>"
  have "tcp_step y x (TLoop e) = Some ?z" using c'(1) by (simp add: tcp_step_def)
  moreover have "tcp_inv isn ?z"
    unfolding tcp_inv_sides [of isn ?z x] using i c' by (auto simp: set_conn_def)
  ultimately show ?thesis using c'(6) by (intro that [of ?z]) (simp_all add: set_conn_def)
qed

text \<open>The calls of \<open>Write\<close> and \<open>Read\<close>.\<close>

lemma tcp_write_step:
  assumes "tcp_step y x (TWrite expired d) = Some z"
  obtains s r where "Write (c_send (y_conn y x)) expired d = Some (s, r)"
    and "y_conn z = (y_conn y)(x := (y_conn y x)\<lparr>c_send := s\<rparr>)"
    and "y_running z = y_running y" "y_net z = y_net y" "y_mem z = y_mem y" "y_read z = y_read y" "y_eof z = y_eof y"
    and "y_cells z = (y_cells y)(x := if accepted r then y_cells y x @ d else y_cells y x)"
    and "y_written z = (y_written y)(x := if accepted r then y_written y x @ map (y_mem y x) d else y_written y x)"
proof -
  obtain s r where s: "Write (c_send (y_conn y x)) expired d = Some (s, r)"
    using assms by (auto simp: tcp_step_def conn_Write_def bind_eq_Some_conv)
  then have "z = (if accepted r
      then (set_conn x ((y_conn y x)\<lparr>c_send := s\<rparr>) y)\<lparr>y_cells := (y_cells y)(x := y_cells y x @ d),
        y_written := (y_written y)(x := y_written y x @ map (y_mem y x) d)\<rparr>
      else set_conn x ((y_conn y x)\<lparr>c_send := s\<rparr>) y)"
    using assms by (simp add: tcp_step_def conn_Write_def)
  then show ?thesis by (intro that [OF s]) (simp_all add: set_conn_def)
qed

lemma tcp_read_step:
  assumes "tcp_step y x (TRead expired b) = Some z"
  obtains r data res where "read_pass (c_recv (y_conn y x)) expired (map (y_mem y x) b) = Some (r, data, res)"
    and "y_conn z = (y_conn y)(x := (y_conn y x)\<lparr>c_recv := r\<rparr>)"
    and "y_running z = y_running y" "y_net z = y_net y" "y_cells z = y_cells y" "y_written z = y_written y"
    and "y_mem z = (y_mem y)(x := store_cells (y_mem y x) b data)"
    and "y_read z = (y_read y)(x := y_read y x @ read_bytes data res)"
    and "y_eof z = (y_eof y)(x := y_eof y x \<or> read_eof res)"
proof -
  obtain r data res where r: "read_pass (c_recv (y_conn y x)) expired (map (y_mem y x) b) = Some (r, data, res)"
    using assms by (auto simp: tcp_step_def conn_Read_def bind_eq_Some_conv Let_def)
  show ?thesis
  proof (cases res)
    case (Waiting g)
    then have "z = (set_conn x ((y_conn y x)\<lparr>c_recv := r\<rparr>) y)\<lparr>y_mem := (y_mem y)(x := store_cells (y_mem y x) b data)\<rparr>"
      using assms r by (simp add: tcp_step_def conn_Read_def)
    then show ?thesis using Waiting by (intro that [OF r]) (simp_all add: set_conn_def read_bytes_def read_eof_def)
  next
    case (Returned m e)
    then have "z = (set_conn x ((y_conn y x)\<lparr>c_recv := r\<rparr>) y)\<lparr>y_mem := (y_mem y)(x := store_cells (y_mem y x) b data),
        y_read := (y_read y)(x := y_read y x @ take m data), y_eof := (y_eof y)(x := y_eof y x \<or> e = Some EOF)\<rparr>"
      using assms r by (simp add: tcp_step_def conn_Read_def set_conn_def)
    then show ?thesis using Returned by (intro that [OF r]) (simp_all add: set_conn_def read_bytes_def read_eof_def)
  qed
qed

lemma tcp_step_inv:
  assumes inv: "tcp_inv isn y" and en: "tcp_enabled y x op" and run: "tcp_step y x op = Some z"
  shows "tcp_inv isn z"
proof -
  note i = inv [unfolded tcp_inv_sides [of isn y x]]
  note unfold = tcp_inv_sides [of isn z x]
  have own: "dir_inv (isn x) 512 (y_mem y x) (y_cells y x) (y_written y x) (c_send (y_conn y x)) (y_net y x)
     (c_recv (y_conn y (\<not> x))) (y_read y (\<not> x)) (y_eof y (\<not> x)) (y_net y (\<not> x))" using i by blast
  show ?thesis
  proof (cases op)
    case (TLoop e)
    then show ?thesis using tcp_loop_inv [OF inv, of x e] en run by (metis option.inject)
  next
    case (TWrite expired d)
    obtain s r where s: "Write (c_send (y_conn y x)) expired d = Some (s, r)"
      and z: "y_conn z = (y_conn y)(x := (y_conn y x)\<lparr>c_send := s\<rparr>)"
      "y_running z = y_running y" "y_net z = y_net y" "y_mem z = y_mem y" "y_read z = y_read y" "y_eof z = y_eof y"
      "y_cells z = (y_cells y)(x := if accepted r then y_cells y x @ d else y_cells y x)"
      "y_written z = (y_written y)(x := if accepted r then y_written y x @ map (y_mem y x) d else y_written y x)"
      by (rule tcp_write_step [OF run [unfolded TWrite]])
    have "length (y_written y x) + length d < 2 ^ 31" using en TWrite by (simp add: tcp_enabled_def)
    note snd = dir_inv_write [OF _ s this]
    show ?thesis unfolding unfold z using i snd by (simp add: addr_ok_def)
  next
    case (TClose expired)
    then obtain s r where s: "send_Close (c_send (y_conn y x)) expired = Some (s, r)"
      and z: "z = set_conn x ((y_conn y x)\<lparr>c_send := s\<rparr>) y"
      using run by (auto simp: tcp_step_def conn_Close_def bind_eq_Some_conv)
    with i show ?thesis unfolding unfold by (auto simp: set_conn_def addr_ok_def dest: dir_inv_close)
  next
    case (TRead expired b)
    obtain r data res where r: "read_pass (c_recv (y_conn y x)) expired (map (y_mem y x) b) = Some (r, data, res)"
      and z: "y_conn z = (y_conn y)(x := (y_conn y x)\<lparr>c_recv := r\<rparr>)"
      "y_running z = y_running y" "y_net z = y_net y" "y_cells z = y_cells y" "y_written z = y_written y"
      "y_mem z = (y_mem y)(x := store_cells (y_mem y x) b data)"
      "y_read z = (y_read y)(x := y_read y x @ read_bytes data res)"
      "y_eof z = (y_eof y)(x := y_eof y x \<or> read_eof res)"
      by (rule tcp_read_step [OF run [unfolded TRead]])
    have "dir_inv (isn (\<not> x)) 512 (y_mem y (\<not> x)) (y_cells y (\<not> x)) (y_written y (\<not> x)) (c_send (y_conn y (\<not> x))) (y_net y (\<not> x))
       (c_recv (y_conn y x)) (y_read y x) (y_eof y x) (y_net y x)" using i by blast
    note rcv = dir_inv_read_bytes(1) [OF this r]
    have snd: "dir_inv (isn x) 512 (store_cells (y_mem y x) b data) (y_cells y x) (y_written y x) (c_send (y_conn y x)) (y_net y x)
       (c_recv (y_conn y (\<not> x))) (y_read y (\<not> x)) (y_eof y (\<not> x)) (y_net y (\<not> x))"
      by (rule dir_inv_mem [OF own], rule store_cells_other) (use en TRead in \<open>auto simp: tcp_enabled_def\<close>)
    show ?thesis unfolding unfold z using i rcv snd by (simp add: addr_ok_def)
  next
    case (TStore a b)
    have "dir_inv (isn x) 512 ((y_mem y x)(a := b)) (y_cells y x) (y_written y x) (c_send (y_conn y x)) (y_net y x)
       (c_recv (y_conn y (\<not> x))) (y_read y (\<not> x)) (y_eof y (\<not> x)) (y_net y (\<not> x))"
      by (rule dir_inv_mem [OF own]) (use en TStore in \<open>auto simp: tcp_enabled_def\<close>)
    then show ?thesis using i run TStore unfolding unfold by (auto simp: tcp_step_def)
  next
    case TExpire
    then show ?thesis using i run dir_inv_timer [OF _ timer_segs_sub(4)] unfolding unfold
      by (auto simp: tcp_step_def set_conn_def set_timer_def addr_ok_def)
  next
    case (TRun k)
    then show ?thesis using i run dir_inv_timer [OF _ timer_run_segs] unfolding unfold
      by (auto simp: tcp_step_def set_conn_def set_timer_def addr_ok_def)
  qed
qed

lemma tcp_reach_inv:
  assumes "tcp_reach (tcp_start addr isn win ttl) y" and "\<And>x. To4 (IP (addr x)) \<noteq> None"
  shows "tcp_inv isn y"
  using assms(1)
proof (induction rule: tcp_reach.induct)
  case tcp_reach_start
  show ?case by (rule tcp_inv_start) (rule assms(2))
next
  case (tcp_reach_step y x op z)
  then show ?case using tcp_step_inv by blast
qed

section \<open>The abstract stream\<close>

text \<open>What a direction of a connection promises: the reader gets the bytes in the order in which they
  were written, and the end only behind the last one of a stream that was closed.\<close>

record stream_spec =
  sp_written :: bytes
  sp_closed :: bool
  sp_read :: bytes
  sp_eof :: bool

inductive spec_step :: "stream_spec \<Rightarrow> stream_spec \<Rightarrow> bool" where
  spec_write: "\<not> sp_closed s \<Longrightarrow> spec_step s (s\<lparr>sp_written := sp_written s @ d\<rparr>)"
| spec_close: "spec_step s (s\<lparr>sp_closed := True\<rparr>)"
| spec_read: "prefix (sp_read s @ d) (sp_written s) \<Longrightarrow> spec_step s (s\<lparr>sp_read := sp_read s @ d\<rparr>)"
| spec_eof: "sp_closed s \<Longrightarrow> sp_read s = sp_written s \<Longrightarrow> spec_step s (s\<lparr>sp_eof := True\<rparr>)"

definition stream_of :: "tcp_sys \<Rightarrow> bool \<Rightarrow> stream_spec" where
  "stream_of y x = \<lparr>sp_written = y_written y x, sp_closed = w_sendEOF (s_writeBuf (c_send (y_conn y x))),
     sp_read = y_read y (\<not> x), sp_eof = y_eof y (\<not> x)\<rparr>"

lemma Write_stream:
  assumes "dir_inv isn m mem C D s fwd r out eof bwd" and "Write s expired d = Some (s', res)" and "length d < 2 ^ 32"
  shows "w_sendEOF (s_writeBuf s') = w_sendEOF (s_writeBuf s) \<and>
    (accepted res \<longrightarrow> \<not> w_sendEOF (s_writeBuf s))"
proof (cases "d = []")
  case True
  then show ?thesis using assms(2) by (auto simp: Write_eq accepted_def)
next
  case False
  obtain p where p: "send_inv isn m C p s" using assms(1) by (auto simp: dir_inv_def)
  have "writeOrClose s expired d False = Some (s', res)" using assms(2) False by (simp add: Write_eq)
  from p assms(3) this show ?thesis by (cases rule: writeOrClose_inv) (auto simp: accepted_def)
qed

lemma Close_stream:
  assumes "dir_inv isn m mem C D s fwd r out eof bwd" and "send_Close s expired = Some (s', res)"
  shows "w_sendEOF (s_writeBuf s') = w_sendEOF (s_writeBuf s) \<or> w_sendEOF (s_writeBuf s')"
proof -
  obtain p where "send_inv isn m C p s" using assms(1) by (auto simp: dir_inv_def)
  moreover have "length ([] :: cell list) < 2 ^ 32" "writeOrClose s expired [] True = Some (s', res)"
    using assms(2) by (simp_all add: send_Close_def)
  ultimately show ?thesis by (cases rule: writeOrClose_inv) auto
qed

text \<open>A step of the connections is at most two steps of the stream, in each direction.\<close>

lemma read_simulation:
  assumes "dir_inv isn m mem C D s fwd r (out @ d) (eof \<or> e) bwd" and "prefix (out @ d) D"
  shows "spec_step\<^sup>*\<^sup>* \<lparr>sp_written = D, sp_closed = w_sendEOF (s_writeBuf s), sp_read = out, sp_eof = eof\<rparr>
    \<lparr>sp_written = D, sp_closed = w_sendEOF (s_writeBuf s), sp_read = out @ d, sp_eof = eof \<or> e\<rparr>"
proof -
  let ?a = "\<lparr>sp_written = D, sp_closed = w_sendEOF (s_writeBuf s), sp_read = out, sp_eof = eof\<rparr>"
  have 1: "spec_step ?a (?a\<lparr>sp_read := out @ d\<rparr>)" using assms(2) spec_read [of ?a d] by simp
  show ?thesis
  proof (cases "eof \<or> e")
    case True
    then have "out @ d = D" "w_sendEOF (s_writeBuf s)" using assms(1) by (auto simp: dir_inv_def)
    then have "spec_step (?a\<lparr>sp_read := out @ d\<rparr>) (?a\<lparr>sp_read := out @ d, sp_eof := True\<rparr>)"
      using spec_eof [of "?a\<lparr>sp_read := out @ d\<rparr>"] by simp
    with 1 True show ?thesis by (auto intro: rtranclp_trans r_into_rtranclp)
  next
    case False
    with 1 show ?thesis by auto
  qed
qed

lemma write_simulation:
  assumes inv: "tcp_inv isn y" and len: "length b < 2 ^ 32" and run: "tcp_step y x (TWrite expired b) = Some z"
  shows "spec_step\<^sup>*\<^sup>* (stream_of y d) (stream_of z d)"
proof -
  obtain s r where s: "Write (c_send (y_conn y x)) expired b = Some (s, r)"
    and z: "y_conn z = (y_conn y)(x := (y_conn y x)\<lparr>c_send := s\<rparr>)" "y_read z = y_read y" "y_eof z = y_eof y"
    "y_written z = (y_written y)(x := if accepted r then y_written y x @ map (y_mem y x) b else y_written y x)"
    by (rule tcp_write_step [OF run])
  have w: "w_sendEOF (s_writeBuf s) = w_sendEOF (s_writeBuf (c_send (y_conn y x)))"
    "accepted r \<longrightarrow> \<not> w_sendEOF (s_writeBuf (c_send (y_conn y x)))"
    using Write_stream [OF _ s len] inv [unfolded tcp_inv_sides [of isn y x]] by blast+
  show ?thesis
  proof (cases "d = x \<and> accepted r")
    case True
    then have "spec_step (stream_of y d) (stream_of z d)"
      using spec_write [of "stream_of y x" "map (y_mem y x) b"] w by (simp add: stream_of_def z)
    then show ?thesis by blast
  next
    case False
    then have "stream_of z d = stream_of y d" using w(1) by (auto simp: stream_of_def z)
    then show ?thesis by simp
  qed
qed

lemma close_simulation:
  assumes inv: "tcp_inv isn y" and run: "tcp_step y x (TClose expired) = Some z"
  shows "spec_step\<^sup>*\<^sup>* (stream_of y d) (stream_of z d)"
proof -
  obtain s r where s: "send_Close (c_send (y_conn y x)) expired = Some (s, r)"
    and z: "z = set_conn x ((y_conn y x)\<lparr>c_send := s\<rparr>) y"
    using run by (auto simp: tcp_step_def conn_Close_def bind_eq_Some_conv)
  have "stream_of z d = stream_of y d \<or> stream_of z d = (stream_of y d)\<lparr>sp_closed := True\<rparr>"
    using Close_stream [OF _ s] inv [unfolded tcp_inv_sides [of isn y x]] by (auto simp: stream_of_def z set_conn_def)
  then show ?thesis using spec_close [of "stream_of y d"] by auto
qed

lemma read_call_simulation:
  assumes inv: "tcp_inv isn y" and run: "tcp_step y x (TRead expired b) = Some z"
  shows "spec_step\<^sup>*\<^sup>* (stream_of y d) (stream_of z d)"
proof -
  obtain r data res where r: "read_pass (c_recv (y_conn y x)) expired (map (y_mem y x) b) = Some (r, data, res)"
    and z: "y_conn z = (y_conn y)(x := (y_conn y x)\<lparr>c_recv := r\<rparr>)" "y_written z = y_written y"
    "y_read z = (y_read y)(x := y_read y x @ read_bytes data res)" "y_eof z = (y_eof y)(x := y_eof y x \<or> read_eof res)"
    by (rule tcp_read_step [OF run])
  have di: "dir_inv (isn (\<not> x)) 512 (y_mem y (\<not> x)) (y_cells y (\<not> x)) (y_written y (\<not> x)) (c_send (y_conn y (\<not> x)))
     (y_net y (\<not> x)) (c_recv (y_conn y x)) (y_read y x) (y_eof y x) (y_net y x)"
    using inv [unfolded tcp_inv_sides [of isn y x]] by blast
  show ?thesis
  proof (cases "d = x")
    case True
    then have "stream_of z d = stream_of y d" by (simp add: stream_of_def z)
    then show ?thesis by simp
  next
    case False
    then have "d = (\<not> x)" by simp
    then show ?thesis
      using read_simulation [OF dir_inv_read_bytes [OF di r]] by (simp add: stream_of_def z)
  qed
qed

lemma tcp_simulation:
  assumes inv: "tcp_inv isn y" and en: "tcp_enabled y x op" and run: "tcp_step y x op = Some z"
  shows "spec_step\<^sup>*\<^sup>* (stream_of y d) (stream_of z d)"
proof (cases op)
  case (TLoop e)
  obtain z' where "tcp_step y x (TLoop e) = Some z'" "y_written z' = y_written y" "y_read z' = y_read y"
    "y_eof z' = y_eof y" "\<And>d. w_sendEOF (s_writeBuf (c_send (y_conn z' d))) = w_sendEOF (s_writeBuf (c_send (y_conn y d)))"
    using tcp_loop_inv [OF inv, of x e] en TLoop by metis
  then show ?thesis using run TLoop by (simp add: stream_of_def)
next
  case (TWrite expired b)
  then have "length b < 2 ^ 32" using en by (simp add: tcp_enabled_def)
  then show ?thesis using write_simulation [OF inv] run TWrite by blast
next
  case (TClose expired)
  then show ?thesis using close_simulation [OF inv] run by simp
next
  case (TRead expired b)
  then show ?thesis using read_call_simulation [OF inv] run by simp
next
  case (TStore a b)
  then have "stream_of z d = stream_of y d" using run by (auto simp: tcp_step_def stream_of_def)
  then show ?thesis by simp
next
  case TExpire
  then have "stream_of z d = stream_of y d"
    using run by (cases "d = x") (auto simp: tcp_step_def stream_of_def set_conn_def set_timer_def)
  then show ?thesis by simp
next
  case (TRun k)
  then have "stream_of z d = stream_of y d"
    using run by (cases "d = x") (auto simp: tcp_step_def stream_of_def set_conn_def set_timer_def)
  then show ?thesis by simp
qed

end
