(* ===== verification/TCP_Deliver.thy ===== *)
theory TCP_Deliver
  imports TCP_Conn
begin

text \<open>
  The connections of \<open>TCP_Conn\<close> at work: writes and closes that get through, and the properties of two
  connections.
\<close>

section \<open>Rounds of the loops\<close>

text \<open>The loop of side \<open>x\<close> sends the next segment.\<close>

lemma tcp_next:
  assumes inv: "tcp_inv isn y" and run: "y_running y x"
    and nd: "\<not> (send_Done (c_send (y_conn y x)) \<and> recv_Done (c_recv (y_conn y x)))"
    and seg: "t_next (s_timer (c_send (y_conn y x))) = Some seg"
  obtains p z where "tcp_enabled y x (TLoop GotNext)" and "tcp_step y x (TLoop GotNext) = Some z" and "tcp_inv isn z"
    and "packet_segment p = Some (seg_load (y_mem y x) seg)"
    and "y_conn z = (y_conn y)(x := set_timer ((s_timer (c_send (y_conn y x)))\<lparr>t_next := None\<rparr>) (y_conn y x))"
    and "y_net z = (y_net y)(x := y_net y x @ [p])" and "y_running z = y_running y"
    and "y_written z = y_written y" and "y_read z = y_read y" and "y_eof z = y_eof y"
    and "y_mem z = y_mem y" and "y_cells z = y_cells y"
proof -
  let ?c = "set_timer ((s_timer (c_send (y_conn y x)))\<lparr>t_next := None\<rparr>) (y_conn y x)"
  have i: "addr_ok (y_conn y x)"
    "dir_inv (isn x) 512 (y_mem y x) (y_cells y x) (y_written y x) (c_send (y_conn y x)) (y_net y x)
       (c_recv (y_conn y (\<not> x))) (y_read y (\<not> x)) (y_eof y (\<not> x)) (y_net y (\<not> x))"
    "dir_inv (isn (\<not> x)) 512 (y_mem y (\<not> x)) (y_cells y (\<not> x)) (y_written y (\<not> x)) (c_send (y_conn y (\<not> x))) (y_net y (\<not> x))
       (c_recv (y_conn y x)) (y_read y x) (y_eof y x) (y_net y x)"
    using inv [unfolded tcp_inv_sides [of isn y x]] by blast+
  obtain p where p: "conn_loop (y_mem y x) (y_conn y x) GotNext = Some (?c, [p], GoesOn)" "packet_segment p = Some (seg_load (y_mem y x) seg)"
    by (rule conn_loop_next [OF i nd seg refl])
  let ?z = "(set_conn x ?c y)\<lparr>y_net := (y_net y)(x := y_net y x @ [p]), y_running := (y_running y)(x := True)\<rparr>"
  have en: "tcp_enabled y x (TLoop GotNext)" using run by (simp add: tcp_enabled_def)
  have step: "tcp_step y x (TLoop GotNext) = Some ?z" using p(1) by (simp add: tcp_step_def)
  have "(y_running y)(x := True) = y_running y" using run by (simp add: fun_upd_idem)
  then show ?thesis
    by (intro that [OF en step tcp_step_inv [OF inv en step] p(2)]) (simp_all add: set_conn_def)
qed

text \<open>The loop of side \<open>x\<close> takes a packet of the other side.\<close>

lemma tcp_packet:
  assumes inv: "tcp_inv isn y" and run: "y_running y x"
    and nd: "\<not> (send_Done (c_send (y_conn y x)) \<and> recv_Done (c_recv (y_conn y x)))"
    and p: "p \<in> set (y_net y (\<not> x))" and seg: "packet_segment p = Some seg"
  obtains a w r s ps z where "tcp_enabled y x (TLoop (GotTCP p))" and "tcp_step y x (TLoop (GotTCP p)) = Some z"
    and "tcp_inv isn z" and "packet_ack p = Some (a, w)" and "recv_Handle (c_recv (y_conn y x)) seg = Some r"
    and "send_Handle (c_send (y_conn y x)) a w = Some s"
    and "Data seg \<noteq> [] \<longrightarrow> (\<exists>q. ps = [q] \<and> packet_ack q = Some (recv_Ack r, recv_Window r) \<and>
      packet_segment q = Some \<lparr>Start = send_Seq s, Data = [], Fin = False\<rparr>)"
    and "y_conn z = (y_conn y)(x := (y_conn y x)\<lparr>c_recv := r, c_send := s\<rparr>)"
    and "y_net z = (y_net y)(x := y_net y x @ ps)" and "y_running z = y_running y"
    and "y_written z = y_written y" and "y_read z = y_read y" and "y_eof z = y_eof y"
    and "y_mem z = y_mem y" and "y_cells z = y_cells y"
proof -
  have i: "addr_ok (y_conn y x)"
    "dir_inv (isn x) 512 (y_mem y x) (y_cells y x) (y_written y x) (c_send (y_conn y x)) (y_net y x)
       (c_recv (y_conn y (\<not> x))) (y_read y (\<not> x)) (y_eof y (\<not> x)) (y_net y (\<not> x))"
    "dir_inv (isn (\<not> x)) 512 (y_mem y (\<not> x)) (y_cells y (\<not> x)) (y_written y (\<not> x)) (c_send (y_conn y (\<not> x))) (y_net y (\<not> x))
       (c_recv (y_conn y x)) (y_read y x) (y_eof y x) (y_net y x)"
    using inv [unfolded tcp_inv_sides [of isn y x]] by blast+
  obtain seg' a w r s ps where c: "conn_loop (y_mem y x) (y_conn y x) (GotTCP p) = Some ((y_conn y x)\<lparr>c_recv := r, c_send := s\<rparr>, ps, GoesOn)"
    "packet_segment p = Some seg'" "packet_ack p = Some (a, w)"
    "recv_Handle (c_recv (y_conn y x)) seg' = Some r" "send_Handle (c_send (y_conn y x)) a w = Some s"
    "Data seg' \<noteq> [] \<longrightarrow> (\<exists>q. ps = [q] \<and> packet_ack q = Some (recv_Ack r, recv_Window r) \<and>
      packet_segment q = Some \<lparr>Start = send_Seq s, Data = [], Fin = False\<rparr>)"
    by (rule conn_loop_packet [OF i nd p])
  have "seg' = seg" using c(2) seg by simp
  note c = c [unfolded this]
  let ?z = "(set_conn x ((y_conn y x)\<lparr>c_recv := r, c_send := s\<rparr>) y)\<lparr>y_net := (y_net y)(x := y_net y x @ ps),
    y_running := (y_running y)(x := True)\<rparr>"
  have en: "tcp_enabled y x (TLoop (GotTCP p))" using run p by (simp add: tcp_enabled_def)
  have step: "tcp_step y x (TLoop (GotTCP p)) = Some ?z" using c(1) by (simp add: tcp_step_def)
  have "(y_running y)(x := True) = y_running y" using run by (simp add: fun_upd_idem)
  then show ?thesis
    by (intro that [OF en step tcp_step_inv [OF inv en step] c(3-6)]) (simp_all add: set_conn_def)
qed

section \<open>A write that gets through\<close>

lemma Write_small:
  assumes idle: "w_buffer (s_writeBuf s) = []" "\<not> w_sendEOF (s_writeBuf s)" "s_failErr s = None"
      "t_next (s_timer s) = None"
    and d: "d \<noteq> []" "length d \<le> unat (s_window s)" "length d \<le> unat (s_maxSegmentSize s)"
  obtains s' where "Write s False d = Some (s', WaitNotify (s_notify s))"
    and "t_next (s_timer s') = Some \<lparr>Start = w_sequence (s_writeBuf s), Data = d, Fin = False\<rparr>"
    and "w_buffer (s_writeBuf s') = d" and "\<not> w_sendEOF (s_writeBuf s')" and "s_failErr s' = None"
    and "s_notify s' = s_notify s"
proof -
  let ?seg = "\<lparr>Start = w_sequence (s_writeBuf s), Data = d, Fin = False\<rparr>"
  let ?buf = "(s_writeBuf s)\<lparr>w_buffer := d\<rparr>"
  let ?s = "s\<lparr>s_writeBuf := ?buf, s_timer := timer_Send ?seg (timer_Cancel (s_timer s))\<rparr>"
  have "unat (s_window s) < 2 ^ LENGTH(16)" by (rule unsigned_less)
  with d(2) have "length d < 2 ^ LENGTH(16)" by (rule le_less_trans)
  then have "length d < 2 ^ 32" by simp
  then have "unat (of_nat (length d) :: u32) = length d" by (rule unat_of_nat_u32_less)
  then have rem: "(of_nat (length d) :: u32) \<noteq> 0" using d(1) by (metis length_0_conv unat_0)
  have win: "s_window s \<noteq> 0" using d by auto
  have seg: "Segment ?buf k = Some ?seg" if "length d \<le> unat k" for k
  proof -
    have "uint k = int (unat k)" by simp
    then have "\<not> int (length d) > uint k" using that by linarith
    then show ?thesis using rem idle(2) by (simp add: Segment_def Remaining_def)
  qed
  have "sendNext (s\<lparr>s_writeBuf := ?buf\<rparr>) = Some ?s"
    using win rem idle(2) d(2,3) seg by (simp add: sendNext_def Let_def Remaining_def)
  then have "Write s False d = Some (?s, WaitNotify (s_notify s))"
    using idle d(1) by (simp add: Write_def writeOrClose_def SetData_def)
  then show ?thesis
    using idle by (intro that [of ?s]) (simp_all add: timer_Send_def timer_Schedule_def timer_Cancel_def)
qed

lemma not_done:
  assumes "dir_inv isn m mem C D s fwd r out eof bwd" and "\<not> w_sendEOF (s_writeBuf s)"
  shows "s_failErr s = None \<Longrightarrow> \<not> send_Done s" and "\<not> recv_Done r"
  using assms by (auto simp: send_Done_def recv_Done_def dir_inv_def send_inv_def wbuf_inv_def recv_inv_def)

text \<open>The receiver, when the next segment arrives and fits.\<close>

lemma dir_inv_next:
  assumes inv: "dir_inv isn m mem C (D @ d) s fwd r out eof bwd" and n: "length out + b_size (r_buffer r) = length D"
    and room: "b_size (r_buffer r) + length d \<le> 4096"
    and h: "recv_Handle r \<lparr>Start = isn + of_nat (length D), Data = d, Fin = False\<rparr> = Some r'"
    and open': "\<not> w_sendEOF (s_writeBuf s)" and inv': "dir_inv isn m mem C (D @ d) s fwd r' out eof bwd"
  shows "unread (r_buffer r') = unread (r_buffer r) @ d" and "recv_Ack r' = isn + of_nat (length (D @ d))"
proof -
  let ?g = "\<lparr>Start = isn + of_nat (length D), Data = d, Fin = False\<rparr>"
  have ri: "recv_inv isn (D @ d) 4096 r out" and len: "length (D @ d) < 2 ^ 31"
    using inv by (simp_all add: dir_inv_def)
  have seg: "segment_from isn (D @ d) (length D) (length D) ?g" by (simp add: segment_from_def nth_append)
  have near: "near (length D) (length D) ?g" using len by (simp add: near_def)
  obtain r1 k where r1: "recv_Handle r ?g = Some r1" "recv_inv isn (D @ d) 4096 r1 out"
    "b_size (r_buffer r1) = b_size (r_buffer r) + k" "unread (r_buffer r1) = unread (r_buffer r) @ take k d"
    "\<And>i. i \<le> length d \<Longrightarrow> int i \<le> buffer_Window (r_buffer r) \<Longrightarrow> i \<le> 65536 \<Longrightarrow> i \<le> k"
    by (rule recv_inv_Handle [OF ri seg n [symmetric] near]) (rule that, assumption, assumption, assumption, simp, simp)
  have "int (length d) \<le> buffer_Window (r_buffer r)" "length d \<le> 65536"
    using room ri by (auto simp: buffer_Window_def recv_inv_def)
  then have k: "length d \<le> k" using r1(5) by simp
  have r': "r' = r1" using h r1(1) by simp
  show "unread (r_buffer r') = unread (r_buffer r) @ d" using r1(4) k by (simp add: r')
  have "\<not> b_hitEOF (r_buffer r')" using not_done(2) [OF inv' open'] by (simp add: recv_Done_def)
  moreover have "length out + b_size (r_buffer r1) \<le> length (D @ d)"
    using r1(2) by (simp add: recv_inv_def asm_inv_def)
  then have "length out + b_size (r_buffer r') = length (D @ d)" using n r1(3) k by (simp add: r')
  moreover have "recv_inv isn (D @ d) 4096 r' out" using r1(2) by (simp add: r')
  ultimately show "recv_Ack r' = isn + of_nat (length (D @ d))"
    using recv_inv_Ack [of isn "D @ d" 4096 r' out] by simp
qed

text \<open>The sender, when everything is acknowledged.\<close>

lemma dir_inv_acked:
  assumes inv: "dir_inv isn m mem C D s fwd r out eof bwd" and open': "\<not> w_sendEOF (s_writeBuf s)"
    and h: "send_Handle s (isn + of_nat (length D)) w = Some s'"
  shows "w_buffer (s_writeBuf s') = []" and "s_notify s' = s_notify s + 1"
proof -
  obtain p where p: "send_inv isn m C p s" using inv by (auto simp: dir_inv_def)
  have C: "length C = length D" using inv by (simp add: dir_inv_def keeps_data_def)
  have wb: "wbuf_inv isn C p (s_writeBuf s)" using p by (simp add: send_inv_def)
  then have p_le: "p \<le> length D" using C by (simp add: wbuf_inv_def)
  obtain p' where s': "send_inv isn m C p' s'"
    "write_Handle (s_writeBuf s) (isn + of_nat (length D)) = Some (s_writeBuf s')"
    "s_notify s' = s_notify s + (if Remaining (s_writeBuf s') = 0 then 1 else 0)"
    using send_Handle_inv [OF p, of "isn + of_nat (length D)" w] h by (metis option.inject)
  have "unat (of_nat (length D) + isn - (isn + of_nat p)) = length D - p"
    using p_le inv by (intro seq_offset) (auto simp: dir_inv_def)
  then have j: "p + unat (isn + of_nat (length D) - (isn + of_nat p)) = length D"
    using p_le by (simp add: add.commute)
  show buf: "w_buffer (s_writeBuf s') = []"
    using write_Handle_position [OF wb open', of "isn + of_nat (length D)"] s'(2) C unfolding j by simp
  have "w_sendEOF (s_writeBuf s') = w_sendEOF (s_writeBuf s)" by (rule send_Handle_sendEOF [OF p h])
  then show "s_notify s' = s_notify s + 1"
    using s'(1,3) buf open' Remaining_eq_0_iff [of isn C p' "s_writeBuf s'"] by (simp add: send_inv_def)
qed

text \<open>A sender with nothing to send, on an open stream.\<close>

definition at_rest :: "simpleTcpSend \<Rightarrow> bool" where
  "at_rest s \<longleftrightarrow> w_buffer (s_writeBuf s) = [] \<and> \<not> w_sendEOF (s_writeBuf s) \<and> s_failErr s = None \<and>
     t_next (s_timer s) = None"

text \<open>The numbers of a direction at rest: everything that was written has arrived.\<close>

lemma at_rest_numbers:
  assumes "dir_inv isn m mem C D s fwd r out eof bwd" and "at_rest s"
  shows "w_sequence (s_writeBuf s) = isn + of_nat (length D)" and "length out + b_size (r_buffer r) = length D"
  using assms by (auto simp: dir_inv_def at_rest_def send_inv_def wbuf_inv_def recv_inv_def asm_inv_def keeps_data_def)

lemma send_Handle_rest:
  assumes "send_inv isn m C p s" and "send_Handle s a w = Some s'" and "w_buffer (s_writeBuf s') = []"
    and "\<not> w_sendEOF (s_writeBuf s)" and "s_failErr s = None" and "t_next (s_timer s) = None"
  shows "at_rest s'" and "s_window s' = w" and "s_maxSegmentSize s' = s_maxSegmentSize s"
proof -
  have "write_Handle (s_writeBuf s) a = Some (s_writeBuf s')"
    using send_Handle_inv [OF assms(1), of a w] assms(2) by (metis option.inject)
  then obtain t where t: "write_Handle (s_writeBuf s) a = Some t" "s_writeBuf s' = t" by simp
  have eof: "\<not> w_sendEOF t" using send_Handle_sendEOF [OF assms(1,2)] assms(4) t(2) by simp
  then have "Remaining t = 0" using assms(3) t(2) by (simp add: Remaining_def)
  then have "s' = s\<lparr>s_writeBuf := t, s_window := w, s_timer := timer_Cancel (s_timer s), s_notify := s_notify s + 1\<rparr>"
    using assms(2) t(1) by (simp add: send_Handle_def sendNext_def Let_def)
  then show "at_rest s'" "s_window s' = w" "s_maxSegmentSize s' = s_maxSegmentSize s"
    using t assms eof by (simp_all add: at_rest_def timer_Cancel_def)
qed

text \<open>The segment of a write reaches the other side, which answers.\<close>

lemma segment_delivered:
  assumes inv: "tcp_inv isn y" and run: "y_running y x" "y_running y (\<not> x)"
    and c: "c = y_conn y x" and r: "r = c_recv (y_conn y (\<not> x))"
    and open': "\<not> w_sendEOF (s_writeBuf (c_send c))" "s_failErr (c_send c) = None"
    and seg: "t_next (s_timer (c_send c)) = Some \<lparr>Start = isn x + of_nat (length D), Data = cs, Fin = False\<rparr>"
    and cs: "d = map (y_mem y x) cs"
    and d: "y_written y x = D @ d" "length (y_read y (\<not> x)) + b_size (r_buffer r) = length D"
      "b_size (r_buffer r) + length d \<le> 4096" "d \<noteq> []"
  obtains p q y2 y3 qseg where "tcp_enabled y x (TLoop GotNext)" and "tcp_step y x (TLoop GotNext) = Some y2"
    and "y_net y2 x = y_net y x @ [p]" and "tcp_enabled y2 (\<not> x) (TLoop (GotTCP p))"
    and "tcp_step y2 (\<not> x) (TLoop (GotTCP p)) = Some y3" and "y_net y3 (\<not> x) = y_net y (\<not> x) @ [q]"
    and "tcp_inv isn y3" and "y_running y3 = y_running y" and "y_written y3 = y_written y" and "y_read y3 = y_read y"
    and "y_conn y3 x = set_timer ((s_timer (c_send c))\<lparr>t_next := None\<rparr>) c"
    and "unread (r_buffer (c_recv (y_conn y3 (\<not> x)))) = unread (r_buffer r) @ d"
    and "packet_ack q = Some (isn x + of_nat (length (D @ d)), recv_Window (c_recv (y_conn y3 (\<not> x))))"
    and "packet_segment q = Some qseg" and "Data qseg = []"
proof -
  let ?x = "\<not> x" and ?seg = "\<lparr>Start = isn x + of_nat (length D), Data = d, Fin = False\<rparr>"
  let ?c = "set_timer ((s_timer (c_send c))\<lparr>t_next := None\<rparr>) c"
  have di: "dir_inv (isn x) 512 (y_mem y x) (y_cells y x) (D @ d) (c_send c) (y_net y x) r (y_read y ?x) (y_eof y ?x) (y_net y ?x)"
    using inv [unfolded tcp_inv_sides [of isn y x]] d(1) by (simp add: c r)
  have nd: "\<not> (send_Done (c_send (y_conn y x)) \<and> recv_Done (c_recv (y_conn y x)))"
    using not_done(1) [OF di open'] by (simp add: c)
  obtain p y2 where p: "tcp_enabled y x (TLoop GotNext)" "tcp_step y x (TLoop GotNext) = Some y2" "tcp_inv isn y2"
    "packet_segment p = Some (seg_load (y_mem y x) \<lparr>Start = isn x + of_nat (length D), Data = cs, Fin = False\<rparr>)"
    and y2: "y_conn y2 = (y_conn y)(x := ?c)"
    "y_net y2 = (y_net y)(x := y_net y x @ [p])" "y_running y2 = y_running y"
    "y_written y2 = y_written y" "y_read y2 = y_read y" "y_eof y2 = y_eof y" "y_mem y2 = y_mem y" "y_cells y2 = y_cells y"
    unfolding c by (rule tcp_next [OF inv run(1) nd seg [unfolded c]])
  have p4: "packet_segment p = Some ?seg" using p(4) by (simp add: seg_load_def cs)
  have p4: "packet_segment p = Some ?seg" using p(4) by (simp add: seg_load_def cs)
  have open2: "\<not> w_sendEOF (s_writeBuf (c_send ?c))" using open'(1) by (simp add: set_timer_def)
  have di2: "dir_inv (isn x) 512 (y_mem y x) (y_cells y x) (D @ d) (c_send ?c) (y_net y x @ [p]) r (y_read y ?x) (y_eof y ?x) (y_net y ?x)"
    using p(3) [unfolded tcp_inv_sides [of isn y2 x]] d(1) by (simp add: y2 r)
  have run2: "y_running y2 ?x" "p \<in> set (y_net y2 (\<not> ?x))"
    and nd2: "\<not> (send_Done (c_send (y_conn y2 ?x)) \<and> recv_Done (c_recv (y_conn y2 ?x)))"
    using run(2) not_done(2) [OF di open'(1)] by (simp_all add: y2 r)
  obtain a w r3 s3 ps y3 where y3: "tcp_enabled y2 ?x (TLoop (GotTCP p))" "tcp_step y2 ?x (TLoop (GotTCP p)) = Some y3"
    "tcp_inv isn y3" "packet_ack p = Some (a, w)" "recv_Handle (c_recv (y_conn y2 ?x)) ?seg = Some r3"
    "send_Handle (c_send (y_conn y2 ?x)) a w = Some s3"
    "Data ?seg \<noteq> [] \<longrightarrow> (\<exists>q. ps = [q] \<and> packet_ack q = Some (recv_Ack r3, recv_Window r3) \<and>
      packet_segment q = Some \<lparr>Start = send_Seq s3, Data = [], Fin = False\<rparr>)"
    "y_conn y3 = (y_conn y2)(?x := (y_conn y2 ?x)\<lparr>c_recv := r3, c_send := s3\<rparr>)"
    "y_net y3 = (y_net y2)(?x := y_net y2 ?x @ ps)" "y_running y3 = y_running y2"
    "y_written y3 = y_written y2" "y_read y3 = y_read y2" "y_eof y3 = y_eof y2" "y_mem y3 = y_mem y2" "y_cells y3 = y_cells y2"
    by (rule tcp_packet [OF p(3) run2(1) nd2 run2(2) p4])
  obtain q where q: "ps = [q]" "packet_ack q = Some (recv_Ack r3, recv_Window r3)"
    "packet_segment q = Some \<lparr>Start = send_Seq s3, Data = [], Fin = False\<rparr>"
    using y3(7) d(4) by auto
  have r3: "recv_Handle r ?seg = Some r3" using y3(5) by (simp add: y2 r)
  have "dir_inv (isn x) 512 (y_mem y x) (y_cells y x) (D @ d) (c_send ?c) (y_net y x @ [p]) r3 (y_read y ?x) (y_eof y ?x) (y_net y ?x @ [q])"
    using y3(3) [unfolded tcp_inv_sides [of isn y3 x]] d(1) by (simp add: y3(8-15) y2 q)
  then have "dir_inv (isn x) 512 (y_mem y x) (y_cells y x) (D @ d) (c_send ?c) (y_net y x @ [p]) r3 (y_read y ?x) (y_eof y ?x) (y_net y ?x)"
    by (simp add: dir_inv_def)
  note next3 = dir_inv_next [OF di2 d(2,3) r3 open2 this]
  show thesis
    by (rule that [OF p(1,2) _ y3(1,2) _ y3(3) _ _ _ _ _ _ q(3)]) (simp_all add: y3(8-15) y2 q(1,2) next3)
qed

text \<open>The acknowledgement of everything reaches the writer.\<close>

lemma ack_delivered:
  assumes inv: "tcp_inv isn y" and run: "y_running y x" and s: "s = c_send (y_conn y x)"
    and open': "\<not> w_sendEOF (s_writeBuf s)" "s_failErr s = None" "t_next (s_timer s) = None"
    and q: "q \<in> set (y_net y (\<not> x))" "packet_ack q = Some (isn x + of_nat (length (y_written y x)), w)"
      "packet_segment q = Some qseg"
  obtains y4 where "tcp_enabled y x (TLoop (GotTCP q))" and "tcp_step y x (TLoop (GotTCP q)) = Some y4"
    and "tcp_inv isn y4" and "y_conn y4 (\<not> x) = y_conn y (\<not> x)" and "y_running y4 = y_running y"
    and "y_written y4 = y_written y" and "y_read y4 = y_read y"
    and "at_rest (c_send (y_conn y4 x))" and "s_notify (c_send (y_conn y4 x)) = s_notify s + 1"
    and "s_window (c_send (y_conn y4 x)) = w"
proof -
  have di: "dir_inv (isn x) 512 (y_mem y x) (y_cells y x) (y_written y x) s (y_net y x)
      (c_recv (y_conn y (\<not> x))) (y_read y (\<not> x)) (y_eof y (\<not> x)) (y_net y (\<not> x))"
    using inv [unfolded tcp_inv_sides [of isn y x]] by (simp add: s)
  have nd: "\<not> (send_Done (c_send (y_conn y x)) \<and> recv_Done (c_recv (y_conn y x)))"
    using not_done(1) [OF di open'(1,2)] by (simp add: s)
  obtain a w4 r4 s4 ps y4 where y4: "tcp_enabled y x (TLoop (GotTCP q))" "tcp_step y x (TLoop (GotTCP q)) = Some y4"
    "tcp_inv isn y4" "packet_ack q = Some (a, w4)" "send_Handle (c_send (y_conn y x)) a w4 = Some s4"
    "y_conn y4 = (y_conn y)(x := (y_conn y x)\<lparr>c_recv := r4, c_send := s4\<rparr>)"
    "y_running y4 = y_running y" "y_written y4 = y_written y" "y_read y4 = y_read y"
    by (rule tcp_packet [OF inv run nd q(1,3)])
  have s4: "send_Handle s (isn x + of_nat (length (y_written y x))) w = Some s4" using y4(4,5) q(2) by (simp add: s)
  obtain k where k: "send_inv (isn x) 512 (y_cells y x) k s" using di by (auto simp: dir_inv_def)
  note acked = dir_inv_acked [OF di open'(1) s4]
  note rest = send_Handle_rest [OF k s4 acked(1) open']
  show thesis by (rule that [OF y4(1-3)]) (simp_all add: y4 acked rest)
qed

text \<open>A write, its segment, and the acknowledgement.\<close>

lemma write_delivered:
  assumes inv: "tcp_inv isn y" and run: "y_running y x" "y_running y (\<not> x)"
    and s: "s = c_send (y_conn y x)" and r: "r = c_recv (y_conn y (\<not> x))" and rest: "at_rest s"
    and d: "d \<noteq> []" "length d \<le> unat (s_window s)" "length d \<le> unat (s_maxSegmentSize s)"
      "b_size (r_buffer r) + length d \<le> 4096" "length (y_written y x) + length d < 2 ^ 31"
  obtains p q y1 y2 y3 y4 where "tcp_step y x (TWrite False d) = Some y1" and "y_written y1 x = y_written y x @ map (y_mem y x) d"
    and "tcp_enabled y1 x (TLoop GotNext)" and "tcp_step y1 x (TLoop GotNext) = Some y2" and "y_net y2 x = y_net y x @ [p]"
    and "tcp_enabled y2 (\<not> x) (TLoop (GotTCP p))" and "tcp_step y2 (\<not> x) (TLoop (GotTCP p)) = Some y3"
    and "y_net y3 (\<not> x) = y_net y (\<not> x) @ [q]"
    and "tcp_enabled y3 x (TLoop (GotTCP q))" and "tcp_step y3 x (TLoop (GotTCP q)) = Some y4"
    and "tcp_inv isn y4" and "y_written y4 x = y_written y x @ map (y_mem y x) d" and "y_read y4 = y_read y" and "y_running y4 = y_running y"
    and "unread (r_buffer (c_recv (y_conn y4 (\<not> x)))) = unread (r_buffer r) @ map (y_mem y x) d"
    and "at_rest (c_send (y_conn y4 x))" and "s_notify (c_send (y_conn y4 x)) = s_notify s + 1"
    and "s_window (c_send (y_conn y4 x)) = recv_Window (c_recv (y_conn y4 (\<not> x)))"
proof -
  let ?x = "\<not> x" and ?D = "y_written y x"
  have di: "dir_inv (isn x) 512 (y_mem y x) (y_cells y x) ?D s (y_net y x) r (y_read y ?x) (y_eof y ?x) (y_net y ?x)"
    using inv [unfolded tcp_inv_sides [of isn y x]] by (simp add: s r)
  note nums = at_rest_numbers [OF di rest]
  have idle: "w_buffer (s_writeBuf s) = []" "\<not> w_sendEOF (s_writeBuf s)" "s_failErr s = None" "t_next (s_timer s) = None"
    using rest by (simp_all add: at_rest_def)
  obtain s1 where s1: "Write s False d = Some (s1, WaitNotify (s_notify s))"
    "t_next (s_timer s1) = Some \<lparr>Start = isn x + of_nat (length ?D), Data = d, Fin = False\<rparr>"
    "\<not> w_sendEOF (s_writeBuf s1)" "s_failErr s1 = None" "s_notify s1 = s_notify s"
    using Write_small [OF idle d(1-3)] by (metis nums(1))
  define y1 where "y1 = (set_conn x ((y_conn y x)\<lparr>c_send := s1\<rparr>) y)\<lparr>y_cells := (y_cells y)(x := y_cells y x @ d),
    y_written := (y_written y)(x := ?D @ map (y_mem y x) d)\<rparr>"
  have step1: "tcp_step y x (TWrite False d) = Some y1"
    using s1(1) by (simp add: tcp_step_def conn_Write_def s y1_def accepted_def)
  have inv1: "tcp_inv isn y1" using tcp_step_inv [OF inv _ step1] d(5) by (simp add: tcp_enabled_def)
  have y1: "y_conn y1 x = (y_conn y x)\<lparr>c_send := s1\<rparr>" "c_recv (y_conn y1 ?x) = r" "y_running y1 = y_running y"
    "y_net y1 = y_net y" "y_written y1 x = ?D @ map (y_mem y x) d" "y_read y1 = y_read y" "y_mem y1 = y_mem y"
    by (simp_all add: y1_def set_conn_def r)
  obtain p q y2 y3 qseg where y3: "tcp_enabled y1 x (TLoop GotNext)" "tcp_step y1 x (TLoop GotNext) = Some y2"
    "y_net y2 x = y_net y1 x @ [p]" "tcp_enabled y2 ?x (TLoop (GotTCP p))"
    "tcp_step y2 ?x (TLoop (GotTCP p)) = Some y3" "y_net y3 ?x = y_net y1 ?x @ [q]"
    "tcp_inv isn y3" "y_running y3 = y_running y1" "y_written y3 = y_written y1" "y_read y3 = y_read y1"
    "y_conn y3 x = set_timer ((s_timer s1)\<lparr>t_next := None\<rparr>) (y_conn y1 x)"
    "unread (r_buffer (c_recv (y_conn y3 ?x))) = unread (r_buffer r) @ map (y_mem y x) d"
    "packet_ack q = Some (isn x + of_nat (length (?D @ map (y_mem y x) d)), recv_Window (c_recv (y_conn y3 ?x)))"
    "packet_segment q = Some qseg"
    by (rule segment_delivered [OF inv1, of x "y_conn y1 x" r ?D d "map (y_mem y x) d"])
      (use run y1 s1(2-4) nums(2) d(1,4) in \<open>simp_all\<close>)
  have "s_notify (c_send (y_conn y3 x)) = s_notify s"
    using s1(5) by (simp add: y3(11) y1 set_timer_def)
  moreover obtain y4 where "tcp_enabled y3 x (TLoop (GotTCP q))" "tcp_step y3 x (TLoop (GotTCP q)) = Some y4"
    "tcp_inv isn y4" "y_conn y4 ?x = y_conn y3 ?x" "y_running y4 = y_running y3"
    "y_written y4 = y_written y3" "y_read y4 = y_read y3" "at_rest (c_send (y_conn y4 x))"
    "s_notify (c_send (y_conn y4 x)) = s_notify (c_send (y_conn y3 x)) + 1"
    "s_window (c_send (y_conn y4 x)) = recv_Window (c_recv (y_conn y3 ?x))"
    by (rule ack_delivered [OF y3(7) _ refl, of x q _ qseg])
      (use y3(6,8,9,11,13,14) run(1) s1(3,4) y1 in \<open>simp_all add: set_timer_def\<close>)
  ultimately show thesis
    using that [OF step1 y1(5) y3(1,2) _ y3(4,5)] y3(3,6,8-10,12) y1 by simp
qed

text \<open>A close, and its segment.\<close>

lemma Close_rest:
  assumes "at_rest s" and "s_window s \<noteq> 0" and "\<not> w_sentEOF (s_writeBuf s)"
  obtains s' where "send_Close s expired = Some (s', WaitNotify (s_notify s))"
    and "t_next (s_timer s') = Some \<lparr>Start = w_sequence (s_writeBuf s), Data = [], Fin = True\<rparr>"
    and "\<not> send_Done s'"
proof -
  let ?seg = "\<lparr>Start = w_sequence (s_writeBuf s), Data = [], Fin = True\<rparr>"
  let ?s = "s\<lparr>s_writeBuf := (s_writeBuf s)\<lparr>w_sendEOF := True\<rparr>, s_timer := timer_Send ?seg (timer_Cancel (s_timer s))\<rparr>"
  have "send_Close s expired = Some (?s, WaitNotify (s_notify s))"
    using assms by (simp add: send_Close_def writeOrClose_def SetEOF_def at_rest_def sendNext_def Let_def
        Remaining_def Segment_def)
  then show thesis
    using assms by (intro that [of ?s]) (simp_all add: at_rest_def timer_Send_def timer_Schedule_def
        timer_Cancel_def send_Done_def)
qed

lemma recv_FIN:
  assumes "recv_inv isn D N r out" and "length out + b_size (r_buffer r) = length D"
    and "recv_Handle r \<lparr>Start = isn + of_nat (length D), Data = [], Fin = True\<rparr> = Some r'"
  shows "unread (r_buffer r') = unread (r_buffer r)" and "b_hitEOF (r_buffer r')"
proof -
  let ?seg = "\<lparr>Start = isn + of_nat (length D), Data = [], Fin = True\<rparr>"
  have seg: "segment_from isn D (length D) (length D) ?seg" "near (length D) (length D) ?seg"
    by (simp_all add: segment_from_def near_def)
  have "0 \<le> buffer_Window (r_buffer r)" using assms(1) by (auto simp: recv_inv_def buf_wf_def buffer_Window_def)
  moreover obtain r1 k where "recv_Handle r ?seg = Some r1" "unread (r_buffer r1) = unread (r_buffer r) @ take k (drop (length D) D)"
    "int (length D - length D) \<le> buffer_Window (r_buffer r) \<Longrightarrow> b_hitEOF (r_buffer r1)"
    by (rule recv_inv_Handle [OF assms(1) seg(1) assms(2) [symmetric] seg(2)]) (rule that, assumption, assumption, simp)
  ultimately show "unread (r_buffer r') = unread (r_buffer r)" "b_hitEOF (r_buffer r')" using assms(3) by simp_all
qed

lemma close_delivered:
  assumes inv: "tcp_inv isn y" and run: "y_running y x" "y_running y (\<not> x)"
    and s: "s = c_send (y_conn y x)" and rest: "at_rest s" and win: "s_window s \<noteq> 0"
  obtains p y1 y2 y3 where "tcp_step y x (TClose expired) = Some y1"
    and "tcp_enabled y1 x (TLoop GotNext)" and "tcp_step y1 x (TLoop GotNext) = Some y2" and "y_net y2 x = y_net y x @ [p]"
    and "tcp_enabled y2 (\<not> x) (TLoop (GotTCP p))" and "tcp_step y2 (\<not> x) (TLoop (GotTCP p)) = Some y3"
    and "y_written y3 = y_written y" and "y_read y3 = y_read y"
    and "unread (r_buffer (c_recv (y_conn y3 (\<not> x)))) = unread (r_buffer (c_recv (y_conn y (\<not> x))))"
    and "b_hitEOF (r_buffer (c_recv (y_conn y3 (\<not> x))))"
proof -
  let ?x = "\<not> x" and ?D = "y_written y x" and ?r = "c_recv (y_conn y (\<not> x))"
  have di: "dir_inv (isn x) 512 (y_mem y x) (y_cells y x) ?D s (y_net y x) ?r (y_read y ?x) (y_eof y ?x) (y_net y ?x)"
    using inv [unfolded tcp_inv_sides [of isn y x]] by (simp add: s)
  note nums = at_rest_numbers [OF di rest]
  have open': "\<not> w_sendEOF (s_writeBuf s)" using rest by (simp add: at_rest_def)
  then have "\<not> w_sentEOF (s_writeBuf s)" using di by (auto simp: dir_inv_def send_inv_def wbuf_inv_def)
  then obtain s1 where s1: "send_Close s expired = Some (s1, WaitNotify (s_notify s))"
    "t_next (s_timer s1) = Some \<lparr>Start = isn x + of_nat (length ?D), Data = [], Fin = True\<rparr>" "\<not> send_Done s1"
    using Close_rest [OF rest win] nums(1) by metis
  define y1 where "y1 = set_conn x ((y_conn y x)\<lparr>c_send := s1\<rparr>) y"
  have step1: "tcp_step y x (TClose expired) = Some y1"
    using s1(1) by (simp add: tcp_step_def conn_Close_def s y1_def)
  have inv1: "tcp_inv isn y1" using tcp_step_inv [OF inv _ step1] by (simp add: tcp_enabled_def)
  have y1: "c_send (y_conn y1 x) = s1" "y_conn y1 ?x = y_conn y ?x" "y_running y1 = y_running y"
    "y_net y1 = y_net y" "y_written y1 = y_written y" "y_read y1 = y_read y"
    by (simp_all add: y1_def set_conn_def)
  let ?seg = "\<lparr>Start = isn x + of_nat (length ?D), Data = [], Fin = True\<rparr>"
  have n1: "y_running y1 x" "\<not> (send_Done (c_send (y_conn y1 x)) \<and> recv_Done (c_recv (y_conn y1 x)))"
    "t_next (s_timer (c_send (y_conn y1 x))) = Some \<lparr>Start = isn x + of_nat (length ?D), Data = [], Fin = True\<rparr>"
    using run(1) s1 y1 by simp_all
  obtain p y2 where p: "tcp_enabled y1 x (TLoop GotNext)" "tcp_step y1 x (TLoop GotNext) = Some y2" "tcp_inv isn y2"
    "packet_segment p = Some (seg_load (y_mem y1 x) \<lparr>Start = isn x + of_nat (length ?D), Data = [], Fin = True\<rparr>)"
    "y_conn y2 = (y_conn y1)(x := set_timer ((s_timer (c_send (y_conn y1 x)))\<lparr>t_next := None\<rparr>) (y_conn y1 x))"
    "y_net y2 = (y_net y1)(x := y_net y1 x @ [p])" "y_running y2 = y_running y1"
    "y_written y2 = y_written y1" "y_read y2 = y_read y1"
    by (rule tcp_next [OF inv1 n1])
  have p4: "packet_segment p = Some ?seg" using p(4) by (simp add: seg_load_def)
  have n2: "y_running y2 ?x" "\<not> (send_Done (c_send (y_conn y2 ?x)) \<and> recv_Done (c_recv (y_conn y2 ?x)))"
    "p \<in> set (y_net y2 (\<not> ?x))"
    using run(2) not_done(2) [OF di open'] by (simp_all add: p(5-7) y1)
  obtain r3 s3 y3 where y3: "tcp_enabled y2 ?x (TLoop (GotTCP p))" "tcp_step y2 ?x (TLoop (GotTCP p)) = Some y3"
    "recv_Handle (c_recv (y_conn y2 ?x)) ?seg = Some r3"
    "y_conn y3 = (y_conn y2)(?x := (y_conn y2 ?x)\<lparr>c_recv := r3, c_send := s3\<rparr>)"
    "y_written y3 = y_written y2" "y_read y3 = y_read y2"
    by (rule tcp_packet [OF p(3) n2 p4])
  have "recv_Handle ?r ?seg = Some r3" using y3(3) by (simp add: p(5) y1)
  moreover have "recv_inv (isn x) ?D 4096 ?r (y_read y ?x)" using di by (simp add: dir_inv_def)
  ultimately have fin: "unread (r_buffer r3) = unread (r_buffer ?r)" "b_hitEOF (r_buffer r3)"
    using recv_FIN [OF _ nums(2)] by blast+
  show thesis
    by (rule that [OF step1 p(1,2) _ y3(1,2)]) (use fin in \<open>simp_all add: y3(4-6) p(6,8,9) y1\<close>)
qed

section \<open>The properties\<close>

text \<open>Two connections for the examples, one of which has numbers that wrap around.\<close>

definition ends :: "bool \<Rightarrow> net_addr" where
  "ends x = (if x then \<lparr>IP = [10, 13, 37, 1], Port = 1337\<rparr> else \<lparr>IP = [10, 13, 37, 9], Port = 4000\<rparr>)"

definition example_start :: tcp_sys where
  "example_start = tcp_start ends (\<lambda>x. if x then 0xffffffff else 100) (\<lambda>x. 4096) 64"

lemma ends_ok: "To4 (IP (ends x)) \<noteq> None"
  by (simp add: ends_def)

lemma example_start_inv: "tcp_inv (\<lambda>x. if x then 0xffffffff else 100) example_start"
  unfolding example_start_def by (rule tcp_inv_start) (rule ends_ok)

lemma example_start_simps:
  "c_send (y_conn example_start x) = newSimpleTcpSend (if x then 0xffffffff else 100) 4096 512"
  "y_running example_start x" "y_written example_start x = []" "y_read example_start x = []"
  "w_buffer (s_writeBuf (newSimpleTcpSend i 4096 512)) = []" "\<not> w_sendEOF (s_writeBuf (newSimpleTcpSend i 4096 512))"
  "s_failErr (newSimpleTcpSend i 4096 512) = None" "t_next (s_timer (newSimpleTcpSend i 4096 512)) = None"
  "s_window (newSimpleTcpSend i 4096 512) = 4096" "s_maxSegmentSize (newSimpleTcpSend i 4096 512) = 512"
  "b_size (r_buffer (c_recv (y_conn example_start x))) = 0"
  by (simp_all add: example_start_def tcp_start_def newSimpleTcpSend_def newTCPWriteBuffer_def newTcpSendTimer_def
      newSimpleTcpRecv_def newTCPRecvBuffer_def)

lemma example_rest: "at_rest (newSimpleTcpSend i 4096 512)"
  by (simp add: at_rest_def newSimpleTcpSend_def newTCPWriteBuffer_def newTcpSendTimer_def)

lemma one_byte_window:
  assumes "recv_inv isn D 4096 r out" and "length (unread (r_buffer r)) = 1"
  shows "recv_Window r = 4095"
proof -
  have "b_size (r_buffer r) = 1" using length_unread [of "r_buffer r"] assms by (simp add: recv_inv_def)
  then show ?thesis using assms(1) by (simp add: recv_Window_def buffer_Window_def recv_inv_def)
qed

text \<open>A side stores a byte in one of its cells.\<close>

definition example_stored :: "bool \<Rightarrow> byte \<Rightarrow> tcp_sys" where
  "example_stored x b = example_start\<lparr>y_mem := (y_mem example_start)(x := (y_mem example_start x)(5 := b))\<rparr>"

lemma example_stored_simps:
  "y_conn (example_stored x b) = y_conn example_start" "y_running (example_stored x b) = y_running example_start"
  "y_net (example_stored x b) = y_net example_start" "y_written (example_stored x b) = y_written example_start"
  "y_read (example_stored x b) = y_read example_start" "y_mem (example_stored x b) x 5 = b"
  by (simp_all add: example_stored_def)

lemma example_stored_step:
  "tcp_enabled example_start x (TStore 5 b)" "tcp_step example_start x (TStore 5 b) = Some (example_stored x b)"
  by (simp_all add: tcp_enabled_def tcp_step_def example_stored_def example_start_simps)

lemma example_stored_reach: "tcp_reach example_start (example_stored x b)"
  by (rule tcp_reach_step [OF tcp_reach_start example_stored_step])

lemma example_stored_inv: "tcp_inv (\<lambda>x. if x then 0xffffffff else 100) (example_stored x b)"
  by (rule tcp_step_inv [OF example_start_inv example_stored_step])

lemma example_stored_write: "tcp_enabled (example_stored x b) x (TWrite False [5])"
  by (simp add: tcp_enabled_def example_start_simps example_stored_simps)

text \<open>A side writes that byte, which gets through.\<close>

lemma example_delivered:
  obtains y1 y4 where "tcp_step (example_stored x b) x (TWrite False [5]) = Some y1" and "y_written y1 x = [b]"
    and "tcp_reach example_start y1" and "tcp_reach example_start y4" and "y_written y4 x = [b]"
    and "y_read y4 = y_read example_start" and "y_running y4 = y_running example_start"
    and "at_rest (c_send (y_conn y4 x))" and "unread (r_buffer (c_recv (y_conn y4 (\<not> x)))) = [b]"
    and "tcp_inv (\<lambda>x. if x then 0xffffffff else 100) y4" and "s_window (c_send (y_conn y4 x)) \<noteq> 0"
proof -
  let ?y = "example_stored x b"
  obtain p q y1 y2 y3 y4 where s: "tcp_step ?y x (TWrite False [5]) = Some y1"
    "y_written y1 x = y_written ?y x @ map (y_mem ?y x) [5]"
    "tcp_enabled y1 x (TLoop GotNext)" "tcp_step y1 x (TLoop GotNext) = Some y2"
    "tcp_enabled y2 (\<not> x) (TLoop (GotTCP p))" "tcp_step y2 (\<not> x) (TLoop (GotTCP p)) = Some y3"
    "tcp_enabled y3 x (TLoop (GotTCP q))" "tcp_step y3 x (TLoop (GotTCP q)) = Some y4"
    "tcp_inv (\<lambda>x. if x then 0xffffffff else 100) y4"
    "y_written y4 x = y_written ?y x @ map (y_mem ?y x) [5]" "y_read y4 = y_read ?y" "y_running y4 = y_running ?y"
    "unread (r_buffer (c_recv (y_conn y4 (\<not> x)))) = unread (r_buffer (c_recv (y_conn ?y (\<not> x)))) @ map (y_mem ?y x) [5]"
    "at_rest (c_send (y_conn y4 x))"
    "s_window (c_send (y_conn y4 x)) = recv_Window (c_recv (y_conn y4 (\<not> x)))"
    by (rule write_delivered [OF example_stored_inv [of x b] _ _ refl refl, of x "[5]"])
      (simp_all add: example_stored_simps example_start_simps example_rest)
  note s = s [unfolded example_stored_simps]
  note r1 = tcp_reach_step [OF example_stored_reach example_stored_write s(1)]
  note r4 = tcp_reach_step [OF tcp_reach_step [OF tcp_reach_step [OF r1 s(3,4)] s(5,6)] s(7,8)]
  have w: "y_written y1 x = [b]" "y_written y4 x = [b]"
    using s(2,10) by (simp_all add: example_stored_simps example_start_simps)
  have u: "unread (r_buffer (c_recv (y_conn y4 (\<not> x)))) = [b]"
    using s(13) by (simp add: unread_def example_start_simps example_stored_simps)
  have "recv_inv (if x then 0xffffffff else 100) [b] 4096 (c_recv (y_conn y4 (\<not> x))) []"
    using s(9) [unfolded tcp_inv_sides [of _ y4 x]] w(2) s(11) by (simp add: dir_inv_def example_start_simps)
  from one_byte_window [OF this] have "recv_Window (c_recv (y_conn y4 (\<not> x))) = 4095" by (simp add: u)
  then show ?thesis using that [OF s(1) w(1) r1 r4 w(2) s(11,12,14) u s(9)] s(15) by simp
qed

text \<open>C2: A connection refines two byte streams.  Whatever two connections do, with a network between
  them that loses, repeats and reorders packets, and whatever the programs at both ends store in their memory
  but in what \<open>Write\<close> has got and is not acknowledged, each step is a sequence of steps of the abstract
  stream in each direction: data is only added to a stream that is not closed, the reader gets the
  next bytes of what was written, and the end only behind the last byte of a closed stream.\<close>

theorem tcp_refines_stream:
  assumes "tcp_reach (tcp_start addr isn win ttl) y" and "\<And>x. To4 (IP (addr x)) \<noteq> None"
    and "tcp_enabled y x op" and "tcp_step y x op = Some z"
  shows "spec_step\<^sup>*\<^sup>* (stream_of y d) (stream_of z d)"
  using tcp_simulation [OF tcp_reach_inv [OF assms(1,2)] assms(3,4)] .

theorem tcp_refines_stream_witness:
  "\<exists>y z. tcp_reach example_start y \<and> tcp_step y True (TWrite False [5]) = Some z \<and> y_written z True = [7] \<and>
     spec_step\<^sup>*\<^sup>* (stream_of y True) (stream_of z True)"
proof -
  obtain z where z: "tcp_step (example_stored True 7) True (TWrite False [5]) = Some z" "y_written z True = [7]"
    by (rule example_delivered [of True 7])
  show ?thesis
    using tcp_refines_stream [OF example_stored_reach [of True 7, unfolded example_start_def] ends_ok example_stored_write z(1)]
      example_stored_reach z by blast
qed

text \<open>C6: What is acknowledged has arrived: the bytes that the sender has taken out of its buffer are in
  order with the peer, which has read them or can read them at once; so a \<open>Write\<close> that succeeds
  has been received in full, and a \<open>Close\<close> that succeeds means that the peer has the whole stream.\<close>

theorem tcp_acked_is_received:
  assumes "tcp_reach (tcp_start addr isn win ttl) y" and "\<And>x. To4 (IP (addr x)) \<noteq> None"
  shows "let D = y_written y x; s = c_send (y_conn y x); r = c_recv (y_conn y (\<not> x));
      got = y_read y (\<not> x) @ unread (r_buffer r)
    in prefix (take (length D - length (w_buffer (s_writeBuf s))) D) got \<and> prefix got D \<and>
       (w_sentEOF (s_writeBuf s) \<longrightarrow> got = D \<and> b_hitEOF (r_buffer r))"
proof -
  let ?D = "y_written y x" and ?s = "c_send (y_conn y x)" and ?r = "c_recv (y_conn y (\<not> x))"
  have inv: "dir_inv (isn x) 512 (y_mem y x) (y_cells y x) ?D ?s (y_net y x) ?r (y_read y (\<not> x)) (y_eof y (\<not> x)) (y_net y (\<not> x))"
    using tcp_reach_inv [OF assms] by (simp add: tcp_inv_def)
  let ?n = "length (y_read y (\<not> x)) + b_size (r_buffer ?r)"
  have h: "y_read y (\<not> x) @ unread (r_buffer ?r) = take ?n ?D"
    using inv by (simp add: dir_inv_def recv_inv_def)
  have "prefix (take k ?D) (take ?n ?D)" if "k \<le> ?n" for k
    using that by (metis min_absorb1 take_is_prefix take_take)
  moreover have "length ?D - length (w_buffer (s_writeBuf ?s)) \<le> ?n" using inv by (simp add: dir_inv_def)
  moreover have "w_sentEOF (s_writeBuf ?s) \<longrightarrow> take ?n ?D = ?D \<and> b_hitEOF (r_buffer ?r)"
    using inv by (auto simp: dir_inv_def recv_inv_def asm_inv_def)
  ultimately show ?thesis unfolding Let_def h by (simp add: take_is_prefix)
qed

theorem tcp_acked_is_received_witness:
  "\<exists>y. tcp_reach example_start y \<and> y_written y True = [7] \<and>
     prefix [7] (y_read y False @ unread (r_buffer (c_recv (y_conn y False))))"
proof -
  obtain y where y: "tcp_reach example_start y" "y_written y True = [7]"
    "w_buffer (s_writeBuf (c_send (y_conn y True))) = []"
    by (rule example_delivered [of True 7]) (auto simp: at_rest_def)
  then show ?thesis
    using tcp_acked_is_received [OF y(1) [unfolded example_start_def] ends_ok, of True] by (auto simp: Let_def)
qed

text \<open>C31: The loop of a connection never panics, whatever packets of its peer arrive and in whatever
  order, and neither does \<open>Read\<close>; and every packet that it sends passes the filter of the peer's
  network.\<close>

theorem tcp_loop_never_panics:
  assumes "tcp_reach (tcp_start addr isn win ttl) y" and "\<And>x. To4 (IP (addr x)) \<noteq> None"
    and "tcp_enabled y x op" and "op = TLoop e \<or> op = TRead expired b"
  shows "\<exists>z. tcp_step y x op = Some z \<and> (\<forall>p \<in> set (y_net z x). NewTCP4Net_filter p = Some (Some p))"
proof -
  have inv: "tcp_inv isn y" by (rule tcp_reach_inv [OF assms(1,2)])
  from assms(4) have "\<exists>z. tcp_step y x op = Some z"
  proof
    assume "op = TLoop e"
    then show ?thesis using tcp_loop_inv [OF inv] assms(3) by metis
  next
    assume op: "op = TRead expired b"
    have "recv_wf (c_recv (y_conn y x))"
      using inv [unfolded tcp_inv_sides [of isn y x]] recv_inv_wf by (auto simp: dir_inv_def)
    from read_pass_total [OF this, of expired "map (y_mem y x) b"] show ?thesis
      by (auto simp: op tcp_step_def conn_Read_def Let_def)
  qed
  then obtain z where z: "tcp_step y x op = Some z" by blast
  then have "tcp_inv isn z" by (rule tcp_step_inv [OF inv assms(3)])
  with z show ?thesis by (auto simp: tcp_inv_def)
qed

theorem tcp_loop_never_panics_witness:
  "\<exists>y z. tcp_reach example_start y \<and> tcp_step y True (TLoop GotNext) = Some z \<and>
     (\<forall>p \<in> set (y_net z True). NewTCP4Net_filter p = Some (Some p))"
proof -
  have "tcp_enabled example_start True (TLoop GotNext)" by (simp add: tcp_enabled_def example_start_simps)
  then show ?thesis
    using tcp_loop_never_panics [OF tcp_reach_start [of example_start, unfolded example_start_def] ends_ok,
        folded example_start_def, of True "TLoop GotNext"] tcp_reach_start by blast
qed

text \<open>C5: A write gets through: when the sender is idle, the data fits in the peer's window and buffer
  and in a segment, and the network delivers one packet each way, then what is in the slice is what the peer
  can read next, and the acknowledgement wakes the writer with nothing left to send.\<close>

theorem tcp_write_delivered:
  assumes "tcp_reach (tcp_start addr isn win ttl) y" and "\<And>x. To4 (IP (addr x)) \<noteq> None"
    and "y_running y x" and "y_running y (\<not> x)"
    and "s = c_send (y_conn y x)" and "r = c_recv (y_conn y (\<not> x))"
    and "w_buffer (s_writeBuf s) = []" and "\<not> w_sendEOF (s_writeBuf s)" and "s_failErr s = None"
    and "t_next (s_timer s) = None"
    and "d \<noteq> []" and "length d \<le> unat (s_window s)" and "length d \<le> unat (s_maxSegmentSize s)"
    and "b_size (r_buffer r) + length d \<le> 4096" and "length (y_written y x) + length d < 2 ^ 31"
  shows "\<exists>p q y1 y2 y3 y4. tcp_step y x (TWrite False d) = Some y1 \<and>
    tcp_step y1 x (TLoop GotNext) = Some y2 \<and> y_net y2 x = y_net y x @ [p] \<and>
    tcp_step y2 (\<not> x) (TLoop (GotTCP p)) = Some y3 \<and> y_net y3 (\<not> x) = y_net y (\<not> x) @ [q] \<and>
    tcp_step y3 x (TLoop (GotTCP q)) = Some y4 \<and>
    unread (r_buffer (c_recv (y_conn y4 (\<not> x)))) = unread (r_buffer r) @ map (y_mem y x) d \<and>
    w_buffer (s_writeBuf (c_send (y_conn y4 x))) = [] \<and> s_notify (c_send (y_conn y4 x)) = s_notify s + 1"
proof -
  have "at_rest s" using assms(7-10) by (simp add: at_rest_def)
  note steps = write_delivered [OF tcp_reach_inv [OF assms(1,2)] assms(3-6) this assms(11-15)]
  obtain p q y1 y2 y3 y4 where "tcp_step y x (TWrite False d) = Some y1"
    "tcp_step y1 x (TLoop GotNext) = Some y2" "y_net y2 x = y_net y x @ [p]"
    "tcp_step y2 (\<not> x) (TLoop (GotTCP p)) = Some y3" "y_net y3 (\<not> x) = y_net y (\<not> x) @ [q]"
    "tcp_step y3 x (TLoop (GotTCP q)) = Some y4"
    "unread (r_buffer (c_recv (y_conn y4 (\<not> x)))) = unread (r_buffer r) @ map (y_mem y x) d"
    "at_rest (c_send (y_conn y4 x))" "s_notify (c_send (y_conn y4 x)) = s_notify s + 1"
    by (rule steps)
  then show ?thesis unfolding at_rest_def by blast
qed

theorem tcp_write_delivered_witness:
  "\<exists>y p q y1 y2 y3 y4. tcp_reach example_start y \<and> tcp_step y True (TWrite False [5]) = Some y1 \<and>
    tcp_step y1 True (TLoop GotNext) = Some y2 \<and> y_net y2 True = y_net y True @ [p] \<and>
    tcp_step y2 False (TLoop (GotTCP p)) = Some y3 \<and> y_net y3 False = y_net y False @ [q] \<and>
    tcp_step y3 True (TLoop (GotTCP q)) = Some y4 \<and> s_notify (c_send (y_conn y4 True)) = 1 \<and>
    unread (r_buffer (c_recv (y_conn y4 False))) = [7]"
proof -
  have "\<exists>p q y1 y2 y3 y4. tcp_step (example_stored True 7) True (TWrite False [5]) = Some y1 \<and>
    tcp_step y1 True (TLoop GotNext) = Some y2 \<and> y_net y2 True = y_net (example_stored True 7) True @ [p] \<and>
    tcp_step y2 (\<not> True) (TLoop (GotTCP p)) = Some y3 \<and> y_net y3 (\<not> True) = y_net (example_stored True 7) (\<not> True) @ [q] \<and>
    tcp_step y3 True (TLoop (GotTCP q)) = Some y4 \<and>
    unread (r_buffer (c_recv (y_conn y4 (\<not> True)))) =
      unread (r_buffer (c_recv (y_conn (example_stored True 7) (\<not> True)))) @ map (y_mem (example_stored True 7) True) [5] \<and>
    w_buffer (s_writeBuf (c_send (y_conn y4 True))) = [] \<and>
    s_notify (c_send (y_conn y4 True)) = s_notify (c_send (y_conn (example_stored True 7) True)) + 1"
    by (rule tcp_write_delivered [OF example_stored_reach [of True 7, unfolded example_start_def] ends_ok _ _ refl refl])
      (simp_all add: example_stored_simps example_start_simps)
  moreover have "s_notify (c_send (y_conn (example_stored True 7) True)) = 0"
    by (simp add: example_stored_simps example_start_simps newSimpleTcpSend_def)
  moreover have "unread (r_buffer (c_recv (y_conn (example_stored True 7) (\<not> True)))) @ map (y_mem (example_stored True 7) True) [5] = [7]"
    by (simp add: example_stored_simps example_start_simps unread_def)
  ultimately show ?thesis using example_stored_reach by fastforce
qed

end
