(* ===== verification/TCP_Listen.thy ===== *)
theory TCP_Listen
  imports TCP_Deliver Mux_Client Ports
begin

text \<open>
  How TCP connections come about: the handshake of the server (\<open>ipstack/tcp_negotiate.go\<close>), and the
  network and its listeners (\<open>ipstack/net_tcp.go\<close>), over \<open>Stream_Mux\<close>, \<open>Ports\<close> and the connections
  of \<open>TCP_Conn\<close>.
\<close>

section \<open>The handshake\<close>

record tcpHandshake =
  hs_localSeq :: u32
  hs_remoteSeq :: u32
  hs_localWinSize :: u16
  hs_remoteWinSize :: u16
  hs_mss :: u16

datatype handshake_error = StreamClosed | ConnectionFailed

text \<open>What comes out of \<open>Incoming\<close>: \<open>None\<close> is the nil packet of a closed channel.  A packet either ends
  the handshake, with the window that it carries, or is skipped.\<close>

definition hs_accepts :: "u32 \<Rightarrow> bytes \<Rightarrow> u16 option go" where
  "hs_accepts localSeq tp = do {
     h \<leftarrow> TCP4_Header tp;
     a \<leftarrow> TCP_Flag h ACK;
     if \<not> a then Some None
     else do {
       s \<leftarrow> TCP_Flag h SYN;
       if s then Some None
       else do {
         n \<leftarrow> TCP_AckNum h;
         if n = localSeq + 1 then do { w \<leftarrow> TCP_WindowSize h; Some (Some w) } else Some None
       }
     }
   }"

text \<open>The inner loop: the packets that come in before the timeout.  \<open>None\<close> is the timeout.\<close>

fun hs_wait :: "u32 \<Rightarrow> bytes option list \<Rightarrow> (handshake_error + u16) option go" where
  "hs_wait localSeq [] = Some None"
| "hs_wait localSeq (None # ps) = Some (Some (Inl StreamClosed))"
| "hs_wait localSeq (Some packet # ps) = do {
     r \<leftarrow> hs_accepts localSeq packet;
     case r of None \<Rightarrow> hs_wait localSeq ps | Some w \<Rightarrow> Some (Some (Inr w))
   }"

text \<open>The outer loop with the tries that are left; \<open>env i\<close> is what try \<open>i\<close> sees: whether the stream is
  done when it starts, and the packets.  The result has the number of packets that were offered.\<close>

fun hs_loop :: "nat \<Rightarrow> nat \<Rightarrow> u32 \<Rightarrow> (nat \<Rightarrow> bool \<times> bytes option list) \<Rightarrow> (nat \<times> (handshake_error + u16)) go" where
  "hs_loop 0 i localSeq env = Some (i, Inl ConnectionFailed)"
| "hs_loop (Suc n) i localSeq env =
     (if fst (env i) then Some (i, Inl StreamClosed)
      else do {
        r \<leftarrow> hs_wait localSeq (snd (env i));
        case r of None \<Rightarrow> hs_loop n (Suc i) localSeq env | Some res \<Rightarrow> Some (Suc i, res)
      })"

text \<open>\<open>localSeq\<close> is the random number.  The result has the SYN-ACK and how often it was offered to the
  stream.\<close>

definition tcp4ServerHandshake ::
  "u32 \<Rightarrow> (nat \<Rightarrow> bool \<times> bytes option list) \<Rightarrow> bytes \<Rightarrow> int \<Rightarrow>
     (bytes \<times> nat \<times> (handshake_error + tcpHandshake)) go" where
  "tcp4ServerHandshake localSeq env syn ttl = do {
     dest \<leftarrow> TCP4_DestAddr syn;
     source \<leftarrow> TCP4_SourceAddr syn;
     h \<leftarrow> TCP4_Header syn;
     seq \<leftarrow> TCP_SeqNum h;
     synAck \<leftarrow> NewTCP4Packet ttl dest source localSeq (seq + 1) 1000 [] [SYN, ACK];
     (n, r) \<leftarrow> hs_loop 10 0 localSeq env;
     Some (synAck, n, case r of
         Inl e \<Rightarrow> Inl e
       | Inr w \<Rightarrow> Inr \<lparr>hs_localSeq = localSeq + 1, hs_remoteSeq = seq + 1, hs_localWinSize = 1000,
           hs_remoteWinSize = w, hs_mss = 512\<rparr>)
   }"

section \<open>The network and its listeners\<close>

record tcp4Net =
  tn_stream :: multiplexer
  tn_laddr :: bytes
  tn_ports :: basicPortAllocator
  tn_ttl :: int

text \<open>A listener multiplexes its child \<open>tl_child\<close> of the network's stream.\<close>

record tcp4Listener =
  tl_child :: nat
  tl_stream :: multiplexer
  tl_addr :: net_addr
  tl_conns :: "tcp4Conn list"
  tl_ttl :: int

datatype tcp_net_error = ErrClosed | TPort port_error | TStream stream_error | NotYetImplemented

definition NewTCP4Net :: "bytes \<Rightarrow> basicPortAllocator option \<Rightarrow> int \<Rightarrow> tcp4Net" where
  "NewTCP4Net laddr ports ttl = (
     let ports = (case ports of None \<Rightarrow> BasicPortAllocator | Some b \<Rightarrow> b);
         ttl = (if ttl = 0 then 64 else ttl)
     in \<lparr>tn_stream = Multiplex, tn_laddr = laddr, tn_ports = ports, tn_ttl = ttl\<rparr>)"

definition DialTCP :: "tcp4Net \<Rightarrow> net_addr \<Rightarrow> tcp4Net \<times> (tcp_net_error + tcp4Conn)" where
  "DialTCP t addr = (t, Inl NotYetImplemented)"

definition ListenTCP :: "tcp4Net \<Rightarrow> net_addr \<Rightarrow> (tcp4Net \<times> (tcp_net_error + tcp4Listener)) go" where
  "ListenTCP t addr =
     (case Fork (tn_stream t) 16 of
        (m, Inl err) \<Rightarrow> Some (t\<lparr>tn_stream := m\<rparr>, Inl ErrClosed)
      | (m, Inr stream) \<Rightarrow> do {
          let t = t\<lparr>tn_stream := m\<rparr>;
          (b, r) \<leftarrow> Alloc (tn_ports t) (Port addr);
          let t = t\<lparr>tn_ports := b\<rparr>;
          case r of
            Inl err \<Rightarrow> Some (t, Inl (TPort err))
          | Inr _ \<Rightarrow> Some (t, Inr \<lparr>tl_child = stream, tl_stream = Multiplex, tl_addr = addr, tl_conns = [],
              tl_ttl = tn_ttl t\<rparr>)
        })"

definition tcp_net_Close :: "tcp4Net \<Rightarrow> (tcp4Net \<times> (stream_error + unit)) go" where
  "tcp_net_Close t = do { (m, r) \<leftarrow> mux_Close (tn_stream t); Some (t\<lparr>tn_stream := m\<rparr>, r) }"

text \<open>\<open>Close\<close> of the listener's multiplexer, which closes the child of the network's stream.  The end of
  its read loop calls it as well.\<close>

definition listener_stream_Close ::
  "(nat list \<Rightarrow> nat \<Rightarrow> nat list) \<Rightarrow> tcp4Net \<Rightarrow> tcp4Listener \<Rightarrow>
     (tcp4Net \<times> tcp4Listener \<times> (stream_error + unit)) go" where
  "listener_stream_Close unorderedDelete n t =
     (if mx_closed (tl_stream t) then Some (n, t, Inl AlreadyClosedErr)
      else do {
        (m, r) \<leftarrow> childClose unorderedDelete (tn_stream n) (tl_child t);
        (s, r) \<leftarrow> mux_Close (tl_stream t);
        Some (n\<lparr>tn_stream := m\<rparr>, t\<lparr>tl_stream := s\<rparr>, r)
      })"

definition listener_Close ::
  "(nat list \<Rightarrow> nat \<Rightarrow> nat list) \<Rightarrow> tcp4Net \<Rightarrow> tcp4Listener \<Rightarrow>
     (tcp4Net \<times> tcp4Listener \<times> (tcp_net_error + unit)) go" where
  "listener_Close unorderedDelete n t = do {
     (n, t, r) \<leftarrow> listener_stream_Close unorderedDelete n t;
     case r of
       Inl err \<Rightarrow> Some (n, t, Inl (TStream err))
     | Inr _ \<Rightarrow> do {
         (b, r) \<leftarrow> Free (tn_ports n) (Port (tl_addr t));
         Some (n\<lparr>tn_ports := b\<rparr>, t, case r of Inl err \<Rightarrow> Inl (TPort err) | Inr u \<Rightarrow> Inr u)
       }
   }"

definition Accept :: "tcp4Listener \<Rightarrow> bool \<Rightarrow> (tcp4Listener \<times> (tcp_net_error + tcp4Conn)) option" where
  "Accept t closed =
     (case tl_conns t of
        conn # conns \<Rightarrow> Some (t\<lparr>tl_conns := conns\<rparr>, Inr conn)
      | [] \<Rightarrow> if closed then Some (t, Inl ErrClosed) else None)"

text \<open>One round of the listener's loop, for a packet that has passed its two filters.  The result has the
  SYN-ACK, how often it was offered, and whether the loop goes on.\<close>

definition listener_round ::
  "(nat list \<Rightarrow> nat \<Rightarrow> nat list) \<Rightarrow> u32 \<Rightarrow> (nat \<Rightarrow> bool \<times> bytes option list) \<Rightarrow> tcp4Listener \<Rightarrow> bytes \<Rightarrow>
     (tcp4Listener \<times> (bytes \<times> nat) option \<times> bool) go" where
  "listener_round unorderedDelete localSeq env t tp =
     (case Fork (tl_stream t) 10 of
        (m, Inl err) \<Rightarrow> Some (t\<lparr>tl_stream := m\<rparr>, None, False)
      | (m, Inr stream) \<Rightarrow> do {
          let t = t\<lparr>tl_stream := m\<rparr>;
          source \<leftarrow> TCP4_SourceAddr tp;
          dest \<leftarrow> TCP4_DestAddr tp;
          (synAck, n, r) \<leftarrow> tcp4ServerHandshake localSeq env tp (tl_ttl t);
          case r of
            Inl err \<Rightarrow> do {
              (m, _) \<leftarrow> childClose unorderedDelete (tl_stream t) stream;
              Some (t\<lparr>tl_stream := m\<rparr>, Some (synAck, n), True)
            }
          | Inr handshake \<Rightarrow>
              let conn = \<lparr>c_laddr = dest, c_raddr = source,
                c_recv = newSimpleTcpRecv (hs_remoteSeq handshake) 4096,
                c_send = newSimpleTcpSend (hs_localSeq handshake) (hs_remoteWinSize handshake) (hs_mss handshake),
                c_ttl = tl_ttl t\<rparr>
              in Some (t\<lparr>tl_conns := tl_conns t @ [conn]\<rparr>, Some (synAck, n), True)
        })"

text \<open>The two filters in front of the loop.\<close>

definition listener_filters :: "net_addr \<Rightarrow> bytes \<Rightarrow> bytes option go" where
  "listener_filters addr packet = do {
     p \<leftarrow> filterTCP4Dest addr packet;
     case p of None \<Rightarrow> Some None | Some packet \<Rightarrow> filterTCP4Syn packet
   }"

section \<open>The handshake ends\<close>

lemma hs_wait_total:
  assumes "\<forall>p. Some p \<in> set ps \<longrightarrow> hs_accepts seq p \<noteq> None"
  shows "\<exists>r. hs_wait seq ps = Some r \<and> r \<noteq> Some (Inl ConnectionFailed)"
  using assms by (induction seq ps rule: hs_wait.induct) (auto split: option.splits)

lemma hs_loop_total:
  assumes "\<forall>j. \<forall>p. Some p \<in> set (snd (env j)) \<longrightarrow> hs_accepts seq p \<noteq> None"
  shows "\<exists>k r. hs_loop n i seq env = Some (k, r) \<and> i \<le> k \<and> k \<le> i + n \<and>
    (r = Inl ConnectionFailed \<longleftrightarrow> (\<forall>j \<in> {i..<i + n}. \<not> fst (env j) \<and> hs_wait seq (snd (env j)) = Some None))"
proof (induction n arbitrary: i)
  case (Suc n)
  obtain w where w: "hs_wait seq (snd (env i)) = Some w" "w \<noteq> Some (Inl ConnectionFailed)"
    using hs_wait_total [of "snd (env i)" seq] assms by blast
  have range: "{i..<i + Suc n} = insert i {Suc i..<Suc i + n}" by auto
  show ?case
  proof (cases "fst (env i) \<or> w \<noteq> None")
    case True
    then show ?thesis unfolding range using w by auto
  next
    case False
    obtain k r where "hs_loop n (Suc i) seq env = Some (k, r)" "Suc i \<le> k" "k \<le> Suc i + n"
      "r = Inl ConnectionFailed \<longleftrightarrow> (\<forall>j \<in> {Suc i..<Suc i + n}. \<not> fst (env j) \<and> hs_wait seq (snd (env j)) = Some None)"
      using Suc.IH [of "Suc i"] by blast
    with False w show ?thesis unfolding range by auto
  qed
qed simp

text \<open>Tries that end with a timeout, and then a packet that is accepted.\<close>

definition skipped :: "u32 \<Rightarrow> bytes option list \<Rightarrow> bool" where
  "skipped seq ps \<longleftrightarrow> (\<forall>p \<in> set ps. \<exists>q. p = Some q \<and> hs_accepts seq q = Some None)"

lemma hs_wait_skipped: "skipped seq ps \<Longrightarrow> hs_wait seq (ps @ qs) = hs_wait seq qs"
  by (induction ps) (auto simp: skipped_def)

lemma hs_loop_accepts:
  assumes "\<forall>j \<in> {i..<i + k}. \<not> fst (env j) \<and> skipped seq (snd (env j))"
    and "\<not> fst (env (i + k))" and "snd (env (i + k)) = before @ Some p # rest" and "skipped seq before"
    and "hs_accepts seq p = Some (Some w)" and "k < n"
  shows "hs_loop n i seq env = Some (Suc (i + k), Inr w)"
  using assms
proof (induction n arbitrary: i k)
  case (Suc n)
  show ?case
  proof (cases k)
    case 0
    then show ?thesis using Suc.prems by (simp add: hs_wait_skipped)
  next
    case (Suc k')
    have "hs_wait seq (snd (env i)) = Some None"
      using Suc.prems(1) Suc hs_wait_skipped [of seq "snd (env i)" "[]"] by simp
    moreover have "hs_loop n (Suc i) seq env = Some (Suc (Suc i + k'), Inr w)"
      using Suc.prems Suc by (intro Suc.IH) auto
    ultimately show ?thesis using Suc.prems(1) Suc by simp
  qed
qed simp

section \<open>Listeners\<close>

definition tcp_net_ok :: "(nat list \<Rightarrow> nat \<Rightarrow> nat list) \<Rightarrow> tcp4Net \<Rightarrow> bool" where
  "tcp_net_ok del t \<longleftrightarrow> mux_ok del (tn_stream t) \<and> unordered_delete_spec del \<and> ports_ok (tn_ports t)"

definition live_children :: "tcp4Net \<Rightarrow> nat set" where
  "live_children t = set (mx_children (tn_stream t))"

lemma tcp_net_ok_New: "unordered_delete_spec del \<Longrightarrow> tcp_net_ok del (NewTCP4Net laddr None ttl)"
  by (simp add: tcp_net_ok_def NewTCP4Net_def mux_ok_Multiplex ports_ok_def BasicPortAllocator_def)

lemma ListenTCP_outcome:
  assumes ok: "tcp_net_ok del t"
  shows "if mx_closed (tn_stream t) then ListenTCP t addr = Some (t, Inl ErrClosed)
    else \<exists>u r i. ListenTCP t addr = Some (u, r) \<and> tcp_net_ok del u \<and> \<not> mx_closed (tn_stream u) \<and>
      i \<notin> live_children t \<and> live_children u = insert i (live_children t) \<and>
      (if Port addr \<in> {0..0xffff} - ports_in_use (tn_ports t)
       then (\<exists>l. r = Inr l \<and> tl_child l = i \<and> tl_addr l = addr \<and> tl_stream l = Multiplex \<and> tl_ttl l = tn_ttl t) \<and>
         ports_in_use (tn_ports u) = insert (Port addr) (ports_in_use (tn_ports t))
       else (\<exists>e. r = Inl (TPort e)) \<and> tn_ports u = tn_ports t)"
proof (cases "mx_closed (tn_stream t)")
  case True
  then show ?thesis by (simp add: ListenTCP_def Fork_def)
next
  case False
  have m: "mux_ok del (tn_stream t) \<and> unordered_delete_spec del" and p: "ports_ok (tn_ports t)"
    using ok by (simp_all add: tcp_net_ok_def)
  obtain m' i where f: "Fork (tn_stream t) 16 = (m', Inr i)" "mux_ok del m'" "\<not> mx_closed m'"
    "i \<notin> set (mx_children (tn_stream t))" "set (mx_children m') = insert i (set (mx_children (tn_stream t)))"
    using mux.fork_open [OF m False, of 16] by blast
  show ?thesis
  proof (cases "Port addr \<in> {0..0xffff} - ports_in_use (tn_ports t)")
    case True
    then obtain b where "Alloc (tn_ports t) (Port addr) = Some (b, Inr ())" "ports_ok b"
      "ports_in_use b = insert (Port addr) (ports_in_use (tn_ports t))"
      using ports.alloc_free [OF p] by blast
    then show ?thesis using False True f m
      by (auto simp: ListenTCP_def tcp_net_ok_def live_children_def)
  next
    case taken: False
    then obtain e where "Alloc (tn_ports t) (Port addr) = Some (tn_ports t, Inl e)"
      using ports.alloc_taken [OF p] by blast
    then show ?thesis using False taken f m p
      by (auto simp: ListenTCP_def tcp_net_ok_def live_children_def)
  qed
qed

text \<open>Closing a listener whose child and port are still its own.\<close>

lemma listener_Close_spec:
  assumes ok: "tcp_net_ok del n" and l: "mux_ok del (tl_stream l)" "\<not> mx_closed (tl_stream l)"
    and c: "tl_child l \<in> live_children n" "\<not> mx_closed (tn_stream n)" and p: "Port (tl_addr l) \<in> ports_in_use (tn_ports n)"
  obtains n' l' where "listener_Close del n l = Some (n', l', Inr ())" and "tcp_net_ok del n'"
    and "live_children n' = live_children n - {tl_child l}"
    and "ports_in_use (tn_ports n') = ports_in_use (tn_ports n) - {Port (tl_addr l)}"
    and "listener_Close del n' l' = Some (n', l', Inl (TStream AlreadyClosedErr))"
proof -
  have m: "mux_ok del (tn_stream n) \<and> unordered_delete_spec del" and po: "ports_ok (tn_ports n)"
    using ok by (simp_all add: tcp_net_ok_def)
  obtain m' where m': "childClose del (tn_stream n) (tl_child l) = Some (m', Inr ())" "mux_ok del m'"
    "set (mx_children m') = set (mx_children (tn_stream n)) - {tl_child l}"
    using mux.child_close_live [OF m c(2) c(1) [unfolded live_children_def]] by blast
  obtain s' where s': "mux_Close (tl_stream l) = Some (s', Inr ())" "mx_closed s'"
    using mux.close_open [OF conjI [OF l(1) conjunct2 [OF m]] l(2)] by blast
  obtain b where b: "Free (tn_ports n) (Port (tl_addr l)) = Some (b, Inr ())" "ports_ok b"
    "ports_in_use b = ports_in_use (tn_ports n) - {Port (tl_addr l)}"
    using ports.free_taken [OF po p] by blast
  show ?thesis
  proof (rule that)
    show "listener_Close del n l = Some (n\<lparr>tn_stream := m', tn_ports := b\<rparr>, l\<lparr>tl_stream := s'\<rparr>, Inr ())"
      using m'(1) s'(1) b(1) l(2) by (simp add: listener_Close_def listener_stream_Close_def)
  qed (use m m' s' b in \<open>simp_all add: tcp_net_ok_def live_children_def listener_Close_def listener_stream_Close_def\<close>)
qed

section \<open>The properties\<close>

lemma flags_ok: "\<forall>f \<in> set [SYN]. f \<le> 8" "\<forall>f \<in> set [ACK]. f \<le> 8" "\<forall>f \<in> set [SYN, ACK]. f \<le> 8"
  by (simp_all add: SYN_def ACK_def)

lemma no_data: "length ([] :: bytes) \<le> 65495"
  by simp

text \<open>The packet that ends a handshake.\<close>

lemma hs_accepts_ack:
  assumes "To4 (IP a) = Some src" and "To4 (IP b) = Some dst" and "length d \<le> 65495"
    and "NewTCP4Packet ttl a b s (seq + 1) w d [ACK] = Some p"
  shows "hs_accepts seq p = Some (Some w)"
proof -
  obtain q h where q: "NewTCP4Packet ttl a b s (seq + 1) w d [ACK] = Some q" "TCP4_Header q = Some h"
    "TCP_AckNum h = Some (seq + 1)" "TCP_WindowSize h = Some w"
    "\<And>f. f \<le> 8 \<Longrightarrow> TCP_Flag h f = Some (f \<in> set [ACK])"
    by (rule NewTCP4Packet_fields [OF assms(1-3) flags_ok(2), of ttl s "seq + 1" w])
      (rule that; assumption)
  have "TCP_Flag h ACK = Some True" "TCP_Flag h SYN = Some False"
    using q(5) [of ACK] q(5) [of SYN] by (simp_all add: ACK_def SYN_def)
  then show ?thesis using q(1-4) assms(4) by (simp add: hs_accepts_def)
qed

lemma syn_passes:
  assumes "length (IP server) = 4" and "length (IP client) = 4" and "Port server \<in> {0..0xffff}"
    and "Port client \<in> {0..0xffff}" and "NewTCP4Packet ttl client server s 0 w0 [] [SYN] = Some syn"
    and "IP_Equal (IP server) (IP addr)" and "Port addr = Port server"
  obtains h where "listener_filters addr syn = Some (Some syn)" and "TCP4_Header syn = Some h" and "TCP_SeqNum h = Some s"
    and "TCP4_SourceAddr syn = Some client" and "TCP4_DestAddr syn = Some server"
proof -
  have ip: "To4 (IP client) = Some (IP client)" "To4 (IP server) = Some (IP server)" using assms(1,2) by simp_all
  have addrs: "\<lparr>IP = IP server, Port = Port server mod 65536\<rparr> = server"
    "\<lparr>IP = IP client, Port = Port client mod 65536\<rparr> = client"
    using assms(3,4) by simp_all
  obtain q h where q: "NewTCP4Packet ttl client server s 0 w0 [] [SYN] = Some q"
    "TCP4_Header q = Some h" "TCP4_SourceAddr q = Some \<lparr>IP = IP client, Port = Port client mod 65536\<rparr>"
    "TCP4_DestAddr q = Some \<lparr>IP = IP server, Port = Port server mod 65536\<rparr>"
    "TCP_SeqNum h = Some s" "\<And>f. f \<le> 8 \<Longrightarrow> TCP_Flag h f = Some (f \<in> set [SYN])"
    by (rule NewTCP4Packet_fields [OF ip no_data flags_ok(1), of ttl s 0 w0]) (rule that; assumption)
  note q = q [unfolded addrs]
  have syn: "syn = q" using q(1) assms(5) by simp
  have "TCP_Flag h SYN = Some True" using q(6) [of SYN] by (simp add: SYN_def)
  then have "listener_filters addr syn = Some (Some syn)"
    using q assms(6,7) by (simp add: listener_filters_def filterTCP4Dest_def filterTCP4Syn_def syn)
  then show ?thesis using q(2-5) by (intro that [of h]) (simp_all add: syn)
qed

lemma listener_accepts:
  assumes "\<not> mx_closed (tl_stream t)" and "length (IP server) = 4" and "length (IP client) = 4"
    and "Port server \<in> {0..0xffff}" and "Port client \<in> {0..0xffff}"
    and "NewTCP4Packet ttl client server s 0 w0 [] [SYN] = Some syn"
    and "NewTCP4Packet ttl client server (s + 1) (seq + 1) w d [ACK] = Some ack" and "length d \<le> 65495"
    and "\<forall>j < k. \<not> fst (env j) \<and> skipped seq (snd (env j))" and "k < 10"
    and "\<not> fst (env k)" and "snd (env k) = before @ Some ack # rest" and "skipped seq before"
    and "isn = (\<lambda>x. if x then seq + 1 else s + 1)" and "addr = (\<lambda>x. if x then server else client)"
  obtains t' synAck h where "listener_round del seq env t syn = Some (t', Some (synAck, Suc k), True)"
    and "tl_conns t' = tl_conns t @ [y_conn (tcp_start addr isn (\<lambda>x. w) (tl_ttl t)) True]"
    and "NewTCP4Net_filter synAck = Some (Some synAck)" and "TCP4_DestAddr synAck = Some client"
    and "TCP4_SourceAddr synAck = Some server" and "TCP4_Header synAck = Some h" and "TCP_SeqNum h = Some seq"
    and "TCP_AckNum h = Some (s + 1)" and "TCP_Flag h SYN = Some True" and "TCP_Flag h ACK = Some True"
proof -
  have ip: "To4 (IP client) = Some (IP client)" "To4 (IP server) = Some (IP server)" using assms(2,3) by simp_all
  have addrs: "\<lparr>IP = IP server, Port = Port server mod 65536\<rparr> = server"
    "\<lparr>IP = IP client, Port = Port client mod 65536\<rparr> = client"
    using assms(4,5) by simp_all
  obtain h where q: "TCP4_Header syn = Some h" "TCP_SeqNum h = Some s"
    "TCP4_SourceAddr syn = Some client" "TCP4_DestAddr syn = Some server"
    by (rule syn_passes [OF assms(2-6) IP_Equal_refl refl])
  obtain a h' where a: "NewTCP4Packet (tl_ttl t) server client seq (s + 1) 1000 [] [SYN, ACK] = Some a"
    "TCP4_Valid a = Some True" "TCP4_Checksum a = Some 0" "TCP4_Header a = Some h'"
    "TCP4_SourceAddr a = Some \<lparr>IP = IP server, Port = Port server mod 65536\<rparr>"
    "TCP4_DestAddr a = Some \<lparr>IP = IP client, Port = Port client mod 65536\<rparr>"
    "TCP_SeqNum h' = Some seq" "TCP_AckNum h' = Some (s + 1)"
    "\<And>f. f \<le> 8 \<Longrightarrow> TCP_Flag h' f = Some (f \<in> set [SYN, ACK])"
    by (rule NewTCP4Packet_fields [OF ip(2,1) no_data flags_ok(3), of "tl_ttl t" seq "s + 1" 1000])
      (rule that; assumption)
  note a = a [unfolded addrs]
  have af: "TCP_Flag h' SYN = Some True" "TCP_Flag h' ACK = Some True"
    using a(9) [of SYN] a(9) [of ACK] by (simp_all add: SYN_def ACK_def)
  have acc: "hs_accepts seq ack = Some (Some w)" by (rule hs_accepts_ack [OF ip assms(8,7)])
  have "hs_loop 10 0 seq env = Some (Suc (0 + k), Inr w)"
    by (rule hs_loop_accepts [OF _ _ _ _ acc]) (use assms(9-13) in auto)
  then have hand: "tcp4ServerHandshake seq env syn (tl_ttl t) = Some (a, Suc k, Inr \<lparr>hs_localSeq = seq + 1,
      hs_remoteSeq = s + 1, hs_localWinSize = 1000, hs_remoteWinSize = w, hs_mss = 512\<rparr>)"
    using q a by (simp add: tcp4ServerHandshake_def)
  obtain t' where t': "listener_round del seq env t syn = Some (t', Some (a, Suc k), True)"
    "tl_conns t' = tl_conns t @ [y_conn (tcp_start addr isn (\<lambda>x. w) (tl_ttl t)) True]"
    using hand q by (simp add: listener_round_def Fork_open [OF assms(1)] Let_def tcp_start_def assms(14,15))
  have "NewTCP4Net_filter a = Some (Some a)" using a(2,3) by (simp add: NewTCP4Net_filter_def)
  from t' this a(6,5,4,7,8) af show ?thesis by (rule that)
qed

text \<open>C8: A listener sets up the connection that the client means: a SYN for its address passes the
  filters; the SYN-ACK goes to the client with both numbers, once for every second that it waits;
  and when the client's ACK comes in the first ten of them, whatever other packets come before it,
  the connection that \<open>Accept\<close> returns has the client's address and is the one of \<open>TCP_Conn\<close>, with
  streams that start behind the two SYNs.\<close>

theorem handshake_establishes:
  assumes "\<not> mx_closed (tl_stream t)" and "length (IP server) = 4" and "length (IP client) = 4"
    and "Port server \<in> {0..0xffff}" and "Port client \<in> {0..0xffff}"
    and "NewTCP4Packet ttl client server s 0 w0 [] [SYN] = Some syn"
    and "NewTCP4Packet ttl client server (s + 1) (seq + 1) w d [ACK] = Some ack" and "length d \<le> 65495"
    and "\<forall>j < k. \<not> fst (env j) \<and> skipped seq (snd (env j))" and "k < 10"
    and "\<not> fst (env k)" and "snd (env k) = before @ Some ack # rest" and "skipped seq before"
    and "isn = (\<lambda>x. if x then seq + 1 else s + 1)" and "addr = (\<lambda>x. if x then server else client)"
  shows "listener_filters server syn = Some (Some syn) \<and>
    (\<exists>t' synAck h. listener_round del seq env t syn = Some (t', Some (synAck, Suc k), True) \<and>
       tl_conns t' = tl_conns t @ [y_conn (tcp_start addr isn (\<lambda>x. w) (tl_ttl t)) True] \<and>
       NewTCP4Net_filter synAck = Some (Some synAck) \<and> TCP4_DestAddr synAck = Some client \<and>
       TCP4_SourceAddr synAck = Some server \<and> TCP4_Header synAck = Some h \<and> TCP_SeqNum h = Some seq \<and>
       TCP_AckNum h = Some (s + 1) \<and> TCP_Flag h SYN = Some True \<and> TCP_Flag h ACK = Some True)"
proof -
  obtain h where "listener_filters server syn = Some (Some syn)"
    by (rule syn_passes [OF assms(2-6) IP_Equal_refl refl])
  moreover obtain t' synAck h where "listener_round del seq env t syn = Some (t', Some (synAck, Suc k), True)"
    "tl_conns t' = tl_conns t @ [y_conn (tcp_start addr isn (\<lambda>x. w) (tl_ttl t)) True]"
    "NewTCP4Net_filter synAck = Some (Some synAck)" "TCP4_DestAddr synAck = Some client"
    "TCP4_SourceAddr synAck = Some server" "TCP4_Header synAck = Some h" "TCP_SeqNum h = Some seq"
    "TCP_AckNum h = Some (s + 1)" "TCP_Flag h SYN = Some True" "TCP_Flag h ACK = Some True"
    by (rule listener_accepts [OF assms])
  ultimately show ?thesis by blast
qed

definition example_listener :: tcp4Listener where
  "example_listener = \<lparr>tl_child = 0, tl_stream = Multiplex, tl_addr = ends True, tl_conns = [], tl_ttl = 64\<rparr>"

lemma example_handshake:
  obtains syn ack where "NewTCP4Packet 64 (ends False) (ends True) 99 0 4096 [] [SYN] = Some syn"
    and "NewTCP4Packet 64 (ends False) (ends True) 100 0xffffffff 4096 [] [ACK] = Some ack"
    and "skipped 0xfffffffe [Some syn]"
proof -
  have ip: "To4 (IP (ends False)) = Some (IP (ends False))" "To4 (IP (ends True)) = Some (IP (ends True))"
    by (simp_all add: ends_def)
  obtain syn h where syn: "NewTCP4Packet 64 (ends False) (ends True) 99 0 4096 [] [SYN] = Some syn"
    "TCP4_Header syn = Some h" "\<And>f. f \<le> 8 \<Longrightarrow> TCP_Flag h f = Some (f \<in> set [SYN])"
    by (rule NewTCP4Packet_fields [OF ip no_data flags_ok(1), of 64 99 0 4096]) (rule that; assumption)
  obtain ack where ack: "NewTCP4Packet 64 (ends False) (ends True) 100 0xffffffff 4096 [] [ACK] = Some ack"
    by (rule NewTCP4Packet_fields [OF ip no_data flags_ok(2), of 64 100 "0xffffffff" 4096]) (rule that; assumption)
  have "TCP_Flag h ACK = Some False" using syn(3) [of ACK] by (simp add: ACK_def SYN_def)
  then have "skipped 0xfffffffe [Some syn]" using syn(2) by (simp add: skipped_def hs_accepts_def)
  with syn(1) ack show ?thesis by (rule that)
qed

theorem handshake_establishes_witness:
  "\<exists>syn ack t' synAck. NewTCP4Packet 64 (ends False) (ends True) 99 0 4096 [] [SYN] = Some syn \<and>
     NewTCP4Packet 64 (ends False) (ends True) 100 0xffffffff 4096 [] [ACK] = Some ack \<and>
     listener_round swap_delete 0xfffffffe (\<lambda>i. (False, if i = 1 then [Some syn, Some ack] else [])) example_listener syn =
       Some (t', Some (synAck, 2), True) \<and>
     tl_conns t' = [y_conn example_start True]"
proof -
  obtain syn ack where syn: "NewTCP4Packet 64 (ends False) (ends True) 99 0 4096 [] [SYN] = Some syn"
    and ack: "NewTCP4Packet 64 (ends False) (ends True) 100 0xffffffff 4096 [] [ACK] = Some ack"
    and skip: "skipped 0xfffffffe [Some syn]"
    by (rule example_handshake)
  let ?env = "\<lambda>i :: nat. (False, if i = 1 then [Some syn, Some ack] else [])"
  have num: "(\<lambda>x. if x then 0xfffffffe + 1 else 99 + 1) = (\<lambda>x. if x then 0xffffffff else 100 :: u32)"
    by (rule ext) simp
  have num': "(99 :: u32) + 1 = 100" "(0xfffffffe :: u32) + 1 = 0xffffffff" by simp_all
  have "\<exists>t' synAck h. listener_round swap_delete 0xfffffffe ?env example_listener syn = Some (t', Some (synAck, Suc 1), True) \<and>
       tl_conns t' = tl_conns example_listener @ [y_conn (tcp_start (\<lambda>x. if x then ends True else ends False)
         (\<lambda>x. if x then 0xfffffffe + 1 else 99 + 1) (\<lambda>x. 4096) (tl_ttl example_listener)) True]"
    using handshake_establishes [of example_listener "ends True" "ends False" 64 99 4096 syn "0xfffffffe" 4096 "[]" ack 1
        ?env "[Some syn]" "[]", OF _ _ _ _ _ syn _ _ _ _ _ _ _ refl refl, of swap_delete] ack skip
    by (auto simp: example_listener_def Multiplex_def ends_def num' skipped_def)
  moreover have "(\<lambda>x. if x then ends True else ends False) = ends" by auto
  ultimately show ?thesis using syn ack unfolding num
    by (auto simp: example_listener_def example_start_def numeral_2_eq_2)
qed

text \<open>C22: The handshake ends: whatever packets come (with headers that can be read), it returns after at
  most ten SYN-ACKs, and gives up with a failed connection exactly when all ten tries time out with
  nothing but packets that are skipped and the stream is not done at the start of any.\<close>

theorem handshake_ends:
  assumes "NewTCP4Packet ttl client server s 0 w0 [] [SYN] = Some syn"
    and "length (IP server) = 4" and "length (IP client) = 4"
    and "\<forall>j. \<forall>p. Some p \<in> set (snd (env j)) \<longrightarrow> hs_accepts seq p \<noteq> None"
  shows "\<exists>synAck n r. tcp4ServerHandshake seq env syn ttl' = Some (synAck, n, r) \<and> n \<le> 10 \<and>
    (r = Inl ConnectionFailed \<longleftrightarrow> (\<forall>j < 10. \<not> fst (env j) \<and> hs_wait seq (snd (env j)) = Some None))"
proof -
  have ip: "To4 (IP client) = Some (IP client)" "To4 (IP server) = Some (IP server)" using assms(2,3) by simp_all
  obtain q h where q: "NewTCP4Packet ttl client server s 0 w0 [] [SYN] = Some q"
    "TCP4_Header q = Some h" "TCP4_SourceAddr q = Some \<lparr>IP = IP client, Port = Port client mod 65536\<rparr>"
    "TCP4_DestAddr q = Some \<lparr>IP = IP server, Port = Port server mod 65536\<rparr>" "TCP_SeqNum h = Some s"
    by (rule NewTCP4Packet_fields [OF ip no_data flags_ok(1), of ttl s 0 w0]) (rule that; assumption)
  obtain a where a: "NewTCP4Packet ttl' \<lparr>IP = IP server, Port = Port server mod 65536\<rparr>
      \<lparr>IP = IP client, Port = Port client mod 65536\<rparr> seq (s + 1) 1000 [] [SYN, ACK] = Some a"
    using NewTCP4Packet_fields [of "\<lparr>IP = IP server, Port = Port server mod 65536\<rparr>" "IP server"
        "\<lparr>IP = IP client, Port = Port client mod 65536\<rparr>" "IP client" "[]" "[SYN, ACK]" ttl' seq "s + 1" 1000]
      ip flags_ok(3) by auto
  obtain n r where "hs_loop 10 0 seq env = Some (n, r)" "n \<le> 10"
    "r = Inl ConnectionFailed \<longleftrightarrow> (\<forall>j \<in> {0..<10}. \<not> fst (env j) \<and> hs_wait seq (snd (env j)) = Some None)"
    using hs_loop_total [OF assms(4), of 10 0] by auto
  then show ?thesis using q a assms(1) by (auto simp: tcp4ServerHandshake_def split: sum.split)
qed

theorem handshake_ends_witness:
  "\<exists>syn synAck n. NewTCP4Packet 64 (ends False) (ends True) 99 0 4096 [] [SYN] = Some syn \<and>
     tcp4ServerHandshake 7 (\<lambda>i. (False, [])) syn 64 = Some (synAck, n, Inl ConnectionFailed)"
proof -
  obtain syn where syn: "NewTCP4Packet 64 (ends False) (ends True) 99 0 4096 [] [SYN] = Some syn"
    by (rule NewTCP4Packet_fields [of "ends False" "IP (ends False)" "ends True" "IP (ends True)" "[]" "[SYN]" 64 99 0 4096])
      (simp_all add: ends_def flags_ok(1))
  show ?thesis using handshake_ends [OF syn, of "\<lambda>i. (False, [])" 7 64] syn by (auto simp: ends_def)
qed

text \<open>C23: \<open>ListenTCP\<close> takes exactly the ports that are in range and free, and closing the listener gives
  back its port and its stream, once.  But a call that is refused because of the port leaves its
  child stream behind, which nobody can close.\<close>

theorem tcp_listen_and_close:
  assumes "tcp_net_ok del t" and "\<not> mx_closed (tn_stream t)"
  shows "\<exists>u r. ListenTCP t addr = Some (u, r) \<and>
    (if Port addr \<in> {0..0xffff} - ports_in_use (tn_ports t)
     then \<exists>l u' l'. r = Inr l \<and> ports_in_use (tn_ports u) = insert (Port addr) (ports_in_use (tn_ports t)) \<and>
       listener_Close del u l = Some (u', l', Inr ()) \<and> ports_in_use (tn_ports u') = ports_in_use (tn_ports t) \<and>
       live_children u' = live_children t \<and>
       listener_Close del u' l' = Some (u', l', Inl (TStream AlreadyClosedErr))
     else (\<exists>e. r = Inl (TPort e)) \<and> tn_ports u = tn_ports t \<and>
       (\<exists>i. i \<notin> live_children t \<and> live_children u = insert i (live_children t)))"
proof -
  obtain u r i where u: "ListenTCP t addr = Some (u, r)" "tcp_net_ok del u" "\<not> mx_closed (tn_stream u)"
      "i \<notin> live_children t" "live_children u = insert i (live_children t)"
      "if Port addr \<in> {0..0xffff} - ports_in_use (tn_ports t)
       then (\<exists>l. r = Inr l \<and> tl_child l = i \<and> tl_addr l = addr \<and> tl_stream l = Multiplex \<and> tl_ttl l = tn_ttl t) \<and>
         ports_in_use (tn_ports u) = insert (Port addr) (ports_in_use (tn_ports t))
       else (\<exists>e. r = Inl (TPort e)) \<and> tn_ports u = tn_ports t"
    using ListenTCP_outcome [OF assms(1), of addr] assms(2) by auto
  show ?thesis
  proof (cases "Port addr \<in> {0..0xffff} - ports_in_use (tn_ports t)")
    case True
    then obtain l where l: "r = Inr l" "tl_child l = i" "tl_addr l = addr" "tl_stream l = Multiplex"
      "ports_in_use (tn_ports u) = insert (Port addr) (ports_in_use (tn_ports t))"
      using u(6) by auto
    have closes: "mux_ok del (tl_stream l)" "\<not> mx_closed (tl_stream l)" "tl_child l \<in> live_children u"
      "Port (tl_addr l) \<in> ports_in_use (tn_ports u)"
      using l u(5) by (simp_all add: mux_ok_Multiplex) (simp add: Multiplex_def)
    obtain u' l' where "listener_Close del u l = Some (u', l', Inr ())"
      "live_children u' = live_children u - {tl_child l}"
      "ports_in_use (tn_ports u') = ports_in_use (tn_ports u) - {Port (tl_addr l)}"
      "listener_Close del u' l' = Some (u', l', Inl (TStream AlreadyClosedErr))"
      using listener_Close_spec [OF u(2) closes(1-3) u(3) closes(4)] .
    then show ?thesis using u l True by auto
  next
    case False
    then show ?thesis using u by auto
  qed
qed

definition example_net :: tcp4Net where
  "example_net = NewTCP4Net [10, 0, 0, 1] None 0"

lemma example_net_facts: "tcp_net_ok swap_delete example_net" "\<not> mx_closed (tn_stream example_net)"
  "ports_in_use (tn_ports example_net) = {}"
proof -
  show "tcp_net_ok swap_delete example_net"
    using tcp_net_ok_New [OF swap_delete_spec, of "[10, 0, 0, 1]" 0] by (simp add: example_net_def)
qed (auto simp: example_net_def NewTCP4Net_def Multiplex_def ports_in_use_def BasicPortAllocator_def)

theorem tcp_listen_and_close_witness:
  "\<exists>u l u' l'. ListenTCP example_net (ends True) = Some (u, Inr l) \<and> ports_in_use (tn_ports u) = {1337} \<and>
     listener_Close swap_delete u l = Some (u', l', Inr ()) \<and> ports_in_use (tn_ports u') = {}"
  using tcp_listen_and_close [OF example_net_facts(1,2), of "ends True"] example_net_facts(3)
  by (auto simp: ends_def)

text \<open>C24: Closing the network while a listener is open makes the program panic: the end of the read loop
  of the listener's multiplexer, like a call of the listener's \<open>Close\<close>, closes the listener's child
  stream, which the network has closed already.\<close>

theorem tcp_net_close_panics:
  assumes "tcp_net_ok del t" and "\<not> mx_closed (tn_stream t)" and "ListenTCP t addr = Some (u, Inr l)"
    and "tcp_net_Close u = Some (v, r)"
  shows "listener_stream_Close del v l = None \<and> listener_Close del v l = None"
proof -
  have u: "tcp_net_ok del u" "\<not> mx_closed (tn_stream u)" "tl_child l \<in> live_children u" "tl_stream l = Multiplex"
    using ListenTCP_outcome [OF assms(1), of addr] assms(2,3) by (auto split: if_splits)
  obtain m where m: "mux_Close (tn_stream u) = Some (m, r)" "v = u\<lparr>tn_stream := m\<rparr>"
    using assms(4) by (auto simp: tcp_net_Close_def bind_eq_Some_conv)
  have "mux_ok del (tn_stream u) \<and> unordered_delete_spec del" using u(1) by (simp add: tcp_net_ok_def)
  from mux.close_then_child_panics [OF this u(2) u(3) [unfolded live_children_def] m(1)]
  have "listener_stream_Close del v l = None"
    using u(4) by (simp add: listener_stream_Close_def m(2) Multiplex_def)
  then show ?thesis by (simp add: listener_Close_def)
qed

theorem tcp_net_close_panics_witness:
  "\<exists>u l v r. ListenTCP example_net (ends True) = Some (u, Inr l) \<and> tcp_net_Close u = Some (v, r) \<and>
     listener_Close swap_delete v l = None"
proof -
  obtain u l where u: "ListenTCP example_net (ends True) = Some (u, Inr l)" "tcp_net_ok swap_delete u"
    using ListenTCP_outcome [OF example_net_facts(1), of "ends True"] example_net_facts(2,3)
    by (auto simp: ends_def)
  then have "mux_ok swap_delete (tn_stream u) \<and> unordered_delete_spec swap_delete" by (simp add: tcp_net_ok_def)
  from mux.close_total [OF this] obtain v r where v: "tcp_net_Close u = Some (v, r)"
    by (auto simp: tcp_net_Close_def)
  then show ?thesis using tcp_net_close_panics [OF example_net_facts(1,2) u(1) v] u(1) by blast
qed

end
