(* ===== verification/Demo_TCP.thy ===== *)
theory Demo_TCP
  imports TCP_Listen Demo_Stack
begin

text \<open>
  The TCP server of the demos (\<open>examples/tcp_echo/main.go\<close>): its listener, the loop that accepts connections, and
  the goroutine that answers a connection byte by byte, here side \<open>True\<close> of two connections that talk over a
  network which loses, repeats and reorders packets.
\<close>

section \<open>The handler\<close>

text \<open>Where the goroutine is: before a call or waiting in one, with the number of bytes that \<open>Read\<close> has returned
  and the \<open>notify\<close> channel that the call waits for.  Its array \<open>data\<close> is one cell of memory, which every
  round reads into and hands to \<open>Write\<close>.\<close>

datatype echo_pc = EchoRead | EchoWrite nat | EchoWriteWaits nat nat | EchoClose | EchoCloseWaits nat | EchoDone

record tcp_echo =
  e_data :: "cell list"
  e_pc :: echo_pc

definition new_echo :: tcp_echo where
  "new_echo = \<lparr>e_data = [0], e_pc = EchoRead\<rparr>"

text \<open>Behind the write, whose results are dropped: the exclamation mark ends the connection.\<close>

definition echo_next :: "tcp_sys \<Rightarrow> tcp_echo \<Rightarrow> nat \<Rightarrow> tcp_echo" where
  "echo_next y h n = h\<lparr>e_pc := if n = 1 \<and> y_mem y True (e_data h ! 0) = 0x21 then EchoClose else EchoRead\<rparr>"

text \<open>\<open>main\<close> up to its loop, and a round of the loop: \<open>Accept\<close> waits, an error ends the program, or a handler for the
  connection starts.\<close>

definition tcp_demo :: "(tcp4Net \<times> (tcp_net_error + tcp4Listener)) go" where
  "tcp_demo = ListenTCP (NewTCP4Net Gateway None 0) \<lparr>IP = Gateway, Port = 1337\<rparr>"

datatype accept_round = AcceptWaits | AcceptFails tcp_net_error | Handles tcp4Conn tcp_echo

definition echo_accept :: "tcp4Listener \<Rightarrow> bool \<Rightarrow> tcp4Listener \<times> accept_round" where
  "echo_accept l closed =
     (case Accept l closed of
        None \<Rightarrow> (l, AcceptWaits)
      | Some (l, Inl err) \<Rightarrow> (l, AcceptFails err)
      | Some (l, Inr conn) \<Rightarrow> (l, Handles conn new_echo))"

text \<open>A step of the goroutine, with what it does to the connections.  The calls have no deadlines.\<close>

definition echo_step :: "tcp_sys \<Rightarrow> tcp_echo \<Rightarrow> (tcp_sys \<times> tcp_echo) go" where
  "echo_step y h =
     (case e_pc h of
        EchoRead \<Rightarrow> do {
          (c, data, r) \<leftarrow> conn_Read (y_conn y True) False (map (y_mem y True) (e_data h));
          z \<leftarrow> tcp_step y True (TRead False (e_data h));
          Some (z, case r of
              Waiting g \<Rightarrow> h
            | Returned n err \<Rightarrow> h\<lparr>e_pc := if err \<noteq> None then EchoClose else EchoWrite n\<rparr>)
        }
      | EchoWrite n \<Rightarrow> do {
          d \<leftarrow> slice (e_data h) 0 n;
          (c, r) \<leftarrow> conn_Write (y_conn y True) False d;
          z \<leftarrow> tcp_step y True (TWrite False d);
          Some (z, case r of Wrote m err \<Rightarrow> echo_next z h n | WaitNotify g \<Rightarrow> h\<lparr>e_pc := EchoWriteWaits n g\<rparr>)
        }
      | EchoWriteWaits n g \<Rightarrow>
          Some (y, if s_notify (c_send (y_conn y True)) = g then h else echo_next y h n)
      | EchoClose \<Rightarrow> do {
          (c, r) \<leftarrow> conn_Close (y_conn y True) False;
          z \<leftarrow> tcp_step y True (TClose False);
          Some (z, h\<lparr>e_pc := case r of Wrote m err \<Rightarrow> EchoDone | WaitNotify g \<Rightarrow> EchoCloseWaits g\<rparr>)
        }
      | EchoCloseWaits g \<Rightarrow>
          Some (y, if s_notify (c_send (y_conn y True)) = g then h else h\<lparr>e_pc := EchoDone\<rparr>)
      | EchoDone \<Rightarrow> Some (y, h))"

text \<open>The handler with everything else: the loops of both connections, their timers, and any calls of the client,
  which is side \<open>False\<close>.\<close>

definition others :: "bool \<Rightarrow> tcp_op \<Rightarrow> bool" where
  "others x op \<longleftrightarrow> \<not> x \<or> (case op of TLoop e \<Rightarrow> True | TExpire \<Rightarrow> True | TRun i \<Rightarrow> True | _ \<Rightarrow> False)"

inductive echo_reach :: "tcp_sys \<Rightarrow> tcp_sys \<Rightarrow> tcp_echo \<Rightarrow> bool" for y0 where
  echo_start: "echo_reach y0 y0 new_echo"
| echo_other: "echo_reach y0 y h \<Longrightarrow> others x op \<Longrightarrow> tcp_enabled y x op \<Longrightarrow> tcp_step y x op = Some z \<Longrightarrow>
    echo_reach y0 z h"
| echo_handler: "echo_reach y0 y h \<Longrightarrow> echo_step y h = Some (z, h') \<Longrightarrow> echo_reach y0 z h'"

section \<open>What the others do to the handler's end\<close>

text \<open>While the stream is open, a sender is changed by its loop and its timers only like this.\<close>

definition send_kept :: "simpleTcpSend \<Rightarrow> simpleTcpSend \<Rightarrow> bool" where
  "send_kept s s' \<longleftrightarrow> w_sendEOF (s_writeBuf s') = w_sendEOF (s_writeBuf s) \<and> s_failErr s' = s_failErr s \<and>
     (w_buffer (s_writeBuf s) = [] \<longrightarrow> w_buffer (s_writeBuf s') = []) \<and>
     (s_notify s' \<noteq> s_notify s \<longrightarrow> w_buffer (s_writeBuf s') = [])"

lemma send_kept_timer [simp]: "send_kept s (s\<lparr>s_timer := t\<rparr>)"
  by (simp add: send_kept_def)

lemma send_kept_Handle:
  assumes inv: "send_inv isn m D p s" and run: "send_Handle s ack win = Some s'"
  shows "send_kept s s'"
proof -
  obtain p' where s': "send_inv isn m D p' s'" "p \<le> p'"
    "s_notify s' = s_notify s + (if Remaining (s_writeBuf s') = 0 then 1 else 0)" "s_failErr s' = s_failErr s"
    using send_Handle_inv [OF inv, of ack win] run by (metis option.inject)
  have "wbuf_inv isn D p (s_writeBuf s)" "wbuf_inv isn D p' (s_writeBuf s')"
    using inv s'(1) by (simp_all add: send_inv_def)
  then show ?thesis
    using s' send_Handle_sendEOF [OF inv run] Remaining_eq_0_iff [of isn D p' "s_writeBuf s'"]
    by (auto simp: send_kept_def wbuf_inv_def)
qed

lemma conn_loop_send:
  assumes "conn_loop mem c e = Some (c', ps, l)"
  shows "(\<exists>t. c_send c' = (c_send c)\<lparr>s_timer := t\<rparr>) \<or> (\<exists>a w. send_Handle (c_send c) a w = Some (c_send c'))"
proof -
  have same: "\<exists>t. s = s\<lparr>s_timer := t\<rparr>" for s :: simpleTcpSend by (rule exI [of _ "s_timer s"]) simp
  show ?thesis
  proof (cases "send_Done (c_send c) \<and> recv_Done (c_recv c)")
    case True
    then show ?thesis using assms same by (auto simp: conn_loop_def)
  next
    case run: False
    show ?thesis
    proof (cases e)
      case GotNext
      then show ?thesis using assms run same
        by (cases "t_next (s_timer (c_send c))") (auto simp: conn_loop_def bind_eq_Some_conv Let_def)
    next
      case GotWindowOpen
      then show ?thesis using assms run same
        by (cases "r_windowOpen (c_recv c)") (auto simp: conn_loop_def bind_eq_Some_conv Let_def)
    next
      case (GotTCP p)
      have "\<exists>a w. send_Handle (c_send c) a w = Some (c_send c')"
        using assms unfolding conn_loop_def if_not_P [OF run]
        by (auto simp: GotTCP bind_eq_Some_conv Let_def split: if_splits) blast+
      then show ?thesis by blast
    next
      case GotNil
      then show ?thesis using assms run same by (auto simp: conn_loop_def)
    qed
  qed
qed

lemma tcp_step_frame:
  assumes "tcp_step y x op = Some z"
  shows "y_conn z (\<not> x) = y_conn y (\<not> x) \<and> y_read z (\<not> x) = y_read y (\<not> x) \<and> y_written z (\<not> x) = y_written y (\<not> x) \<and>
    y_mem z (\<not> x) = y_mem y (\<not> x)"
proof (cases op)
  case (TRead expired b)
  show ?thesis by (rule tcp_read_step [OF assms [unfolded TRead]]) simp
next
  case (TWrite expired b)
  show ?thesis by (rule tcp_write_step [OF assms [unfolded TWrite]]) simp
qed (use assms in \<open>auto simp: tcp_step_def set_conn_def bind_eq_Some_conv\<close>)

lemma others_keep:
  assumes inv: "tcp_inv isn y" and "others x op" and step: "tcp_step y x op = Some z"
  shows "y_read z True = y_read y True \<and> y_written z True = y_written y True \<and> y_mem z True = y_mem y True \<and>
    send_kept (c_send (y_conn y True)) (c_send (y_conn z True))"
proof (cases x)
  case True
  consider (loop) e where "op = TLoop e" | (timer) "op = TExpire \<or> (\<exists>i. op = TRun i)"
    using assms(2) True by (cases op) (auto simp: others_def)
  then show ?thesis
  proof cases
    case (loop e)
    then obtain c ps l where c: "conn_loop (y_mem y True) (y_conn y True) e = Some (c, ps, l)" "c_send (y_conn z True) = c_send c"
      "y_read z = y_read y" "y_written z = y_written y" "y_mem z = y_mem y"
      using step True by (auto simp: tcp_step_def bind_eq_Some_conv set_conn_def)
    obtain k where "send_inv (isn True) 512 (y_cells y True) k (c_send (y_conn y True))"
      using inv unfolding tcp_inv_def dir_inv_def by blast
    then have "send_kept (c_send (y_conn y True)) (c_send c)"
      using conn_loop_send [OF c(1)] send_kept_Handle by fastforce
    then show ?thesis using c by simp
  next
    case timer
    then obtain t where "z = set_conn True (set_timer t (y_conn y True)) y"
      using step True by (elim disjE exE) (simp_all add: tcp_step_def, metis+)
    then show ?thesis by (simp add: set_conn_def set_timer_def)
  qed
next
  case False
  then show ?thesis using tcp_step_frame [OF step] by (simp add: send_kept_def)
qed

section \<open>The calls of the handler\<close>

definition send_idle :: "simpleTcpSend \<Rightarrow> bool" where
  "send_idle s \<longleftrightarrow> w_buffer (s_writeBuf s) = [] \<and> \<not> w_sendEOF (s_writeBuf s) \<and> s_failErr s = None"

lemma writeOrClose_idle:
  assumes inv: "send_inv isn m C p s" and idle: "send_idle s" and len: "length d < 2 ^ 32"
  obtains s' where "writeOrClose s False d close = Some (s', WaitNotify (s_notify s))"
    and "w_sendEOF (s_writeBuf s') = close" and "s_notify s' = s_notify s" and "s_failErr s' = None"
proof -
  have "writeOrClose s False d close \<noteq> None"
    using writeOrClose_panics_iff [OF inv len, of False close] idle by (simp add: send_idle_def)
  then obtain s' r where run: "writeOrClose s False d close = Some (s', r)" by auto
  have "\<not> (\<exists>n e. r = Wrote n e)"
    using run idle by (auto simp: writeOrClose_def send_idle_def bind_eq_Some_conv)
  from inv len run show ?thesis
  proof (cases rule: writeOrClose_inv)
    case waiting
    then show ?thesis using that run by blast
  qed (use \<open>\<not> (\<exists>n e. r = Wrote n e)\<close> in blast)
qed

lemma read_pass_one:
  assumes "recv_inv isn S N s out" and "length b = 1" and run: "read_pass s False b = Some (s', b', Returned n None)"
  shows "n = 1"
proof -
  have wf: "buf_wf (r_buffer s)" using assms(1) by (simp add: recv_inv_def)
  obtain q d c eof where g: "Get (r_buffer s) b = Some (q, d, c, eof)" using rb.get_total [OF wf] by metis
  have "c \<le> 1" using rb.get_conserves [OF wf g] assms(2) by simp
  then show ?thesis using run read_pass_eq [OF g] by (auto split: if_splits option.splits)
qed

text \<open>What side \<open>x\<close> has read or can read at once has been written.\<close>

lemma tcp_inv_prefix:
  assumes "tcp_inv isn y"
  shows "prefix (y_read y x @ unread (r_buffer (c_recv (y_conn y x)))) (y_written y (\<not> x))"
proof -
  have "recv_inv (isn (\<not> x)) (y_written y (\<not> x)) 4096 (c_recv (y_conn y x)) (y_read y x)"
    using assms [unfolded tcp_inv_sides [of isn y x]] by (simp add: dir_inv_def)
  then have "y_read y x @ unread (r_buffer (c_recv (y_conn y x))) =
      take (length (y_read y x) + b_size (r_buffer (c_recv (y_conn y x)))) (y_written y (\<not> x))"
    by (simp add: recv_inv_def)
  then show ?thesis by (metis take_is_prefix)
qed

section \<open>The invariant\<close>

text \<open>The handler writes what it has read, up to the byte that it works on or, behind the end of the stream, has
  dropped; and it writes nothing behind an exclamation mark.\<close>

definition echo_inv :: "tcp_sys \<Rightarrow> tcp_echo \<Rightarrow> bool" where
  "echo_inv y h \<longleftrightarrow> (
     let s = c_send (y_conn y True); R = y_read y True; W = y_written y True; b = map (y_mem y True) (e_data h)
     in length (e_data h) = 1 \<and> 0x21 \<notin> set (butlast W) \<and>
        (case e_pc h of
           EchoRead \<Rightarrow> send_idle s \<and> W = R \<and> 0x21 \<notin> set W
         | EchoWrite n \<Rightarrow> n = 1 \<and> send_idle s \<and> R = W @ b \<and> 0x21 \<notin> set W
         | EchoWriteWaits n g \<Rightarrow> n = 1 \<and> W = R \<and> suffix b W \<and> \<not> w_sendEOF (s_writeBuf s) \<and>
             s_failErr s = None \<and> (s_notify s \<noteq> g \<longrightarrow> w_buffer (s_writeBuf s) = [])
         | EchoClose \<Rightarrow> send_idle s \<and> prefix W R
         | _ \<Rightarrow> prefix W R))"

lemma echo_inv_start: "echo_inv (tcp_start addr isn win ttl) new_echo"
  by (simp add: echo_inv_def new_echo_def tcp_start_def send_idle_def newSimpleTcpSend_def newTCPWriteBuffer_def)

lemma echo_inv_other:
  assumes "echo_inv y h" and "y_read z True = y_read y True" and "y_written z True = y_written y True"
    and "y_mem z True = y_mem y True" and "send_kept (c_send (y_conn y True)) (c_send (y_conn z True))"
  shows "echo_inv z h"
  using assms by (cases "e_pc h") (auto simp: echo_inv_def Let_def send_kept_def send_idle_def)

lemma echo_inv_next:
  assumes "length (e_data h) = 1" and "send_idle (c_send (y_conn y True))"
    and "y_read y True = V @ map (y_mem y True) (e_data h)" and "y_written y True = y_read y True" and "0x21 \<notin> set V"
  shows "echo_inv y (echo_next y h 1)"
proof -
  obtain a where "e_data h = [a]" using assms(1) by (cases "e_data h") auto
  then show ?thesis using assms by (simp add: echo_inv_def echo_next_def Let_def)
qed

lemma echo_inv_cell: "echo_inv y h \<Longrightarrow> \<exists>a. e_data h = [a]"
  by (cases "e_data h") (auto simp: echo_inv_def Let_def)

lemma echo_step_read:
  assumes inv: "tcp_inv isn y" and e: "echo_inv y h" "e_pc h = EchoRead"
  shows "\<exists>z h'. echo_step y h = Some (z, h') \<and> tcp_step y True (TRead False (e_data h)) = Some z \<and> echo_inv z h'"
proof -
  obtain a where a: "e_data h = [a]" using echo_inv_cell [OF e(1)] by blast
  let ?old = "map (y_mem y True) (e_data h)"
  have ri: "recv_inv (isn False) (y_written y False) 4096 (c_recv (y_conn y True)) (y_read y True)"
    using inv [unfolded tcp_inv_sides [of isn y True]] by (simp add: dir_inv_def)
  obtain r b res where r: "read_pass (c_recv (y_conn y True)) False ?old = Some (r, b, res)"
    using read_pass_total recv_inv_wf [OF ri] by blast
  have h: "send_idle (c_send (y_conn y True))" "y_written y True = y_read y True" "0x21 \<notin> set (y_read y True)"
    using e by (auto simp: echo_inv_def Let_def)
  have h': "0x21 \<notin> set (butlast (y_read y True))" using h(3) by (auto dest: in_set_butlastD)
  have "length b = 1" using recv_inv_read(1) [OF ri r] a by simp
  then obtain c where b: "b = [c]" by (cases b) auto
  have one: "n = 1" if "res = Returned n None" for n using read_pass_one [OF ri _ r [unfolded that]] a by simp
  have "tcp_step y True (TRead False (e_data h)) \<noteq> None" using r by (simp add: tcp_step_def conn_Read_def Let_def)
  then obtain z where z: "tcp_step y True (TRead False (e_data h)) = Some z" by auto
  obtain r1 data res1 where "read_pass (c_recv (y_conn y True)) False ?old = Some (r1, data, res1)"
    "y_conn z = (y_conn y)(True := (y_conn y True)\<lparr>c_recv := r1\<rparr>)" "y_written z = y_written y"
    "y_mem z = (y_mem y)(True := store_cells (y_mem y True) (e_data h) data)"
    "y_read z = (y_read y)(True := y_read y True @ read_bytes data res1)"
    by (rule tcp_read_step [OF z])
  then have f: "c_send (y_conn z True) = c_send (y_conn y True)" "y_written z = y_written y"
    "y_mem z True a = c" "y_read z True = y_read y True @ read_bytes [c] res"
    using r b a by simp_all
  have step: "echo_step y h = Some (z, case res of Waiting g \<Rightarrow> h
      | Returned n err \<Rightarrow> h\<lparr>e_pc := if err \<noteq> None then EchoClose else EchoWrite n\<rparr>)"
    using e(2) r z by (simp add: echo_step_def conn_Read_def)
  have "echo_inv z (case res of Waiting g \<Rightarrow> h
      | Returned n err \<Rightarrow> h\<lparr>e_pc := if err \<noteq> None then EchoClose else EchoWrite n\<rparr>)"
  proof (cases res)
    case (Waiting g)
    then show ?thesis using e(2) a f h h' by (simp add: echo_inv_def read_bytes_def)
  next
    case (Returned n err)
    then show ?thesis using a f h h' one by (cases err) (simp_all add: echo_inv_def read_bytes_def)
  qed
  then show ?thesis using step z by blast
qed

lemma echo_step_write:
  assumes inv: "tcp_inv isn y" and e: "echo_inv y h" "e_pc h = EchoWrite n"
  shows "\<exists>z h'. echo_step y h = Some (z, h') \<and> tcp_step y True (TWrite False (e_data h)) = Some z \<and>
    tcp_enabled y True (TWrite False (e_data h)) \<and> echo_inv z h'"
proof -
  obtain a where a: "e_data h = [a]" using echo_inv_cell [OF e(1)] by blast
  obtain p where p: "send_inv (isn True) 512 (y_cells y True) p (c_send (y_conn y True))"
    using inv unfolding tcp_inv_def dir_inv_def by blast
  have h: "n = 1" "send_idle (c_send (y_conn y True))"
    "y_read y True = y_written y True @ map (y_mem y True) (e_data h)" "0x21 \<notin> set (y_written y True)"
    using e by (simp_all add: echo_inv_def Let_def)
  have "length (e_data h) < 2 ^ 32" using a by simp
  from writeOrClose_idle [OF p h(2) this, of False] obtain s where
    s: "writeOrClose (c_send (y_conn y True)) False (e_data h) False = Some (s, WaitNotify (s_notify (c_send (y_conn y True))))"
    "\<not> w_sendEOF (s_writeBuf s)" "s_notify s = s_notify (c_send (y_conn y True))" "s_failErr s = None" by auto
  have "length (y_written y False) < 2 ^ 31" using inv by (simp add: tcp_inv_def dir_inv_def)
  moreover have "prefix (y_read y True) (y_written y False)"
    using tcp_inv_prefix [OF inv, of True] by (auto dest: append_prefixD)
  ultimately have "tcp_enabled y True (TWrite False (e_data h))"
    using h(3) prefix_length_le by (fastforce simp: tcp_enabled_def)
  then show ?thesis using s h a e(2)
    by (auto simp: echo_step_def conn_Write_def Write_eq tcp_step_def set_conn_def accepted_def slice_def echo_inv_def Let_def)
qed

lemma echo_step_close:
  assumes inv: "tcp_inv isn y" and e: "echo_inv y h" "e_pc h = EchoClose"
  shows "\<exists>z h'. echo_step y h = Some (z, h') \<and> tcp_step y True (TClose False) = Some z \<and> echo_inv z h'"
proof -
  obtain p where p: "send_inv (isn True) 512 (y_cells y True) p (c_send (y_conn y True))"
    using inv unfolding tcp_inv_def dir_inv_def by blast
  have h: "send_idle (c_send (y_conn y True))" using e by (simp add: echo_inv_def Let_def)
  obtain s where "writeOrClose (c_send (y_conn y True)) False [] True = Some (s, WaitNotify (s_notify (c_send (y_conn y True))))"
    by (rule writeOrClose_idle [OF p h, of "[]" True]) auto
  then show ?thesis using e
    by (simp add: echo_step_def conn_Close_def send_Close_def tcp_step_def set_conn_def echo_inv_def Let_def)
qed

lemma echo_step_waits:
  assumes "echo_inv y h" and "e_pc h \<noteq> EchoRead" and "\<And>n. e_pc h \<noteq> EchoWrite n" and "e_pc h \<noteq> EchoClose"
  shows "\<exists>h'. echo_step y h = Some (y, h') \<and> echo_inv y h'"
proof (cases "e_pc h")
  case (EchoWriteWaits n g)
  then have e: "suffix (map (y_mem y True) (e_data h)) (y_written y True)" "length (e_data h) = 1" "n = 1"
    "y_read y True = y_written y True" "0x21 \<notin> set (butlast (y_written y True))"
    using assms(1) by (auto simp: echo_inv_def Let_def)
  obtain V where "y_written y True = V @ map (y_mem y True) (e_data h)" using e(1) by (auto simp: suffix_def)
  note V = this e(2,3) e(4,5) [unfolded this]
  then have "0x21 \<notin> set V" by (cases "e_data h") (auto simp: butlast_append)
  moreover have "send_idle (c_send (y_conn y True))" if "s_notify (c_send (y_conn y True)) \<noteq> g"
    using assms(1) EchoWriteWaits that by (simp add: echo_inv_def Let_def send_idle_def)
  ultimately show ?thesis
    using echo_inv_next [of h y V] V EchoWriteWaits assms(1) by (simp add: echo_step_def)
qed (use assms in \<open>auto simp: echo_step_def echo_inv_def Let_def\<close>)

text \<open>The handler never panics, and its steps are steps of its connection; when it reads into its array, the byte
  that it has written from there is acknowledged.\<close>

lemma echo_step_inv:
  assumes inv: "tcp_inv isn y" and e: "echo_inv y h"
  shows "\<exists>z h'. echo_step y h = Some (z, h') \<and> echo_inv z h' \<and>
    (z = y \<or> (\<exists>op. tcp_enabled y True op \<and> tcp_step y True op = Some z))"
proof -
  consider (read) "e_pc h = EchoRead" | (put) n where "e_pc h = EchoWrite n" | (close) "e_pc h = EchoClose"
    | (waits) "e_pc h \<noteq> EchoRead" "\<And>n. e_pc h \<noteq> EchoWrite n" "e_pc h \<noteq> EchoClose" by blast
  then show ?thesis
  proof cases
    case read
    then have "send_idle (c_send (y_conn y True))" using e by (simp add: echo_inv_def Let_def)
    then have "tcp_enabled y True (TRead False (e_data h))"
      using echo_inv_cell [OF e] by (auto simp: tcp_enabled_def send_idle_def)
    then show ?thesis using echo_step_read [OF inv e read] by blast
  next
    case (put n)
    then show ?thesis using echo_step_write [OF inv e] by blast
  next
    case close
    have "tcp_enabled y True (TClose False)" by (simp add: tcp_enabled_def)
    then show ?thesis using echo_step_close [OF inv e close] by blast
  next
    case waits
    then show ?thesis using echo_step_waits [OF e] by blast
  qed
qed

lemma echo_reach_inv:
  assumes "echo_reach (tcp_start addr isn win ttl) y h" and "\<And>x. To4 (IP (addr x)) \<noteq> None"
  shows "tcp_reach (tcp_start addr isn win ttl) y \<and> echo_inv y h"
  using assms(1)
proof (induction rule: echo_reach.induct)
  case echo_start
  show ?case by (simp add: tcp_reach_start echo_inv_start)
next
  case (echo_other y h x op z)
  have "tcp_inv isn y" using echo_other.IH tcp_reach_inv [of addr isn win ttl y] assms(2) by blast
  from others_keep [OF this echo_other.hyps(2,4)] echo_other.IH echo_inv_other
  show ?case using tcp_reach_step [OF _ echo_other.hyps(3,4)] by blast
next
  case (echo_handler y h z h')
  have "tcp_inv isn y" using echo_handler.IH tcp_reach_inv [of addr isn win ttl y] assms(2) by blast
  from echo_step_inv [OF this] echo_handler show ?case using tcp_reach_step by fastforce
qed

section \<open>Properties\<close>

text \<open>The bytes up to the first exclamation mark.\<close>

definition upto_bang :: "bytes \<Rightarrow> bytes" where
  "upto_bang d = takeWhile (\<lambda>b. b \<noteq> 0x21) d @ take 1 (dropWhile (\<lambda>b. b \<noteq> 0x21) d)"

lemma prefix_upto_bang:
  assumes "prefix w d" and "0x21 \<notin> set (butlast w)"
  shows "prefix w (upto_bang d)"
proof -
  obtain v where d: "d = w @ v" using assms(1) by (auto simp: prefix_def)
  show ?thesis
  proof (cases "0x21 \<in> set w")
    case False
    then have "takeWhile (\<lambda>b. b \<noteq> 0x21) d = w @ takeWhile (\<lambda>b. b \<noteq> 0x21) v"
      unfolding d by (intro takeWhile_append2) auto
    then show ?thesis by (simp add: upto_bang_def)
  next
    case True
    then have "w \<noteq> []" by auto
    then have w: "w = butlast w @ [0x21]"
      using True assms(2) append_butlast_last_id by (metis Un_iff empty_iff insert_iff set_append list.set)
    have "takeWhile (\<lambda>b. b \<noteq> 0x21) (butlast w @ 0x21 # v) = butlast w"
      "dropWhile (\<lambda>b. b \<noteq> 0x21) (butlast w @ 0x21 # v) = 0x21 # v"
      using assms(2) by (subst takeWhile_append2 dropWhile_append2; auto)+
    moreover have "d = butlast w @ 0x21 # v" using d w by (metis append.assoc append_Cons append_Nil)
    ultimately have "upto_bang d = w" using w by (simp add: upto_bang_def)
    then show ?thesis by simp
  qed
qed

lemma echo_reach_spec:
  assumes "echo_reach (tcp_start addr isn win ttl) y h" and "\<And>x. To4 (IP (addr x)) \<noteq> None"
  shows "prefix (y_read y False @ unread (r_buffer (c_recv (y_conn y False)))) (upto_bang (y_written y False)) \<and>
    (e_pc h = EchoRead \<longrightarrow> y_written y True = y_read y True) \<and> (\<exists>z h'. echo_step y h = Some (z, h'))"
proof -
  have reach: "tcp_reach (tcp_start addr isn win ttl) y" and e: "echo_inv y h"
    using echo_reach_inv [OF assms] by blast+
  have inv: "tcp_inv isn y" using tcp_reach_inv [OF reach] assms(2) by blast
  have "prefix (y_read y False @ unread (r_buffer (c_recv (y_conn y False)))) (y_written y True)"
    using tcp_inv_prefix [OF inv, of False] by simp
  moreover have "prefix (y_written y True) (y_read y True)" "0x21 \<notin> set (butlast (y_written y True))"
    using e by (auto simp: echo_inv_def Let_def split: echo_pc.splits)
  moreover have "prefix (y_read y True) (y_written y False)"
    using tcp_inv_prefix [OF inv, of True] by (auto dest: append_prefixD)
  ultimately have "prefix (y_read y False @ unread (r_buffer (c_recv (y_conn y False)))) (upto_bang (y_written y False))"
    using prefix_upto_bang prefix_order.trans by metis
  moreover have "y_written y True = y_read y True" if "e_pc h = EchoRead"
    using e that by (simp add: echo_inv_def Let_def)
  ultimately show ?thesis using echo_step_inv [OF inv e] by blast
qed

lemma tcp_demo_listens:
  obtains n where "tcp_demo = Some (n, Inr \<lparr>tl_child = 0, tl_stream = Multiplex,
    tl_addr = \<lparr>IP = Gateway, Port = 1337\<rparr>, tl_conns = [], tl_ttl = 64\<rparr>)"
  by (simp add: tcp_demo_def ListenTCP_def NewTCP4Net_def Fork_open Multiplex_def BasicPortAllocator_def Alloc_def Let_def)

text \<open>C39: The TCP demo echoes.  A client whose SYN and, in one of the ten tries, whose ACK reach the listener gets a
  connection, which the loop accepts and starts a handler for.  From then on, whatever the network does to
  the packets and whatever the client calls: what the client has got back, read or not, is a prefix of what
  it has written, and nothing behind the first exclamation mark comes back; when the handler is about to read
  it has written back all that it has read; and it never panics.\<close>

theorem tcp_demo_echoes:
  assumes "tcp_demo = Some (n, Inr l)" and "server = \<lparr>IP = [10, 13, 37, 1], Port = 1337\<rparr>"
    and "length (IP client) = 4" and "Port client \<in> {0..0xffff}"
    and "NewTCP4Packet ttl client server s 0 w0 [] [SYN] = Some syn"
    and "NewTCP4Packet ttl client server (s + 1) (seq + 1) w d [ACK] = Some ack" and "length d \<le> 65495"
    and "\<forall>j < k. \<not> fst (env j) \<and> skipped seq (snd (env j))" and "k < 10"
    and "\<not> fst (env k)" and "snd (env k) = before @ Some ack # rest" and "skipped seq before"
    and "y0 = tcp_start (\<lambda>x. if x then server else client) (\<lambda>x. if x then seq + 1 else s + 1) (\<lambda>x. w) 64"
    and "echo_reach y0 y h"
  shows "\<exists>l' l'' synAck. listener_filters (tl_addr l) syn = Some (Some syn) \<and>
    listener_round del seq env l syn = Some (l', Some (synAck, Suc k), True) \<and>
    echo_accept l' closed = (l'', Handles (y_conn y0 True) new_echo) \<and>
    prefix (y_read y False @ unread (r_buffer (c_recv (y_conn y False)))) (upto_bang (y_written y False)) \<and>
    (e_pc h = EchoRead \<longrightarrow> y_written y True = y_read y True) \<and> (\<exists>z h'. echo_step y h = Some (z, h'))"
proof -
  have l: "tl_stream l = Multiplex" "tl_addr l = \<lparr>IP = Gateway, Port = 1337\<rparr>" "tl_conns l = []" "tl_ttl l = 64"
    using tcp_demo_listens assms(1) by (metis Inr_inject option.inject prod.inject tcp4Listener.select_convs(2-5))+
  have server: "\<not> mx_closed (tl_stream l)" "length (IP server) = 4" "Port server \<in> {0..0xffff}"
    by (simp_all add: l assms(2) Multiplex_def)
  have gateway: "IP_Equal (IP server) (IP (tl_addr l))" "Port (tl_addr l) = Port server"
    by (simp_all add: l assms(2) IP_Equal_def Gateway_def v4_in_v6_prefix_def)
  obtain h where syn: "listener_filters (tl_addr l) syn = Some (Some syn)"
    by (rule syn_passes [OF server(2) assms(3) server(3) assms(4,5) gateway])
  obtain l' synAck h where round: "listener_round del seq env l syn = Some (l', Some (synAck, Suc k), True)"
    "tl_conns l' = tl_conns l @ [y_conn (tcp_start (\<lambda>x. if x then server else client)
       (\<lambda>x. if x then seq + 1 else s + 1) (\<lambda>x. w) (tl_ttl l)) True]"
    by (rule listener_accepts [OF server(1,2) assms(3) server(3) assms(4-12) refl refl])
  have "echo_accept l' closed = (l'\<lparr>tl_conns := []\<rparr>, Handles (y_conn y0 True) new_echo)"
    using round(2) by (simp add: echo_accept_def Accept_def l assms(13))
  moreover have "To4 (IP (if x then server else client)) \<noteq> None" for x
    using server(2) assms(3) by simp
  note echo_reach_spec [OF assms(14) [unfolded assms(13)] this]
  ultimately show ?thesis using syn round(1) by blast
qed

text \<open>A byte that has arrived together with the end of the stream is lost: \<open>Read\<close> returns it with \<open>io.EOF\<close>, and
  the handler looks at the error first.\<close>

theorem tcp_demo_drops_last:
  assumes "echo_reach (tcp_start addr isn win ttl) y h" and "\<And>x. To4 (IP (addr x)) \<noteq> None"
    and "e_pc h = EchoRead" and "unread (r_buffer (c_recv (y_conn y True))) = [b]"
    and "b_hitEOF (r_buffer (c_recv (y_conn y True)))"
  shows "\<exists>z h'. echo_step y h = Some (z, h') \<and> e_pc h' = EchoClose \<and>
    y_read z True = y_read y True @ [b] \<and> y_written z True = y_read y True"
proof -
  have reach: "tcp_reach (tcp_start addr isn win ttl) y" and e: "echo_inv y h"
    using echo_reach_inv [OF assms(1,2)] by blast+
  have "tcp_inv isn y" using tcp_reach_inv [OF reach] assms(2) by blast
  then have "buf_wf (r_buffer (c_recv (y_conn y True)))"
    using tcp_inv_sides [of isn y True] by (simp add: dir_inv_def recv_inv_def)
  note wf = this
  have h: "length (e_data h) = 1" "y_written y True = y_read y True"
    using e assms(3) by (simp_all add: echo_inv_def Let_def)
  obtain q d c eof where g: "Get (r_buffer (c_recv (y_conn y True))) (map (y_mem y True) (e_data h)) = Some (q, d, c, eof)"
    using rb.get_total [OF wf] by metis
  have c: "take c d = [b]" "c = 1" "unread q = []"
    using rb.get_conserves [OF wf g] assms(4) h(1) by (auto simp: append_eq_Cons_conv)
  then have "eof" using Get_hitEOF [OF wf g] assms(5) by simp
  then show ?thesis using read_pass_eq [OF g] c assms(3) h
    by (simp add: echo_step_def conn_Read_def tcp_step_def set_conn_def Let_def)
qed

text \<open>A client that writes a byte and closes, and all of it arrives before the handler reads.\<close>

lemma echo_closed:
  obtains y where "echo_reach example_start y new_echo" and "y_written y False = [b]" and "y_read y True = []"
    and "unread (r_buffer (c_recv (y_conn y True))) = [b]" and "b_hitEOF (r_buffer (c_recv (y_conn y True)))"
proof -
  let ?y = "example_stored False b"
  obtain p q y1 y2 y3 y4 where s: "tcp_step ?y False (TWrite False [5]) = Some y1"
    "tcp_enabled y1 False (TLoop GotNext)" "tcp_step y1 False (TLoop GotNext) = Some y2"
    "tcp_enabled y2 (\<not> False) (TLoop (GotTCP p))" "tcp_step y2 (\<not> False) (TLoop (GotTCP p)) = Some y3"
    "tcp_enabled y3 False (TLoop (GotTCP q))" "tcp_step y3 False (TLoop (GotTCP q)) = Some y4"
    and y4: "tcp_inv (\<lambda>x. if x then 0xffffffff else 100) y4" "y_written y4 False = y_written ?y False @ map (y_mem ?y False) [5]"
    "y_read y4 = y_read ?y" "y_running y4 = y_running ?y"
    "unread (r_buffer (c_recv (y_conn y4 (\<not> False)))) =
      unread (r_buffer (c_recv (y_conn ?y (\<not> False)))) @ map (y_mem ?y False) [5]"
    "at_rest (c_send (y_conn y4 False))"
    "s_window (c_send (y_conn y4 False)) = recv_Window (c_recv (y_conn y4 (\<not> False)))"
    by (rule write_delivered [OF example_stored_inv [of False b] _ _ refl refl, of False "[5]"])
      (simp_all add: example_stored_simps example_start_simps example_rest)
  have u: "unread (r_buffer (c_recv (y_conn y4 True))) = [b]"
    using y4(5) by (simp add: unread_def example_stored_simps example_start_simps)
  have "recv_inv 100 [b] 4096 (c_recv (y_conn y4 True)) []"
    using y4(1) [unfolded tcp_inv_sides [of _ y4 False]] y4(2,3) by (simp add: dir_inv_def example_stored_simps example_start_simps)
  from one_byte_window [OF this] have "s_window (c_send (y_conn y4 False)) \<noteq> 0" using u y4(7) by simp
  moreover have "y_running y4 False" "y_running y4 (\<not> False)" using y4(4) by (simp_all add: example_stored_simps example_start_simps)
  ultimately obtain p' y5 y6 y7 where t: "tcp_step y4 False (TClose False) = Some y5"
    "tcp_enabled y5 False (TLoop GotNext)" "tcp_step y5 False (TLoop GotNext) = Some y6"
    "tcp_enabled y6 (\<not> False) (TLoop (GotTCP p'))" "tcp_step y6 (\<not> False) (TLoop (GotTCP p')) = Some y7"
    and y7: "y_written y7 = y_written y4" "y_read y7 = y_read y4"
    "unread (r_buffer (c_recv (y_conn y7 (\<not> False)))) = unread (r_buffer (c_recv (y_conn y4 (\<not> False))))"
    "b_hitEOF (r_buffer (c_recv (y_conn y7 (\<not> False))))"
    using close_delivered [OF y4(1) _ _ refl y4(6)] by metis
  have o: "others False op" "others (\<not> False) (TLoop e)" for op e by (simp_all add: others_def)
  have en: "tcp_enabled y4 False (TClose False)" by (simp add: tcp_enabled_def)
  note r = echo_other [OF echo_start o(1) example_stored_step [of False b]]
  note r = echo_other [OF r o(1) example_stored_write s(1)]
  note r = echo_other [OF echo_other [OF echo_other [OF r o(1) s(2,3)] o(2) s(4,5)] o(1) s(6,7)]
  note r = echo_other [OF echo_other [OF echo_other [OF r o(1) en t(1)] o(1) t(2,3)] o(2) t(4,5)]
  show ?thesis by (rule that [OF r]) (use y7 y4(2,3) u in \<open>simp_all add: example_stored_simps example_start_simps\<close>)
qed

theorem tcp_demo_echoes_witness:
  "\<exists>n l syn ack l' l'' synAck y h. tcp_demo = Some (n, Inr l) \<and>
     NewTCP4Packet 64 (ends False) (ends True) 99 0 4096 [] [SYN] = Some syn \<and>
     NewTCP4Packet 64 (ends False) (ends True) 100 0xffffffff 4096 [] [ACK] = Some ack \<and>
     listener_round swap_delete 0xfffffffe (\<lambda>i. (False, if i = 1 then [Some syn, Some ack] else [])) l syn =
       Some (l', Some (synAck, 2), True) \<and>
     echo_accept l' False = (l'', Handles (y_conn example_start True) new_echo) \<and>
     echo_reach example_start y h \<and> y_written y False = [7] \<and>
     prefix (y_read y False @ unread (r_buffer (c_recv (y_conn y False)))) [7] \<and> y_written y True = y_read y True"
proof -
  obtain n l where l: "tcp_demo = Some (n, Inr l)" by (rule tcp_demo_listens)
  obtain syn ack where syn: "NewTCP4Packet 64 (ends False) (ends True) 99 0 4096 [] [SYN] = Some syn"
    and ack: "NewTCP4Packet 64 (ends False) (ends True) 100 0xffffffff 4096 [] [ACK] = Some ack"
    and skip: "skipped 0xfffffffe [Some syn]"
    by (rule example_handshake)
  obtain y where y: "echo_reach example_start y new_echo" "y_written y False = [7]" by (rule echo_closed)
  have start: "example_start = tcp_start (\<lambda>x. if x then ends True else ends False)
      (\<lambda>x. if x then 0xfffffffe + 1 else 99 + 1) (\<lambda>x. 4096) 64"
    unfolding example_start_def by (rule arg_cong2 [where f = "\<lambda>a i. tcp_start a i (\<lambda>x. 4096) 64"]) (auto simp: fun_eq_iff)
  have "\<exists>l' l'' synAck. listener_filters (tl_addr l) syn = Some (Some syn) \<and>
      listener_round swap_delete 0xfffffffe (\<lambda>i. (False, if i = 1 then [Some syn, Some ack] else [])) l syn =
        Some (l', Some (synAck, Suc 1), True) \<and>
      echo_accept l' False = (l'', Handles (y_conn example_start True) new_echo) \<and>
      prefix (y_read y False @ unread (r_buffer (c_recv (y_conn y False)))) (upto_bang (y_written y False)) \<and>
      (e_pc new_echo = EchoRead \<longrightarrow> y_written y True = y_read y True) \<and> (\<exists>z h'. echo_step y new_echo = Some (z, h'))"
    by (rule tcp_demo_echoes [OF l _ _ _ syn _ _ _ _ _ _ _ start y(1), where ack = ack and d = "[]" and
          before = "[Some syn]" and rest = "[]"])
      (use ack skip in \<open>simp_all add: ends_def skipped_def\<close>)
  moreover have "upto_bang [7 :: byte] = [7]" "Suc 1 = 2" "e_pc new_echo = EchoRead"
    by (simp_all add: upto_bang_def new_echo_def)
  ultimately show ?thesis using l syn ack y by fastforce
qed

theorem tcp_demo_drops_last_witness:
  "\<exists>y z h. echo_reach example_start y new_echo \<and> y_written y False = [7] \<and> echo_step y new_echo = Some (z, h) \<and>
     e_pc h = EchoClose \<and> y_read z True = [7] \<and> y_written z True = []"
proof -
  obtain y where y: "echo_reach example_start y new_echo" "y_written y False = [7]" "y_read y True = []"
    "unread (r_buffer (c_recv (y_conn y True))) = [7]" "b_hitEOF (r_buffer (c_recv (y_conn y True)))"
    by (rule echo_closed)
  have "e_pc new_echo = EchoRead" by (simp add: new_echo_def)
  from tcp_demo_drops_last [OF y(1) [unfolded example_start_def] ends_ok this y(4,5)] y(1-3) show ?thesis by auto
qed

end
