(* ===== verification/DNS_Name.thy ===== *)
theory DNS_Name
  imports Go_Prelude
begin

text \<open>
  Domain names (\<open>dnsproto/domain_name.go\<close>): validation of labels and lengths, parsing and
  printing.  A Go string is a sequence of bytes; the characters of the model are those bytes.
  The context that \<open>essentials.AddCtxTo\<close> adds to the text of an error is left out, so that an
  error is the value that was returned first.
\<close>

named_theorems dns "evaluation of the DNS readers and writers"

text \<open>The errors of the package: those of this file, of \<open>transcoding.go\<close> and of the decoders.\<close>

datatype dns_error =
  BufferUnderflow | InvalidNamePointer | InvalidLabelSize | InvalidLabel string | NameTooLong
| InvalidLabelLength | InvalidARecord | InvalidDomainRecord | InvalidSOARecord | ExcessData

type_synonym DomainName = "string list"

section \<open>Labels\<close>

text \<open>The regular expression \<open>^[a-zA-Z]([a-zA-Z0-9-]*[a-zA-Z0-9])?$\<close>.\<close>

definition in_range :: "char \<Rightarrow> char \<Rightarrow> char \<Rightarrow> bool" where
  "in_range a b c \<longleftrightarrow> of_char a \<le> (of_char c :: nat) \<and> of_char c \<le> (of_char b :: nat)"

definition is_letter :: "char \<Rightarrow> bool" where
  "is_letter c \<longleftrightarrow> in_range CHR ''a'' CHR ''z'' c \<or> in_range CHR ''A'' CHR ''Z'' c"

definition is_alnum :: "char \<Rightarrow> bool" where
  "is_alnum c \<longleftrightarrow> is_letter c \<or> in_range CHR ''0'' CHR ''9'' c"

definition domainLabelRegexp :: "string \<Rightarrow> bool" where
  "domainLabelRegexp label =
     (case label of
        [] \<Rightarrow> False
      | c # cs \<Rightarrow> is_letter c \<and>
          (cs = [] \<or> list_all (\<lambda>c. is_alnum c \<or> c = CHR ''-'') (butlast cs) \<and> is_alnum (last cs)))"

section \<open>Validation, parsing and printing\<close>

fun check_sizes :: "DomainName \<Rightarrow> dns_error + unit" where
  "check_sizes [] = Inr ()"
| "check_sizes (label # d) =
     (if length label > 63 \<or> length label = 0 then Inl InvalidLabelSize else check_sizes d)"

fun check_labels :: "DomainName \<Rightarrow> nat \<Rightarrow> dns_error + nat" where
  "check_labels [] globalLength = Inr globalLength"
| "check_labels (label # d) globalLength = (
     let globalLength = globalLength + (length label + 1)
     in if \<not> domainLabelRegexp label then Inl (InvalidLabel label) else check_labels d globalLength)"

definition Validate :: "DomainName \<Rightarrow> dns_error + unit" where
  "Validate d =
     bindE (check_sizes d) (\<lambda>_.
     bindE (check_labels d 1) (\<lambda>globalLength.
       if globalLength > 255 then Inl NameTooLong else Inr ()))"

text \<open>\<open>strings.Split\<close> and \<open>strings.Join\<close> with the separator \<open>"."\<close>.\<close>

fun Split :: "string \<Rightarrow> string list" where
  "Split [] = [[]]"
| "Split (c # cs) =
     (if c = CHR ''.'' then [] # Split cs
      else case Split cs of [] \<Rightarrow> [[c]] | w # ws \<Rightarrow> (c # w) # ws)"

fun Join :: "string list \<Rightarrow> string" where
  "Join [] = []"
| "Join [w] = w"
| "Join (w # ws) = w @ ''.'' @ Join ws"

definition ParseDomainName :: "string \<Rightarrow> DomainName \<times> (dns_error + unit)" where
  "ParseDomainName name = (
     let name = (if name \<noteq> [] \<and> last name = CHR ''.'' then take (length name - 1) name else name);
         parts = Split name
     in (parts, Validate parts))"

definition DomainName_String :: "DomainName \<Rightarrow> string" where
  "DomainName_String d = Join d"

section \<open>Valid names\<close>

text \<open>The length of a name on the wire: a length byte before each label and a final zero.\<close>

definition wire_length :: "DomainName \<Rightarrow> nat" where
  "wire_length d = Suc (sum_list (map (\<lambda>l. Suc (length l)) d))"

definition valid_label :: "string \<Rightarrow> bool" where
  "valid_label l \<longleftrightarrow> length l \<le> 63 \<and> domainLabelRegexp l"

definition valid_name :: "DomainName \<Rightarrow> bool" where
  "valid_name d \<longleftrightarrow> (\<forall>l \<in> set d. valid_label l) \<and> wire_length d \<le> 255"

lemma domainLabelRegexp_nonempty [simp]: "\<not> domainLabelRegexp []"
  by (simp add: domainLabelRegexp_def)

lemma check_sizes_eq:
  "check_sizes d = (if \<forall>l \<in> set d. 0 < length l \<and> length l \<le> 63 then Inr () else Inl InvalidLabelSize)"
  by (induction d) auto

lemma check_labels_ok:
  "\<forall>l \<in> set d. domainLabelRegexp l \<Longrightarrow>
     check_labels d n = Inr (n + sum_list (map (\<lambda>l. Suc (length l)) d))"
  by (induction d arbitrary: n) (auto simp: Let_def)

lemma check_labels_bad:
  "\<not> (\<forall>l \<in> set d. domainLabelRegexp l) \<Longrightarrow> \<exists>l. check_labels d n = Inl (InvalidLabel l)"
  by (induction d arbitrary: n) (auto simp: Let_def)

lemma Validate_iff: "Validate d = Inr () \<longleftrightarrow> valid_name d"
proof (cases "\<forall>l \<in> set d. domainLabelRegexp l")
  case True
  then have "\<forall>l \<in> set d. 0 < length l" by (metis domainLabelRegexp_nonempty length_greater_0_conv)
  with True show ?thesis
    by (auto simp: Validate_def check_sizes_eq check_labels_ok valid_name_def valid_label_def
        wire_length_def)
next
  case False
  then obtain l where "check_labels d 1 = Inl (InvalidLabel l)" using check_labels_bad by blast
  with False show ?thesis
    by (auto simp: Validate_def check_sizes_eq valid_name_def valid_label_def)
qed

lemma Validate_cases:
  obtains (valid) "valid_name d" and "Validate d = Inr ()"
  | (invalid) e where "\<not> valid_name d" and "Validate d = Inl e"
    and "e \<noteq> BufferUnderflow" and "e \<noteq> InvalidNamePointer"
proof (cases "valid_name d")
  case True
  then show ?thesis using valid Validate_iff by blast
next
  case False
  have "\<exists>e. Validate d = Inl e \<and> e \<noteq> BufferUnderflow \<and> e \<noteq> InvalidNamePointer"
  proof (cases "\<forall>l \<in> set d. domainLabelRegexp l")
    case True
    have "Validate d \<noteq> Inr ()" using False Validate_iff by simp
    then show ?thesis
      by (auto simp: Validate_def check_sizes_eq check_labels_ok [OF True] split: if_splits)
  next
    case False
    then obtain l where "check_labels d 1 = Inl (InvalidLabel l)" using check_labels_bad by blast
    then show ?thesis by (auto simp: Validate_def check_sizes_eq)
  qed
  with False show ?thesis using invalid by blast
qed

lemma valid_name_Validate [simp, dns]: "valid_name d \<Longrightarrow> Validate d = Inr ()"
  by (simp add: Validate_iff)

lemma wire_length_simps [simp]:
  "wire_length [] = 1" "wire_length (l # d) = Suc (length l) + wire_length d"
  by (simp_all add: wire_length_def)

lemma wire_length_append: "wire_length (d @ e) + 1 = wire_length d + wire_length e"
  by (induction d) (simp_all add: wire_length_def)

lemma valid_name_suffix: "valid_name (d @ e) \<Longrightarrow> valid_name e"
  using wire_length_append [of d e] by (auto simp: valid_name_def wire_length_def)

lemma valid_label_length: "valid_label l \<Longrightarrow> 0 < length l \<and> length l \<le> 63"
  by (auto simp: valid_label_def)

section \<open>Splitting and joining\<close>

lemma Split_ne [simp]: "Split s \<noteq> []"
  by (induction s) (auto split: list.split)

lemma Join_Split: "Join (Split s) = s"
proof (induction s)
  case (Cons c s)
  obtain w ws where split: "Split s = w # ws" by (cases "Split s") auto
  then show ?case using Cons by (cases ws) auto
qed simp

lemma Split_no_dot: "CHR ''.'' \<notin> set w \<Longrightarrow> Split w = [w]"
  by (induction w) auto

lemma Split_append: "CHR ''.'' \<notin> set w \<Longrightarrow> Split (w @ ''.'' @ s) = w # Split s"
  by (induction w) auto

lemma Split_Join:
  "d \<noteq> [] \<Longrightarrow> \<forall>l \<in> set d. CHR ''.'' \<notin> set l \<Longrightarrow> Split (Join d) = d"
proof (induction d rule: Join.induct)
  case (3 w v ws)
  then have "Split (Join (w # v # ws)) = w # Split (Join (v # ws))"
    using Split_append [of w] by simp
  with 3 show ?case by simp
qed (simp_all add: Split_no_dot)

lemma not_alnum_dot [simp]: "\<not> is_alnum CHR ''.''"
  by (simp add: is_alnum_def is_letter_def in_range_def)

lemma is_letter_alnum: "is_letter c \<Longrightarrow> is_alnum c"
  by (simp add: is_alnum_def)

lemma valid_label_chars:
  assumes "domainLabelRegexp l"
  shows "CHR ''.'' \<notin> set l" and "is_alnum (last l)"
proof -
  obtain c cs where l: "l = c # cs" using assms by (cases l) auto
  have c: "is_letter c" using assms by (simp add: l domainLabelRegexp_def)
  show "is_alnum (last l)"
    using assms is_letter_alnum [OF c] by (auto simp: l domainLabelRegexp_def)
  have "c \<noteq> CHR ''.''" using is_letter_alnum [OF c] by auto
  moreover have "is_alnum x \<or> x = CHR ''-''" if "x \<in> set cs" for x
  proof -
    have "cs \<noteq> []" using that by auto
    then have "x \<in> set (butlast cs) \<or> x = last cs"
      using that by (cases cs rule: rev_cases) auto
    then show ?thesis using assms \<open>cs \<noteq> []\<close> by (auto simp: l domainLabelRegexp_def list_all_iff)
  qed
  ultimately show "CHR ''.'' \<notin> set l" using l by fastforce
qed

lemma last_Join: "d \<noteq> [] \<Longrightarrow> \<forall>l \<in> set d. l \<noteq> [] \<Longrightarrow> Join d \<noteq> [] \<and> last (Join d) = last (last d)"
  by (induction d rule: Join.induct) auto

section \<open>The properties\<close>

text \<open>A valid non-empty name is parsed back from its string, with or without a trailing dot;
  and a string that is parsed without an error is printed back, less a trailing dot.  The
  name that is accepted has labels of 1 to 63 characters and at most 255 bytes on the wire.\<close>

theorem domain_string_roundtrip:
  assumes "Validate d = Inr ()" and "d \<noteq> []"
  shows "ParseDomainName (DomainName_String d) = (d, Inr ()) \<and>
    ParseDomainName (DomainName_String d @ ''.'') = (d, Inr ()) \<and>
    wire_length d \<le> 255 \<and> (\<forall>l \<in> set d. 0 < length l \<and> length l \<le> 63) \<and>
    (\<forall>s. ParseDomainName s = (d, Inr ()) \<longrightarrow> s = DomainName_String d \<or> s = DomainName_String d @ ''.'')"
proof -
  have v: "valid_name d" using assms(1) by (simp add: Validate_iff)
  have labels: "domainLabelRegexp l" if "l \<in> set d" for l
    using v that by (simp add: valid_name_def valid_label_def)
  have split: "Split (Join d) = d"
    using Split_Join [OF assms(2)] valid_label_chars(1) [OF labels] by blast
  have ne: "\<forall>l \<in> set d. l \<noteq> []" using labels domainLabelRegexp_nonempty by blast
  have "last (Join d) = last (last d)" using last_Join [OF assms(2) ne] by simp
  moreover have "is_alnum (last (last d))"
    using valid_label_chars(2) [OF labels] assms(2) by simp
  ultimately have nodot: "last (Join d) \<noteq> CHR ''.''" by auto
  have "s = Join d \<or> s = Join d @ ''.''" if "ParseDomainName s = (d, Inr ())" for s
  proof (cases "s \<noteq> [] \<and> last s = CHR ''.''")
    case True
    then have "Join d = butlast s"
      using that by (auto simp: ParseDomainName_def Let_def Join_Split butlast_conv_take)
    with True show ?thesis by (metis append_butlast_last_id)
  next
    case False
    then have "d = Split s" using that by (simp add: ParseDomainName_def Let_def split: if_splits)
    then show ?thesis by (simp add: Join_Split)
  qed
  moreover have "\<forall>l \<in> set d. 0 < length l \<and> length l \<le> 63"
    using v valid_label_length by (auto simp: valid_name_def)
  ultimately show ?thesis
    using split nodot assms(1) v
    by (simp add: ParseDomainName_def DomainName_String_def Let_def valid_name_def)
qed

theorem domain_string_roundtrip_witness:
  "ParseDomainName ''www.aol-1.com.'' = ([''www'', ''aol-1'', ''com''], Inr ())"
  using domain_string_roundtrip [of "[''www'', ''aol-1'', ''com'']"]
  by (simp add: Validate_def Let_def domainLabelRegexp_def is_letter_def is_alnum_def in_range_def
      DomainName_String_def)

end
