(* ===== verification/DNS_Wire.thy ===== *)
theory DNS_Wire
  imports DNS_Name
begin

text \<open>
  The writer and the reader of DNS messages (\<open>dnsproto/transcoding.go\<close>).  The writer appends to
  a buffer; the reader is the message with a position in it, and a name may end in a pointer to
  an earlier position (RFC 1035, section 4.1.4).  Of an operation that fails only the error is
  kept: every caller gives the buffer or the reader up.
\<close>

section \<open>The writer\<close>

text \<open>Strings of Go are bytes: \<open>[]byte(label)\<close> and \<open>string(labelData)\<close>.\<close>

definition byte_of_char :: "char \<Rightarrow> byte" where
  "byte_of_char c = of_nat (of_char c)"

definition char_of_byte :: "byte \<Rightarrow> char" where
  "char_of_byte b = char_of (unat b)"

text \<open>\<open>binary.Write\<close> of a \<open>uint16\<close> and a \<open>uint32\<close>, big-endian.\<close>

definition u16_bytes :: "u16 \<Rightarrow> bytes" where
  "u16_bytes v = [hi8 v, lo8 v]"

definition u32_bytes :: "u32 \<Rightarrow> bytes" where
  "u32_bytes v = u16_bytes (ucast (drop_bit 16 v)) @ u16_bytes (ucast v)"

text \<open>The values that \<open>WriteFields\<close> tells apart by their type.\<close>

datatype field = Domain DomainName | Raw bytes | U16 u16 | U32 u32

fun write_labels :: "bytes \<Rightarrow> DomainName \<Rightarrow> bytes" where
  "write_labels buf [] = buf"
| "write_labels buf (label # d) =
     write_labels (buf @ [of_nat (length label)] @ map byte_of_char label) d"

definition writeDomain :: "bytes \<Rightarrow> DomainName \<Rightarrow> dns_error + bytes" where
  "writeDomain buf d = bindE (Validate d) (\<lambda>_. Inr (write_labels buf d @ [0]))"

fun WriteFields :: "bytes \<Rightarrow> field list \<Rightarrow> dns_error + bytes" where
  "WriteFields buf [] = Inr buf"
| "WriteFields buf (f # fs) =
     bindE (case f of
              Domain d \<Rightarrow> writeDomain buf d
            | Raw bs \<Rightarrow> Inr (buf @ bs)
            | U16 v \<Rightarrow> Inr (buf @ u16_bytes v)
            | U32 v \<Rightarrow> Inr (buf @ u32_bytes v))
       (\<lambda>buf. WriteFields buf fs)"

text \<open>\<open>raw[start-2]\<close> and \<open>raw[start-1]\<close> are in range, since two bytes were just written.\<close>

definition WriteWithLength :: "bytes \<Rightarrow> field list \<Rightarrow> dns_error + bytes" where
  "WriteWithLength buf fs = (
     let buf = buf @ [0, 0];
         start = length buf
     in bindE (WriteFields buf fs) (\<lambda>raw.
          let len = length raw - start;
              raw = raw[start - 2 := of_nat (len div 256)];
              raw = raw[start - 1 := of_nat len]
          in Inr raw))"

section \<open>The reader\<close>

record messageReader =
  m_data :: bytes
  m_pos :: nat

definition newMessageReader :: "bytes \<Rightarrow> messageReader" where
  "newMessageReader d = \<lparr>m_data = d, m_pos = 0\<rparr>"

text \<open>\<open>bytes.Reader\<close>: the length of the unread part.\<close>

definition m_Remaining :: "messageReader \<Rightarrow> nat" where
  "m_Remaining m = length (m_data m) - m_pos m"

definition m_Offset :: "messageReader \<Rightarrow> nat" where
  "m_Offset m = length (m_data m) - m_Remaining m"

definition Backtrack :: "messageReader \<Rightarrow> nat \<Rightarrow> messageReader" where
  "Backtrack m n = m\<lparr>m_pos := m_pos m - n\<rparr>"

definition m_ReadByte :: "messageReader \<Rightarrow> dns_error + byte \<times> messageReader" where
  "m_ReadByte m =
     (if m_Remaining m = 0 then Inl BufferUnderflow
      else Inr (m_data m ! m_pos m, m\<lparr>m_pos := m_pos m + 1\<rparr>))"

text \<open>\<open>bytes.Reader.Read\<close> fails at the end of the data, even for an empty slice, and may read
  less than the slice holds.\<close>

definition ReadN :: "messageReader \<Rightarrow> nat \<Rightarrow> dns_error + bytes \<times> messageReader" where
  "ReadN m n =
     (if m_Remaining m = 0 then Inl BufferUnderflow
      else let got = min n (m_Remaining m)
           in if got \<noteq> n then Inl BufferUnderflow
              else Inr (take n (drop (m_pos m) (m_data m)), m\<lparr>m_pos := m_pos m + n\<rparr>))"

text \<open>\<open>binary.Read\<close> of a \<open>uint16\<close> and a \<open>uint32\<close>.\<close>

definition ReadU16 :: "messageReader \<Rightarrow> dns_error + u16 \<times> messageReader" where
  "ReadU16 m =
     (if m_Remaining m < 2 then Inl BufferUnderflow
      else Inr (be16 (m_data m ! m_pos m) (m_data m ! (m_pos m + 1)), m\<lparr>m_pos := m_pos m + 2\<rparr>))"

definition ReadU32 :: "messageReader \<Rightarrow> dns_error + u32 \<times> messageReader" where
  "ReadU32 m =
     (if m_Remaining m < 4 then Inl BufferUnderflow
      else Inr (push_bit 16 (ucast (be16 (m_data m ! m_pos m) (m_data m ! (m_pos m + 1)))) OR
                ucast (be16 (m_data m ! (m_pos m + 2)) (m_data m ! (m_pos m + 3))),
                m\<lparr>m_pos := m_pos m + 4\<rparr>))"

text \<open>The loop of \<open>readDomain\<close>, with the labels read so far.  \<open>data[:Offset()-2]\<close> is in range,
  since the two bytes of the pointer have been read.  A name that follows a pointer is read from
  the part of the message before the pointer, which makes the recursion end.\<close>

lemma m_ReadByte_cong:
  "m_ReadByte m = Inr (b, m') \<Longrightarrow> m_pos m < length (m_data m) \<and> b = m_data m ! m_pos m \<and>
     m' = m\<lparr>m_pos := m_pos m + 1\<rparr>"
  by (auto simp: m_ReadByte_def m_Remaining_def split: if_splits)

lemma ReadN_cong:
  "ReadN m n = Inr (bs, m') \<Longrightarrow> m_pos m < length (m_data m) \<and> m_pos m + n \<le> length (m_data m) \<and>
     bs = take n (drop (m_pos m) (m_data m)) \<and> m' = m\<lparr>m_pos := m_pos m + n\<rparr>"
  by (auto simp: ReadN_def m_Remaining_def Let_def split: if_splits)

function readDomain :: "messageReader \<Rightarrow> DomainName \<Rightarrow> dns_error + DomainName \<times> messageReader" where
  "readDomain m result =
     (case m_ReadByte m of
        Inl e \<Rightarrow> Inl e
      | Inr (len1, m1) \<Rightarrow>
          if len1 AND 0xc0 = 0xc0 then
            (case m_ReadByte m1 of
               Inl e \<Rightarrow> Inl e
             | Inr (len2, m2) \<Rightarrow>
                 let ptr = be_int (len1 AND 0x3f) len2
                 in if ptr \<ge> m_Offset m2 - 2 then Inl InvalidNamePointer
                    else case readDomain \<lparr>m_data = take (m_Offset m2 - 2) (m_data m2), m_pos = ptr\<rparr> [] of
                        Inl e \<Rightarrow> Inl InvalidNamePointer
                      | Inr (ptrDomain, pre) \<Rightarrow>
                          bindE (Validate (result @ ptrDomain)) (\<lambda>_. Inr (result @ ptrDomain, m2)))
          else if len1 AND 0xc0 \<noteq> 0 then Inl InvalidLabelLength
          else if len1 = 0 then bindE (Validate result) (\<lambda>_. Inr (result, m1))
          else
            (case ReadN m1 (unat len1) of
               Inl e \<Rightarrow> Inl e
             | Inr (labelData, m2) \<Rightarrow> readDomain m2 (result @ [map char_of_byte labelData])))"
  by pat_completeness auto
termination
  by (relation "measures [\<lambda>(m, r). length (m_data m), \<lambda>(m, r). length (m_data m) - m_pos m]")
    (auto dest!: m_ReadByte_cong ReadN_cong simp: m_Offset_def m_Remaining_def)

declare readDomain.simps [simp del]

section \<open>A reader between two parts of its message\<close>

text \<open>\<open>between pre post\<close> has read \<open>pre\<close> and has \<open>post\<close> still to read.\<close>

definition between :: "bytes \<Rightarrow> bytes \<Rightarrow> messageReader" where
  "between pre post = \<lparr>m_data = pre @ post, m_pos = length pre\<rparr>"

lemma newMessageReader_between [dns]: "newMessageReader d = between [] d"
  by (simp add: newMessageReader_def between_def)

lemma between_Remaining [simp, dns]: "m_Remaining (between pre post) = length post"
  by (simp add: between_def m_Remaining_def)

lemma between_Offset [simp, dns]: "m_Offset (between pre post) = length pre"
  by (simp add: m_Offset_def) (simp add: between_def)

lemma between_ReadByte [simp, dns]:
  "m_ReadByte (between pre (b # post)) = Inr (b, between (pre @ [b]) post)"
  "m_ReadByte (between pre []) = Inl BufferUnderflow"
  by (simp_all add: m_ReadByte_def) (simp add: between_def)

lemma between_ReadN [simp, dns]:
  assumes "bs @ post \<noteq> []"
  shows "ReadN (between pre (bs @ post)) (length bs) = Inr (bs, between (pre @ bs) post)"
  using assms by (auto simp: ReadN_def Let_def) (simp_all add: between_def)

lemma between_ReadN_short: "length post < n \<Longrightarrow> ReadN (between pre post) n = Inl BufferUnderflow"
  by (simp add: ReadN_def)

lemma between_Backtrack [simp, dns]:
  "n = length bs \<Longrightarrow> Backtrack (between (pre @ bs) post) n = between pre (bs @ post)"
  by (simp add: Backtrack_def between_def)

lemma between_ReadU16 [simp, dns]:
  "ReadU16 (between pre (u16_bytes v @ post)) = Inr (v, between (pre @ u16_bytes v) post)"
  by (simp add: ReadU16_def u16_bytes_def) (simp add: between_def nth_append)

lemma u32_split: "push_bit 16 (ucast (ucast (drop_bit 16 v) :: u16)) OR ucast (ucast v :: u16) = (v :: u32)"
  by (rule bit_word_eqI) (auto simp: bit_simps)

lemma between_ReadU32 [simp, dns]:
  "ReadU32 (between pre (u32_bytes v @ post)) = Inr (v, between (pre @ u32_bytes v) post)"
  by (simp add: ReadU32_def u32_bytes_def u16_bytes_def)
    (simp add: between_def nth_append u32_split)

lemma field_lengths [simp]: "length (u16_bytes v) = 2" "length (u32_bytes w) = 4"
  by (simp_all add: u16_bytes_def u32_bytes_def)

lemma between_ReadU16_short: "length post < 2 \<Longrightarrow> ReadU16 (between pre post) = Inl BufferUnderflow"
  by (simp add: ReadU16_def)

lemma between_ReadU32_short: "length post < 4 \<Longrightarrow> ReadU32 (between pre post) = Inl BufferUnderflow"
  by (simp add: ReadU32_def)

section \<open>What the writer writes\<close>

lemma char_byte [simp]: "char_of_byte (byte_of_char c) = c"
proof -
  have "of_char c < (256 :: nat)" by simp
  then show ?thesis by (simp add: char_of_byte_def byte_of_char_def unat_of_nat_byte)
qed

lemma map_char_byte [simp]: "map (char_of_byte \<circ> byte_of_char) l = l"
  by (simp add: comp_def)

definition label_bytes :: "string \<Rightarrow> bytes" where
  "label_bytes l = of_nat (length l) # map byte_of_char l"

definition domain_bytes :: "DomainName \<Rightarrow> bytes" where
  "domain_bytes d = concat (map label_bytes d) @ [0]"

lemma length_domain_bytes [simp]: "length (domain_bytes d) = wire_length d"
  by (induction d) (simp_all add: domain_bytes_def label_bytes_def)

lemma domain_bytes_simps [simp]:
  "domain_bytes [] = [0]" "domain_bytes (l # d) = label_bytes l @ domain_bytes d"
  by (simp_all add: domain_bytes_def)

lemma domain_bytes_ne [simp]: "domain_bytes d \<noteq> []"
  by (simp add: domain_bytes_def)

lemma write_labels_eq: "write_labels buf d @ [0] = buf @ domain_bytes d"
  by (induction d arbitrary: buf) (simp_all add: label_bytes_def)

lemma writeDomain_eq [dns]:
  "valid_name d \<Longrightarrow> writeDomain buf d = Inr (buf @ domain_bytes d)"
  by (simp add: writeDomain_def write_labels_eq)

lemma writeDomain_Inr: "writeDomain buf d = Inr buf' \<Longrightarrow> valid_name d \<and> buf' = buf @ domain_bytes d"
  by (auto simp: writeDomain_def bindE_eq_Inr_iff Validate_iff write_labels_eq)

fun field_bytes :: "field \<Rightarrow> bytes" where
  "field_bytes (Domain d) = domain_bytes d"
| "field_bytes (Raw bs) = bs"
| "field_bytes (U16 v) = u16_bytes v"
| "field_bytes (U32 v) = u32_bytes v"

definition field_ok :: "field \<Rightarrow> bool" where
  "field_ok f = (case f of Domain d \<Rightarrow> valid_name d | _ \<Rightarrow> True)"

lemma WriteFields_eq [dns]:
  "list_all field_ok fs \<Longrightarrow> WriteFields buf fs = Inr (buf @ concat (map field_bytes fs))"
  by (induction fs arbitrary: buf) (auto simp: field_ok_def writeDomain_eq split: field.splits)

lemma WriteFields_Inr:
  "WriteFields buf fs = Inr buf' \<Longrightarrow> list_all field_ok fs"
  by (induction fs arbitrary: buf)
    (auto simp: field_ok_def bindE_eq_Inr_iff split: field.splits dest: writeDomain_Inr)

lemma WriteWithLength_eq [dns]:
  assumes "list_all field_ok fs"
  shows "WriteWithLength buf fs =
    Inr (buf @ u16_bytes (of_nat (length (concat (map field_bytes fs)))) @ concat (map field_bytes fs))"
proof -
  let ?bs = "concat (map field_bytes fs)"
  have "hi8 (of_nat n) = of_nat (n div 256)" for n
    using mod_mult2_eq [of n 256 256]
    by (simp add: word_unat_eq_iff unat_hi8 unat_of_nat_u16 unat_of_nat_byte)
  moreover have "lo8 (of_nat n) = of_nat n" for n
    by (simp add: word_unat_eq_iff unat_lo8 unat_of_nat_u16 unat_of_nat_byte mod_mod_cancel)
  ultimately show ?thesis
    by (simp add: WriteWithLength_def Let_def WriteFields_eq [OF assms] u16_bytes_def list_update_append)
qed

section \<open>Reading names\<close>

text \<open>The two upper bits of a length byte and the pointer in the lower ones.\<close>

lemma byte_label_bits:
  "(b :: byte) AND 0xc0 = 0 \<longleftrightarrow> unat b < 64" "b AND 0xc0 = 0xc0 \<longleftrightarrow> 192 \<le> unat b"
  "unat (b AND 0x3f) = unat b mod 64"
proof -
  have "\<forall>n \<in> {0..<256}. ((of_nat n :: byte) AND 0xc0 = 0) = (n < 64) \<and>
      ((of_nat n :: byte) AND 0xc0 = 0xc0) = (192 \<le> n) \<and> unat ((of_nat n :: byte) AND 0x3f) = n mod 64"
    by code_simp
  moreover have "of_nat (unat b) = b" by (simp add: word_unat_eq_iff unat_of_nat_byte)
  moreover have "unat b \<in> {0..<256}" by simp
  ultimately show "b AND 0xc0 = 0 \<longleftrightarrow> unat b < 64" "b AND 0xc0 = 0xc0 \<longleftrightarrow> 192 \<le> unat b"
    "unat (b AND 0x3f) = unat b mod 64" by metis+
qed


text \<open>The format of a name in a message, as RFC 1035 has it: the labels, then a zero byte or a
  pointer to a name that lies before it.  \<open>name_at data p d q\<close>: the name \<open>d\<close> is at position \<open>p\<close>
  of the message, and what follows it is at \<open>q\<close>.\<close>

inductive name_at :: "bytes \<Rightarrow> nat \<Rightarrow> DomainName \<Rightarrow> nat \<Rightarrow> bool" where
  name_end: "p < length ms \<Longrightarrow> ms ! p = 0 \<Longrightarrow> name_at ms p [] (Suc p)"
| name_label: "p + unat (ms ! p) < length ms \<Longrightarrow> 0 < unat (ms ! p) \<Longrightarrow> unat (ms ! p) < 64 \<Longrightarrow>
    name_at ms (Suc p + unat (ms ! p)) d q \<Longrightarrow>
    name_at ms p (map char_of_byte (take (unat (ms ! p)) (drop (Suc p) ms)) # d) q"
| name_pointer: "Suc p < length ms \<Longrightarrow> 192 \<le> unat (ms ! p) \<Longrightarrow>
    ptr = 256 * (unat (ms ! p) - 192) + unat (ms ! Suc p) \<Longrightarrow>
    ptr < p \<Longrightarrow> name_at (take p ms) ptr d q \<Longrightarrow> name_at ms p d (Suc (Suc p))"

lemma name_at_bounds: "name_at ms p d q \<Longrightarrow> p < q \<and> q \<le> length ms"
  by (induction rule: name_at.induct) auto

lemma readDomain_step:
  assumes "m_pos m \<le> length (m_data m)"
  shows "readDomain m result = (
    if m_pos m = length (m_data m) then Inl BufferUnderflow
    else let p = m_pos m; b = m_data m ! p in
      if 192 \<le> unat b then
        if Suc p = length (m_data m) then Inl BufferUnderflow
        else let ptr = 256 * (unat b - 192) + unat (m_data m ! Suc p) in
          if p \<le> ptr then Inl InvalidNamePointer
          else case readDomain \<lparr>m_data = take p (m_data m), m_pos = ptr\<rparr> [] of
              Inl e \<Rightarrow> Inl InvalidNamePointer
            | Inr (d, pre) \<Rightarrow> bindE (Validate (result @ d)) (\<lambda>_. Inr (result @ d, m\<lparr>m_pos := Suc (Suc p)\<rparr>))
      else if 64 \<le> unat b then Inl InvalidLabelLength
      else if unat b = 0 then bindE (Validate result) (\<lambda>_. Inr (result, m\<lparr>m_pos := Suc p\<rparr>))
      else if length (m_data m) \<le> p + unat b then Inl BufferUnderflow
      else readDomain (m\<lparr>m_pos := Suc p + unat b\<rparr>)
             (result @ [map char_of_byte (take (unat b) (drop (Suc p) (m_data m)))]))"
proof -
  have ptr: "be_int (b AND 0x3f) c = 256 * (unat b - 192) + unat c" if big: "192 \<le> unat b" for b c :: byte
  proof -
    obtain k where k: "unat b = 192 + k" using le_Suc_ex [OF big] by blast
    then have "k < 64" using unat_byte_less [of b] by linarith
    then have "(192 + k) mod 64 = k" using mod_mult_self2 [of k 64 3] by (simp add: add.commute)
    with k show ?thesis by (simp add: be_int_eq byte_label_bits)
  qed
  let ?p = "m_pos m" and ?b = "m_data m ! m_pos m"
  show ?thesis
  proof (cases "?p = length (m_data m)")
    case True
    then show ?thesis
      by (subst readDomain.simps) (simp add: m_ReadByte_def m_Remaining_def)
  next
    case False
    then have p: "?p < length (m_data m)" using assms by simp
    then have rb: "m_ReadByte m = Inr (?b, m\<lparr>m_pos := Suc ?p\<rparr>)"
      by (simp add: m_ReadByte_def m_Remaining_def)
    note simps = readDomain.simps [of m result, unfolded rb sum.case prod.case byte_label_bits(1,2)]
    show ?thesis
    proof (cases "192 \<le> unat ?b")
      case True
      show ?thesis
      proof (cases "Suc ?p = length (m_data m)")
        case True
        then show ?thesis using \<open>192 \<le> unat ?b\<close> p
          by (subst simps) (simp add: m_ReadByte_def m_Remaining_def)
      next
        case False
        then have rb2: "m_ReadByte (m\<lparr>m_pos := Suc ?p\<rparr>) = Inr (m_data m ! Suc ?p, m\<lparr>m_pos := Suc (Suc ?p)\<rparr>)"
          and off: "m_Offset (m\<lparr>m_pos := Suc (Suc ?p)\<rparr>) - 2 = ?p"
          using p by (simp_all add: m_ReadByte_def m_Remaining_def m_Offset_def)
        show ?thesis
          using p False True
          by (subst simps) (simp add: rb2 off ptr Let_def)
      qed
    next
      case False
      show ?thesis
        using p False
        by (subst simps) (auto simp: Let_def ReadN_def m_Remaining_def word_unat_eq_iff not_less not_le)
    qed
  qed
qed

text \<open>The reader returns exactly the names of the format that are valid.\<close>

lemma readDomain_sound:
  assumes "m_pos m \<le> length (m_data m)" and "readDomain m result = Inr (d, m')"
  shows "valid_name d \<and> (\<exists>d' q. d = result @ d' \<and> name_at (m_data m) (m_pos m) d' q \<and> m' = m\<lparr>m_pos := q\<rparr>)"
  using assms
proof (induction "length (m_data m) * length (m_data m) + (length (m_data m) - m_pos m)"
    arbitrary: m result d m' rule: less_induct)
  case less
  let ?ms = "m_data m" and ?p = "m_pos m"
  let ?b = "?ms ! ?p"
  note step = less.prems(2) [unfolded readDomain_step [OF less.prems(1)] Let_def]
  have p: "?p < length ?ms" using step less.prems(1) by (auto split: if_splits)
  show ?case
  proof (cases "192 \<le> unat ?b")
    case True
    define ptr where "ptr = 256 * (unat ?b - 192) + unat (?ms ! Suc ?p)"
    let ?pre = "\<lparr>m_data = take ?p ?ms, m_pos = ptr\<rparr>"
    have p2: "Suc ?p < length ?ms" and ptr: "ptr < ?p"
      using step p True by (auto simp: ptr_def split: if_splits)
    obtain d' pre' where r: "readDomain ?pre [] = Inr (d', pre')" "d = result @ d'"
      "valid_name d" "m' = m\<lparr>m_pos := Suc (Suc ?p)\<rparr>"
      using step p p2 True ptr
      by (auto simp: ptr_def [symmetric] bindE_eq_Inr_iff Validate_iff split: sum.splits)
    have "?p * Suc ?p \<le> ?p * length ?ms" "Suc ?p * length ?ms \<le> length ?ms * length ?ms"
      by (rule mult_le_mono2 mult_le_mono1, use p in simp)+
    then have "?p * ?p + (?p - ptr) < length ?ms * length ?ms + (length ?ms - ?p)"
      using p ptr unfolding mult_Suc mult_Suc_right by linarith
    then obtain q where "name_at (take ?p ?ms) ptr d' q"
      using less.hyps [of ?pre "[]"] r(1) p ptr by auto
    then have "name_at ?ms ?p d' (Suc (Suc ?p))" using p2 True ptr by (intro name_pointer) (auto simp: ptr_def)
    with r show ?thesis by blast
  next
    case False
    note small = False
    show ?thesis
    proof (cases "?b = 0")
      case True
      then have "d = result \<and> valid_name d \<and> m' = m\<lparr>m_pos := Suc ?p\<rparr>"
        using step p small by (auto simp: bindE_eq_Inr_iff Validate_iff)
      then show ?thesis using name_end [OF p True] by fastforce
    next
      case False
      then have b: "0 < unat ?b" "unat ?b < 64" "?p + unat ?b < length ?ms"
        using step p small by (auto simp: unat_gt_0 split: if_splits)
      let ?l = "map char_of_byte (take (unat ?b) (drop (Suc ?p) ?ms))"
      let ?m = "m\<lparr>m_pos := Suc ?p + unat ?b\<rparr>"
      have "readDomain ?m (result @ [?l]) = Inr (d, m')"
        using step p small b by auto
      then have "valid_name d \<and> (\<exists>d' q. d = (result @ [?l]) @ d' \<and> name_at ?ms (Suc ?p + unat ?b) d' q \<and> m' = m\<lparr>m_pos := q\<rparr>)"
        using less.hyps [of ?m "result @ [?l]" d m'] b p by simp
      then obtain d' q where r: "valid_name d" "d = result @ ?l # d'"
        "name_at ?ms (Suc ?p + unat ?b) d' q" "m' = m\<lparr>m_pos := q\<rparr>" by auto
      have "name_at ?ms ?p (?l # d') q" by (rule name_label [OF b(3,1,2) r(3)])
      with r show ?thesis by blast
    qed
  qed
qed

lemma readDomain_complete:
  assumes "name_at ms p d q" and "valid_name (result @ d)"
  shows "readDomain \<lparr>m_data = ms, m_pos = p\<rparr> result = Inr (result @ d, \<lparr>m_data = ms, m_pos = q\<rparr>)"
  using assms
proof (induction arbitrary: result rule: name_at.induct)
  case (name_end p ms)
  then show ?case by (subst readDomain_step) simp_all
next
  case (name_label p ms d q)
  then have "unat (ms ! p) \<noteq> 0" by linarith
  with name_label show ?case by (subst readDomain_step) (simp_all add: Let_def)
next
  case (name_pointer p ms ptr d q)
  then have "valid_name ([] @ d)" using valid_name_suffix by simp
  then have "readDomain \<lparr>m_data = take p ms, m_pos = ptr\<rparr> [] = Inr (d, \<lparr>m_data = take p ms, m_pos = q\<rparr>)"
    using name_pointer.IH [of "[]"] by simp
  then show ?case using name_pointer by (subst readDomain_step) (simp_all add: Let_def)
qed

lemma name_at_wire:
  assumes "\<forall>l \<in> set d. valid_label l"
  shows "name_at (pre @ domain_bytes d @ post) (length pre) d (length pre + wire_length d)"
  using assms
proof (induction d arbitrary: pre)
  case Nil
  then show ?case using name_end [of "length pre" "pre @ [0] @ post"] by simp
next
  case (Cons l d)
  let ?ms = "pre @ domain_bytes (l # d) @ post"
  have l: "0 < length l" "length l \<le> 63" using Cons.prems valid_label_length by auto
  then have n: "unat (of_nat (length l) :: byte) = length l" by (simp add: unat_of_nat_byte)
  have "name_at ((pre @ label_bytes l) @ domain_bytes d @ post) (length (pre @ label_bytes l)) d
      (length (pre @ label_bytes l) + wire_length d)"
    using Cons by (intro Cons.IH) simp
  then have "name_at ?ms (Suc (length pre) + unat (?ms ! length pre)) d (length pre + wire_length (l # d))"
    using n by (simp add: label_bytes_def add.assoc)
  from name_label [OF _ _ _ this] show ?case
    using l n by (simp add: label_bytes_def)
qed

lemma between_readDomain [simp, dns]:
  assumes "valid_name d"
  shows "readDomain (between pre (domain_bytes d @ post)) [] = Inr (d, between (pre @ domain_bytes d) post)"
  using readDomain_complete [OF name_at_wire [of d pre post], of "[]"] assms
  by (simp add: between_def valid_name_def)

text \<open>A name that is cut off is an underflow.\<close>

lemma readDomain_cut:
  assumes "\<forall>l \<in> set d. valid_label l" and "k < wire_length d"
  shows "readDomain (between pre (take k (domain_bytes d))) result = Inl BufferUnderflow"
  using assms
proof (induction d arbitrary: pre k result)
  case Nil
  then show ?case by (subst readDomain_step) (simp_all add: between_def)
next
  case (Cons l d)
  have l: "0 < length l" "length l \<le> 63" using Cons.prems valid_label_length by auto
  then have n: "unat (of_nat (length l) :: byte) = length l" by (simp add: unat_of_nat_byte)
  show ?case
  proof (cases "k \<le> length l")
    case True
    then show ?thesis using l n
      by (subst readDomain_step) (auto simp: between_def label_bytes_def Let_def nth_append take_Cons')
  next
    case False
    then obtain j where k: "k = Suc (length l) + j" by (metis add_Suc less_iff_Suc_add not_le)
    have "readDomain (between (pre @ label_bytes l) (take j (domain_bytes d))) (result @ [l]) = Inl BufferUnderflow"
      using Cons k by (intro Cons.IH) simp_all
    then show ?thesis using l n
      by (subst readDomain_step) (simp_all add: between_def label_bytes_def Let_def k)
  qed
qed

section \<open>The properties\<close>

text \<open>C16: \<open>readDomain\<close> implements the name format of RFC 1035 with its compression: it returns a
  name exactly when the message has that name at the position, as labels that end in a zero byte
  or in a pointer to a name before them, and the name is valid; and it leaves the reader behind
  the name.  It always returns, whatever loops the pointers of the message make.\<close>

theorem read_domain_spec:
  "readDomain \<lparr>m_data = ms, m_pos = p\<rparr> [] = Inr (d, m') \<longleftrightarrow>
     (\<exists>q. name_at ms p d q \<and> Validate d = Inr () \<and> m' = \<lparr>m_data = ms, m_pos = q\<rparr>)"
proof (cases "p \<le> length ms")
  case True
  let ?m = "\<lparr>m_data = ms, m_pos = p\<rparr>"
  show ?thesis
  proof
    assume "readDomain ?m [] = Inr (d, m')"
    then show "\<exists>q. name_at ms p d q \<and> Validate d = Inr () \<and> m' = \<lparr>m_data = ms, m_pos = q\<rparr>"
      using readDomain_sound [of ?m "[]" d m'] True by auto
  next
    assume "\<exists>q. name_at ms p d q \<and> Validate d = Inr () \<and> m' = \<lparr>m_data = ms, m_pos = q\<rparr>"
    then show "readDomain ?m [] = Inr (d, m')"
      using readDomain_complete [of ms p d _ "[]"] by (auto simp: Validate_iff)
  qed
next
  case False
  then have "readDomain \<lparr>m_data = ms, m_pos = p\<rparr> [] = Inl BufferUnderflow"
    by (subst readDomain.simps) (simp add: m_ReadByte_def m_Remaining_def)
  moreover have "\<not> name_at ms p d q" for q
    using False by (auto elim: name_at.cases)
  ultimately show ?thesis by simp
qed

text \<open>A name that the writer accepts is read back, wherever it stands in the message, and
  takes at most 255 bytes; a message that ends inside the name is an underflow.\<close>

theorem domain_wire_roundtrip:
  assumes "writeDomain pre d = Inr buf"
  shows "readDomain \<lparr>m_data = buf @ post, m_pos = length pre\<rparr> [] =
      Inr (d, \<lparr>m_data = buf @ post, m_pos = length buf\<rparr>) \<and>
    length buf \<le> length pre + 255 \<and>
    (\<forall>k \<in> {length pre..<length buf}.
       readDomain \<lparr>m_data = take k buf, m_pos = length pre\<rparr> [] = Inl BufferUnderflow)"
proof -
  have v: "valid_name d" and buf: "buf = pre @ domain_bytes d" using writeDomain_Inr [OF assms] by simp_all
  have labels: "\<forall>l \<in> set d. valid_label l" using v by (simp add: valid_name_def)
  have "readDomain \<lparr>m_data = take k buf, m_pos = length pre\<rparr> [] = Inl BufferUnderflow"
    if "k \<in> {length pre..<length buf}" for k
    using readDomain_cut [OF labels, of "k - length pre" pre "[]"] that
    by (auto simp: buf between_def)
  then show ?thesis
    using between_readDomain [OF v, of pre post] v by (simp add: buf between_def valid_name_def)
qed

theorem domain_wire_roundtrip_witness:
  "readDomain \<lparr>m_data = [7, 1, 97, 2, 98, 50, 0] @ [9], m_pos = 1\<rparr> [] =
     Inr ([''a'', ''b2''], \<lparr>m_data = [7, 1, 97, 2, 98, 50, 0, 9], m_pos = 7\<rparr>)"
  using domain_wire_roundtrip [of "[7]" "[''a'', ''b2'']" "[7, 1, 97, 2, 98, 50, 0]" "[9]"]
  by (simp add: writeDomain_def Validate_def Let_def domainLabelRegexp_def is_letter_def is_alnum_def
      in_range_def byte_of_char_def)

end
