(* ===== verification/DNS_Message.thy ===== *)
theory DNS_Message
  imports DNS_Wire
begin

text \<open>
  DNS messages: the header (\<open>dnsproto/header.go\<close>), questions (\<open>question.go\<close>), resource records
  (\<open>record.go\<close>), whole messages (\<open>message.go\<close>), and the answers of the example server
  (\<open>examples/dns_server/main.go\<close>).  Pointers of the source are values here; the header of a
  message and the records of its sections are never \<open>nil\<close>.
\<close>

section \<open>Constants\<close>

definition OpcodeQuery :: byte where "OpcodeQuery = 0"
definition RecordTypeA :: u16 where "RecordTypeA = 1"
definition RecordTypeNS :: u16 where "RecordTypeNS = 2"
definition RecordTypeCNAME :: u16 where "RecordTypeCNAME = 5"
definition RecordTypeSOA :: u16 where "RecordTypeSOA = 6"
definition RecordTypePTR :: u16 where "RecordTypePTR = 12"
definition RecordClassIN :: u16 where "RecordClassIN = 1"

lemmas record_types = RecordTypeA_def RecordTypeNS_def RecordTypeCNAME_def RecordTypeSOA_def
  RecordTypePTR_def

section \<open>The header\<close>

record Header =
  Identifier :: u16
  IsResponse :: bool
  Opcode :: byte
  Authoritative :: bool
  Truncated :: bool
  RecursionDesired :: bool
  RecursionAvailable :: bool
  ResponseCode :: byte
  QuestionCount :: u16
  AnswerCount :: u16
  AuthorityCount :: u16
  AdditionalCount :: u16

definition decodeHeader :: "messageReader \<Rightarrow> dns_error + Header \<times> messageReader" where
  "decodeHeader m =
     bindE (ReadU16 m) (\<lambda>(ident, m). bindE (ReadU16 m) (\<lambda>(flags, m).
     bindE (ReadU16 m) (\<lambda>(qd, m). bindE (ReadU16 m) (\<lambda>(an, m).
     bindE (ReadU16 m) (\<lambda>(ns, m). bindE (ReadU16 m) (\<lambda>(ar, m).
       Inr (\<lparr>Identifier = ident, IsResponse = flags AND push_bit 15 1 \<noteq> 0,
             Opcode = ucast (drop_bit 11 flags) AND 0xf,
             Authoritative = flags AND push_bit 10 1 \<noteq> 0, Truncated = flags AND push_bit 9 1 \<noteq> 0,
             RecursionDesired = flags AND push_bit 8 1 \<noteq> 0,
             RecursionAvailable = flags AND push_bit 7 1 \<noteq> 0,
             ResponseCode = ucast flags AND 0xf, QuestionCount = qd, AnswerCount = an,
             AuthorityCount = ns, AdditionalCount = ar\<rparr>, m)))))))"

definition header_encode :: "Header \<Rightarrow> bytes \<Rightarrow> dns_error + bytes" where
  "header_encode h buf = (
     let flags = (0 :: u16);
         flags = (if IsResponse h then flags OR push_bit 15 1 else flags);
         flags = flags OR push_bit 11 (ucast (Opcode h AND 0xf));
         flags = (if Authoritative h then flags OR push_bit 10 1 else flags);
         flags = (if Truncated h then flags OR push_bit 9 1 else flags);
         flags = (if RecursionDesired h then flags OR push_bit 8 1 else flags);
         flags = (if RecursionAvailable h then flags OR push_bit 7 1 else flags);
         flags = flags OR ucast (ResponseCode h AND 0xf)
     in WriteFields buf [U16 (Identifier h), U16 flags, U16 (QuestionCount h), U16 (AnswerCount h),
          U16 (AuthorityCount h), U16 (AdditionalCount h)])"

section \<open>Questions\<close>

record Question =
  q_Domain :: DomainName
  q_Type :: u16
  q_Class :: u16

definition decodeQuestion :: "messageReader \<Rightarrow> dns_error + Question \<times> messageReader" where
  "decodeQuestion m =
     bindE (readDomain m []) (\<lambda>(d, m). bindE (ReadU16 m) (\<lambda>(t, m). bindE (ReadU16 m) (\<lambda>(c, m).
       Inr (\<lparr>q_Domain = d, q_Type = t, q_Class = c\<rparr>, m))))"

definition question_encode :: "Question \<Rightarrow> bytes \<Rightarrow> dns_error + bytes" where
  "question_encode q buf = WriteFields buf [Domain (q_Domain q), U16 (q_Type q), U16 (q_Class q)]"

section \<open>Records\<close>

record GenericRecord =
  NameValue :: DomainName
  TypeValue :: u16
  ClassValue :: u16
  TTLValue :: u32
  DataValue :: bytes

text \<open>The types that implement the interface \<open>Record\<close>; a \<open>SOARecord\<close> has the master name, the
  responsible name, and serial, refresh, retry, expire and minimum.\<close>

datatype Record =
  Generic (generic: GenericRecord)
| ARecord (generic: GenericRecord)
| DomainRecord (generic: GenericRecord) DomainName
| SOARecord (generic: GenericRecord) DomainName DomainName u32 u32 u32 u32 u32

definition read_soa ::
  "GenericRecord \<Rightarrow> messageReader \<Rightarrow> dns_error + Record \<times> messageReader" where
  "read_soa g m =
     bindE (readDomain m []) (\<lambda>(mname, m). bindE (readDomain m []) (\<lambda>(rname, m).
     bindE (ReadU32 m) (\<lambda>(serial, m). bindE (ReadU32 m) (\<lambda>(refresh, m).
     bindE (ReadU32 m) (\<lambda>(retry, m). bindE (ReadU32 m) (\<lambda>(expire, m).
     bindE (ReadU32 m) (\<lambda>(minimum, m).
       Inr (SOARecord g mname rname serial refresh retry expire minimum, m))))))))"

text \<open>The switch on the type, after the data \<open>DataValue g\<close> has been read.\<close>

definition decode_typed ::
  "GenericRecord \<Rightarrow> messageReader \<Rightarrow> dns_error + Record \<times> messageReader" where
  "decode_typed g m = (
     let t = TypeValue g; d = DataValue g
     in if t = RecordTypeA then
          if length d \<noteq> 4 then Inl InvalidARecord else Inr (ARecord g, m)
        else if t = RecordTypeNS \<or> t = RecordTypeCNAME \<or> t = RecordTypePTR then
          let oldOff = m_Offset m
          in case readDomain (Backtrack m (length d)) [] of
               Inl e \<Rightarrow> Inl InvalidDomainRecord
             | Inr (domain, m) \<Rightarrow>
                 if m_Offset m \<noteq> oldOff then Inl InvalidDomainRecord else Inr (DomainRecord g domain, m)
        else if t = RecordTypeSOA then
          let oldOff = m_Offset m
          in case read_soa g (Backtrack m (length d)) of
               Inl e \<Rightarrow> Inl InvalidSOARecord
             | Inr (r, m) \<Rightarrow> if m_Offset m \<noteq> oldOff then Inl InvalidSOARecord else Inr (r, m)
        else Inr (Generic g, m))"

definition decodeRecord :: "messageReader \<Rightarrow> dns_error + Record \<times> messageReader" where
  "decodeRecord m =
     bindE (readDomain m []) (\<lambda>(name, m). bindE (ReadU16 m) (\<lambda>(t, m). bindE (ReadU16 m) (\<lambda>(c, m).
     bindE (ReadU32 m) (\<lambda>(ttl, m). bindE (ReadU16 m) (\<lambda>(len, m). bindE (ReadN m (unat len)) (\<lambda>(d, m).
       decode_typed
         \<lparr>NameValue = name, TypeValue = t, ClassValue = c, TTLValue = ttl, DataValue = d\<rparr> m))))))"

definition encodeRecord :: "bytes \<Rightarrow> Record \<Rightarrow> dns_error + bytes" where
  "encodeRecord buf r = (
     let g = generic r
     in bindE (WriteFields buf [Domain (NameValue g), U16 (TypeValue g), U16 (ClassValue g), U32 (TTLValue g)])
       (\<lambda>buf. case r of
          DomainRecord g d \<Rightarrow> WriteWithLength buf [Domain d]
        | SOARecord g mname rname serial refresh retry expire minimum \<Rightarrow>
            WriteWithLength buf [Domain mname, Domain rname, U32 serial, U32 refresh, U32 retry,
              U32 expire, U32 minimum]
        | _ \<Rightarrow> WriteFields buf [U16 (of_nat (length (DataValue g))), Raw (DataValue g)]))"

section \<open>Messages\<close>

record Message =
  msg_Header :: Header
  Questions :: "Question list"
  Answers :: "Record list"
  Authorities :: "Record list"
  Additional :: "Record list"

definition QueryMessage :: "DomainName \<Rightarrow> u16 \<Rightarrow> bool \<Rightarrow> Message" where
  "QueryMessage d recordType recursive =
     \<lparr>msg_Header = \<lparr>Identifier = 0, IsResponse = False, Opcode = OpcodeQuery, Authoritative = False,
        Truncated = False, RecursionDesired = recursive, RecursionAvailable = False,
        ResponseCode = 0, QuestionCount = 1, AnswerCount = 0, AuthorityCount = 0, AdditionalCount = 0\<rparr>,
      Questions = [\<lparr>q_Domain = d, q_Type = recordType, q_Class = RecordClassIN\<rparr>],
      Answers = [], Authorities = [], Additional = []\<rparr>"

text \<open>A loop of \<open>DecodeMessage\<close> over \<open>n\<close> questions or records.  \<open>None\<close> in the place of the reader
  is the early return of a truncated message.\<close>

fun decode_many ::
  "(messageReader \<Rightarrow> dns_error + 'a \<times> messageReader) \<Rightarrow> bool \<Rightarrow> nat \<Rightarrow> messageReader \<Rightarrow> 'a list \<Rightarrow>
     dns_error + 'a list \<times> messageReader option" where
  "decode_many dec truncated 0 m xs = Inr (xs, Some m)"
| "decode_many dec truncated (Suc n) m xs =
     (case dec m of
        Inl e \<Rightarrow> if e = BufferUnderflow \<and> truncated then Inr (xs, None) else Inl e
      | Inr (x, m) \<Rightarrow> decode_many dec truncated n m (xs @ [x]))"

definition DecodeMessage :: "bytes \<Rightarrow> dns_error + Message" where
  "DecodeMessage bs = (
     let m = newMessageReader bs
     in bindE (decodeHeader m) (\<lambda>(h, m).
       let msg = \<lparr>msg_Header = h, Questions = [], Answers = [], Authorities = [], Additional = []\<rparr>
       in bindE (decode_many decodeQuestion (Truncated h) (unat (QuestionCount h)) m []) (\<lambda>(qs, r).
       let msg = msg\<lparr>Questions := qs\<rparr>
       in case r of None \<Rightarrow> Inr msg | Some m \<Rightarrow>
       bindE (decode_many decodeRecord (Truncated h) (unat (AnswerCount h)) m []) (\<lambda>(rs, r).
       let msg = msg\<lparr>Answers := rs\<rparr>
       in case r of None \<Rightarrow> Inr msg | Some m \<Rightarrow>
       bindE (decode_many decodeRecord (Truncated h) (unat (AuthorityCount h)) m []) (\<lambda>(rs, r).
       let msg = msg\<lparr>Authorities := rs\<rparr>
       in case r of None \<Rightarrow> Inr msg | Some m \<Rightarrow>
       bindE (decode_many decodeRecord (Truncated h) (unat (AdditionalCount h)) m []) (\<lambda>(rs, r).
       let msg = msg\<lparr>Additional := rs\<rparr>
       in case r of None \<Rightarrow> Inr msg | Some m \<Rightarrow>
       if m_Remaining m \<noteq> 0 then Inl ExcessData else Inr msg))))))"

fun encode_all :: "('a \<Rightarrow> bytes \<Rightarrow> dns_error + bytes) \<Rightarrow> 'a list \<Rightarrow> bytes \<Rightarrow> dns_error + bytes" where
  "encode_all enc [] buf = Inr buf"
| "encode_all enc (x # xs) buf = bindE (enc x buf) (encode_all enc xs)"

definition Encode :: "Message \<Rightarrow> dns_error + bytes" where
  "Encode msg =
     bindE (header_encode (msg_Header msg) []) (\<lambda>buf.
     bindE (encode_all question_encode (Questions msg) buf) (\<lambda>buf.
     bindE (encode_all (\<lambda>r buf. encodeRecord buf r) (Answers msg) buf) (\<lambda>buf.
     bindE (encode_all (\<lambda>r buf. encodeRecord buf r) (Authorities msg) buf) (\<lambda>buf.
     encode_all (\<lambda>r buf. encodeRecord buf r) (Additional msg) buf))))"

definition AutoFill :: "Message \<Rightarrow> Message" where
  "AutoFill msg = msg\<lparr>msg_Header := (msg_Header msg)\<lparr>
     QuestionCount := of_nat (length (Questions msg)),
     AnswerCount := of_nat (length (Answers msg)),
     AuthorityCount := of_nat (length (Authorities msg)),
     AdditionalCount := of_nat (length (Additional msg))\<rparr>\<rparr>"

definition Records :: "Message \<Rightarrow> Record list" where
  "Records msg = Answers msg @ Authorities msg @ Additional msg"

section \<open>The server with fixed rules\<close>

text \<open>\<open>strings.ToLower\<close> on ASCII text, which the names of a decoded message are.\<close>

definition lower_char :: "char \<Rightarrow> char" where
  "lower_char c = (if in_range CHR ''A'' CHR ''Z'' c then char_of (of_char c + 32 :: nat) else c)"

definition RuleResponse :: "(string \<Rightarrow> bytes option) \<Rightarrow> Message \<Rightarrow> Message option" where
  "RuleResponse rules msg =
     (case Questions msg of
        [q] \<Rightarrow>
          (case rules (map lower_char (DomainName_String (q_Domain q))) of
             None \<Rightarrow> None
           | Some destIP \<Rightarrow>
               let msg = msg\<lparr>msg_Header := (msg_Header msg)\<lparr>IsResponse := True, RecursionAvailable := True\<rparr>,
                     Answers := [], Authorities := [], Additional := []\<rparr>
               in if q_Type q \<noteq> RecordTypeA then Some (AutoFill msg)
                  else Some (AutoFill (msg\<lparr>Answers := [Generic
                    \<lparr>NameValue = q_Domain q, TypeValue = RecordTypeA, ClassValue = RecordClassIN,
                     TTLValue = 30, DataValue = slice_of (To4 destIP)\<rparr>]\<rparr>)))
      | _ \<Rightarrow> None)"

section \<open>Reading from a message that is cut off\<close>

lemma between_ReadU16_take [dns]:
  "ReadU16 (between pre (take k (u16_bytes v @ post))) =
     (if k < 2 then Inl BufferUnderflow else Inr (v, between (pre @ u16_bytes v) (take (k - 2) post)))"
  using between_ReadU16 [of pre v "take (k - 2) post"] by (simp add: between_ReadU16_short)

lemma between_ReadU32_take [dns]:
  "ReadU32 (between pre (take k (u32_bytes v @ post))) =
     (if k < 4 then Inl BufferUnderflow else Inr (v, between (pre @ u32_bytes v) (take (k - 4) post)))"
  using between_ReadU32 [of pre v "take (k - 4) post"] by (simp add: between_ReadU32_short)

lemma between_readDomain_take [dns]:
  assumes "valid_name d"
  shows "readDomain (between pre (take k (domain_bytes d @ post))) [] =
     (if k < wire_length d then Inl BufferUnderflow
      else Inr (d, between (pre @ domain_bytes d) (take (k - wire_length d) post)))"
  using between_readDomain [OF assms, of pre "take (k - wire_length d) post"] assms
    readDomain_cut [of d k pre "[]"] by (simp add: valid_name_def)

lemma between_ReadN_take [dns]:
  assumes "k \<le> length (bs @ post)"
  shows "ReadN (between pre (take k (bs @ post))) (length bs) =
     (if k < length bs \<or> k = 0 then Inl BufferUnderflow
      else Inr (bs, between (pre @ bs) (take (k - length bs) post)))"
proof (cases "k < length bs \<or> k = 0")
  case True
  then show ?thesis by (auto simp: ReadN_def Let_def)
next
  case False
  then have "take k (bs @ post) = bs @ take (k - length bs) post" by simp
  moreover have "bs @ take (k - length bs) post \<noteq> []" using False assms by (cases bs) auto
  ultimately show ?thesis using False between_ReadN [of bs "take (k - length bs) post" pre] by simp
qed

end
