(* ===== verification/DNS_Codec.thy ===== *)
theory DNS_Codec
  imports DNS_Message
begin

text \<open>
  The DNS reader against the DNS writer.  The locale \<open>codec\<close> is what the loops of
  \<open>DecodeMessage\<close> rely on, from the reader of one question or record; it is interpreted for
  both.  From it come the round trip of messages and what becomes of a message that is cut off.
\<close>

section \<open>An interface for what a message is made of\<close>

text \<open>The law of a reader and the bytes of what it reads: on a message that is cut off after
  \<open>k\<close> more bytes it returns the value (\<open>view x\<close>) when its bytes are there, and underflows
  otherwise.  Some values (\<open>open_end x\<close>) need a byte behind them to be read.\<close>

locale codec =
  fixes dec :: "messageReader \<Rightarrow> dns_error + 'b \<times> messageReader"
    and bytes_of :: "'a \<Rightarrow> bytes" and view :: "'a \<Rightarrow> 'b"
    and ok :: "'a \<Rightarrow> bool" and open_end :: "'a \<Rightarrow> bool"
  assumes law: "ok x \<Longrightarrow> k \<le> length (bytes_of x @ post) \<Longrightarrow>
      dec (between pre (take k (bytes_of x @ post))) =
        (if k < length (bytes_of x) \<or> k = length (bytes_of x) \<and> open_end x then Inl BufferUnderflow
         else Inr (view x, between (pre @ bytes_of x) (take (k - length (bytes_of x)) post)))"

text \<open>The values of a list that are whole in its first \<open>k\<close> bytes.\<close>

fun whole :: "('a \<Rightarrow> bytes) \<Rightarrow> ('a \<Rightarrow> bool) \<Rightarrow> nat \<Rightarrow> 'a list \<Rightarrow> 'a list" where
  "whole bytes_of open_end k [] = []"
| "whole bytes_of open_end k (x # xs) =
     (if k < length (bytes_of x) \<or> k = length (bytes_of x) \<and> open_end x then []
      else x # whole bytes_of open_end (k - length (bytes_of x)) xs)"

definition all_bytes :: "('a \<Rightarrow> bytes) \<Rightarrow> 'a list \<Rightarrow> bytes" where
  "all_bytes bytes_of xs = concat (map bytes_of xs)"

lemma all_bytes_simps [simp]:
  "all_bytes f [] = []" "all_bytes f (x # xs) = f x @ all_bytes f xs"
  by (simp_all add: all_bytes_def)

lemma whole_prefix: "\<exists>ys. xs = whole f oe k xs @ ys"
  by (induction xs arbitrary: k) auto

lemma whole_all: "whole f oe k xs = xs \<Longrightarrow> length (all_bytes f xs) \<le> k"
proof (induction xs arbitrary: k)
  case (Cons x xs)
  then have "length (f x) \<le> k" "whole f oe (k - length (f x)) xs = xs" by (auto split: if_splits)
  with Cons.IH [of "k - length (f x)"] show ?case by simp
qed simp

context codec
begin

lemma many:
  assumes "list_all ok xs" and "k \<le> length (all_bytes bytes_of xs @ post)"
  shows "decode_many dec t (length xs) (between pre (take k (all_bytes bytes_of xs @ post))) acc =
    (if whole bytes_of open_end k xs = xs
     then Inr (acc @ map view xs,
       Some (between (pre @ all_bytes bytes_of xs) (take (k - length (all_bytes bytes_of xs)) post)))
     else if t then Inr (acc @ map view (whole bytes_of open_end k xs), None)
     else Inl BufferUnderflow)"
  using assms
proof (induction xs arbitrary: k pre acc)
  case (Cons x xs)
  let ?rest = "all_bytes bytes_of xs @ post"
  have dec: "dec (between pre (take k (all_bytes bytes_of (x # xs) @ post))) =
      (if k < length (bytes_of x) \<or> k = length (bytes_of x) \<and> open_end x then Inl BufferUnderflow
       else Inr (view x, between (pre @ bytes_of x) (take (k - length (bytes_of x)) ?rest)))"
    using law [of x k ?rest pre] Cons.prems by simp
  show ?case
  proof (cases "k < length (bytes_of x) \<or> k = length (bytes_of x) \<and> open_end x")
    case True
    with dec show ?thesis by simp
  next
    case False
    have "decode_many dec t (length xs) (between (pre @ bytes_of x) (take (k - length (bytes_of x)) ?rest))
        (acc @ [view x]) = (if whole bytes_of open_end (k - length (bytes_of x)) xs = xs
     then Inr ((acc @ [view x]) @ map view xs, Some (between ((pre @ bytes_of x) @ all_bytes bytes_of xs)
       (take (k - length (bytes_of x) - length (all_bytes bytes_of xs)) post)))
     else if t then Inr ((acc @ [view x]) @ map view (whole bytes_of open_end (k - length (bytes_of x)) xs), None)
     else Inl BufferUnderflow)"
      using Cons.prems by (intro Cons.IH) auto
    with dec False show ?thesis
      by (simp only: decode_many.simps length_Cons sum.case prod.case if_False whole.simps
          list.inject simp_thms list.map append.assoc append.simps all_bytes_simps length_append
          diff_diff_left)
  qed
qed simp

end

section \<open>The header on the wire\<close>

definition header_flags :: "Header \<Rightarrow> u16" where
  "header_flags h =
     (if IsResponse h then push_bit 15 1 else 0) OR push_bit 11 (ucast (Opcode h AND 0xf)) OR
     (if Authoritative h then push_bit 10 1 else 0) OR (if Truncated h then push_bit 9 1 else 0) OR
     (if RecursionDesired h then push_bit 8 1 else 0) OR
     (if RecursionAvailable h then push_bit 7 1 else 0) OR ucast (ResponseCode h AND 0xf)"

definition header_bytes :: "Header \<Rightarrow> bytes" where
  "header_bytes h = u16_bytes (Identifier h) @ u16_bytes (header_flags h) @ u16_bytes (QuestionCount h) @
     u16_bytes (AnswerCount h) @ u16_bytes (AuthorityCount h) @ u16_bytes (AdditionalCount h)"

text \<open>What is left of a header: the upper bits of its two codes are cut off.\<close>

definition header_view :: "Header \<Rightarrow> Header" where
  "header_view h = h\<lparr>Opcode := Opcode h AND 0xf, ResponseCode := ResponseCode h AND 0xf\<rparr>"

lemma length_header_bytes [simp]: "length (header_bytes h) = 12"
  by (simp add: header_bytes_def)

lemma header_encode_eq [dns]: "header_encode h buf = Inr (buf @ header_bytes h)"
proof -
  let ?a = "if IsResponse h then (0 :: u16) OR push_bit 15 1 else 0"
  show ?thesis
    by (simp add: header_encode_def Let_def WriteFields_eq field_ok_def header_bytes_def header_flags_def
        or.assoc)
qed

lemma bit_test: "(flags :: u16) AND push_bit n 1 \<noteq> 0 \<longleftrightarrow> bit flags n"
  unfolding push_bit_of_1 and_exp_eq_0_iff_not_bit by simp

lemmas flag_tests = bit_test [of _ 15] bit_test [of _ 10] bit_test [of _ 9] bit_test [of _ 8]
  bit_test [of _ 7]

lemma bit_flag: "j < 16 \<Longrightarrow> bit (if b then push_bit j 1 else (0 :: u16)) n \<longleftrightarrow> b \<and> n = j"
  by (auto simp: bit_simps simp flip: push_bit_of_1)

lemma bit_code:
  "bit (ucast (c AND 0xf :: byte) :: u16) n \<longleftrightarrow> n < 4 \<and> bit c n"
  "j < 12 \<Longrightarrow> bit (push_bit j (ucast (c AND 0xf :: byte)) :: u16) n \<longleftrightarrow> j \<le> n \<and> n < j + 4 \<and> bit c (n - j)"
proof -
  have eq: "(0xf :: byte) = mask 4" by (simp add: mask_eq_exp_minus_1)
  show "bit (ucast (c AND 0xf :: byte) :: u16) n \<longleftrightarrow> n < 4 \<and> bit c n"
    unfolding eq by (auto simp only: bit_simps possible_bit_word len_bit0 len_num1)
  show "bit (push_bit j (ucast (c AND 0xf :: byte)) :: u16) n \<longleftrightarrow> j \<le> n \<and> n < j + 4 \<and> bit c (n - j)" if "j < 12"
    unfolding eq using that by (auto simp: bit_simps)
qed

lemma bit_header_flags:
  "bit (header_flags h) n \<longleftrightarrow>
     IsResponse h \<and> n = 15 \<or> (11 \<le> n \<and> n < 15 \<and> bit (Opcode h) (n - 11)) \<or> Authoritative h \<and> n = 10 \<or>
     Truncated h \<and> n = 9 \<or> RecursionDesired h \<and> n = 8 \<or> RecursionAvailable h \<and> n = 7 \<or>
     n < 4 \<and> bit (ResponseCode h) n"
  unfolding header_flags_def bit_or_iff
  by (simp only: bit_flag bit_code) (auto simp: bit_flag bit_code)


lemma header_codes:
  "ucast (drop_bit 11 (header_flags h)) AND 0xf = Opcode h AND 0xf"
  "ucast (header_flags h) AND 0xf = ResponseCode h AND 0xf"
proof -
  have eq: "(0xf :: byte) = mask 4" by (simp add: mask_eq_exp_minus_1)
  have nums: "n + 11 < 15 \<longleftrightarrow> n < 4" "n + 11 = 15 \<longleftrightarrow> n = 4" "n + 11 < 4 \<longleftrightarrow> False" for n :: nat by auto
  show "ucast (drop_bit 11 (header_flags h)) AND 0xf = Opcode h AND 0xf"
    unfolding eq by (rule bit_word_eqI) (auto simp: bit_simps bit_header_flags)
  show "ucast (header_flags h) AND 0xf = ResponseCode h AND 0xf"
    unfolding eq by (rule bit_word_eqI) (auto simp: bit_simps bit_header_flags)
qed

lemma decodeHeader_take [dns]:
  "decodeHeader (between pre (take k (header_bytes h @ post))) =
     (if k < 12 then Inl BufferUnderflow
      else Inr (header_view h, between (pre @ header_bytes h) (take (k - 12) post)))"
proof -
  have "decodeHeader (between pre (take k (header_bytes h @ post))) =
     (if k < 12 then Inl BufferUnderflow
      else Inr (\<lparr>Identifier = Identifier h, IsResponse = IsResponse h, Opcode = Opcode h AND 0xf,
        Authoritative = Authoritative h, Truncated = Truncated h, RecursionDesired = RecursionDesired h,
        RecursionAvailable = RecursionAvailable h, ResponseCode = ResponseCode h AND 0xf,
        QuestionCount = QuestionCount h, AnswerCount = AnswerCount h,
        AuthorityCount = AuthorityCount h, AdditionalCount = AdditionalCount h\<rparr>,
        between (pre @ header_bytes h) (take (k - 12) post)))"
    unfolding decodeHeader_def bit_test header_bytes_def append.assoc
    by (auto simp: dns bit_header_flags header_codes simp del: take_append)
  then show ?thesis by (simp add: header_view_def)
qed


section \<open>Questions and records on the wire\<close>

definition question_bytes :: "Question \<Rightarrow> bytes" where
  "question_bytes q = domain_bytes (q_Domain q) @ u16_bytes (q_Type q) @ u16_bytes (q_Class q)"

definition question_ok :: "Question \<Rightarrow> bool" where
  "question_ok q \<longleftrightarrow> valid_name (q_Domain q)"

definition soa_bytes :: "DomainName \<Rightarrow> DomainName \<Rightarrow> u32 list \<Rightarrow> bytes" where
  "soa_bytes mname rname vs = domain_bytes mname @ domain_bytes rname @ concat (map u32_bytes vs)"

fun rdata :: "Record \<Rightarrow> bytes" where
  "rdata (Generic g) = DataValue g"
| "rdata (ARecord g) = DataValue g"
| "rdata (DomainRecord g d) = domain_bytes d"
| "rdata (SOARecord g mname rname serial refresh retry expire minimum) =
     soa_bytes mname rname [serial, refresh, retry, expire, minimum]"

definition record_bytes :: "Record \<Rightarrow> bytes" where
  "record_bytes r = domain_bytes (NameValue (generic r)) @ u16_bytes (TypeValue (generic r)) @
     u16_bytes (ClassValue (generic r)) @ u32_bytes (TTLValue (generic r)) @
     u16_bytes (of_nat (length (rdata r))) @ rdata r"

text \<open>The record that the reader makes of a record: its raw data is filled in, and a record of
  type A is an \<open>ARecord\<close>.\<close>

fun decoded :: "Record \<Rightarrow> Record" where
  "decoded (Generic g) = (if TypeValue g = RecordTypeA then ARecord g else Generic g)"
| "decoded (ARecord g) = ARecord g"
| "decoded (DomainRecord g d) = DomainRecord (g\<lparr>DataValue := domain_bytes d\<rparr>) d"
| "decoded (SOARecord g mname rname serial refresh retry expire minimum) =
     SOARecord (g\<lparr>DataValue := soa_bytes mname rname [serial, refresh, retry, expire, minimum]\<rparr>)
       mname rname serial refresh retry expire minimum"

text \<open>A record whose type code fits its data.\<close>

fun record_typed :: "Record \<Rightarrow> bool" where
  "record_typed (Generic g) \<longleftrightarrow> length (DataValue g) < 65536 \<and>
     TypeValue g \<notin> {RecordTypeNS, RecordTypeCNAME, RecordTypePTR, RecordTypeSOA} \<and>
     (TypeValue g = RecordTypeA \<longrightarrow> length (DataValue g) = 4)"
| "record_typed (ARecord g) \<longleftrightarrow> TypeValue g = RecordTypeA \<and> length (DataValue g) = 4"
| "record_typed (DomainRecord g d) \<longleftrightarrow> TypeValue g \<in> {RecordTypeNS, RecordTypeCNAME, RecordTypePTR}"
| "record_typed (SOARecord g mname rname serial refresh retry expire minimum) \<longleftrightarrow>
     TypeValue g = RecordTypeSOA"

fun record_names :: "Record \<Rightarrow> bool" where
  "record_names (DomainRecord g d) \<longleftrightarrow> valid_name (NameValue g) \<and> valid_name d"
| "record_names (SOARecord g mname rname serial refresh retry expire minimum) \<longleftrightarrow>
     valid_name (NameValue g) \<and> valid_name mname \<and> valid_name rname"
| "record_names r \<longleftrightarrow> valid_name (NameValue (generic r))"

definition record_ok :: "Record \<Rightarrow> bool" where
  "record_ok r \<longleftrightarrow> record_typed r \<and> record_names r"

lemma record_names_name: "record_names r \<Longrightarrow> valid_name (NameValue (generic r))"
  by (cases r) auto

lemma length_soa_bytes: "length (soa_bytes mname rname vs) = wire_length mname + wire_length rname + 4 * length vs"
proof -
  have "length (concat (map u32_bytes vs)) = 4 * length vs" by (induction vs) auto
  then show ?thesis by (simp add: soa_bytes_def)
qed

lemma rdata_length: "record_ok r \<Longrightarrow> length (rdata r) < 65536"
  by (cases r) (auto simp: record_ok_def valid_name_def length_soa_bytes)

lemma length_record_bytes [simp]:
  "length (record_bytes r) = wire_length (NameValue (generic r)) + 10 + length (rdata r)"
  by (simp add: record_bytes_def)

lemma read_soa_between:
  assumes "valid_name mname" and "valid_name rname"
  shows "read_soa g (between pre (soa_bytes mname rname [serial, refresh, retry, expire, minimum] @ post)) =
    Inr (SOARecord g mname rname serial refresh retry expire minimum,
         between (pre @ soa_bytes mname rname [serial, refresh, retry, expire, minimum]) post)"
  using assms by (simp add: read_soa_def soa_bytes_def)

lemma decode_typed_between:
  assumes "record_ok r"
  shows "decode_typed ((generic r)\<lparr>DataValue := rdata r\<rparr>) (between (pre @ rdata r) post) =
    Inr (decoded r, between (pre @ rdata r) post)"
proof (cases r)
  case (DomainRecord g d)
  then have "TypeValue g \<noteq> RecordTypeA"
    "TypeValue g = RecordTypeNS \<or> TypeValue g = RecordTypeCNAME \<or> TypeValue g = RecordTypePTR"
    using assms by (auto simp: record_ok_def record_types)
  then show ?thesis using assms DomainRecord
    by (simp add: decode_typed_def Let_def record_ok_def)
next
  case (SOARecord g mname rname serial refresh retry expire minimum)
  then have "TypeValue g = RecordTypeSOA" "valid_name mname" "valid_name rname"
    using assms by (auto simp: record_ok_def)
  then show ?thesis using SOARecord read_soa_between [of mname rname]
    by (simp add: decode_typed_def Let_def record_types)
qed (use assms in \<open>auto simp: decode_typed_def Let_def record_ok_def record_types\<close>)

lemma decodeQuestion_take:
  assumes "question_ok q"
  shows "decodeQuestion (between pre (take k (question_bytes q @ post))) =
    (if k < length (question_bytes q) then Inl BufferUnderflow
     else Inr (q, between (pre @ question_bytes q) (take (k - length (question_bytes q)) post)))"
  using assms unfolding decodeQuestion_def question_bytes_def append.assoc question_ok_def
  by (auto simp: dns simp del: take_append) (simp_all add: eval_nat_numeral)

lemma decodeRecord_take:
  assumes "record_ok r" and "k \<le> length (record_bytes r @ post)"
  shows "decodeRecord (between pre (take k (record_bytes r @ post))) =
    (if k < length (record_bytes r) \<or> k = length (record_bytes r) \<and> rdata r = [] then Inl BufferUnderflow
     else Inr (decoded r, between (pre @ record_bytes r) (take (k - length (record_bytes r)) post)))"
proof -
  let ?g = "generic r"
  have name: "valid_name (NameValue ?g)" using assms(1) record_names_name by (simp add: record_ok_def)
  have len: "unat (of_nat (length (rdata r)) :: u16) = length (rdata r)"
    using rdata_length [OF assms(1)] by (simp add: unat_of_nat_u16)
  let ?pre = "(((((pre @ domain_bytes (NameValue ?g)) @ u16_bytes (TypeValue ?g)) @
      u16_bytes (ClassValue ?g)) @ u32_bytes (TTLValue ?g)) @ u16_bytes (of_nat (length (rdata r))))"
  let ?n = "wire_length (NameValue ?g) + 10"
  have g: "\<lparr>NameValue = NameValue ?g, TypeValue = TypeValue ?g, ClassValue = ClassValue ?g,
      TTLValue = TTLValue ?g, DataValue = rdata r\<rparr> = ?g\<lparr>DataValue := rdata r\<rparr>"
    by (cases ?g) simp
  have typed: "decode_typed \<lparr>NameValue = NameValue ?g, TypeValue = TypeValue ?g, ClassValue = ClassValue ?g,
      TTLValue = TTLValue ?g, DataValue = rdata r\<rparr> (between (?pre @ rdata r) ps) =
    Inr (decoded r, between (?pre @ rdata r) ps)" for ps
    unfolding g by (rule decode_typed_between [OF assms(1)])
  have "decodeRecord (between pre (take k (record_bytes r @ post))) =
    (if k < ?n then Inl BufferUnderflow
     else bindE (ReadN (between ?pre (take (k - ?n) (rdata r @ post))) (length (rdata r)))
       (\<lambda>(d, m). decode_typed \<lparr>NameValue = NameValue ?g, TypeValue = TypeValue ?g, ClassValue = ClassValue ?g,
          TTLValue = TTLValue ?g, DataValue = d\<rparr> m))"
    using name unfolding decodeRecord_def record_bytes_def append.assoc
    by (auto simp: dns len add.commute simp del: take_append)
  also have "\<dots> = (if k < ?n + length (rdata r) \<or> k = ?n + length (rdata r) \<and> rdata r = [] then Inl BufferUnderflow
     else Inr (decoded r, between (?pre @ rdata r) (take (k - ?n - length (rdata r)) post)))"
  proof (cases "k < ?n")
    case False
    have "k - ?n \<le> length (rdata r @ post)" using assms(2) by simp
    from between_ReadN_take [OF this, of ?pre] False typed
    show ?thesis by (auto simp del: take_append append_assoc)
  qed simp
  finally show ?thesis by (simp add: record_bytes_def add.assoc del: take_append)
qed


interpretation question: codec decodeQuestion question_bytes "\<lambda>q. q" question_ok "\<lambda>q. False"
  by unfold_locales (simp add: decodeQuestion_take del: take_append)

interpretation rr: codec decodeRecord record_bytes decoded record_ok "\<lambda>r. rdata r = []"
  by unfold_locales (simp add: decodeRecord_take del: take_append)

lemma question_encode_eq:
  "question_ok q \<Longrightarrow> question_encode q buf = Inr (buf @ question_bytes q)"
  by (simp add: question_encode_def question_bytes_def question_ok_def writeDomain_eq)

lemma question_encode_Inr: "question_encode q buf = Inr buf' \<Longrightarrow> question_ok q"
  by (auto simp: question_encode_def question_ok_def bindE_eq_Inr_iff dest: writeDomain_Inr)

lemma encodeRecord_eq: "record_names r \<Longrightarrow> encodeRecord buf r = Inr (buf @ record_bytes r)"
  by (cases r) (simp_all add: encodeRecord_def Let_def writeDomain_eq WriteWithLength_eq field_ok_def
      record_bytes_def soa_bytes_def)

lemma encodeRecord_Inr: "encodeRecord buf r = Inr buf' \<Longrightarrow> record_names r"
  by (cases r) (auto simp: encodeRecord_def Let_def bindE_eq_Inr_iff WriteWithLength_def
      dest!: writeDomain_Inr)

lemma encode_all_eq:
  assumes "\<And>x buf. ok x \<Longrightarrow> enc x buf = Inr (buf @ f x)" and "list_all ok xs"
  shows "encode_all enc xs buf = Inr (buf @ all_bytes f xs)"
  using assms(2) by (induction xs arbitrary: buf) (auto simp: assms(1))

lemma encode_all_Inr:
  assumes "\<And>x buf buf'. enc x buf = Inr buf' \<Longrightarrow> ok x" and "encode_all enc xs buf = Inr buf'"
  shows "list_all ok xs"
  using assms(2) by (induction xs arbitrary: buf) (auto simp: bindE_eq_Inr_iff dest: assms(1))

lemma questions_encode_Inr: "encode_all question_encode qs buf = Inr buf' \<Longrightarrow> list_all question_ok qs"
  using encode_all_Inr [of question_encode question_ok] question_encode_Inr by metis

lemma records_encode_Inr:
  "encode_all (\<lambda>r buf. encodeRecord buf r) rs buf = Inr buf' \<Longrightarrow> list_all record_names rs"
  using encode_all_Inr [of "\<lambda>r buf. encodeRecord buf r" record_names] encodeRecord_Inr by metis

section \<open>Messages on the wire\<close>

definition message_bytes :: "Message \<Rightarrow> bytes" where
  "message_bytes msg = header_bytes (msg_Header msg) @ all_bytes question_bytes (Questions msg) @
     all_bytes record_bytes (Answers msg) @ all_bytes record_bytes (Authorities msg) @
     all_bytes record_bytes (Additional msg)"

definition message_names :: "Message \<Rightarrow> bool" where
  "message_names msg \<longleftrightarrow> list_all question_ok (Questions msg) \<and> list_all record_names (Answers msg) \<and>
     list_all record_names (Authorities msg) \<and> list_all record_names (Additional msg)"

lemma Encode_eq: "message_names msg \<Longrightarrow> Encode msg = Inr (message_bytes msg)"
  by (simp add: Encode_def message_names_def header_encode_eq message_bytes_def
      encode_all_eq [OF question_encode_eq] encode_all_eq [OF encodeRecord_eq])

lemma Encode_Inr:
  assumes "Encode msg = Inr bs"
  shows "message_names msg \<and> bs = message_bytes msg"
proof -
  obtain b0 b1 b2 b3 where e: "encode_all question_encode (Questions msg) b0 = Inr b1"
    "encode_all (\<lambda>r buf. encodeRecord buf r) (Answers msg) b1 = Inr b2"
    "encode_all (\<lambda>r buf. encodeRecord buf r) (Authorities msg) b2 = Inr b3"
    "encode_all (\<lambda>r buf. encodeRecord buf r) (Additional msg) b3 = Inr bs"
    using assms by (auto simp: Encode_def bindE_eq_Inr_iff)
  then have "message_names msg"
    unfolding message_names_def
    using questions_encode_Inr [OF e(1)] records_encode_Inr [OF e(2)] records_encode_Inr [OF e(3)]
      records_encode_Inr [OF e(4)] by simp
  with assms Encode_eq show ?thesis by simp
qed

text \<open>A message that can be sent: its counts are those of its sections, and its records have the
  types of their data.\<close>

definition message_typed :: "Message \<Rightarrow> bool" where
  "message_typed msg \<longleftrightarrow> AutoFill msg = msg \<and> length (Questions msg) < 65536 \<and>
     length (Answers msg) < 65536 \<and> length (Authorities msg) < 65536 \<and>
     length (Additional msg) < 65536 \<and> (\<forall>r \<in> set (Records msg). record_typed r)"

lemma message_typed_counts:
  assumes "message_typed msg"
  shows "unat (QuestionCount (msg_Header msg)) = length (Questions msg)"
    "unat (AnswerCount (msg_Header msg)) = length (Answers msg)"
    "unat (AuthorityCount (msg_Header msg)) = length (Authorities msg)"
    "unat (AdditionalCount (msg_Header msg)) = length (Additional msg)"
proof -
  have eq: "AutoFill msg = msg" using assms by (simp add: message_typed_def)
  have "QuestionCount (msg_Header (AutoFill msg)) = of_nat (length (Questions msg))"
    "AnswerCount (msg_Header (AutoFill msg)) = of_nat (length (Answers msg))"
    "AuthorityCount (msg_Header (AutoFill msg)) = of_nat (length (Authorities msg))"
    "AdditionalCount (msg_Header (AutoFill msg)) = of_nat (length (Additional msg))"
    by (simp_all add: AutoFill_def)
  from this [unfolded eq] assms show "unat (QuestionCount (msg_Header msg)) = length (Questions msg)"
    "unat (AnswerCount (msg_Header msg)) = length (Answers msg)"
    "unat (AuthorityCount (msg_Header msg)) = length (Authorities msg)"
    "unat (AdditionalCount (msg_Header msg)) = length (Additional msg)"
    by (simp_all add: message_typed_def unat_of_nat_u16)
qed

text \<open>What the first \<open>k\<close> bytes of a message hold, and whether that is everything.\<close>

abbreviation whole_questions :: "nat \<Rightarrow> Question list \<Rightarrow> Question list" where
  "whole_questions \<equiv> whole question_bytes (\<lambda>q. False)"

abbreviation whole_records :: "nat \<Rightarrow> Record list \<Rightarrow> Record list" where
  "whole_records \<equiv> whole record_bytes (\<lambda>r. rdata r = [])"

definition kept :: "nat \<Rightarrow> Message \<Rightarrow> Message" where
  "kept k msg = (
     let k1 = k - 12;
         k2 = k1 - length (all_bytes question_bytes (Questions msg));
         k3 = k2 - length (all_bytes record_bytes (Answers msg));
         k4 = k3 - length (all_bytes record_bytes (Authorities msg))
     in msg\<lparr>Questions := whole_questions k1 (Questions msg),
          Answers := whole_records k2 (Answers msg),
          Authorities := whole_records k3 (Authorities msg),
          Additional := whole_records k4 (Additional msg)\<rparr>)"

definition decoded_message :: "Message \<Rightarrow> Message" where
  "decoded_message msg = msg\<lparr>msg_Header := header_view (msg_Header msg),
     Answers := map decoded (Answers msg), Authorities := map decoded (Authorities msg),
     Additional := map decoded (Additional msg)\<rparr>"

lemma kept_eq_iff:
  "kept k msg = msg \<longleftrightarrow>
     (let k1 = k - 12;
          k2 = k1 - length (all_bytes question_bytes (Questions msg));
          k3 = k2 - length (all_bytes record_bytes (Answers msg));
          k4 = k3 - length (all_bytes record_bytes (Authorities msg))
      in whole_questions k1 (Questions msg) = Questions msg \<and> whole_records k2 (Answers msg) = Answers msg \<and>
         whole_records k3 (Authorities msg) = Authorities msg \<and>
         whole_records k4 (Additional msg) = Additional msg)"
  unfolding kept_def Let_def by (cases msg) simp

lemma whole_part: "whole f oe k xs \<noteq> xs \<Longrightarrow> k \<le> length (all_bytes f xs)"
proof (induction xs arbitrary: k)
  case (Cons x xs)
  with Cons.IH [of "k - length (f x)"] show ?case by (fastforce split: if_splits)
qed simp

lemma whole_questions_0 [simp]: "whole_questions 0 qs = []"
  by (cases qs) (simp_all add: question_bytes_def)

lemma whole_records_0 [simp]: "whole_records 0 rs = []"
  by (cases rs) simp_all


lemma whole_complete:
  assumes "length (all_bytes f xs) < k \<or> length (all_bytes f xs) = k \<and> (xs = [] \<or> \<not> oe (last xs))"
    and "\<And>x. f x \<noteq> []"
  shows "whole f oe k xs = xs"
  using assms(1)
proof (induction xs arbitrary: k)
  case (Cons x xs)
  have "length (all_bytes f xs) < k - length (f x) \<or>
      length (all_bytes f xs) = k - length (f x) \<and> (xs = [] \<or> \<not> oe (last xs))"
    using Cons.prems by auto
  then have "whole f oe (k - length (f x)) xs = xs" by (rule Cons.IH)
  moreover have "\<not> (k < length (f x) \<or> k = length (f x) \<and> oe x)"
    using Cons.prems assms(2) by (cases xs) auto
  ultimately show ?case by simp
qed simp

lemma whole_last_open:
  assumes "xs \<noteq> []" and "oe (last xs)"
  shows "whole f oe (length (all_bytes f xs)) xs \<noteq> xs"
  using assms
proof (induction xs)
  case (Cons x xs)
  then show ?case by (cases xs) auto
qed simp

text \<open>What \<open>DecodeMessage\<close> makes of the first \<open>k\<close> bytes of a message.\<close>

text \<open>The parts of a message that the first \<open>k\<close> bytes hold, and what the decoder makes of every section.\<close>

lemma kept_parts:
  assumes "k1 = k - 12" and "k2 = k1 - length (all_bytes question_bytes (Questions msg))"
    and "k3 = k2 - length (all_bytes record_bytes (Answers msg))"
    and "k4 = k3 - length (all_bytes record_bytes (Authorities msg))"
  shows "kept k msg = msg \<longleftrightarrow> whole_questions k1 (Questions msg) = Questions msg \<and>
      whole_records k2 (Answers msg) = Answers msg \<and> whole_records k3 (Authorities msg) = Authorities msg \<and>
      whole_records k4 (Additional msg) = Additional msg"
    and "decoded_message (kept k msg) = \<lparr>msg_Header = header_view (msg_Header msg),
      Questions = whole_questions k1 (Questions msg), Answers = map decoded (whole_records k2 (Answers msg)),
      Authorities = map decoded (whole_records k3 (Authorities msg)),
      Additional = map decoded (whole_records k4 (Additional msg))\<rparr>"
    and "whole_questions k1 (Questions msg) \<noteq> Questions msg \<Longrightarrow> k2 = 0"
    and "whole_records k2 (Answers msg) \<noteq> Answers msg \<Longrightarrow> k3 = 0"
    and "whole_records k3 (Authorities msg) \<noteq> Authorities msg \<Longrightarrow> k4 = 0"
    and "k2 = 0 \<Longrightarrow> k3 = 0" and "k3 = 0 \<Longrightarrow> k4 = 0"
proof -
  note ks = assms(4,3,2,1)
  show "kept k msg = msg \<longleftrightarrow> whole_questions k1 (Questions msg) = Questions msg \<and>
      whole_records k2 (Answers msg) = Answers msg \<and> whole_records k3 (Authorities msg) = Authorities msg \<and>
      whole_records k4 (Additional msg) = Additional msg"
    unfolding kept_eq_iff Let_def ks ..
  have "kept k msg = msg\<lparr>Questions := whole_questions k1 (Questions msg), Answers := whole_records k2 (Answers msg),
      Authorities := whole_records k3 (Authorities msg), Additional := whole_records k4 (Additional msg)\<rparr>"
    unfolding kept_def Let_def ks ..
  then show "decoded_message (kept k msg) = \<lparr>msg_Header = header_view (msg_Header msg),
      Questions = whole_questions k1 (Questions msg), Answers = map decoded (whole_records k2 (Answers msg)),
      Authorities = map decoded (whole_records k3 (Authorities msg)),
      Additional = map decoded (whole_records k4 (Additional msg))\<rparr>"
    by (cases msg) (simp add: decoded_message_def)
  show "whole_questions k1 (Questions msg) \<noteq> Questions msg \<Longrightarrow> k2 = 0"
    "whole_records k2 (Answers msg) \<noteq> Answers msg \<Longrightarrow> k3 = 0"
    "whole_records k3 (Authorities msg) \<noteq> Authorities msg \<Longrightarrow> k4 = 0"
    using whole_part unfolding assms(2-4) by fastforce+
qed (simp_all add: assms(3,4))

lemma decode_sections_take:
  assumes "message_names msg" and "message_typed msg" and "k \<le> length (message_bytes msg)" and "12 \<le> k"
    and "k1 = k - 12" and "k2 = k1 - length (all_bytes question_bytes (Questions msg))"
    and "k3 = k2 - length (all_bytes record_bytes (Answers msg))"
    and "k4 = k3 - length (all_bytes record_bytes (Authorities msg))"
  obtains m1 m2 m3 m4 m5 where
    "decodeHeader (newMessageReader (take k (message_bytes msg))) = Inr (header_view (msg_Header msg), m1)"
    and "decode_many decodeQuestion t (length (Questions msg)) m1 [] =
      (if whole_questions k1 (Questions msg) = Questions msg then Inr (Questions msg, Some m2)
       else if t then Inr (whole_questions k1 (Questions msg), None) else Inl BufferUnderflow)"
    and "decode_many decodeRecord t (length (Answers msg)) m2 [] =
      (if whole_records k2 (Answers msg) = Answers msg then Inr (map decoded (Answers msg), Some m3)
       else if t then Inr (map decoded (whole_records k2 (Answers msg)), None) else Inl BufferUnderflow)"
    and "decode_many decodeRecord t (length (Authorities msg)) m3 [] =
      (if whole_records k3 (Authorities msg) = Authorities msg then Inr (map decoded (Authorities msg), Some m4)
       else if t then Inr (map decoded (whole_records k3 (Authorities msg)), None) else Inl BufferUnderflow)"
    and "decode_many decodeRecord t (length (Additional msg)) m4 [] =
      (if whole_records k4 (Additional msg) = Additional msg then Inr (map decoded (Additional msg), Some m5)
       else if t then Inr (map decoded (whole_records k4 (Additional msg)), None) else Inl BufferUnderflow)"
    and "m_Remaining m5 = 0"
proof -
  let ?h = "msg_Header msg" and ?qs = "Questions msg" and ?an = "Answers msg"
    and ?au = "Authorities msg" and ?ad = "Additional msg"
  have oks: "list_all question_ok ?qs" "list_all record_ok ?an" "list_all record_ok ?au" "list_all record_ok ?ad"
    using assms(1,2)
    by (auto simp: message_names_def message_typed_def record_ok_def list_all_iff Records_def)
  let ?B = "all_bytes record_bytes" and ?Q = "all_bytes question_bytes ?qs"
  have "k \<le> 12 + (length ?Q + (length (?B ?an) + (length (?B ?au) + length (?B ?ad))))"
    using assms(3) by (simp add: message_bytes_def)
  then have len: "k1 \<le> length (?Q @ ?B ?an @ ?B ?au @ ?B ?ad)" "k2 \<le> length (?B ?an @ ?B ?au @ ?B ?ad)"
    "k3 \<le> length (?B ?au @ ?B ?ad)" "k4 \<le> length (?B ?ad @ [])"
    by (simp_all add: assms(5-8))
  define m1 where "m1 = between (header_bytes ?h) (take k1 (?Q @ ?B ?an @ ?B ?au @ ?B ?ad))"
  define m2 where "m2 = between (header_bytes ?h @ ?Q) (take k2 (?B ?an @ ?B ?au @ ?B ?ad))"
  define m3 where "m3 = between ((header_bytes ?h @ ?Q) @ ?B ?an) (take k3 (?B ?au @ ?B ?ad))"
  define m4 where "m4 = between (((header_bytes ?h @ ?Q) @ ?B ?an) @ ?B ?au) (take k4 (?B ?ad @ []))"
  define m5 where "m5 = between ((((header_bytes ?h @ ?Q) @ ?B ?an) @ ?B ?au) @ ?B ?ad) []"
  note ms = m1_def m2_def m3_def m4_def m5_def
  show ?thesis
  proof (rule that [of m1 m2 m3 m4 m5])
    show "decodeHeader (newMessageReader (take k (message_bytes msg))) = Inr (header_view ?h, m1)"
      using decodeHeader_take [of "[]" k ?h] assms(4,5)
      by (simp add: newMessageReader_between message_bytes_def m1_def del: take_append)
    show "decode_many decodeQuestion t (length ?qs) m1 [] =
      (if whole_questions k1 ?qs = ?qs then Inr (?qs, Some m2)
       else if t then Inr (whole_questions k1 ?qs, None) else Inl BufferUnderflow)"
      using question.many [OF oks(1), of k1 "?B ?an @ ?B ?au @ ?B ?ad" t "header_bytes ?h" "[]"] len(1)
      by (simp add: ms assms(6) del: take_append append_assoc length_append)
    show "decode_many decodeRecord t (length ?an) m2 [] =
      (if whole_records k2 ?an = ?an then Inr (map decoded ?an, Some m3)
       else if t then Inr (map decoded (whole_records k2 ?an), None) else Inl BufferUnderflow)"
      using rr.many [OF oks(2), of k2 "?B ?au @ ?B ?ad" t "header_bytes ?h @ ?Q" "[]"] len(2)
      by (simp add: ms assms(7) del: take_append append_assoc length_append)
    show "decode_many decodeRecord t (length ?au) m3 [] =
      (if whole_records k3 ?au = ?au then Inr (map decoded ?au, Some m4)
       else if t then Inr (map decoded (whole_records k3 ?au), None) else Inl BufferUnderflow)"
      using rr.many [OF oks(3), of k3 "?B ?ad" t "(header_bytes ?h @ ?Q) @ ?B ?an" "[]"] len(3)
      by (simp add: ms assms(8) del: take_append append_assoc length_append)
    show "decode_many decodeRecord t (length ?ad) m4 [] =
      (if whole_records k4 ?ad = ?ad then Inr (map decoded ?ad, Some m5)
       else if t then Inr (map decoded (whole_records k4 ?ad), None) else Inl BufferUnderflow)"
      using rr.many [OF oks(4), of k4 "[]" t "((header_bytes ?h @ ?Q) @ ?B ?an) @ ?B ?au" "[]"] len(4)
      by (simp add: ms del: take_append append_assoc length_append)
  qed (simp add: m5_def)
qed

lemma DecodeMessage_take:
  assumes "message_names msg" and "message_typed msg" and "k \<le> length (message_bytes msg)" and "12 \<le> k"
  shows "DecodeMessage (take k (message_bytes msg)) =
    (if kept k msg = msg \<or> Truncated (msg_Header msg) then Inr (decoded_message (kept k msg))
     else Inl BufferUnderflow)"
proof -
  let ?h = "msg_Header msg" and ?Q = "all_bytes question_bytes (Questions msg)" and ?B = "all_bytes record_bytes"
  define k1 where "k1 = k - 12"
  define k2 where "k2 = k1 - length ?Q"
  define k3 where "k3 = k2 - length (?B (Answers msg))"
  define k4 where "k4 = k3 - length (?B (Authorities msg))"
  define t where "t = Truncated ?h"
  note ks = k1_def k2_def k3_def k4_def
  obtain m1 m2 m3 m4 m5 where
    head: "decodeHeader (newMessageReader (take k (message_bytes msg))) = Inr (header_view ?h, m1)"
    and q: "decode_many decodeQuestion t (length (Questions msg)) m1 [] =
      (if whole_questions k1 (Questions msg) = Questions msg then Inr (Questions msg, Some m2)
       else if t then Inr (whole_questions k1 (Questions msg), None) else Inl BufferUnderflow)"
    and a1: "decode_many decodeRecord t (length (Answers msg)) m2 [] =
      (if whole_records k2 (Answers msg) = Answers msg then Inr (map decoded (Answers msg), Some m3)
       else if t then Inr (map decoded (whole_records k2 (Answers msg)), None) else Inl BufferUnderflow)"
    and a2: "decode_many decodeRecord t (length (Authorities msg)) m3 [] =
      (if whole_records k3 (Authorities msg) = Authorities msg then Inr (map decoded (Authorities msg), Some m4)
       else if t then Inr (map decoded (whole_records k3 (Authorities msg)), None) else Inl BufferUnderflow)"
    and a3: "decode_many decodeRecord t (length (Additional msg)) m4 [] =
      (if whole_records k4 (Additional msg) = Additional msg then Inr (map decoded (Additional msg), Some m5)
       else if t then Inr (map decoded (whole_records k4 (Additional msg)), None) else Inl BufferUnderflow)"
    and rem: "m_Remaining m5 = 0"
    by (rule decode_sections_take [OF assms ks])
  note kept = kept_parts [OF ks]
  have hv: "Truncated (header_view ?h) = t" "QuestionCount (header_view ?h) = QuestionCount ?h"
    "AnswerCount (header_view ?h) = AnswerCount ?h" "AuthorityCount (header_view ?h) = AuthorityCount ?h"
    "AdditionalCount (header_view ?h) = AdditionalCount ?h"
    by (simp_all add: header_view_def t_def)
  note decode = DecodeMessage_def Let_def head bindE_Inr prod.case hv message_typed_counts [OF assms(2)]
  show ?thesis
  proof (cases t)
    case True
    then show ?thesis
      unfolding kept(1,2) t_def [symmetric] decode
      using kept(3-7) rem q [unfolded True] a1 [unfolded True] a2 [unfolded True] a3 [unfolded True] by auto
  next
    case False
    then show ?thesis
      unfolding kept(1,2) t_def [symmetric] decode
      using kept(3-7) rem q [unfolded False] a1 [unfolded False] a2 [unfolded False] a3 [unfolded False] by auto
  qed
qed


lemma kept_all:
  assumes "k = length (message_bytes msg)"
  shows "kept k msg = msg \<longleftrightarrow> Records msg = [] \<or> rdata (last (Records msg)) \<noteq> []"
proof -
  let ?qs = "Questions msg" and ?an = "Answers msg" and ?au = "Authorities msg" and ?ad = "Additional msg"
  let ?B = "all_bytes record_bytes" and ?Q = "all_bytes question_bytes ?qs"
  let ?oe = "\<lambda>r. rdata r = []"
  have ne: "record_bytes r \<noteq> []" for r by (simp add: record_bytes_def)
  have B0: "?B rs = [] \<longleftrightarrow> rs = []" for rs using ne by (cases rs) simp_all
  have k: "k - 12 = length ?Q + (length (?B ?an) + (length (?B ?au) + length (?B ?ad)))"
    using assms by (simp add: message_bytes_def)
  have q: "whole_questions (k - 12) ?qs = ?qs"
    by (rule whole_complete) (auto simp: k question_bytes_def)
  have kept: "kept k msg = msg \<longleftrightarrow>
      whole_records (length (?B ?an) + (length (?B ?au) + length (?B ?ad))) ?an = ?an \<and>
      whole_records (length (?B ?au) + length (?B ?ad)) ?au = ?au \<and>
      whole_records (length (?B ?ad) + 0) ?ad = ?ad"
    unfolding kept_eq_iff Let_def k using q [unfolded k] by simp
  have last: "whole_records (length (?B rs) + n) rs = rs \<longleftrightarrow> rs = [] \<or> 0 < n \<or> rdata (last rs) \<noteq> []" for rs n
  proof
    assume w: "whole_records (length (?B rs) + n) rs = rs"
    show "rs = [] \<or> 0 < n \<or> rdata (last rs) \<noteq> []"
      using whole_last_open [of rs ?oe record_bytes] w by auto
  next
    assume "rs = [] \<or> 0 < n \<or> rdata (last rs) \<noteq> []"
    then have "length (?B rs) < length (?B rs) + n \<or>
        length (?B rs) = length (?B rs) + n \<and> (rs = [] \<or> \<not> rdata (last rs) = [])"
      by (cases "n = 0") simp_all
    from whole_complete [where oe = ?oe, OF this ne] show "whole_records (length (?B rs) + n) rs = rs" .
  qed
  show ?thesis
    unfolding kept last
    by (cases "?ad = []"; cases "?au = []"; cases "?an = []"; simp add: Records_def B0)
qed

lemma message_roundtrip:
  assumes "Encode msg = Inr bs" and "message_typed msg"
    and "Records msg = [] \<or> rdata (last (Records msg)) \<noteq> []"
  shows "DecodeMessage bs = Inr (decoded_message msg)"
proof -
  have m: "message_names msg" "bs = message_bytes msg" using Encode_Inr [OF assms(1)] by simp_all
  have "kept (length (message_bytes msg)) msg = msg" using kept_all assms(3) by blast
  then show ?thesis
    using DecodeMessage_take [OF m(1) assms(2) order_refl] by (simp add: m(2) message_bytes_def)
qed

section \<open>The properties\<close>

text \<open>C14: A message that \<open>Encode\<close> accepts, with the counts of its sections in its header
  (\<open>AutoFill\<close>), records whose type code fits their data, and a last record with some data, is
  read back by \<open>DecodeMessage\<close>: the same header (less the upper bits of the two 4-bit codes),
  questions and records, the raw data of names and SOA records filled in.\<close>

theorem dns_message_roundtrip:
  assumes "Encode msg = Inr bs" and "message_typed msg"
    and "Records msg = [] \<or> rdata (last (Records msg)) \<noteq> []"
  shows "DecodeMessage bs = Inr (decoded_message msg)"
  using assms by (rule message_roundtrip)

definition example_message :: Message where
  "example_message = AutoFill (QueryMessage [''a'', ''com''] RecordTypeNS True)\<lparr>
     Answers := [DomainRecord \<lparr>NameValue = [''a'', ''com''], TypeValue = RecordTypeNS,
       ClassValue = RecordClassIN, TTLValue = 7, DataValue = []\<rparr> [''n'']]\<rparr>"

lemma valid_example: "valid_name [''a'', ''com'']" "valid_name [''n'']"
  by (simp_all add: valid_name_def valid_label_def wire_length_def domainLabelRegexp_def is_letter_def
      is_alnum_def in_range_def)

theorem dns_message_roundtrip_witness:
  "\<exists>bs. Encode (AutoFill example_message) = Inr bs \<and>
     DecodeMessage bs = Inr (decoded_message (AutoFill example_message)) \<and>
     rdata (last (Records (AutoFill example_message))) = [1, 110, 0]"
proof -
  have names: "message_names (AutoFill example_message)"
    by (simp add: example_message_def message_names_def question_ok_def valid_example QueryMessage_def
        AutoFill_def)
  have typed: "message_typed (AutoFill example_message)"
    by (simp add: example_message_def message_typed_def QueryMessage_def AutoFill_def Records_def record_types)
  have rd: "rdata (last (Records (AutoFill example_message))) = [1, 110, 0]"
    by (simp add: example_message_def QueryMessage_def AutoFill_def Records_def label_bytes_def
        byte_of_char_def)
  show ?thesis
    using dns_message_roundtrip [OF Encode_eq [OF names] typed] rd Encode_eq [OF names] by simp
qed

text \<open>A message that is cut off anywhere behind its header: with the truncation flag it is read
  as the questions and records that are whole in what is left, and without the flag it is an
  underflow, unless nothing was cut that is needed.\<close>

theorem dns_truncated_message:
  assumes "Encode msg = Inr bs" and "message_typed msg" and "12 \<le> k" and "k < length bs"
  shows "DecodeMessage (take k bs) =
      (if Truncated (msg_Header msg) then Inr (decoded_message (kept k msg)) else Inl BufferUnderflow) \<and>
    (\<exists>qs rs. Questions msg = Questions (kept k msg) @ qs \<and> Answers msg = Answers (kept k msg) @ rs)"
proof -
  have m: "message_names msg" "bs = message_bytes msg" using Encode_Inr [OF assms(1)] by simp_all
  have "kept k msg \<noteq> msg"
  proof
    let ?n2 = "k - 12 - length (all_bytes question_bytes (Questions msg))"
    let ?n3 = "?n2 - length (all_bytes record_bytes (Answers msg))"
    let ?n4 = "?n3 - length (all_bytes record_bytes (Authorities msg))"
    assume "kept k msg = msg"
    then have "whole_questions (k - 12) (Questions msg) = Questions msg"
      "whole_records ?n2 (Answers msg) = Answers msg" "whole_records ?n3 (Authorities msg) = Authorities msg"
      "whole_records ?n4 (Additional msg) = Additional msg"
      unfolding kept_eq_iff Let_def by blast+
    from this [THEN whole_all] show False
      using assms(3,4) by (simp add: m(2) message_bytes_def)
  qed
  moreover have "\<exists>qs. Questions msg = Questions (kept k msg) @ qs" "\<exists>rs. Answers msg = Answers (kept k msg) @ rs"
    unfolding kept_def Let_def by (simp_all add: whole_prefix)
  ultimately show ?thesis
    using DecodeMessage_take [OF m(1) assms(2) _ assms(3)] assms(4) by (simp add: m(2))
qed

definition truncated_example :: Message where
  "truncated_example = (AutoFill example_message)\<lparr>msg_Header :=
     (msg_Header (AutoFill example_message))\<lparr>Truncated := True\<rparr>\<rparr>"

theorem dns_truncated_message_witness:
  "\<exists>bs. Encode truncated_example = Inr bs \<and> length bs = 43 \<and>
     (\<exists>m. DecodeMessage (take 42 bs) = Inr m \<and> Questions m = Questions example_message \<and> Answers m = [])"
proof -
  have names: "message_names truncated_example"
    by (simp add: truncated_example_def example_message_def message_names_def question_ok_def valid_example
        QueryMessage_def AutoFill_def)
  have typed: "message_typed truncated_example"
    by (simp add: truncated_example_def example_message_def message_typed_def QueryMessage_def AutoFill_def
        Records_def record_types)
  have len: "length (message_bytes truncated_example) = 43"
    by (simp add: truncated_example_def example_message_def message_bytes_def QueryMessage_def AutoFill_def
        question_bytes_def label_bytes_def)
  have kept: "Questions (kept 42 truncated_example) = Questions example_message"
    "Answers (kept 42 truncated_example) = []"
    by (simp_all add: kept_def truncated_example_def example_message_def QueryMessage_def AutoFill_def
        question_bytes_def label_bytes_def)
  show ?thesis
    using dns_truncated_message [OF Encode_eq [OF names] typed, of 42] Encode_eq [OF names] len kept
    by (simp add: decoded_message_def) (simp add: truncated_example_def)
qed

text \<open>A message whose last record has no data (a TXT record, say) is encoded without an error,
  and cannot be read back: a reader at the end of the message fails even to read nothing.\<close>

theorem dns_empty_record_lost:
  assumes "Encode msg = Inr bs" and "message_typed msg" and "\<not> Truncated (msg_Header msg)"
    and "Records msg \<noteq> []" and "rdata (last (Records msg)) = []"
  shows "DecodeMessage bs = Inl BufferUnderflow"
proof -
  have m: "message_names msg" "bs = message_bytes msg" using Encode_Inr [OF assms(1)] by simp_all
  have "kept (length (message_bytes msg)) msg \<noteq> msg" using kept_all assms(4,5) by blast
  then show ?thesis
    using DecodeMessage_take [OF m(1) assms(2) order_refl] assms(3) by (simp add: m(2) message_bytes_def)
qed

definition empty_record_example :: Message where
  "empty_record_example = AutoFill ((QueryMessage [''a'', ''com''] 16 True)\<lparr>Answers := [Generic
     \<lparr>NameValue = [''a'', ''com''], TypeValue = 16, ClassValue = RecordClassIN, TTLValue = 7, DataValue = []\<rparr>]\<rparr>)"

theorem dns_empty_record_lost_witness:
  "\<exists>bs. Encode empty_record_example = Inr bs \<and> DecodeMessage bs = Inl BufferUnderflow"
proof -
  have names: "message_names empty_record_example"
    by (simp add: empty_record_example_def message_names_def question_ok_def valid_example QueryMessage_def
        AutoFill_def)
  have typed: "message_typed empty_record_example"
    by (simp add: empty_record_example_def message_typed_def QueryMessage_def AutoFill_def Records_def
        record_types)
  have rest: "\<not> Truncated (msg_Header empty_record_example)" "Records empty_record_example \<noteq> []"
    "rdata (last (Records empty_record_example)) = []"
    by (simp_all add: empty_record_example_def QueryMessage_def AutoFill_def Records_def)
  show ?thesis
    using dns_empty_record_lost [OF Encode_eq [OF names] typed rest] Encode_eq [OF names] by blast
qed

text \<open>The server with fixed rules answers a query for the address of a name that it has a rule
  for, from the bytes of the query to the bytes of the answer: the client reads one A record with
  the address of the rule, for the name it asked for and with the identifier it sent.\<close>

theorem rule_server_answers:
  assumes "Validate d = Inr ()" and "rules (map lower_char (DomainName_String d)) = Some ip"
    and "To4 ip = Some addr" and "query = (QueryMessage d RecordTypeA recursive)\<lparr>msg_Header :=
      (msg_Header (QueryMessage d RecordTypeA recursive))\<lparr>Identifier := ident\<rparr>\<rparr>"
  shows "\<exists>q msg resp bs ans. Encode query = Inr q \<and> DecodeMessage q = Inr msg \<and>
    RuleResponse rules msg = Some resp \<and> Encode resp = Inr bs \<and> length bs \<le> 4096 \<and>
    DecodeMessage bs = Inr ans \<and> Identifier (msg_Header ans) = ident \<and> IsResponse (msg_Header ans) \<and>
    ResponseCode (msg_Header ans) = 0 \<and> Questions ans = Questions query \<and>
    Records ans = [ARecord \<lparr>NameValue = d, TypeValue = RecordTypeA, ClassValue = RecordClassIN,
      TTLValue = 30, DataValue = addr\<rparr>]"
proof -
  have v: "valid_name d" using assms(1) by (simp add: Validate_iff)
  have addr: "length addr = 4" using To4_length assms(3) by blast
  note defs = assms(4) QueryMessage_def
  have "message_names query" "message_typed query" "Records query = []"
    using v by (simp_all add: defs message_names_def question_ok_def message_typed_def AutoFill_def Records_def)
  then obtain q where q: "Encode query = Inr q" "DecodeMessage q = Inr (decoded_message query)"
    using Encode_eq message_roundtrip by blast
  have view: "decoded_message query = query"
    by (simp add: defs decoded_message_def header_view_def OpcodeQuery_def)
  define g where "g = \<lparr>NameValue = d, TypeValue = RecordTypeA, ClassValue = RecordClassIN,
      TTLValue = 30, DataValue = addr\<rparr>"
  define resp where "resp = AutoFill (query\<lparr>msg_Header := (msg_Header query)\<lparr>IsResponse := True,
      RecursionAvailable := True\<rparr>, Answers := [Generic g]\<rparr>)"
  have resp: "RuleResponse rules query = Some resp"
    using assms(2,3) by (simp add: RuleResponse_def resp_def defs g_def)
  have names: "message_names resp"
    using v by (simp add: resp_def defs message_names_def question_ok_def AutoFill_def g_def)
  have typed: "message_typed resp" "Records resp = [] \<or> rdata (last (Records resp)) \<noteq> []"
    using addr by (auto simp: resp_def defs message_typed_def AutoFill_def Records_def g_def record_types)
  have "DecodeMessage (message_bytes resp) = Inr (decoded_message resp)"
    using message_roundtrip [OF Encode_eq [OF names] typed] .
  moreover have "Identifier (msg_Header (decoded_message resp)) = ident"
    "IsResponse (msg_Header (decoded_message resp))" "ResponseCode (msg_Header (decoded_message resp)) = 0"
    "Questions (decoded_message resp) = Questions query" "Records (decoded_message resp) = [ARecord g]"
    by (simp_all add: resp_def defs decoded_message_def header_view_def AutoFill_def Records_def g_def)
  moreover have "wire_length d \<le> 255" using v by (simp add: valid_name_def)
  then have "length (message_bytes resp) \<le> 4096"
    using addr by (simp add: message_bytes_def question_bytes_def resp_def defs AutoFill_def g_def)
  ultimately show ?thesis
    using q resp Encode_eq [OF names] unfolding view g_def by blast
qed

theorem rule_server_answers_witness:
  "\<exists>q msg resp bs ans. Encode (QueryMessage [''A'', ''com''] RecordTypeA True) = Inr q \<and>
    DecodeMessage q = Inr msg \<and> RuleResponse [''a.com'' \<mapsto> [10, 0, 0, 7]] msg = Some resp \<and>
    Encode resp = Inr bs \<and> DecodeMessage bs = Inr ans \<and>
    Records ans = [ARecord \<lparr>NameValue = [''A'', ''com''], TypeValue = 1, ClassValue = 1,
      TTLValue = 30, DataValue = [10, 0, 0, 7]\<rparr>]"
proof -
  have "map lower_char ''A.com'' = ''a.com''" by code_simp
  then have rule: "[''a.com'' \<mapsto> [10, 0, 0, 7 :: byte]] (map lower_char (DomainName_String [''A'', ''com''])) =
      Some [10, 0, 0, 7]" by (simp add: DomainName_String_def)
  have valid: "Validate [''A'', ''com''] = Inr ()"
    by (simp add: Validate_def Let_def domainLabelRegexp_def is_letter_def is_alnum_def in_range_def)
  have query: "QueryMessage [''A'', ''com''] RecordTypeA True =
      (QueryMessage [''A'', ''com''] RecordTypeA True)\<lparr>msg_Header :=
        (msg_Header (QueryMessage [''A'', ''com''] RecordTypeA True))\<lparr>Identifier := 0\<rparr>\<rparr>"
    by (simp add: QueryMessage_def)
  have "To4 [10, 0, 0, 7] = Some [10, 0, 0, 7]" by simp
  from rule_server_answers [where rules = "[''a.com'' \<mapsto> [10, 0, 0, 7]]", OF valid rule this query]
  show ?thesis unfolding RecordTypeA_def RecordClassIN_def by blast
qed

end
