(* ===== verification/DNS_Decoded.thy ===== *)
theory DNS_Decoded
  imports DNS_Codec
begin

text \<open>
  What \<open>DecodeMessage\<close> accepts (\<open>dnsproto/message.go\<close>): a typing of every message that it returns, for
  any bytes at all, compressed names included.
\<close>

section \<open>The reader stays inside its message\<close>

definition reader_ok :: "messageReader \<Rightarrow> bool" where
  "reader_ok m \<longleftrightarrow> m_pos m \<le> length (m_data m)"

lemma reader_ok_Offset: "reader_ok m \<Longrightarrow> m_Offset m = m_pos m"
  by (simp add: reader_ok_def m_Offset_def m_Remaining_def)

lemma ReadU16_ok: "ReadU16 m = Inr (v, m') \<Longrightarrow> reader_ok m' \<and> m_data m' = m_data m"
  by (auto simp: ReadU16_def m_Remaining_def reader_ok_def split: if_splits)

lemma ReadU32_ok: "ReadU32 m = Inr (v, m') \<Longrightarrow> reader_ok m' \<and> m_data m' = m_data m"
  by (auto simp: ReadU32_def m_Remaining_def reader_ok_def split: if_splits)

lemma ReadN_ok:
  "ReadN m n = Inr (bs, m') \<Longrightarrow> reader_ok m' \<and> length bs = n \<and> (n = 0 \<longrightarrow> m_Remaining m' \<noteq> 0) \<and>
     m' = m\<lparr>m_pos := m_pos m + n\<rparr>"
  by (drule ReadN_cong) (auto simp: reader_ok_def m_Remaining_def)

lemma readDomain_ok:
  assumes "readDomain m [] = Inr (d, m')" and "reader_ok m"
  shows "valid_name d \<and> reader_ok m' \<and> m_pos m < m_pos m'"
  using readDomain_sound [of m "[]" d m'] assms name_at_bounds by (fastforce simp: reader_ok_def)

lemma Backtrack_ok: "reader_ok m \<Longrightarrow> reader_ok (Backtrack m n)"
  by (simp add: reader_ok_def Backtrack_def)

lemmas reads_ok = ReadU16_ok ReadU32_ok ReadN_ok readDomain_ok

section \<open>Questions and records\<close>

lemma decodeQuestion_ok:
  assumes "decodeQuestion m = Inr (q, m')" and "reader_ok m"
  shows "question_ok q \<and> reader_ok m'"
  using assms by (auto simp: decodeQuestion_def question_ok_def bindE_eq_Inr_iff dest: reads_ok)

lemma read_soa_ok:
  assumes "read_soa g m = Inr (r, m')" and "reader_ok m"
  obtains mname rname serial refresh retry expire minimum where
    "r = SOARecord g mname rname serial refresh retry expire minimum" "valid_name mname" "valid_name rname"
    "reader_ok m'"
proof -
  obtain mname m1 rname m2 serial refresh retry expire minimum m3 where
    d: "readDomain m [] = Inr (mname, m1)" "readDomain m1 [] = Inr (rname, m2)" "ReadU32 m3 = Inr (minimum, m')"
    and r: "r = SOARecord g mname rname serial refresh retry expire minimum"
    using assms(1) by (auto simp: read_soa_def bindE_eq_Inr_iff)
  show ?thesis using readDomain_ok [OF d(1) assms(2)] readDomain_ok [OF d(2)] ReadU32_ok [OF d(3)] r that by blast
qed

lemma decode_typed_ok:
  assumes run: "decode_typed g m = Inr (r, m')" and m: "reader_ok m" and name: "valid_name (NameValue g)"
    and len: "length (DataValue g) < 65536" and empty: "DataValue g = [] \<Longrightarrow> m_Remaining m \<noteq> 0"
  shows "record_ok r \<and> reader_ok m' \<and> (rdata r = [] \<longrightarrow> m_Remaining m' \<noteq> 0)"
proof -
  let ?t = "TypeValue g" and ?b = "Backtrack m (length (DataValue g))"
  have b: "reader_ok ?b" using m by (rule Backtrack_ok)
  consider "?t = RecordTypeA" | "?t \<in> {RecordTypeNS, RecordTypeCNAME, RecordTypePTR}" | "?t = RecordTypeSOA"
    | "?t \<notin> {RecordTypeA, RecordTypeNS, RecordTypeCNAME, RecordTypePTR, RecordTypeSOA}" by blast
  then show ?thesis
  proof cases
    case 1
    then show ?thesis using run m name by (auto simp: decode_typed_def record_ok_def split: if_splits)
  next
    case 2
    then have ne: "?t \<noteq> RecordTypeA" by (auto simp: record_types)
    obtain d where d: "readDomain ?b [] = Inr (d, m')" "r = DomainRecord g d"
      using run 2 ne by (auto simp: decode_typed_def Let_def split: sum.splits if_splits)
    then show ?thesis using readDomain_ok [OF d(1) b] 2 name by (simp add: record_ok_def)
  next
    case 3
    then have ne: "?t \<noteq> RecordTypeA" "?t \<notin> {RecordTypeNS, RecordTypeCNAME, RecordTypePTR}"
      by (auto simp: record_types)
    have soa: "read_soa g ?b = Inr (r, m')"
      using run 3 ne by (auto simp: decode_typed_def Let_def split: sum.splits if_splits)
    obtain mname rname serial refresh retry expire minimum where
      "r = SOARecord g mname rname serial refresh retry expire minimum" "valid_name mname" "valid_name rname"
      "reader_ok m'"
      by (rule read_soa_ok [OF soa b])
    then show ?thesis using 3 name by (simp add: record_ok_def soa_bytes_def)
  next
    case 4
    then show ?thesis using run m name len empty by (auto simp: decode_typed_def record_ok_def)
  qed
qed

lemma decodeRecord_ok:
  assumes "decodeRecord m = Inr (r, m')" and "reader_ok m"
  shows "record_ok r \<and> reader_ok m' \<and> (rdata r = [] \<longrightarrow> m_Remaining m' \<noteq> 0)"
proof -
  obtain name m1 t c ttl len m5 m6 d where
    d: "readDomain m [] = Inr (name, m1)" "ReadN m5 (unat (len :: u16)) = Inr (d, m6)"
    "decode_typed \<lparr>NameValue = name, TypeValue = t, ClassValue = c, TTLValue = ttl, DataValue = d\<rparr> m6 = Inr (r, m')"
    using assms(1) by (auto simp: decodeRecord_def bindE_eq_Inr_iff)
  have m6: "reader_ok m6" "length d = unat len" "d = [] \<Longrightarrow> m_Remaining m6 \<noteq> 0" using ReadN_ok [OF d(2)] by auto
  show ?thesis by (rule decode_typed_ok [OF d(3) m6(1)]) (use readDomain_ok [OF d(1) assms(2)] m6 in auto)
qed

section \<open>Sections of a message\<close>

lemma decode_many_ok:
  assumes step: "\<And>m x m'. dec m = Inr (x, m') \<Longrightarrow> reader_ok m \<Longrightarrow> P x \<and> reader_ok m' \<and> (e x \<longrightarrow> m_Remaining m' \<noteq> 0)"
  shows "decode_many dec tr n m xs = Inr (ys, r) \<Longrightarrow> reader_ok m \<Longrightarrow> list_all P xs \<Longrightarrow>
    \<exists>zs. ys = xs @ zs \<and> list_all P ys \<and>
      (case r of None \<Rightarrow> tr
       | Some m' \<Rightarrow> length zs = n \<and> reader_ok m' \<and> (zs = [] \<longrightarrow> m' = m) \<and> (zs \<noteq> [] \<and> e (last zs) \<longrightarrow> m_Remaining m' \<noteq> 0))"
proof (induction n arbitrary: m xs)
  case (Suc n)
  show ?case
  proof (cases "dec m")
    case (Inl err)
    then show ?thesis using Suc.prems by (auto split: if_splits)
  next
    case (Inr xm)
    obtain x m1 where x: "xm = (x, m1)" by (cases xm)
    have ok: "P x" "reader_ok m1" "e x \<longrightarrow> m_Remaining m1 \<noteq> 0" using step Inr x Suc.prems(2) by auto
    obtain zs where zs: "ys = (xs @ [x]) @ zs" "list_all P ys"
      "case r of None \<Rightarrow> tr
       | Some m' \<Rightarrow> length zs = n \<and> reader_ok m' \<and> (zs = [] \<longrightarrow> m' = m1) \<and> (zs \<noteq> [] \<and> e (last zs) \<longrightarrow> m_Remaining m' \<noteq> 0)"
      using Suc.IH [of m1 "xs @ [x]"] Suc.prems Inr x ok by auto
    then show ?thesis using ok(3) by (intro exI [of _ "x # zs"]) (auto split: option.splits)
  qed
qed auto

lemmas decode_questions_ok = decode_many_ok [where dec = decodeQuestion and P = question_ok and e = "\<lambda>q. False"]
lemmas decode_records_ok = decode_many_ok [where dec = decodeRecord and P = record_ok and e = "\<lambda>r. rdata r = []"]

section \<open>Whole messages\<close>

lemma decodeHeader_ok: "decodeHeader m = Inr (h, m') \<Longrightarrow> reader_ok m' \<and> header_view h = h"
  by (auto simp: decodeHeader_def bindE_eq_Inr_iff header_view_def and.assoc dest: ReadU16_ok)

text \<open>The sections that were read before the end of a truncated message; those behind it are empty.\<close>

lemma DecodeMessage_sections:
  assumes "DecodeMessage bs = Inr msg"
  obtains m0 r1 r2 r3 r4 where "decodeHeader (newMessageReader bs) = Inr (msg_Header msg, m0)"
    and "decode_many decodeQuestion (Truncated (msg_Header msg)) (unat (QuestionCount (msg_Header msg))) m0 [] =
      Inr (Questions msg, r1)"
    and "case r1 of None \<Rightarrow> Answers msg = [] \<and> r2 = None
      | Some m \<Rightarrow> decode_many decodeRecord (Truncated (msg_Header msg)) (unat (AnswerCount (msg_Header msg))) m [] =
          Inr (Answers msg, r2)"
    and "case r2 of None \<Rightarrow> Authorities msg = [] \<and> r3 = None
      | Some m \<Rightarrow> decode_many decodeRecord (Truncated (msg_Header msg)) (unat (AuthorityCount (msg_Header msg))) m [] =
          Inr (Authorities msg, r3)"
    and "case r3 of None \<Rightarrow> Additional msg = [] \<and> r4 = None
      | Some m \<Rightarrow> decode_many decodeRecord (Truncated (msg_Header msg)) (unat (AdditionalCount (msg_Header msg))) m [] =
          Inr (Additional msg, r4)"
    and "case r4 of None \<Rightarrow> True | Some m \<Rightarrow> m_Remaining m = 0"
proof -
  note d = assms [unfolded DecodeMessage_def Let_def]
  note simps = bindE_eq_Inr_iff
  obtain h m0 q r1 where q: "decodeHeader (newMessageReader bs) = Inr (h, m0)"
    "decode_many decodeQuestion (Truncated h) (unat (QuestionCount h)) m0 [] = Inr (q, r1)"
    using d by (auto simp: simps)
  show ?thesis
  proof (cases r1)
    case None
    then show ?thesis using d q by (intro that [of m0 r1 None None None]) (auto simp: simps)
  next
    case r1: (Some m1)
    then obtain an r2 where an: "decode_many decodeRecord (Truncated h) (unat (AnswerCount h)) m1 [] = Inr (an, r2)"
      using d q by (auto simp: simps)
    show ?thesis
    proof (cases r2)
      case None
      then show ?thesis using d q r1 an by (intro that [of m0 r1 r2 None None]) (auto simp: simps)
    next
      case r2: (Some m2)
      then obtain au r3 where au: "decode_many decodeRecord (Truncated h) (unat (AuthorityCount h)) m2 [] = Inr (au, r3)"
        using d q r1 an by (auto simp: simps)
      show ?thesis
      proof (cases r3)
        case None
        then show ?thesis using d q r1 an r2 au by (intro that [of m0 r1 r2 r3 None]) (auto simp: simps)
      next
        case r3: (Some m3)
        then obtain ad r4 where "decode_many decodeRecord (Truncated h) (unat (AdditionalCount h)) m3 [] = Inr (ad, r4)"
          using d q r1 an r2 au by (auto simp: simps)
        then show ?thesis using d q r1 an r2 au r3
          by (intro that [of m0 r1 r2 r3 r4]) (auto simp: simps split: option.splits if_splits)
      qed
    qed
  qed
qed

lemma DecodeMessage_ok:
  assumes "DecodeMessage bs = Inr msg"
  shows "list_all question_ok (Questions msg) \<and> list_all record_ok (Records msg) \<and>
    header_view (msg_Header msg) = msg_Header msg \<and>
    (Truncated (msg_Header msg) \<or>
      length (Questions msg) = unat (QuestionCount (msg_Header msg)) \<and>
      length (Answers msg) = unat (AnswerCount (msg_Header msg)) \<and>
      length (Authorities msg) = unat (AuthorityCount (msg_Header msg)) \<and>
      length (Additional msg) = unat (AdditionalCount (msg_Header msg)) \<and>
      (Records msg = [] \<or> rdata (last (Records msg)) \<noteq> []))"
proof -
  let ?h = "msg_Header msg"
  have qs: "\<exists>zs. ys = [] @ zs \<and> list_all question_ok ys \<and>
      (case r of None \<Rightarrow> tr | Some m' \<Rightarrow> length zs = n \<and> reader_ok m')"
    if "decode_many decodeQuestion tr n m [] = Inr (ys, r)" "reader_ok m" for tr n m ys r
    using decode_questions_ok [OF _ that] decodeQuestion_ok by (fastforce split: option.splits)
  have rs: "\<exists>zs. ys = [] @ zs \<and> list_all record_ok ys \<and>
      (case r of None \<Rightarrow> tr
       | Some m' \<Rightarrow> length zs = n \<and> reader_ok m' \<and> (zs = [] \<longrightarrow> m' = m) \<and>
           (zs \<noteq> [] \<and> rdata (last zs) = [] \<longrightarrow> m_Remaining m' \<noteq> 0))"
    if "decode_many decodeRecord tr n m [] = Inr (ys, r)" "reader_ok m" for tr n m ys r
    by (rule decode_records_ok [OF _ that]) (use decodeRecord_ok in auto)
  obtain m0 r1 r2 r3 r4 where h: "decodeHeader (newMessageReader bs) = Inr (?h, m0)"
    and q: "decode_many decodeQuestion (Truncated ?h) (unat (QuestionCount ?h)) m0 [] = Inr (Questions msg, r1)"
    and an: "case r1 of None \<Rightarrow> Answers msg = [] \<and> r2 = None
      | Some m \<Rightarrow> decode_many decodeRecord (Truncated ?h) (unat (AnswerCount ?h)) m [] = Inr (Answers msg, r2)"
    and au: "case r2 of None \<Rightarrow> Authorities msg = [] \<and> r3 = None
      | Some m \<Rightarrow> decode_many decodeRecord (Truncated ?h) (unat (AuthorityCount ?h)) m [] = Inr (Authorities msg, r3)"
    and ad: "case r3 of None \<Rightarrow> Additional msg = [] \<and> r4 = None
      | Some m \<Rightarrow> decode_many decodeRecord (Truncated ?h) (unat (AdditionalCount ?h)) m [] = Inr (Additional msg, r4)"
    and rem: "case r4 of None \<Rightarrow> True | Some m \<Rightarrow> m_Remaining m = 0"
    by (rule DecodeMessage_sections [OF assms])
  have h0: "reader_ok m0" "header_view ?h = ?h" using decodeHeader_ok [OF h] by simp_all
  note Q = qs [OF q h0(1)]
  show ?thesis
  proof (cases r1)
    case None
    then show ?thesis using Q h0 an au ad by (simp add: Records_def)
  next
    case m1: (Some m1)
    note A = rs [OF an [unfolded m1 option.case]]
    show ?thesis
    proof (cases r2)
      case None
      then show ?thesis using Q A m1 h0 au ad by (simp add: Records_def)
    next
      case m2: (Some m2)
      note U = rs [OF au [unfolded m2 option.case]]
      show ?thesis
      proof (cases r3)
        case None
        then show ?thesis using Q A U m1 m2 h0 ad by (simp add: Records_def)
      next
        case m3: (Some m3)
        note D = rs [OF ad [unfolded m3 option.case]]
        show ?thesis using Q A U D m1 m2 m3 h0 rem
          by (cases r4; cases "Additional msg = []"; cases "Authorities msg = []"; cases "Answers msg = []")
            (auto simp: Records_def)
      qed
    qed
  qed
qed

section \<open>Reading back what was decoded\<close>

text \<open>A message whose sections may be shorter than its header says is what is left of one that has them all:
  sections are padded, and the padding is cut off again.\<close>

lemma whole_padded:
  assumes "\<And>x. f x \<noteq> []" and "ys \<noteq> [] \<Longrightarrow> j = 0" and "j = 0 \<Longrightarrow> xs = [] \<or> \<not> oe (last xs)"
  shows "whole f oe (length (all_bytes f xs) + j) (xs @ ys) = xs"
    and "length (all_bytes f xs) + j - length (all_bytes f (xs @ ys)) = j"
proof -
  show "whole f oe (length (all_bytes f xs) + j) (xs @ ys) = xs"
    using assms(2,3)
  proof (induction xs)
    case Nil
    then show ?case using assms(1) by (cases ys) auto
  next
    case (Cons x xs)
    have "\<not> (length (f x) + length (all_bytes f xs) + j \<le> length (f x) \<and> oe x)"
      using Cons.prems(2) assms(1) by (cases xs) auto
    moreover have "whole f oe (length (all_bytes f xs) + j) (xs @ ys) = xs"
      using Cons.prems by (intro Cons.IH) (auto split: if_splits)
    ultimately show ?case by (auto simp: add.assoc)
  qed
  show "length (all_bytes f xs) + j - length (all_bytes f (xs @ ys)) = j"
    using assms(2) by (cases "ys = []") (auto simp: all_bytes_def)
qed

lemma take_padded: "q = [] \<or> j = 0 \<Longrightarrow> take (length p + j) ((p @ q) @ r) = p @ take j r"
  by auto

definition pad_question :: Question where
  "pad_question = \<lparr>q_Domain = [], q_Type = 0, q_Class = 0\<rparr>"

definition pad_record :: Record where
  "pad_record = Generic \<lparr>NameValue = [], TypeValue = 0, ClassValue = 0, TTLValue = 0, DataValue = []\<rparr>"

definition padded :: "Message \<Rightarrow> Message" where
  "padded msg = (let h = msg_Header msg in msg\<lparr>
     Questions := Questions msg @ replicate (unat (QuestionCount h) - length (Questions msg)) pad_question,
     Answers := Answers msg @ replicate (unat (AnswerCount h) - length (Answers msg)) pad_record,
     Authorities := Authorities msg @ replicate (unat (AuthorityCount h) - length (Authorities msg)) pad_record,
     Additional := Additional msg @ replicate (unat (AdditionalCount h) - length (Additional msg)) pad_record\<rparr>)"

text \<open>No section has more than the header says, and behind one that has less there is nothing.\<close>

definition counts_cut :: "Message \<Rightarrow> bool" where
  "counts_cut msg \<longleftrightarrow> (let h = msg_Header msg in
     length (Questions msg) \<le> unat (QuestionCount h) \<and> length (Answers msg) \<le> unat (AnswerCount h) \<and>
     length (Authorities msg) \<le> unat (AuthorityCount h) \<and> length (Additional msg) \<le> unat (AdditionalCount h) \<and>
     (length (Questions msg) < unat (QuestionCount h) \<longrightarrow> Records msg = []) \<and>
     (length (Answers msg) < unat (AnswerCount h) \<longrightarrow> Authorities msg = [] \<and> Additional msg = []) \<and>
     (length (Authorities msg) < unat (AuthorityCount h) \<longrightarrow> Additional msg = []))"

lemma decode_many_length:
  "decode_many dec tr n m xs = Inr (ys, r) \<Longrightarrow>
     length ys \<le> length xs + n \<and> (r \<noteq> None \<longrightarrow> length ys = length xs + n)"
proof (induction n arbitrary: m xs)
  case (Suc n)
  then show ?case by (fastforce split: sum.splits if_splits)
qed auto

lemma DecodeMessage_counts:
  assumes "DecodeMessage bs = Inr msg"
  shows "counts_cut msg"
proof -
  let ?h = "msg_Header msg"
  obtain m0 r1 r2 r3 r4 where h: "decodeHeader (newMessageReader bs) = Inr (?h, m0)"
    and q: "decode_many decodeQuestion (Truncated ?h) (unat (QuestionCount ?h)) m0 [] = Inr (Questions msg, r1)"
    and an: "case r1 of None \<Rightarrow> Answers msg = [] \<and> r2 = None
      | Some m \<Rightarrow> decode_many decodeRecord (Truncated ?h) (unat (AnswerCount ?h)) m [] = Inr (Answers msg, r2)"
    and au: "case r2 of None \<Rightarrow> Authorities msg = [] \<and> r3 = None
      | Some m \<Rightarrow> decode_many decodeRecord (Truncated ?h) (unat (AuthorityCount ?h)) m [] = Inr (Authorities msg, r3)"
    and ad: "case r3 of None \<Rightarrow> Additional msg = [] \<and> r4 = None
      | Some m \<Rightarrow> decode_many decodeRecord (Truncated ?h) (unat (AdditionalCount ?h)) m [] = Inr (Additional msg, r4)"
    by (rule DecodeMessage_sections [OF assms])
  note q' = decode_many_length [OF q]
  have an': "length (Answers msg) \<le> unat (AnswerCount ?h) \<and> (r2 \<noteq> None \<longrightarrow> length (Answers msg) = unat (AnswerCount ?h))
      \<and> (r1 = None \<longrightarrow> Answers msg = [] \<and> r2 = None)"
    using an decode_many_length [of decodeRecord] by (fastforce split: option.splits)
  have au': "length (Authorities msg) \<le> unat (AuthorityCount ?h) \<and>
      (r3 \<noteq> None \<longrightarrow> length (Authorities msg) = unat (AuthorityCount ?h)) \<and> (r2 = None \<longrightarrow> Authorities msg = [] \<and> r3 = None)"
    using au decode_many_length [of decodeRecord] by (fastforce split: option.splits)
  have ad': "length (Additional msg) \<le> unat (AdditionalCount ?h) \<and> (r3 = None \<longrightarrow> Additional msg = [])"
    using ad decode_many_length [of decodeRecord] by (fastforce split: option.splits)
  have "r1 = None" if "length (Questions msg) < unat (QuestionCount ?h)" using q' that by fastforce
  moreover have "r2 = None" if "length (Answers msg) < unat (AnswerCount ?h)" using an' that by fastforce
  moreover have "r3 = None" if "length (Authorities msg) < unat (AuthorityCount ?h)" using au' that by fastforce
  ultimately show ?thesis using q' an' au' ad' by (auto simp: counts_cut_def Let_def Records_def)
qed

lemma padded_header [simp]: "msg_Header (padded msg) = msg_Header msg"
  by (simp add: padded_def Let_def)

lemma bytes_nonempty [simp]: "question_bytes q \<noteq> []" "record_bytes r \<noteq> []"
  by (simp_all add: question_bytes_def record_bytes_def)

lemma padded_typed:
  assumes "counts_cut msg" and "\<forall>r \<in> set (Records msg). record_typed r"
  shows "message_typed (padded msg)"
proof -
  have l: "length (Questions (padded msg)) = unat (QuestionCount (msg_Header msg))"
    "length (Answers (padded msg)) = unat (AnswerCount (msg_Header msg))"
    "length (Authorities (padded msg)) = unat (AuthorityCount (msg_Header msg))"
    "length (Additional (padded msg)) = unat (AdditionalCount (msg_Header msg))"
    using assms(1) by (simp_all add: counts_cut_def padded_def Let_def)
  have "unat (n :: u16) < 65536" for n using unsigned_less [where 'a = nat, of n] by simp
  moreover have "AutoFill (padded msg) = padded msg" by (cases "padded msg") (use l padded_header [of msg] in \<open>simp add: AutoFill_def\<close>)
  moreover have "\<forall>r \<in> set (Records (padded msg)). record_typed r"
    using assms(2) by (auto simp: padded_def Let_def Records_def pad_record_def record_types)
  ultimately show ?thesis by (simp add: message_typed_def l)
qed

lemma padded_names: "message_names msg \<Longrightarrow> message_names (padded msg)"
  by (auto simp: message_names_def padded_def Let_def list_all_iff pad_record_def pad_question_def question_ok_def valid_name_def)

lemma padded_kept:
  assumes cut: "counts_cut msg" and last: "Records msg = [] \<or> rdata (last (Records msg)) \<noteq> []"
  shows "kept (length (message_bytes msg)) (padded msg) = msg"
    and "take (length (message_bytes msg)) (message_bytes (padded msg)) = message_bytes msg"
proof -
  let ?B = "all_bytes record_bytes"
  define q where "q = replicate (unat (QuestionCount (msg_Header msg)) - length (Questions msg)) pad_question"
  define an where "an = replicate (unat (AnswerCount (msg_Header msg)) - length (Answers msg)) pad_record"
  define au where "au = replicate (unat (AuthorityCount (msg_Header msg)) - length (Authorities msg)) pad_record"
  define ad where "ad = replicate (unat (AdditionalCount (msg_Header msg)) - length (Additional msg)) pad_record"
  have p: "padded msg = msg\<lparr>Questions := Questions msg @ q, Answers := Answers msg @ an,
      Authorities := Authorities msg @ au, Additional := Additional msg @ ad\<rparr>"
    by (simp add: padded_def Let_def q_def an_def au_def ad_def)
  define j3 where "j3 = length (?B (Additional msg))"
  define j2 where "j2 = length (?B (Authorities msg)) + j3"
  define j1 where "j1 = length (?B (Answers msg)) + j2"
  have none: "?B rs = [] \<longleftrightarrow> rs = []" for rs by (cases rs) simp_all
  have pads: "q \<noteq> [] \<Longrightarrow> j1 = 0" "an \<noteq> [] \<Longrightarrow> j2 = 0" "au \<noteq> [] \<Longrightarrow> j3 = 0"
    using cut by (auto simp: counts_cut_def Let_def Records_def q_def an_def au_def j1_def j2_def j3_def)
  have lasts: "j2 = 0 \<Longrightarrow> Answers msg = [] \<or> \<not> rdata (last (Answers msg)) = []"
    "j3 = 0 \<Longrightarrow> Authorities msg = [] \<or> \<not> rdata (last (Authorities msg)) = []"
    "Additional msg = [] \<or> \<not> rdata (last (Additional msg)) = []"
    using last by (auto simp: Records_def j2_def j3_def none)
  note wq = whole_padded [where f = question_bytes and oe = "\<lambda>q. False" and xs = "Questions msg" and ys = q and j = j1]
  note wr = whole_padded [where f = record_bytes and oe = "\<lambda>r. rdata r = []"]
  have len: "length (message_bytes msg) = 12 + (length (all_bytes question_bytes (Questions msg)) + j1)"
    by (simp add: message_bytes_def j1_def j2_def j3_def)
  have "whole_questions (length (all_bytes question_bytes (Questions msg)) + j1) (Questions msg @ q) = Questions msg"
    "length (all_bytes question_bytes (Questions msg)) + j1 - length (all_bytes question_bytes (Questions msg @ q)) = j1"
    using wq pads by simp_all
  moreover have "whole_records j1 (Answers msg @ an) = Answers msg" "j1 - length (?B (Answers msg @ an)) = j2"
    unfolding j1_def using wr [of an j2 "Answers msg"] pads lasts by simp_all
  moreover have "whole_records j2 (Authorities msg @ au) = Authorities msg" "j2 - length (?B (Authorities msg @ au)) = j3"
    unfolding j2_def using wr [of au j3 "Authorities msg"] pads lasts by simp_all
  moreover have "whole_records j3 (Additional msg @ ad) = Additional msg"
    unfolding j3_def using wr(1) [of ad 0 "Additional msg"] lasts by simp
  ultimately show "kept (length (message_bytes msg)) (padded msg) = msg"
    unfolding kept_def Let_def len p by simp
  have app: "all_bytes f (xs @ ys) = all_bytes f xs @ all_bytes f ys" for f :: "'c \<Rightarrow> bytes" and xs ys
    by (simp add: all_bytes_def)
  have empty: "all_bytes f xs = [] \<or> j = 0" if "xs \<noteq> [] \<Longrightarrow> j = 0" for f :: "'c \<Rightarrow> bytes" and xs j
    using that by (cases "xs = []") simp_all
  have "take j3 (?B (Additional msg @ ad)) = ?B (Additional msg)" by (simp add: app j3_def)
  moreover have "take j2 (?B (Authorities msg @ au) @ r) = ?B (Authorities msg) @ take j3 r" for r
    unfolding app j2_def by (rule take_padded [OF empty]) (rule pads)
  moreover have "take j1 (?B (Answers msg @ an) @ r) = ?B (Answers msg) @ take j2 r" for r
    unfolding app j1_def by (rule take_padded [OF empty]) (rule pads)
  moreover have "take (length (all_bytes question_bytes (Questions msg)) + j1)
      (all_bytes question_bytes (Questions msg @ q) @ r) = all_bytes question_bytes (Questions msg) @ take j1 r" for r
    unfolding app by (rule take_padded [OF empty]) (rule pads)
  moreover have "take (12 + n) (header_bytes (msg_Header msg) @ r) = header_bytes (msg_Header msg) @ take n r" for n r
    by simp
  ultimately show "take (length (message_bytes msg)) (message_bytes (padded msg)) = message_bytes msg"
    unfolding len p by (simp add: message_bytes_def del: take_append)
qed

lemma decoded_read_back:
  assumes "message_names msg" and "\<forall>r \<in> set (Records msg). record_typed r" and "counts_cut msg"
    and "Records msg = [] \<or> rdata (last (Records msg)) \<noteq> []"
    and "Truncated (msg_Header msg) \<or> padded msg = msg"
  shows "DecodeMessage (message_bytes msg) = Inr (decoded_message msg)"
proof -
  note full = padded_kept [OF assms(3,4)]
  have "length (message_bytes msg) \<le> length (message_bytes (padded msg))"
    using full(2) by (metis length_take min.cobounded1)
  moreover have "12 \<le> length (message_bytes msg)" by (simp add: message_bytes_def)
  ultimately show ?thesis
    using DecodeMessage_take [OF padded_names [OF assms(1)] padded_typed [OF assms(3,2)], of "length (message_bytes msg)"]
      full assms(5) by auto
qed

lemma complete_counts:
  assumes "length (Questions msg) = unat (QuestionCount (msg_Header msg))"
    and "length (Answers msg) = unat (AnswerCount (msg_Header msg))"
    and "length (Authorities msg) = unat (AuthorityCount (msg_Header msg))"
    and "length (Additional msg) = unat (AdditionalCount (msg_Header msg))"
  shows "counts_cut msg" and "padded msg = msg" and "AutoFill msg = msg"
  using assms by (simp_all add: counts_cut_def padded_def AutoFill_def Let_def)

section \<open>Properties\<close>

text \<open>C15: What \<open>DecodeMessage\<close> accepts, whatever the bytes.  The names of the message are valid, so that it can be
  encoded, and each record has the type code of its kind and data of the right size.  No section has more than the
  header announces; one with less, which only a message that is flagged as truncated has, is the last with anything in it.
  What \<open>Encode\<close> makes of the message is read back as the same message, with the raw data of names and SOA records as
  they are without compression, unless its last record has no data; without the flag, the last record always has data.\<close>

theorem decoded_message_typed:
  assumes "DecodeMessage bs = Inr msg"
  shows "message_names msg \<and> (\<forall>r \<in> set (Records msg). record_typed r) \<and>
    Encode msg = Inr (message_bytes msg) \<and> counts_cut msg \<and>
    (Records msg = [] \<or> rdata (last (Records msg)) \<noteq> [] \<longrightarrow>
       DecodeMessage (message_bytes msg) = Inr (decoded_message msg)) \<and>
    msg_Header (decoded_message msg) = msg_Header msg \<and> Questions (decoded_message msg) = Questions msg \<and>
    (\<not> Truncated (msg_Header msg) \<longrightarrow>
       message_typed msg \<and> (Records msg = [] \<or> rdata (last (Records msg)) \<noteq> []))"
proof -
  note ok = DecodeMessage_ok [OF assms]
  have r: "\<forall>r \<in> set (Records msg). record_typed r \<and> record_names r"
    using ok by (auto simp: list_all_iff record_ok_def)
  then have names: "message_names msg"
    using ok by (auto simp: message_names_def Records_def list_all_iff)
  have cut: "counts_cut msg" using DecodeMessage_counts [OF assms] .
  have full: "padded msg = msg \<and> AutoFill msg = msg \<and> length (Questions msg) < 65536 \<and>
      length (Answers msg) < 65536 \<and> length (Authorities msg) < 65536 \<and> length (Additional msg) < 65536"
    if "\<not> Truncated (msg_Header msg)"
    using complete_counts [of msg] ok that by simp
  have "DecodeMessage (message_bytes msg) = Inr (decoded_message msg)"
    if "Records msg = [] \<or> rdata (last (Records msg)) \<noteq> []"
    by (rule decoded_read_back [OF names _ cut that]) (use r full in blast)+
  moreover have "message_typed msg \<and> (Records msg = [] \<or> rdata (last (Records msg)) \<noteq> [])"
    if "\<not> Truncated (msg_Header msg)"
    using full [OF that] r ok that by (simp add: message_typed_def)
  ultimately show ?thesis using names r Encode_eq [OF names] cut ok by (auto simp: decoded_message_def)
qed

text \<open>A response whose answer has its name as a pointer to the question, and an address, and one of which only the
  header and the flag of truncation are left.\<close>

definition compressed_response :: bytes where
  "compressed_response = [0, 7, 0x84, 0, 0, 1, 0, 1, 0, 0, 0, 0, 1, 97, 0, 0, 1, 0, 1,
     0xc0, 12, 0, 1, 0, 1, 0, 0, 0, 30, 0, 4, 10, 0, 0, 7]"

definition header_left :: bytes where
  "header_left = [0, 7, 0x86, 0, 0, 1, 0, 1, 0, 0, 0, 0]"

theorem decoded_message_typed_witness:
  "(\<exists>msg. DecodeMessage compressed_response = Inr msg \<and> length (Answers msg) = 1 \<and> message_typed msg \<and>
     DecodeMessage (message_bytes msg) = Inr (decoded_message msg)) \<and>
   (\<exists>msg. DecodeMessage header_left = Inr msg \<and> Questions msg = [] \<and> QuestionCount (msg_Header msg) = 1 \<and>
     DecodeMessage (message_bytes msg) = Inr (decoded_message msg))"
proof -
  have "(case DecodeMessage compressed_response of Inl e \<Rightarrow> False
      | Inr msg \<Rightarrow> length (Answers msg) = 1 \<and> \<not> Truncated (msg_Header msg))"
    by code_simp
  then obtain msg where "DecodeMessage compressed_response = Inr msg" "length (Answers msg) = 1"
    "\<not> Truncated (msg_Header msg)"
    by (auto split: sum.splits)
  then have "DecodeMessage compressed_response = Inr msg \<and> length (Answers msg) = 1 \<and> message_typed msg \<and>
     DecodeMessage (message_bytes msg) = Inr (decoded_message msg)"
    using decoded_message_typed [of compressed_response msg] by blast
  moreover have "(case DecodeMessage header_left of Inl e \<Rightarrow> False
      | Inr msg \<Rightarrow> Questions msg = [] \<and> Records msg = [] \<and> QuestionCount (msg_Header msg) = 1)"
    by code_simp
  then obtain cut where "DecodeMessage header_left = Inr cut" "Questions cut = []" "Records cut = []"
    "QuestionCount (msg_Header cut) = 1"
    by (auto split: sum.splits)
  then have "DecodeMessage header_left = Inr cut \<and> Questions cut = [] \<and> QuestionCount (msg_Header cut) = 1 \<and>
     DecodeMessage (message_bytes cut) = Inr (decoded_message cut)"
    using decoded_message_typed [of header_left cut] by blast
  ultimately show ?thesis by blast
qed

end
