(* ===== verification/DNS_Server.thy ===== *)
theory DNS_Server
  imports DNS_Decoded
begin

text \<open>
  The server of \<open>examples/dns_server/main.go\<close>: its loop over datagrams, and the goroutines that forward
  what no rule answers.  The rules are given, as is the answer of the upstream server (or none, when the
  dial or the read fails or ten seconds are over); addresses are of any type.
\<close>

section \<open>One datagram\<close>

text \<open>The bytes that are written to the socket; an encoding error is logged.\<close>

definition SendResponse :: "Message \<Rightarrow> bytes option" where
  "SendResponse resp = (case Encode resp of Inl err \<Rightarrow> None | Inr encoded \<Rightarrow> Some encoded)"

text \<open>\<open>None\<close>: the packet is forwarded.\<close>

definition answer_packet :: "(string \<Rightarrow> bytes option) \<Rightarrow> bytes \<Rightarrow> bytes option option" where
  "answer_packet rules packet =
     (case DecodeMessage packet of
        Inl err \<Rightarrow> None
      | Inr parsed \<Rightarrow> (case RuleResponse rules parsed of None \<Rightarrow> None | Some resp \<Rightarrow> Some (SendResponse resp)))"

section \<open>The server\<close>

text \<open>\<open>ds_forwarding\<close> are the goroutines of \<open>ForwardMessage\<close>, and \<open>ds_log\<close> the packets that are done with, with what
  was sent to the address that they came from.\<close>

record 'a dns_server =
  ds_asked :: "(bytes \<times> 'a) list"
  ds_forwarding :: "(bytes \<times> 'a) list"
  ds_log :: "(bytes \<times> 'a \<times> bytes option) list"

datatype 'a dns_event = Datagram bytes 'a | UpstreamAnswer nat "bytes option"

definition dns_start :: "'a dns_server" where
  "dns_start = \<lparr>ds_asked = [], ds_forwarding = [], ds_log = []\<rparr>"

text \<open>An iteration of the loop of \<open>main\<close>.\<close>

definition receive_datagram :: "(string \<Rightarrow> bytes option) \<Rightarrow> 'a dns_server \<Rightarrow> bytes \<Rightarrow> 'a \<Rightarrow> 'a dns_server" where
  "receive_datagram rules s datagram addr = (
     let packet = take 4096 datagram;
         s = s\<lparr>ds_asked := ds_asked s @ [(packet, addr)]\<rparr>
     in case answer_packet rules packet of
          Some sent \<Rightarrow> s\<lparr>ds_log := ds_log s @ [(packet, addr, sent)]\<rparr>
        | None \<Rightarrow> s\<lparr>ds_forwarding := ds_forwarding s @ [(packet, addr)]\<rparr>)"

text \<open>The end of the \<open>i\<close>-th \<open>ForwardMessage\<close>.\<close>

definition ForwardMessage :: "'a dns_server \<Rightarrow> nat \<Rightarrow> bytes option \<Rightarrow> 'a dns_server" where
  "ForwardMessage s i answer =
     (if i < length (ds_forwarding s) then
        let (packet, addr) = ds_forwarding s ! i
        in s\<lparr>ds_forwarding := take i (ds_forwarding s) @ drop (Suc i) (ds_forwarding s),
             ds_log := ds_log s @ [(packet, addr, case answer of None \<Rightarrow> None | Some response \<Rightarrow> Some (take 4096 response))]\<rparr>
      else s)"

definition dns_step :: "(string \<Rightarrow> bytes option) \<Rightarrow> 'a dns_event \<Rightarrow> 'a dns_server \<Rightarrow> 'a dns_server" where
  "dns_step rules e s =
     (case e of Datagram d addr \<Rightarrow> receive_datagram rules s d addr | UpstreamAnswer i answer \<Rightarrow> ForwardMessage s i answer)"

section \<open>Properties\<close>

definition log_ok :: "(string \<Rightarrow> bytes option) \<Rightarrow> 'a dns_event list \<Rightarrow> bytes \<times> 'a \<times> bytes option \<Rightarrow> bool" where
  "log_ok rules es entry = (case entry of (packet, addr, sent) \<Rightarrow>
     answer_packet rules packet = Some sent \<or>
     answer_packet rules packet = None \<and>
       (\<forall>r. sent = Some r \<longrightarrow> (\<exists>i response. UpstreamAnswer i (Some response) \<in> set es \<and> r = take 4096 response)))"

definition dns_inv :: "(string \<Rightarrow> bytes option) \<Rightarrow> 'a dns_event list \<Rightarrow> 'a dns_server \<Rightarrow> bool" where
  "dns_inv rules es s \<longleftrightarrow>
     mset (ds_asked s) = mset (ds_forwarding s) + mset (map (\<lambda>(packet, addr, sent). (packet, addr)) (ds_log s)) \<and>
     (\<forall>(packet, addr) \<in> set (ds_forwarding s). answer_packet rules packet = None) \<and>
     (\<forall>entry \<in> set (ds_log s). log_ok rules es entry)"

lemma dns_inv_step:
  assumes "dns_inv rules es s"
  shows "dns_inv rules (es @ [e]) (dns_step rules e s)"
proof -
  have mono: "log_ok rules (es @ [e]) entry" if "log_ok rules es entry" for entry
    using that by (fastforce simp: log_ok_def split: prod.splits)
  show ?thesis
  proof (cases e)
    case (Datagram d addr)
    then show ?thesis using assms mono
      by (cases "answer_packet rules (take 4096 d)")
        (auto simp: dns_inv_def dns_step_def receive_datagram_def Let_def log_ok_def)
  next
    case (UpstreamAnswer i answer)
    show ?thesis
    proof (cases "i < length (ds_forwarding s)")
      case True
      obtain packet addr where x: "ds_forwarding s ! i = (packet, addr)" by (cases "ds_forwarding s ! i")
      have split: "ds_forwarding s = take i (ds_forwarding s) @ (packet, addr) # drop (Suc i) (ds_forwarding s)"
        using True x id_take_nth_drop by metis
      have "mset (ds_forwarding s) =
          add_mset (packet, addr) (mset (take i (ds_forwarding s) @ drop (Suc i) (ds_forwarding s)))"
        by (subst split) simp
      moreover have "set (take i (ds_forwarding s) @ drop (Suc i) (ds_forwarding s)) \<subseteq> set (ds_forwarding s)"
        using set_take_subset set_drop_subset by fastforce
      moreover have "(packet, addr) \<in> set (ds_forwarding s)" using True x nth_mem by metis
      ultimately show ?thesis using assms mono UpstreamAnswer True x
        by (auto simp: dns_inv_def dns_step_def ForwardMessage_def log_ok_def split: option.splits)
    qed (use assms mono UpstreamAnswer in \<open>simp add: dns_inv_def dns_step_def ForwardMessage_def\<close>)
  qed
qed

lemma dns_inv_run: "dns_inv rules es (fold (dns_step rules) es dns_start)"
proof (induction es rule: rev_induct)
  case Nil
  show ?case by (simp add: dns_inv_def dns_start_def)
qed (simp add: dns_inv_step)

text \<open>The books of the server: every packet it has received is being forwarded or is done with, exactly once, and
  what it sends for a packet goes to the address that the packet came from; that is the answer of the rules
  when they have one, and otherwise bytes that the upstream server has answered.\<close>

theorem dns_server_accounts:
  "let s = fold (dns_step rules) es dns_start in
     mset (ds_asked s) = mset (ds_forwarding s) + mset (map (\<lambda>(packet, addr, sent). (packet, addr)) (ds_log s)) \<and>
     (\<forall>(packet, addr) \<in> set (ds_forwarding s). answer_packet rules packet = None) \<and>
     (\<forall>entry \<in> set (ds_log s). log_ok rules es entry)"
  using dns_inv_run [of rules es] by (simp add: dns_inv_def Let_def)

theorem dns_server_accounts_witness:
  "let s = fold (dns_step (\<lambda>name. None)) [Datagram [1] (8 :: nat), UpstreamAnswer 0 (Some [2])] dns_start in
     ds_log s = [([1], 8, Some [2])] \<and> log_ok (\<lambda>name. None) [Datagram [1] (8 :: nat), UpstreamAnswer 0 (Some [2])] ([1], 8, Some [2])"
proof -
  let ?es = "[Datagram [1] (8 :: nat), UpstreamAnswer 0 (Some [2])]"
  have "ds_log (fold (dns_step (\<lambda>name. None)) ?es dns_start) = [([1], 8, Some [2])]" by code_simp
  then show ?thesis using dns_server_accounts [of "\<lambda>name. None" ?es] by (simp add: Let_def del: fold.simps)
qed

text \<open>A query for an address whose name, in lower case, has a rule is answered at once: the datagram that goes to the
  asker decodes to a response with the identifier of the query, its question, no error, and one A record with
  the address of the rule; nothing is forwarded.\<close>

theorem dns_query_answered:
  assumes "Validate d = Inr ()" and "rules (map lower_char (DomainName_String d)) = Some ip"
    and "To4 ip = Some a" and "query = (QueryMessage d RecordTypeA recursive)\<lparr>msg_Header :=
      (msg_Header (QueryMessage d RecordTypeA recursive))\<lparr>Identifier := ident\<rparr>\<rparr>"
  shows "\<exists>q bs ans. Encode query = Inr q \<and>
    dns_step rules (Datagram q addr) s =
      s\<lparr>ds_asked := ds_asked s @ [(q, addr)], ds_log := ds_log s @ [(q, addr, Some bs)]\<rparr> \<and>
    length bs \<le> 4096 \<and> DecodeMessage bs = Inr ans \<and>
    Identifier (msg_Header ans) = ident \<and> IsResponse (msg_Header ans) \<and>
    ResponseCode (msg_Header ans) = 0 \<and> Questions ans = Questions query \<and>
    Records ans = [ARecord \<lparr>NameValue = d, TypeValue = RecordTypeA, ClassValue = RecordClassIN,
      TTLValue = 30, DataValue = a\<rparr>]"
proof -
  obtain q msg resp bs ans where q: "Encode query = Inr q" "DecodeMessage q = Inr msg"
    "RuleResponse rules msg = Some resp" "Encode resp = Inr bs"
    "length bs \<le> 4096" "DecodeMessage bs = Inr ans"
    "Identifier (msg_Header ans) = ident" "IsResponse (msg_Header ans)"
    "ResponseCode (msg_Header ans) = 0" "Questions ans = Questions query"
    "Records ans = [ARecord \<lparr>NameValue = d, TypeValue = RecordTypeA, ClassValue = RecordClassIN,
      TTLValue = 30, DataValue = a\<rparr>]"
    using rule_server_answers [where rules = rules, OF assms] by blast
  have "wire_length d \<le> 255" using assms(1) by (simp add: Validate_iff valid_name_def)
  then have "length q \<le> 4096"
    using Encode_Inr [OF q(1)] by (simp add: message_bytes_def question_bytes_def assms(4) QueryMessage_def)
  then have "dns_step rules (Datagram q addr) s =
      s\<lparr>ds_asked := ds_asked s @ [(q, addr)], ds_log := ds_log s @ [(q, addr, Some bs)]\<rparr>"
    using q(2-4) by (simp add: dns_step_def receive_datagram_def answer_packet_def SendResponse_def Let_def)
  then show ?thesis using q by blast
qed

theorem dns_query_answered_witness:
  "\<exists>q bs ans. Encode (QueryMessage [''a'', ''com''] RecordTypeA True) = Inr q \<and>
    dns_step [''a.com'' \<mapsto> [10, 0, 0, 7]] (Datagram q (1 :: nat)) dns_start =
      \<lparr>ds_asked = [(q, 1)], ds_forwarding = [], ds_log = [(q, 1, Some bs)]\<rparr> \<and>
    DecodeMessage bs = Inr ans \<and> length (Records ans) = 1"
proof -
  have v: "Validate [''a'', ''com''] = Inr ()" using valid_example by (simp add: Validate_iff)
  have "map lower_char (DomainName_String [''a'', ''com'']) = ''a.com''" by code_simp
  then have rule: "[''a.com'' \<mapsto> [10, 0, 0, 7 :: byte]] (map lower_char (DomainName_String [''a'', ''com''])) =
      Some [10, 0, 0, 7]" by simp
  have query: "QueryMessage [''a'', ''com''] RecordTypeA True =
      (QueryMessage [''a'', ''com''] RecordTypeA True)\<lparr>msg_Header :=
        (msg_Header (QueryMessage [''a'', ''com''] RecordTypeA True))\<lparr>Identifier := 0\<rparr>\<rparr>"
    by (simp add: QueryMessage_def)
  have "To4 [10, 0, 0, 7] = Some [10, 0, 0, 7]" by simp
  from dns_query_answered [where rules = "[''a.com'' \<mapsto> [10, 0, 0, 7]]", OF v rule this query, of "1 :: nat" dns_start]
  show ?thesis by (auto simp: dns_start_def)
qed

end
