(* ===== verification/DNS_Lookup.thy ===== *)
theory DNS_Lookup
  imports DNS_Server
begin

text \<open>
  The client of \<open>examples/dns_lookup/main.go\<close> and the rule file of \<open>examples/dns_server/main.go\<close>, which
  together with \<open>DNS_Server\<close> make a lookup from the command line to the printed records.
  \<open>encoding/csv\<close> has read the rules into \<open>records\<close>, and \<open>net.ParseIP\<close> is a parameter; the sockets' results
  are given call by call.
\<close>

section \<open>The rules\<close>

text \<open>\<open>essentials.Die\<close> and \<open>essentials.Must\<close> end the program.  \<open>Inl\<close> is the text that is no IPv4 address.\<close>

fun ReadRules_loop ::
  "(string \<Rightarrow> bytes option) \<Rightarrow> (string \<Rightarrow> bytes option) \<Rightarrow> string list list \<Rightarrow> (string + (string \<Rightarrow> bytes option)) go" where
  "ReadRules_loop ParseIP rules [] = Some (Inr rules)"
| "ReadRules_loop ParseIP rules (record # records) = do {
     ip \<leftarrow> idx record 1;
     case ParseIP ip of
       None \<Rightarrow> Some (Inl ip)
     | Some parsed \<Rightarrow>
         if To4 parsed = None then Some (Inl ip)
         else do {
           name \<leftarrow> idx record 0;
           ReadRules_loop ParseIP (rules(name \<mapsto> parsed)) records
         }
   }"

definition ReadRules ::
  "(string \<Rightarrow> bytes option) \<Rightarrow> string list list \<Rightarrow> (string + (string \<Rightarrow> bytes option)) go" where
  "ReadRules ParseIP records = ReadRules_loop ParseIP (\<lambda>name. None) records"

section \<open>The client\<close>

text \<open>A round of the loop: the result of \<open>Write\<close> and of \<open>Read\<close>, which fails after a second.\<close>

datatype attempt = WriteFails | ReadFails | GotResponse bytes

datatype lookup_end = Usage | Died "dns_error option" | Retrying | Printed byte "Record list"

fun lookup_loop :: "attempt list \<Rightarrow> lookup_end" where
  "lookup_loop [] = Retrying"
| "lookup_loop (WriteFails # attempts) = Died None"
| "lookup_loop (ReadFails # attempts) = lookup_loop attempts"
| "lookup_loop (GotResponse response # attempts) =
     (case DecodeMessage (take 4096 response) of
        Inl err \<Rightarrow> Died (Some err)
      | Inr msg \<Rightarrow> Printed (ResponseCode (msg_Header msg)) (Records msg))"

text \<open>The packet that is sent in every round, if there is one, and the end of the program.\<close>

definition dns_lookup :: "string list \<Rightarrow> bool \<Rightarrow> attempt list \<Rightarrow> bytes option \<times> lookup_end" where
  "dns_lookup args dialed attempts =
     (if length args \<noteq> 2 then (None, Usage)
      else case ParseDomainName (args ! 1) of
        (domain, Inl err) \<Rightarrow> (None, Died (Some err))
      | (domain, Inr u) \<Rightarrow>
          (case Encode (QueryMessage domain RecordTypeA True) of
             Inl err \<Rightarrow> (None, Died (Some err))
           | Inr packet \<Rightarrow> if \<not> dialed then (None, Died None) else (Some packet, lookup_loop attempts)))"

section \<open>What the rules are\<close>

lemma ReadRules_loop_Inr:
  assumes "ReadRules_loop ParseIP rules0 records = Some (Inr rules)"
  shows "rules = rules0 ++ map_of (rev (map (\<lambda>r. (r ! 0, the (ParseIP (r ! 1)))) records)) \<and>
    (\<forall>r \<in> set records. 1 < length r \<and> (\<exists>ip a. ParseIP (r ! 1) = Some ip \<and> To4 ip = Some a))"
  using assms
proof (induction records arbitrary: rules0)
  case (Cons r records)
  then obtain ip where r: "1 < length r" "ParseIP (r ! 1) = Some ip" "To4 ip \<noteq> None"
    "ReadRules_loop ParseIP (rules0(r ! 0 \<mapsto> ip)) records = Some (Inr rules)"
    by (auto simp: bind_eq_Some_conv idx_def split: option.splits if_splits)
  note IH = Cons.IH [OF r(4)]
  have "rules0(r ! 0 \<mapsto> ip) = rules0 ++ [r ! 0 \<mapsto> ip]" by simp
  with IH have "rules = rules0 ++ map_of (rev (map (\<lambda>r. (r ! 0, the (ParseIP (r ! 1)))) (r # records)))"
    using r(2) by (simp add: map_add_assoc del: map_add_upd)
  then show ?case using IH r(1-3) by auto
qed simp

text \<open>The last record of a name is its rule.\<close>

lemma ReadRules_last:
  assumes "ReadRules ParseIP records = Some (Inr rules)"
    and "records = before @ [name, addr] # after" and "\<forall>r \<in> set after. r ! 0 \<noteq> name"
  obtains ip a where "ParseIP addr = Some ip" and "To4 ip = Some a" and "rules name = Some ip"
proof -
  note facts = ReadRules_loop_Inr [OF assms(1) [unfolded ReadRules_def]]
  have "[name, addr] \<in> set records" using assms(2) by simp
  then obtain ip a where ip: "ParseIP addr = Some ip" "To4 ip = Some a" using facts by fastforce
  have "map_of (rev (map (\<lambda>r. (r ! 0, the (ParseIP (r ! 1)))) after)) name = None"
    using assms(3) by (auto simp: map_of_eq_None_iff)
  then have "rules name = Some ip" using facts assms(2) ip by (simp add: map_add_def)
  with ip show ?thesis using that by blast
qed

lemma lower_char_idem [simp]: "lower_char (lower_char c) = lower_char c"
proof -
  have "\<not> in_range CHR ''A'' CHR ''Z'' (char_of (of_char c + 32 :: nat))" if "in_range CHR ''A'' CHR ''Z'' c"
    using that by (simp add: in_range_def)
  then show ?thesis by (simp add: lower_char_def)
qed

text \<open>A rule for a name with a capital letter is never used, since names are looked up in lower case.\<close>

theorem capital_rule_ignored:
  assumes "map lower_char name \<noteq> name"
  shows "answer_packet (rules(name \<mapsto> ip)) packet = answer_packet rules packet"
proof -
  have "map lower_char s \<noteq> name" for s using assms by (metis (no_types, lifting) list.map_comp list.map_cong comp_apply lower_char_idem)
  then have "RuleResponse (rules(name \<mapsto> ip)) msg = RuleResponse rules msg" for msg
    by (simp add: RuleResponse_def split: list.split)
  then show ?thesis by (simp add: answer_packet_def split: sum.split)
qed

theorem capital_rule_ignored_witness:
  "answer_packet [''A.com'' \<mapsto> [10, 0, 0, 7]] packet = answer_packet Map.empty packet"
proof -
  have "map lower_char ''A.com'' \<noteq> ''A.com''" by code_simp
  from capital_rule_ignored [OF this] show ?thesis .
qed

section \<open>A lookup\<close>

lemma lookup_loop_retries: "lookup_loop (replicate n ReadFails @ attempts) = lookup_loop attempts"
  by (induction n) simp_all

text \<open>C40: A name that the rule file has an address for, in lower case and not overruled by a later record, is looked
  up: the server answers the client's packet at once, and when that answer comes, after any number of rounds
  without one, the client prints no error and one A record with the address.\<close>

theorem dns_lookup_served:
  assumes "ParseDomainName host = (d, Inr ())" and "name = map lower_char (DomainName_String d)"
    and "ReadRules ParseIP records = Some (Inr rules)"
    and "records = before @ [name, ip_text] # after" and "\<forall>r \<in> set after. r ! 0 \<noteq> name"
  shows "\<exists>ip a q bs. ParseIP ip_text = Some ip \<and> To4 ip = Some a \<and>
    dns_lookup [prog, host] True [] = (Some q, Retrying) \<and>
    dns_step rules (Datagram q addr) s =
      s\<lparr>ds_asked := ds_asked s @ [(q, addr)], ds_log := ds_log s @ [(q, addr, Some bs)]\<rparr> \<and>
    dns_lookup [prog, host] True (replicate n ReadFails @ GotResponse bs # rest) =
      (Some q, Printed 0 [ARecord \<lparr>NameValue = d, TypeValue = RecordTypeA, ClassValue = RecordClassIN,
        TTLValue = 30, DataValue = a\<rparr>])"
proof -
  obtain ip a where ip: "ParseIP ip_text = Some ip" "To4 ip = Some a" "rules name = Some ip"
    by (rule ReadRules_last [OF assms(3-5)])
  have valid: "Validate d = Inr ()" using assms(1) by (auto simp: ParseDomainName_def Let_def)
  have query: "QueryMessage d RecordTypeA True = (QueryMessage d RecordTypeA True)\<lparr>msg_Header :=
      (msg_Header (QueryMessage d RecordTypeA True))\<lparr>Identifier := 0\<rparr>\<rparr>"
    by (simp add: QueryMessage_def)
  obtain q bs ans where q: "Encode (QueryMessage d RecordTypeA True) = Inr q"
    "dns_step rules (Datagram q addr) s =
      s\<lparr>ds_asked := ds_asked s @ [(q, addr)], ds_log := ds_log s @ [(q, addr, Some bs)]\<rparr>"
    "length bs \<le> 4096" "DecodeMessage bs = Inr ans" "ResponseCode (msg_Header ans) = 0"
    "Records ans = [ARecord \<lparr>NameValue = d, TypeValue = RecordTypeA, ClassValue = RecordClassIN,
      TTLValue = 30, DataValue = a\<rparr>]"
    using dns_query_answered [OF valid _ ip(2) query, of rules] ip(3) assms(2) by metis
  then show ?thesis using ip assms(1)
    by (intro exI [of _ ip] exI [of _ a] exI [of _ q] exI [of _ bs])
      (simp add: dns_lookup_def lookup_loop_retries)
qed

theorem dns_lookup_served_witness:
  "\<exists>q bs. dns_step [''a.com'' \<mapsto> [10, 0, 0, 7]] (Datagram q (1 :: nat)) dns_start =
      \<lparr>ds_asked = [(q, 1)], ds_forwarding = [], ds_log = [(q, 1, Some bs)]\<rparr> \<and>
    dns_lookup [''lookup'', ''A.com.''] True [ReadFails, GotResponse bs] =
      (Some q, Printed 0 [ARecord \<lparr>NameValue = [''A'', ''com''], TypeValue = RecordTypeA,
        ClassValue = RecordClassIN, TTLValue = 30, DataValue = [10, 0, 0, 7]\<rparr>])"
proof -
  let ?parse = "\<lambda>s :: string. if s = ''10.0.0.7'' then Some [10, 0, 0, 7 :: byte] else None"
  have parse: "ParseDomainName ''A.com.'' = ([''A'', ''com''], Inr ())"
    by (simp add: ParseDomainName_def Validate_def Let_def domainLabelRegexp_def is_letter_def is_alnum_def in_range_def)
  have name: "''a.com'' = map lower_char (DomainName_String [''A'', ''com''])" by code_simp
  have rules: "ReadRules ?parse [[''a.com'', ''10.0.0.7'']] = Some (Inr [''a.com'' \<mapsto> [10, 0, 0, 7]])"
    by (simp add: ReadRules_def idx_def)
  from dns_lookup_served [OF parse name rules, where before = "[]" and after = "[]" and ip_text = "''10.0.0.7''"
      and n = 1 and rest = "[]" and prog = "''lookup''" and s = dns_start and addr = "1 :: nat"]
  show ?thesis by (auto simp: dns_start_def)
qed

end
