(* ===== verification/Tunnel_Stream.thy ===== *)
theory Tunnel_Stream
  imports Stream_Mux
begin

text \<open>
  \<open>TunnelStream\<close> (\<open>tunnet/stream.go\<close>): the packet stream of a tunnel, with its reading and its writing
  goroutine and the callers of \<open>Close\<close>.  A step is one action of one of them.
\<close>

section \<open>The state\<close>

text \<open>\<open>ts_tunnel_closed\<close>: \<open>Close\<close> of the tunnel was called.  The deferred calls of the reading loop
  close \<open>incoming\<close> first and then \<open>done\<close>.  A caller of \<open>Close\<close> that has closed the tunnel waits for
  \<open>done\<close>; \<open>ts_waiting\<close> counts these and \<open>ts_closed_ok\<close> those that have returned \<open>nil\<close>.
  \<open>ts_read\<close> are the packets that \<open>ReadPacket\<close> has returned, \<open>ts_got\<close> those that the application has
  received; \<open>ts_sent\<close> what the application has put into \<open>outgoing\<close>, \<open>ts_written\<close> what was given to
  \<open>WritePacket\<close>.\<close>

datatype read_phase = Reading | ClosesIncoming | ClosesDone | ReadReturned

datatype write_phase = Writing | ClosesTunnel | WriteReturned

record tunnelStream =
  ts_incoming :: "bytes chan"
  ts_outgoing :: "bytes chan"
  ts_done :: bool
  ts_tunnel_closed :: bool
  ts_read_phase :: read_phase
  ts_write_phase :: write_phase
  ts_waiting :: nat
  ts_closed_ok :: nat
  ts_read :: "bytes list"
  ts_got :: "bytes list"
  ts_sent :: "bytes list"
  ts_written :: "bytes list"

definition TunnelStream :: "nat \<Rightarrow> nat \<Rightarrow> tunnelStream" where
  "TunnelStream readBuffer writeBuffer = \<lparr>ts_incoming = make_chan readBuffer, ts_outgoing = make_chan writeBuffer,
     ts_done = False, ts_tunnel_closed = False, ts_read_phase = Reading, ts_write_phase = Writing,
     ts_waiting = 0, ts_closed_ok = 0, ts_read = [], ts_got = [], ts_sent = [], ts_written = []\<rparr>"

section \<open>What the goroutines do\<close>

text \<open>The first half of \<open>Close\<close>: \<open>Inl\<close> is the error, \<open>Inr\<close> says that the caller waits.\<close>

definition tunnel_Close :: "tunnelStream \<Rightarrow> tunnelStream \<times> (stream_error + unit)" where
  "tunnel_Close t =
     (if ts_done t then (t, Inl AlreadyClosedErr)
      else (t\<lparr>ts_tunnel_closed := True, ts_waiting := ts_waiting t + 1\<rparr>, Inr ()))"

text \<open>One turn of \<open>readLoop\<close>: the result of \<open>ReadPacket\<close>, or a deferred call.\<close>

datatype tunnel_read = ReadOk bytes | ReadErr

definition tunnel_readLoop :: "tunnelStream \<Rightarrow> tunnel_read \<Rightarrow> tunnelStream go" where
  "tunnel_readLoop t r =
     (case ts_read_phase t of
        Reading \<Rightarrow>
          (case r of
             ReadErr \<Rightarrow> Some (t\<lparr>ts_read_phase := ClosesIncoming\<rparr>)
           | ReadOk packet \<Rightarrow> do {
               ch \<leftarrow> try_send (ts_incoming t) packet;
               Some (t\<lparr>ts_incoming := ch, ts_read := ts_read t @ [packet]\<rparr>)
             })
      | ClosesIncoming \<Rightarrow> do {
          ch \<leftarrow> close_chan (ts_incoming t);
          Some (t\<lparr>ts_incoming := ch, ts_read_phase := ClosesDone\<rparr>)
        }
      | ClosesDone \<Rightarrow>
          if ts_done t then None else Some (t\<lparr>ts_done := True, ts_read_phase := ReadReturned\<rparr>)
      | ReadReturned \<Rightarrow> Some t)"

text \<open>One turn of \<open>writeLoop\<close>, which takes a packet (if there is one) or sees \<open>done\<close> (if it is closed);
  a receive from a closed and empty \<open>outgoing\<close> is the panic of the code.\<close>

definition tunnel_writeLoop :: "tunnelStream \<Rightarrow> bool \<Rightarrow> tunnelStream go" where
  "tunnel_writeLoop t sees_done =
     (case ts_write_phase t of
        Writing \<Rightarrow>
          if sees_done then
            (if ts_done t then Some (t\<lparr>ts_write_phase := ClosesTunnel\<rparr>) else Some t)
          else
            (case c_buf (ts_outgoing t) of
               packet # packets \<Rightarrow>
                 Some (t\<lparr>ts_outgoing := (ts_outgoing t)\<lparr>c_buf := packets\<rparr>,
                   ts_written := ts_written t @ [packet]\<rparr>)
             | [] \<Rightarrow> if c_closed (ts_outgoing t) then None else Some t)
      | ClosesTunnel \<Rightarrow> Some (t\<lparr>ts_tunnel_closed := True, ts_write_phase := WriteReturned\<rparr>)
      | WriteReturned \<Rightarrow> Some t)"

section \<open>All of them together\<close>

text \<open>The application calls \<open>Close\<close>, sends while there is room, and receives; a waiting \<open>Close\<close> returns.\<close>

datatype tunnel_op =
  TunClose | TunSend bytes | TunRecv | TunCloseReturns | TunRead tunnel_read | TunWrite bool

definition tunnel_step :: "tunnelStream \<Rightarrow> tunnel_op \<Rightarrow> tunnelStream go" where
  "tunnel_step t op =
     (case op of
        TunClose \<Rightarrow> Some (fst (tunnel_Close t))
      | TunSend packet \<Rightarrow>
          let ch = ts_outgoing t
          in if length (c_buf ch) < c_cap ch
             then Some (t\<lparr>ts_outgoing := ch\<lparr>c_buf := c_buf ch @ [packet]\<rparr>, ts_sent := ts_sent t @ [packet]\<rparr>)
             else Some t
      | TunRecv \<Rightarrow>
          (case c_buf (ts_incoming t) of
             [] \<Rightarrow> Some t
           | packet # packets \<Rightarrow>
               Some (t\<lparr>ts_incoming := (ts_incoming t)\<lparr>c_buf := packets\<rparr>, ts_got := ts_got t @ [packet]\<rparr>))
      | TunCloseReturns \<Rightarrow>
          if ts_done t \<and> 0 < ts_waiting t
          then Some (t\<lparr>ts_waiting := ts_waiting t - 1, ts_closed_ok := ts_closed_ok t + 1\<rparr>)
          else Some t
      | TunRead r \<Rightarrow> tunnel_readLoop t r
      | TunWrite sees_done \<Rightarrow> tunnel_writeLoop t sees_done)"

inductive tunnel_reach :: "nat \<Rightarrow> nat \<Rightarrow> tunnelStream \<Rightarrow> bool" for rb wb where
  tunnel_start: "tunnel_reach rb wb (TunnelStream rb wb)"
| tunnel_next: "tunnel_reach rb wb t \<Longrightarrow> tunnel_step t op = Some u \<Longrightarrow> tunnel_reach rb wb u"

section \<open>The invariant\<close>

definition tunnel_inv :: "nat \<Rightarrow> nat \<Rightarrow> tunnelStream \<Rightarrow> bool" where
  "tunnel_inv rb wb t \<longleftrightarrow>
     child_inv \<lparr>ch_incoming = ts_incoming t, ch_done = False\<rparr> (ts_read t) (ts_got t) \<and>
     c_cap (ts_incoming t) = rb \<and> c_cap (ts_outgoing t) = wb \<and>
     ts_written t @ c_buf (ts_outgoing t) = ts_sent t \<and> length (c_buf (ts_outgoing t)) \<le> wb \<and>
     \<not> c_closed (ts_outgoing t) \<and>
     c_closed (ts_incoming t) = (ts_read_phase t \<in> {ClosesDone, ReadReturned}) \<and>
     ts_done t = (ts_read_phase t = ReadReturned) \<and>
     (0 < ts_waiting t + ts_closed_ok t \<longrightarrow> ts_tunnel_closed t) \<and>
     (0 < ts_closed_ok t \<longrightarrow> ts_done t) \<and>
     (ts_write_phase t \<noteq> Writing \<longrightarrow> ts_done t) \<and>
     (ts_write_phase t = WriteReturned \<longrightarrow> ts_tunnel_closed t)"

lemma tunnel_inv_start: "tunnel_inv rb wb (TunnelStream rb wb)"
  by (simp add: tunnel_inv_def TunnelStream_def make_chan_def child_inv_def)

lemma readLoop_inv:
  assumes "tunnel_inv rb wb t"
  shows "\<exists>u. tunnel_readLoop t r = Some u \<and> tunnel_inv rb wb u"
proof (cases "ts_read_phase t")
  case Reading
  show ?thesis
  proof (cases r)
    case (ReadOk packet)
    let ?c = "\<lparr>ch_incoming = ts_incoming t, ch_done = False\<rparr>"
    have "child_inv (offered_copy packet ?c) (ts_read t @ [packet]) (ts_got t)"
      using assms by (intro child_inv_offered) (simp add: tunnel_inv_def)
    then show ?thesis using assms Reading ReadOk
      by (auto simp: tunnel_inv_def tunnel_readLoop_def try_send_def offered_copy_def split: if_splits)
  qed (use assms Reading in \<open>auto simp: tunnel_inv_def tunnel_readLoop_def\<close>)
qed (use assms in \<open>auto simp: tunnel_inv_def tunnel_readLoop_def close_chan_def child_inv_def Let_def\<close>)

lemma writeLoop_inv:
  assumes "tunnel_inv rb wb t"
  shows "\<exists>u. tunnel_writeLoop t sees_done = Some u \<and> tunnel_inv rb wb u"
  using assms
  by (cases "ts_write_phase t"; cases "c_buf (ts_outgoing t)")
    (auto simp: tunnel_writeLoop_def tunnel_inv_def)

lemma tunnel_step_inv:
  assumes "tunnel_inv rb wb t"
  shows "\<exists>u. tunnel_step t op = Some u \<and> tunnel_inv rb wb u"
proof (cases op)
  case TunRecv
  let ?c = "\<lparr>ch_incoming = ts_incoming t, ch_done = False\<rparr>"
  show ?thesis
  proof (cases "c_buf (ts_incoming t)")
    case (Cons p ps)
    have "child_inv (?c\<lparr>ch_incoming := (ch_incoming ?c)\<lparr>c_buf := ps\<rparr>\<rparr>) (ts_read t) (ts_got t @ [p])"
      using assms Cons by (intro child_inv_recv) (simp_all add: tunnel_inv_def)
    then show ?thesis using assms TunRecv Cons by (auto simp: tunnel_step_def tunnel_inv_def)
  qed (use assms TunRecv in \<open>simp add: tunnel_step_def\<close>)
next
  case (TunRead r)
  then show ?thesis using readLoop_inv [OF assms] by (simp add: tunnel_step_def)
next
  case (TunWrite b)
  then show ?thesis using writeLoop_inv [OF assms] by (simp add: tunnel_step_def)
qed (use assms in \<open>auto simp: tunnel_step_def tunnel_inv_def tunnel_Close_def Let_def\<close>)

lemma tunnel_reach_inv: "tunnel_reach rb wb t \<Longrightarrow> tunnel_inv rb wb t"
proof (induction rule: tunnel_reach.induct)
  case (tunnel_next t op u)
  then show ?case using tunnel_step_inv [of rb wb t op] by auto
qed (rule tunnel_inv_start)

section \<open>Properties\<close>

text \<open>C29: The stream of a tunnel: no goroutine ever panics (as long as nobody closes \<open>Outgoing\<close>); the
  application receives packets that the tunnel has read, in order, and all of them while the
  buffer has room; the tunnel is given what the application sent, in order and without loss; and
  when a \<open>Close\<close> has returned \<open>nil\<close>, the tunnel, \<open>Incoming\<close> and \<open>Done\<close> are closed.\<close>

theorem tunnel_stream_correct:
  assumes "tunnel_reach rb wb t"
  shows "tunnel_step t op \<noteq> None \<and>
    subseq (ts_got t @ c_buf (ts_incoming t)) (ts_read t) \<and>
    (length (ts_read t) \<le> rb \<longrightarrow> ts_got t @ c_buf (ts_incoming t) = ts_read t) \<and>
    ts_written t @ c_buf (ts_outgoing t) = ts_sent t \<and>
    (ts_done t \<longrightarrow> c_closed (ts_incoming t)) \<and>
    (0 < ts_closed_ok t \<longrightarrow> ts_tunnel_closed t \<and> ts_done t)"
proof -
  have inv: "tunnel_inv rb wb t" using assms by (rule tunnel_reach_inv)
  moreover have "tunnel_step t op \<noteq> None" using tunnel_step_inv [OF inv, of op] by auto
  ultimately show ?thesis by (auto simp: tunnel_inv_def child_inv_def Let_def)
qed

fun tunnel_run :: "tunnelStream \<Rightarrow> tunnel_op list \<Rightarrow> tunnelStream go" where
  "tunnel_run t [] = Some t"
| "tunnel_run t (op # ops) = do { t \<leftarrow> tunnel_step t op; tunnel_run t ops }"

lemma tunnel_run_reach: "tunnel_reach rb wb t \<Longrightarrow> tunnel_run t ops = Some u \<Longrightarrow> tunnel_reach rb wb u"
  by (induction ops arbitrary: t) (auto simp: bind_eq_Some_conv intro: tunnel_next)

text \<open>A packet is read, one is written, and the stream is closed; the read fails after that.\<close>

definition tunnel_session :: "tunnel_op list" where
  "tunnel_session = [TunRead (ReadOk [1, 2]), TunSend [3], TunWrite False, TunClose, TunRead ReadErr, TunRead ReadErr,
     TunRead ReadErr, TunCloseReturns, TunWrite True]"

theorem tunnel_stream_correct_witness:
  "\<exists>t. tunnel_run (TunnelStream 2 1) tunnel_session = Some t \<and> ts_closed_ok t = 1 \<and> ts_tunnel_closed t \<and>
     ts_written t = [[3]] \<and> ts_got t @ c_buf (ts_incoming t) = [[1, 2]]"
proof -
  obtain t where t: "tunnel_run (TunnelStream 2 1) tunnel_session = Some t" "ts_closed_ok t = 1"
    "ts_read t = [[1, 2]]" "ts_sent t = [[3]]" "c_buf (ts_outgoing t) = []"
    by (simp add: tunnel_session_def TunnelStream_def make_chan_def tunnel_step_def tunnel_readLoop_def try_send_def
        tunnel_writeLoop_def tunnel_Close_def close_chan_def)
  have "tunnel_reach 2 1 t" using tunnel_start t(1) by (rule tunnel_run_reach)
  from tunnel_stream_correct [OF this, of TunClose] t show ?thesis by auto
qed

text \<open>A \<open>Close\<close> that has closed the tunnel returns as soon as a \<open>ReadPacket\<close> fails, which \<open>operate\<close> makes
  every further call of it do; the stream is done, and the writing goroutine ends too.\<close>

theorem tunnel_close_returns:
  assumes "tunnel_reach rb wb t" and "0 < ts_waiting t"
  shows "\<exists>u. tunnel_run t [TunRead ReadErr, TunRead ReadErr, TunRead ReadErr, TunCloseReturns, TunWrite True,
      TunWrite True] = Some u \<and>
    ts_done u \<and> ts_waiting u = ts_waiting t - 1 \<and> ts_closed_ok u = ts_closed_ok t + 1 \<and>
    ts_read_phase u = ReadReturned \<and> ts_write_phase u = WriteReturned"
proof -
  have inv: "tunnel_inv rb wb t" using assms(1) by (rule tunnel_reach_inv)
  show ?thesis using inv assms(2)
    by (cases "ts_read_phase t"; cases "ts_write_phase t")
      (simp_all add: tunnel_inv_def tunnel_step_def tunnel_readLoop_def tunnel_writeLoop_def close_chan_def)
qed

theorem tunnel_close_returns_witness:
  "\<exists>t u. tunnel_run (TunnelStream 2 1) [TunClose] = Some t \<and>
     tunnel_run t [TunRead ReadErr, TunRead ReadErr, TunRead ReadErr, TunCloseReturns, TunWrite True, TunWrite True] = Some u \<and>
     ts_closed_ok u = 1"
proof -
  obtain t where t: "tunnel_run (TunnelStream 2 1) [TunClose] = Some t" "ts_waiting t = 1" "ts_closed_ok t = 0"
    by (simp add: TunnelStream_def tunnel_step_def tunnel_Close_def)
  have "tunnel_reach 2 1 t" using tunnel_start t(1) by (rule tunnel_run_reach)
  from tunnel_close_returns [OF this] t show ?thesis by auto
qed

end
