(* ===== verification/Spec2Isabelle.thy ===== *)
theory Spec2Isabelle
  imports Demo_UDP Demo_TCP DNS_Lookup Stream_Pump Net_Helpers TCP_Listen Tunnel_Stream
begin

text \<open>
  A model of \<open>learnet\<close>, a network stack in Go that runs in user space, and what makes it correct.

  \<^bold>\<open>The program.\<close>  A tunnel device (\<open>tunnet\<close>) gives IP packets to a process and takes them back.  Over it
  \<open>ipstack\<close> builds streams of packets, each with a channel in and a channel out: filters for validity and
  checksums, fragmentation and reassembly, a multiplexer that copies every packet to its children, and on
  children of it a ping responder, UDP and TCP networks whose connections look like those of Go's
  \<open>net\<close>.  \<open>dnsproto\<close> encodes and decodes DNS messages on its own.  \<open>examples/setup.go\<close> puts
  the stack together; the demos are a DNS server and its client, and echo servers for UDP and TCP.

  \<^bold>\<open>How Go is modelled.\<close>  \<open>Go_Prelude\<close>: a byte slice is a list of \<open>8 word\<close>, integers of a fixed width are
  words, \<open>int\<close> is \<open>int\<close> or \<open>nat\<close>.  The type \<open>'a go\<close> is \<open>'a option\<close>, and \<open>None\<close> is a panic (an index out of range,
  a closed channel closed again) or, for the loops that may not end (\<open>partial_function (option)\<close>), a call
  that does not return.  An error that the code returns is the \<open>Inl\<close> of a sum.  A struct is a record, a method with a
  pointer receiver returns the record changed.  A goroutine is a step of a relation or of a step function on
  the state that it shares; properties hold in every reachable state, so for every interleaving.  What a lock
  protects is one step.  Third-party code is a parameter: \<open>minInt\<close>, \<open>orderedDelete\<close>, \<open>unorderedDelete\<close> of \<open>essentials\<close>
  with \<open>min_int_spec\<close>, \<open>ordered_delete_spec\<close>, \<open>unordered_delete_spec\<close>, and the kernel below; the texts that
  \<open>AddCtx\<close> puts in front of errors are left out.

  \<^bold>\<open>IP\<close> (\<open>ipstack/checksum.go\<close>, \<open>ip.go\<close>, \<open>ip_frag.go\<close>, \<open>icmp.go\<close>).  \<open>Checksum\<close>: \<open>InternetChecksum\<close> with its accumulator, against
  the sum of RFC 1071; the locale \<open>checksummed\<close> is what every packet type with a checksum field promises, and its
  interpretations \<open>ip\<close>, \<open>tcp\<close>, \<open>udp\<close>, \<open>icmp\<close> give each the same facts: what was set is accepted, and no single byte
  changes unnoticed.  \<open>IPv4\<close>: the methods of \<open>IPv4Packet\<close>, \<open>NewIPv4Packet\<close>, the filters and the identifiers.
  \<open>IP_Frag\<close>: \<open>fragments\<close>, the reconstructions and the defragmenter; a packet is restored from its fragments in any order, and
  every fragment is valid.  \<open>IP_Stack\<close>: the goroutine \<open>forwardLoop\<close>, the defragmenter among packets of many senders, and
  the composition of identifiers, fragmenter, network and defragmenter.  \<open>ICMP\<close>: the packets and the ping responder.

  \<^bold>\<open>TCP\<close> (\<open>tcp.go\<close>, \<open>tcp_recv.go\<close>, \<open>tcp_send.go\<close>, \<open>tcp_negotiate.go\<close>, \<open>net_tcp.go\<close>).  \<open>TCP_Segment\<close>, \<open>TCP_Header\<close>: segments, headers with
  their options, and packets, over what \<open>Transport\<close> shares with UDP.  \<open>TCP_Recv\<close>: assembler, buffer (the locale
  \<open>byte_queue\<close>, interpreted as \<open>rb\<close>) and receiver; the invariant says that the application has read a prefix of the
  peer's stream.  \<open>TCP_Send\<close>: write buffer, timer and sender; every segment is a slice of what was
  written, in the memory of the caller, who may change it.
  \<open>TCP_Conn\<close>: the connection and two of them over a network that loses, repeats and reorders packets, with the memory of the
  programs at both ends, refined to an abstract pair of reliable byte streams.  \<open>TCP_Deliver\<close>: the executions in which a write or a close gets through with one exchange of
  packets, and the properties of the connection.
  \<open>TCP_Listen\<close>: the handshake with its ten tries, the listener's rounds, the network and its ports.

  \<^bold>\<open>UDP\<close> (\<open>udp.go\<close>, \<open>net_udp.go\<close>, \<open>ports.go\<close>).  \<open>UDP\<close>: headers, packets, filters.  \<open>Ports\<close>: the interface \<open>PortAllocator\<close> as the
  locale \<open>port_allocator\<close>, interpreted on \<open>basicPortAllocator\<close> as \<open>ports\<close>.  \<open>UDP_Net\<close>: the network over the multiplexer and
  the allocator, its connections, and the goroutines that free ports.

  \<^bold>\<open>Streams\<close> (\<open>stream.go\<close>, \<open>chan_util.go\<close>, \<open>filters.go\<close>, \<open>net_helpers.go\<close>).  \<open>Stream_Mux\<close>: the multiplexer and its children on a
  heap of streams, with every interleaving of its reading loop, forks and closes.  \<open>Mux_Client\<close>: what the networks rely on of it as
  the locale \<open>multi_stream\<close>, interpreted as \<open>mux\<close>.  \<open>Stream_Pump\<close>: \<open>forwardPackets\<close>, \<open>mergeDones\<close>, \<open>filterChan\<close>, pipes, \<open>Send\<close>, \<open>Loopback\<close>.
  \<open>Net_Helpers\<close>: deadlines and packet connections.

  \<^bold>\<open>DNS\<close> (\<open>dnsproto/*.go\<close>).  \<open>DNS_Name\<close>, \<open>DNS_Wire\<close> (writer, reader, compressed names against the inductive format \<open>name_at\<close>), \<open>DNS_Message\<close>,
  and \<open>DNS_Codec\<close>, whose locale \<open>codec\<close> is the contract of a decoder with its encoder that the loops of \<open>DecodeMessage\<close> need;
  it is interpreted for questions and records and gives the round trip of messages, whole or cut off.
  \<open>DNS_Decoded\<close>: every message that is accepted, from any bytes, is well-typed and can be encoded again, cut off or not.  \<open>DNS_Server\<close>: the example server.
  \<open>DNS_Lookup\<close>: its rule file and the client \<open>examples/dns_lookup\<close>, which gets from the server the address that the file names.

  \<^bold>\<open>Tunnels\<close> (\<open>tunnet/*.go\<close>).  \<open>Tunnel_Wire\<close>: socket addresses and routing messages.  \<open>Tunnel_FD\<close>: the descriptor that overlapping calls share, closed
  by the last one.  \<open>Tunnel_Sys\<close>: every operation on Linux and Darwin as a sequence of system calls of a kernel that is a
  parameter.  \<open>Tunnel_Calls\<close>: what follows from what a kernel documents (\<open>kernel_fds\<close>: descriptors; \<open>kernel_names\<close>, \<open>kernel_mtu\<close>,
  \<open>kernel_addrs\<close>, \<open>kernel_answers\<close>: the requests), with a small kernel in which all of that holds; the interface \<open>Tunnel\<close> is a record of its methods, its contract
  the locale \<open>packet_tunnel\<close>, interpreted on the tunnels of both systems; and what each call does to the process: its
  descriptors, its panics, when it does not return.  \<open>Tunnel_Stream\<close>: \<open>TunnelStream\<close> with its goroutines.

  \<^bold>\<open>The whole\<close> (\<open>examples/*\<close>).  \<open>Demo_Stack\<close>: opening and configuring the tunnel, and the filters in the order of \<open>SetupTunnel\<close>.  Two
  such stacks deliver every packet exactly once over a network that reorders fragments and adds damaged ones, and the
  demo answers pings through all of it.  \<open>Demo_UDP\<close>: the echo server of \<open>examples/udp_server\<close> answers a datagram through both stacks and UDP
  networks.  \<open>Demo_TCP\<close>: \<open>examples/tcp_echo\<close> from its listener and the handshake to the handler, a program with a program counter that is
  interleaved with every step of the two connections and the network; what comes back is a prefix of what the client sent.

  \<^bold>\<open>Bounds.\<close>  Sequence numbers wrap at \<open>2 ^ 32\<close>; streams are shorter than \<open>2 ^ 31\<close> bytes, so that comparisons modulo
  \<open>2 ^ 32\<close> are those of positions.  Up to 65536 packets have different identifications.  The handshake makes ten tries, as
  the code does, so that its recursion needs no other fuel; \<open>readDomain\<close> ends because a pointer leads into the part before it.
  The loops that may not end are those of blocking reads and writes, \<open>AllocAny\<close> and \<open>ReadPacket\<close>; that they do end is a
  theorem where it holds, and \<open>read_packet_outcomes\<close> has a case where it does not.

  \<^bold>\<open>Not modelled.\<close>  \<open>examples/http_server\<close> and \<open>examples/ping_responder\<close> only call \<open>net/http\<close> and \<open>examples/setup.go\<close>.  In the demos
  \<open>encoding/csv\<close>, \<open>net.ParseIP\<close> and the sockets of the system are parameters or given call by call, and what is printed to a console is left out.
  \<open>utun_other.go\<close> and \<open>route_other.go\<close> only return errors.  \<open>String\<close> methods, getters of fields and the texts of errors are left out.
  An unbuffered or full channel of \<open>Accept\<close> makes the listener wait, which its model does not; the multiplexer of \<open>Demo_Stack\<close> copies
  each packet at once, its interleaved steps are those of \<open>Stream_Mux\<close>.  Time is a number that the
  environment advances; how long a step takes is not modelled, so liveness says that the right steps suffice.
  Memory that Go shares between slices is modelled where it can be changed behind somebody's back: the TCP sender keeps the
  slice of the caller of \<open>Write\<close>, also in segments that it repeats later, so its buffer and segments have cells (\<open>TCP_Segment\<close>),
  \<open>Write\<close>, \<open>Read\<close> and stores of the program work on a memory, and the bytes of a segment are those in memory when its packet is
  built.  The connections of \<open>TCP_Conn\<close> leave the cells alone that \<open>Write\<close> has got until they are acknowledged, as a caller does who
  waits for \<open>Write\<close>; what goes wrong otherwise is \<open>slice_outlives_write\<close>.  Elsewhere slices are lists of bytes: the multiplexer copies packets for its
  children, and where a packet is changed in place the function returns the changed one and its caller uses no other.
\<close>

end
